(* ===== verification/Prelude.thy ===== *)
theory Prelude
  imports Main "HOL-Library.Word"
begin

unbundle bit_operations_syntax

text \<open>
  Shared vocabulary of the development: the machine types of the C sources, the big-endian
  byte representation CBOR uses, C strings, the undefined-behaviour faults a C function may
  run into, and the generic list and word lemmas that the component theories use.
\<close>

section \<open>Machine types\<close>

type_synonym u8 = "8 word"
type_synonym u16 = "16 word"
type_synonym u32 = "32 word"
type_synonym u64 = "64 word"
type_synonym bytes = "u8 list"

text \<open>
  A fault stands for behaviour that the C standard leaves undefined. A model function that can
  reach it returns it as the left side of a sum, so that a caller cannot go on from it.
\<close>

datatype c_fault =
    OutOfBoundsRead
  | OutOfBoundsWrite
  | IntegerOverflow
  | ConversionOverflow
  | NullDereference
  | WrongUnionMember

named_theorems bytes_simps \<open>rewriting of byte strings and lengths\<close>
named_theorems writes_intros \<open>encoders and the bytes they append\<close>
named_theorems exact_intros \<open>encoders that succeed only if the bytes fit\<close>

section \<open>Generic lemmas\<close>

lemma fst_snd_pairI: "fst p = a \<Longrightarrow> snd p = b \<Longrightarrow> p = (a, b)"
  by (cases p) simp

lemma sum_list_map_concat_length: "length (concat xss) = sum_list (map length xss)"
  by (simp add: length_concat)

lemma sum_list_update_nat:
  fixes f :: "'a \<Rightarrow> nat"
  assumes "i < length xs"
  shows "sum_list (map f (xs[i := y])) + f (xs ! i) = sum_list (map f xs) + f y"
  using assms
proof (induction xs arbitrary: i)
  case Nil
  then show ?case by simp
next
  case (Cons x xs)
  then show ?case by (cases i) (auto simp: algebra_simps)
qed

lemma sum_list_bound_nat:
  fixes f :: "'a \<Rightarrow> nat"
  assumes "\<And>x. x \<in> set xs \<Longrightarrow> f x \<le> b"
  shows "sum_list (map f xs) \<le> length xs * b"
  using assms by (induction xs) (auto simp: add_mono)

lemma length_tl_dropWhile: "xs \<noteq> [] \<Longrightarrow> length (tl (dropWhile P xs)) < length xs"
proof -
  assume "xs \<noteq> []"
  then have "0 < length xs" by simp
  then show ?thesis using length_dropWhile_le[of P xs] unfolding length_tl by linarith
qed

section \<open>Big-endian bytes\<close>

text \<open>
  \<open>be_bytes n w\<close> are the \<open>n\<close> low bytes of \<open>w\<close>, most significant first, which is the order in
  which zcbor writes them on a little-endian machine; \<open>be_word\<close> reads them back.
\<close>

primrec be_bytes :: "nat \<Rightarrow> u64 \<Rightarrow> bytes" where
  "be_bytes 0 w = []"
| "be_bytes (Suc n) w = ucast (drop_bit (8 * n) w) # be_bytes n w"

definition be_word :: "bytes \<Rightarrow> u64" where
  "be_word bs = foldl (\<lambda>w b. w * 256 + ucast b) 0 bs"

lemma length_be_bytes [simp, bytes_simps]: "length (be_bytes n w) = n"
  by (induction n) auto

lemma foldl_be_word:
  "foldl (\<lambda>w b. w * 256 + ucast b) (a :: u64) (bs :: bytes) = a * 256 ^ length bs + be_word bs"
proof (induction bs arbitrary: a)
  case Nil
  then show ?case by (simp add: be_word_def)
next
  case (Cons b bs)
  have "foldl (\<lambda>w b. w * 256 + ucast b) a (b # bs)
      = (a * 256 + ucast b) * 256 ^ length bs + be_word bs"
    using Cons.IH[of "a * 256 + ucast b"] by simp
  moreover have "be_word (b # bs) = ucast b * 256 ^ length bs + be_word bs"
    using Cons.IH[of "ucast b"] by (simp add: be_word_def)
  ultimately show ?case by (simp add: algebra_simps)
qed

lemma be_word_Nil [simp]: "be_word [] = 0"
  by (simp add: be_word_def)

lemma be_word_Cons: "be_word (b # bs) = ucast b * 256 ^ length bs + be_word bs"
  using foldl_be_word[of "ucast b" bs] by (simp add: be_word_def)

lemma power_256: "(256 :: u64) ^ n = 2 ^ (8 * n)"
  by (simp add: power_mult)

lemma take_bit_split:
  "push_bit k (take_bit 8 (drop_bit k w)) + take_bit k w = take_bit (k + 8) (w :: u64)"
proof -
  have disj: "push_bit k (take_bit 8 (drop_bit k w)) AND take_bit k w = 0"
    by (rule bit_eqI) (auto simp: bit_simps)
  have "push_bit k (take_bit 8 (drop_bit k w)) + take_bit k w
      = push_bit k (take_bit 8 (drop_bit k w)) OR take_bit k w"
    using disj by (simp add: disjunctive_add_eq_or)
  also have "\<dots> = take_bit (k + 8) w"
    by (rule bit_eqI) (auto simp: bit_simps)
  finally show ?thesis .
qed

lemma ucast_byte: "(ucast (ucast (w :: u64) :: u8) :: u64) = take_bit 8 w"
  by (rule bit_eqI) (auto simp: bit_simps)

lemma be_word_be_bytes: "be_word (be_bytes n w) = take_bit (8 * n) w"
proof (induction n)
  case 0
  then show ?case by simp
next
  case (Suc n)
  have "be_word (be_bytes (Suc n) w)
      = push_bit (8 * n) (take_bit 8 (drop_bit (8 * n) w)) + take_bit (8 * n) w"
    by (simp only: be_bytes.simps be_word_Cons Suc.IH length_be_bytes ucast_byte power_256)
       (simp add: push_bit_eq_mult)
  also have "\<dots> = take_bit (8 * n + 8) w"
    by (rule take_bit_split)
  finally show ?case by (simp add: algebra_simps)
qed

lemma take_bit_u64_id: "unat w < 2 ^ k \<Longrightarrow> take_bit k (w :: u64) = w"
  by (metis take_bit_nat_eq_self unsigned_take_bit_eq word_unat_eq_iff)

lemma sint_u64: "sint (w :: u64) = (if uint w < 2 ^ 63 then uint w else uint w - 2 ^ 64)"
proof (cases "uint w < 2 ^ 63")
  case True
  then show ?thesis by (simp add: sint_uint signed_take_bit_eq_if_positive bit_iff_odd take_bit_int_eq_self)
next
  case False
  have "uint w div 2 ^ 63 = 1"
    using False uint_bounded[of w] by (intro int_div_pos_eq[of _ _ _ "uint w - 2 ^ 63"]) simp_all
  then have "bit (uint w) 63" by (simp add: bit_iff_odd)
  then show ?thesis using False uint_bounded[of w]
    by (simp add: sint_uint signed_take_bit_eq_take_bit_minus take_bit_int_eq_self)
qed

lemma take_bit_64 [simp]: "take_bit 64 (w :: u64) = w"
  by (intro bit_word_eqI) (auto simp: bit_simps)

lemma take_bit_32_ucast [simp]: "take_bit 32 (ucast (v :: u32) :: u64) = ucast v"
  by (intro bit_word_eqI) (auto simp: bit_simps dest: bit_imp_le_length)

lemma take_bit_8_ucast [simp]: "take_bit 8 (ucast (v :: u8) :: u64) = ucast v"
  by (intro bit_word_eqI) (auto simp: bit_simps dest: bit_imp_le_length)

lemma ucast_ucast_u8 [simp]: "(ucast (ucast (v :: u8) :: u64) :: u8) = v"
  by (intro bit_word_eqI) (auto simp: bit_simps)

lemma unat_ucast_u8 [simp]: "unat (ucast (v :: u8) :: u64) = unat v"
proof -
  have "unat v < 2 ^ 64" using unsigned_less[where 'a = nat, of v] by simp
  then show ?thesis by (simp add: unsigned_ucast_eq take_bit_nat_eq_self)
qed

lemma bit_u32_31: "bit (v :: u32) n \<Longrightarrow> 31 \<le> n \<Longrightarrow> n = 31"
  using bit_imp_le_length[of v n] by simp

lemma nat_31: "31 \<le> n \<Longrightarrow> n < 32 \<Longrightarrow> n = (31 :: nat)"
  by simp

lemma unat_dec: "w \<noteq> 0 \<Longrightarrow> unat (w - 1 :: u64) = unat w - 1"
  by (simp add: unat_eq_0 unat_minus_one)

end
