(* ===== verification/Sid_Map.thy ===== *)
theory Sid_Map
  imports Prelude
begin

text \<open>
  The interface of a map from SIDs to values as the datastore operations use it: insertion that
  may refuse (result -1) and leaves the map alone then, deletion that reports whether the key was
  there, lookup, and the enumeration of the objects. The lemmas proved here once are what GET,
  iPATCH, DELETE and the decoder rest on; \<open>Coreconf_Types\<close> interprets the locale on the chained
  hash map of the code.
\<close>

locale sid_map =
  fixes emp :: 'm
    and ins :: "'m \<Rightarrow> u64 \<Rightarrow> 'v \<Rightarrow> int \<times> 'm"
    and del :: "'m \<Rightarrow> u64 \<Rightarrow> int \<times> 'm"
    and lkp :: "'m \<Rightarrow> u64 \<Rightarrow> 'v option"
    and objs :: "'m \<Rightarrow> (u64 \<times> 'v) list"
    and inv :: "'m \<Rightarrow> bool"
    and room :: nat
  assumes inv_emp: "inv emp"
    and lkp_emp: "lkp emp = Map.empty"
    and inv_ins: "inv m \<Longrightarrow> inv (snd (ins m k v))"
    and ins_result: "fst (ins m k v) = 0 \<or> fst (ins m k v) = -1"
    and lkp_ins: "inv m \<Longrightarrow> fst (ins m k v) = 0 \<Longrightarrow> lkp (snd (ins m k v)) = (lkp m)(k \<mapsto> v)"
    and ins_fail: "fst (ins m k v) \<noteq> 0 \<Longrightarrow> snd (ins m k v) = m"
    and ins_room: "inv m \<Longrightarrow> length (objs m) \<le> room \<Longrightarrow> fst (ins m k v) = 0"
    and inv_del: "inv m \<Longrightarrow> inv (snd (del m k))"
    and lkp_del: "inv m \<Longrightarrow> lkp (snd (del m k)) = (lkp m)(k := None)"
    and del_result: "inv m \<Longrightarrow> fst (del m k) = (if lkp m k = None then -1 else 0)"
    and objs_lkp: "inv m \<Longrightarrow> map_of (objs m) = lkp m"
    and objs_distinct: "inv m \<Longrightarrow> distinct (map fst (objs m))"
begin

lemma dom_lkp: "inv m \<Longrightarrow> dom (lkp m) = fst ` set (objs m)"
  by (simp add: dom_map_of_conv_image_fst flip: objs_lkp)

lemma finite_dom_lkp: "inv m \<Longrightarrow> finite (dom (lkp m))"
  by (simp add: dom_lkp)

lemma length_objs: "inv m \<Longrightarrow> length (objs m) = card (dom (lkp m))"
  using distinct_card[OF objs_distinct] by (simp add: dom_lkp)

lemma objs_lookup: "inv m \<Longrightarrow> (k, v) \<in> set (objs m) \<longleftrightarrow> lkp m k = Some v"
  by (simp add: objs_distinct flip: objs_lkp)

lemma objs_emp: "objs emp = []"
  using length_objs[OF inv_emp] by (simp add: lkp_emp)

lemma lkp_ins_room:
  assumes "inv m" and "card (dom (lkp m)) \<le> room"
  shows "lkp (snd (ins m k v)) = (lkp m)(k \<mapsto> v)"
  using assms by (simp add: lkp_ins ins_room length_objs)

lemma lkp_ins_le: "inv m \<Longrightarrow> dom (lkp (snd (ins m k v))) \<subseteq> insert k (dom (lkp m))"
  using ins_fail[of m k v] lkp_ins[of m k v] by (cases "fst (ins m k v) = 0") auto

text \<open>Deleting a list of keys: what is left, and how many deletions reported success.\<close>

fun del_all :: "'m \<Rightarrow> u64 list \<Rightarrow> nat \<times> 'm" where
  "del_all m [] = (0, m)"
| "del_all m (k # ks) =
     (let (r, m') = del m k; (n, m'') = del_all m' ks in (if r = 0 then Suc n else n, m''))"

lemma del_all_spec:
  assumes "inv m"
  shows "inv (snd (del_all m ks))"
    and "lkp (snd (del_all m ks)) = lkp m |` (- set ks)"
    and "fst (del_all m ks) = card (set ks \<inter> dom (lkp m))"
proof -
  have "inv (snd (del_all m ks)) \<and> lkp (snd (del_all m ks)) = lkp m |` (- set ks) \<and>
        fst (del_all m ks) = card (set ks \<inter> dom (lkp m))"
    using assms
  proof (induction ks arbitrary: m)
    case Nil
    then show ?case by (auto simp: restrict_map_def)
  next
    case (Cons k ks)
    let ?m = "snd (del m k)"
    note IH = Cons.IH[OF inv_del[OF Cons.prems, of k]]
    have lk: "lkp ?m = (lkp m)(k := None)"
      by (rule lkp_del[OF Cons.prems])
    have dm: "dom (lkp ?m) = dom (lkp m) - {k}"
      by (simp add: lk)
    have n: "fst (del_all ?m ks) = card (set ks \<inter> (dom (lkp m) - {k}))"
      using IH unfolding dm by blast
    have count: "fst (del_all m (k # ks)) =
        (if lkp m k = None then 0 else 1) + card (set ks \<inter> (dom (lkp m) - {k}))"
      using n del_result[OF Cons.prems, of k] by (simp add: Let_def split_beta)
    have "set (k # ks) \<inter> dom (lkp m) =
        (if lkp m k = None then {} else {k}) \<union> (set ks \<inter> (dom (lkp m) - {k}))"
      by auto
    then have "fst (del_all m (k # ks)) = card (set (k # ks) \<inter> dom (lkp m))"
      using count by auto
    moreover have "lkp (snd (del_all m (k # ks))) = lkp m |` (- set (k # ks))"
      using IH by (auto simp: Let_def split_beta lk restrict_map_def fun_eq_iff)
    ultimately show ?case
      using IH by (simp add: Let_def split_beta)
  qed
  then show "inv (snd (del_all m ks))"
    and "lkp (snd (del_all m ks)) = lkp m |` (- set ks)"
    and "fst (del_all m ks) = card (set ks \<inter> dom (lkp m))"
    by blast+
qed

text \<open>
  Applying a list of edits, \<open>None\<close> for a deletion: as long as the map cannot fill up, every edit
  takes effect, in order.
\<close>

fun edit_all :: "'m \<Rightarrow> (u64 \<times> 'v option) list \<Rightarrow> 'm" where
  "edit_all m [] = m"
| "edit_all m ((k, None) # es) = edit_all (snd (del m k)) es"
| "edit_all m ((k, Some v) # es) = edit_all (snd (ins m k v)) es"

lemma inv_edit_all: "inv m \<Longrightarrow> inv (edit_all m es)"
  by (induction m es rule: edit_all.induct) (simp_all add: inv_del inv_ins)

lemma card_dom_ins: "inv m \<Longrightarrow> card (dom (lkp (snd (ins m k v)))) \<le> Suc (card (dom (lkp m)))"
  using card_mono[OF _ lkp_ins_le[of m k v]] card_insert_le_m1[of "Suc (card (dom (lkp m)))" "dom (lkp m)" k]
  by (auto simp: finite_dom_lkp intro: order_trans)

lemma card_dom_del: "inv m \<Longrightarrow> card (dom (lkp (snd (del m k)))) \<le> card (dom (lkp m))"
  by (simp add: lkp_del finite_dom_lkp card_mono)

lemma lkp_edit_all:
  assumes "inv m" and "card (dom (lkp m)) + length es \<le> Suc room"
  shows "lkp (edit_all m es) = fold (\<lambda>(k, e) f. f(k := e)) es (lkp m)"
  using assms
proof (induction m es rule: edit_all.induct)
  case (1 m)
  then show ?case by simp
next
  case (2 m k es)
  have "card (dom (lkp (snd (del m k)))) + length es \<le> Suc room"
    using card_dom_del[OF 2(2), of k] 2(3) by simp
  then have "lkp (edit_all (snd (del m k)) es) =
      fold (\<lambda>(k, e) f. f(k := e)) es (lkp (snd (del m k)))"
    by (rule 2(1)[OF inv_del[OF 2(2)]])
  then show ?case by (simp only: lkp_del[OF 2(2)] edit_all.simps fold_simps prod.case)
next
  case (3 m k v es)
  have "card (dom (lkp (snd (ins m k v)))) + length es \<le> Suc room"
    using card_dom_ins[OF 3(2), of k v] 3(3) by simp
  then have "lkp (edit_all (snd (ins m k v)) es) =
      fold (\<lambda>(k, e) f. f(k := e)) es (lkp (snd (ins m k v)))"
    by (rule 3(1)[OF inv_ins[OF 3(2)]])
  moreover have "lkp (snd (ins m k v)) = (lkp m)(k \<mapsto> v)"
    by (rule lkp_ins_room[OF 3(2)]) (use 3(3) in simp)
  ultimately show ?case by (simp only: edit_all.simps fold_simps prod.case)
qed

end

end
