(* ===== verification/Coreconf_Types.thy ===== *)
theory Coreconf_Types
  imports Sid_Map
begin

text \<open>
  The value model of \<open>src/src/coreconfTypes.c\<close>: tagged CORECONF values, the 100-bucket chained
  hash map from SIDs to values, and arrays. A linked chain of \<open>CoreconfObjectT\<close> nodes is the list
  of its (key, value) pairs from the head on; the tagged union is a datatype with one constructor
  per \<open>coreconf_type\<close>. Allocation is taken to succeed, so a stored value pointer is never NULL, and
  releasing memory (\<open>freeCoreconf\<close>) has no counterpart. A double is its 64-bit IEEE-754 pattern.
  The theory ends with the interface \<open>sid_map\<close> that the operations on datastores rely on and its
  interpretation on this hash map.
\<close>

section \<open>Data\<close>

definition HASHMAP_TABLE_SIZE :: nat where
  "HASHMAP_TABLE_SIZE = 100"

definition CORECONF_MAX_DEPTH :: nat where
  "CORECONF_MAX_DEPTH = 20"

definition CORECONF_MAX_LOOP :: nat where
  "CORECONF_MAX_LOOP = 50"

type_synonym 'v CoreconfObject = "u64 \<times> 'v"

datatype 'v CoreconfHashMap =
  CoreconfHashMap (hm_table: "'v CoreconfObject list list") (hm_size: u64) (hm_capacity: u64)

datatype CoreconfValue =
    CORECONF_ARRAY "CoreconfValue list"
  | CORECONF_STRING bytes
  | CORECONF_REAL u64
  | CORECONF_INT_8 u8
  | CORECONF_INT_16 u16
  | CORECONF_INT_32 u32
  | CORECONF_INT_64 u64
  | CORECONF_UINT_8 u8
  | CORECONF_UINT_16 u16
  | CORECONF_UINT_32 u32
  | CORECONF_UINT_64 u64
  | CORECONF_TRUE
  | CORECONF_FALSE
  | CORECONF_NULL
  | CORECONF_HASHMAP "CoreconfValue CoreconfHashMap"

section \<open>Constructors\<close>

text \<open>\<open>c_string\<close> is what a \<open>char *\<close> argument denotes: the bytes up to the first NUL.\<close>

definition c_string :: "bytes \<Rightarrow> bytes" where
  "c_string bs = takeWhile (\<lambda>b. b \<noteq> 0) bs"

definition createCoreconfString :: "bytes \<Rightarrow> CoreconfValue" where
  "createCoreconfString value = CORECONF_STRING (c_string value)"

definition createCoreconfReal :: "u64 \<Rightarrow> CoreconfValue" where
  "createCoreconfReal value = CORECONF_REAL value"

definition createCoreconfInt8 :: "u8 \<Rightarrow> CoreconfValue" where
  "createCoreconfInt8 value = CORECONF_INT_8 value"

definition createCoreconfInt16 :: "u16 \<Rightarrow> CoreconfValue" where
  "createCoreconfInt16 value = CORECONF_INT_16 value"

definition createCoreconfInt32 :: "u32 \<Rightarrow> CoreconfValue" where
  "createCoreconfInt32 value = CORECONF_INT_32 value"

definition createCoreconfInt64 :: "u64 \<Rightarrow> CoreconfValue" where
  "createCoreconfInt64 value = CORECONF_INT_64 value"

definition createCoreconfUint8 :: "u8 \<Rightarrow> CoreconfValue" where
  "createCoreconfUint8 value = CORECONF_UINT_8 value"

definition createCoreconfUint16 :: "u16 \<Rightarrow> CoreconfValue" where
  "createCoreconfUint16 value = CORECONF_UINT_16 value"

definition createCoreconfUint32 :: "u32 \<Rightarrow> CoreconfValue" where
  "createCoreconfUint32 value = CORECONF_UINT_32 value"

definition createCoreconfUint64 :: "u64 \<Rightarrow> CoreconfValue" where
  "createCoreconfUint64 value = CORECONF_UINT_64 value"

definition createCoreconfBoolean :: "bool \<Rightarrow> CoreconfValue" where
  "createCoreconfBoolean value = (if value then CORECONF_TRUE else CORECONF_FALSE)"

definition empty_hashmap :: "'v CoreconfHashMap" where
  "empty_hashmap =
     CoreconfHashMap (replicate HASHMAP_TABLE_SIZE []) 0 (of_nat HASHMAP_TABLE_SIZE)"

definition createCoreconfHashmap :: CoreconfValue where
  "createCoreconfHashmap = CORECONF_HASHMAP empty_hashmap"

definition wrapCoreconfHashmap :: "CoreconfValue CoreconfHashMap \<Rightarrow> CoreconfValue" where
  "wrapCoreconfHashmap hm = CORECONF_HASHMAP hm"

definition createCoreconfArray :: CoreconfValue where
  "createCoreconfArray = CORECONF_ARRAY []"

text \<open>
  \<open>addToCoreconfArray\<close> reads the union as an array whatever the tag says; on a value that is not
  an array the C code dereferences the wrong union member.
\<close>

definition addToCoreconfArray ::
  "CoreconfValue \<Rightarrow> CoreconfValue \<Rightarrow> c_fault + CoreconfValue" where
  "addToCoreconfArray arr value =
     (case arr of
        CORECONF_ARRAY elements \<Rightarrow> Inr (CORECONF_ARRAY (elements @ [value]))
      | _ \<Rightarrow> Inl WrongUnionMember)"

section \<open>Hash functions\<close>

text \<open>
  \<open>key * 2654435769\<close>: the literal has type \<open>long\<close>, so the 32-bit key is promoted to a signed
  64-bit integer, the product wraps as two's complement (signed overflow, see below), \<open>>> 32\<close> is
  the arithmetic shift, and the cast to \<open>size_t\<close> applies before \<open>%\<close>.
\<close>

definition hashKey_product :: "u32 \<Rightarrow> u64" where
  "hashKey_product key = ucast key * 2654435769"

definition hashKey :: "u32 \<Rightarrow> nat" where
  "hashKey key = unat (signed_drop_bit 32 (hashKey_product key)) mod HASHMAP_TABLE_SIZE"

definition murmurHash :: "u64 \<Rightarrow> nat" where
  "murmurHash key =
     (let m = 0xc6a4a7935bd1e995; r = 47;
          h = 0 XOR (8 * m);
          k = key;
          k = k * m;
          k = k XOR drop_bit r k;
          k = k * m;
          h = h XOR k;
          h = h * m;
          h = h XOR drop_bit r h;
          h = h * m;
          h = h XOR drop_bit r h
      in unat h mod HASHMAP_TABLE_SIZE)"

section \<open>Hash map operations\<close>

text \<open>The scan of a chain by \<open>insertCoreconfHashMap\<close>: it gives up after \<open>CORECONF_MAX_LOOP\<close>.\<close>

datatype 'v chain_scan =
    ChainEnd
  | ChainLimit
  | ChainHit "'v CoreconfObject list"

fun insert_scan :: "nat \<Rightarrow> u64 \<Rightarrow> 'v \<Rightarrow> 'v CoreconfObject list \<Rightarrow> 'v chain_scan" where
  "insert_scan loopCount key value [] = ChainEnd"
| "insert_scan loopCount key value (current # rest) =
     (if loopCount > CORECONF_MAX_LOOP then ChainLimit
      else if fst current = key then ChainHit ((fst current, value) # rest)
      else (case insert_scan (Suc loopCount) key value rest of
              ChainHit rest' \<Rightarrow> ChainHit (current # rest')
            | r \<Rightarrow> r))"

definition insertCoreconfHashMap ::
  "'v CoreconfHashMap \<Rightarrow> u64 \<Rightarrow> 'v \<Rightarrow> int \<times> 'v CoreconfHashMap" where
  "insertCoreconfHashMap hm key value =
     (let index = hashKey (ucast key); chain = hm_table hm ! index in
      case insert_scan 0 key value chain of
        ChainLimit \<Rightarrow> (-1, hm)
      | ChainHit chain' \<Rightarrow>
          (0, CoreconfHashMap ((hm_table hm)[index := chain']) (hm_size hm) (hm_capacity hm))
      | ChainEnd \<Rightarrow>
          (0, CoreconfHashMap ((hm_table hm)[index := (key, value) # chain])
                (hm_size hm + 1) (hm_capacity hm)))"

fun delete_scan :: "u64 \<Rightarrow> 'v CoreconfObject list \<Rightarrow> 'v CoreconfObject list option" where
  "delete_scan key [] = None"
| "delete_scan key (cur # rest) =
     (if fst cur = key then Some rest
      else map_option (Cons cur) (delete_scan key rest))"

definition deleteFromCoreconfHashMap ::
  "'v CoreconfHashMap \<Rightarrow> u64 \<Rightarrow> int \<times> 'v CoreconfHashMap" where
  "deleteFromCoreconfHashMap hm key =
     (let index = hashKey (ucast key) in
      case delete_scan key (hm_table hm ! index) of
        None \<Rightarrow> (-1, hm)
      | Some chain \<Rightarrow>
          (0, CoreconfHashMap ((hm_table hm)[index := chain])
                (if hm_size hm > 0 then hm_size hm - 1 else hm_size hm) (hm_capacity hm)))"

fun get_scan :: "u64 \<Rightarrow> 'v CoreconfObject list \<Rightarrow> 'v option" where
  "get_scan key [] = None"
| "get_scan key (current # rest) =
     (if fst current = key then Some (snd current) else get_scan key rest)"

definition getCoreconfHashMap :: "'v CoreconfHashMap \<Rightarrow> u64 \<Rightarrow> 'v option" where
  "getCoreconfHashMap hm key = get_scan key (hm_table hm ! hashKey (ucast key))"

text \<open>\<open>iterateCoreconfHashMap\<close> visits the buckets in order and each chain from its head.\<close>

definition hm_objects :: "'v CoreconfHashMap \<Rightarrow> 'v CoreconfObject list" where
  "hm_objects hm = concat (hm_table hm)"

definition iterateCoreconfHashMap ::
  "'v CoreconfHashMap \<Rightarrow> 'u \<Rightarrow> ('v CoreconfObject \<Rightarrow> 'u \<Rightarrow> 'u) \<Rightarrow> 'u" where
  "iterateCoreconfHashMap hm udata f = fold f (hm_objects hm) udata"

section \<open>Reading a value as a 64-bit integer\<close>

text \<open>
  \<open>(uint64_t)real_value\<close> truncates towards zero; a value of \<open>2 ^ 64\<close> or more is undefined
  behaviour, which is \<open>None\<close> here. \<open>real_value >= 0\<close> is false for NaN and true for minus zero.
\<close>

definition double_expo :: "u64 \<Rightarrow> nat" where
  "double_expo d = unat (take_bit 11 (drop_bit 52 d))"

definition double_mantissa :: "u64 \<Rightarrow> nat" where
  "double_mantissa d = unat (take_bit 52 d)"

definition double_ge_zero :: "u64 \<Rightarrow> bool" where
  "double_ge_zero d \<longleftrightarrow>
     (if double_expo d = 2047 \<and> double_mantissa d \<noteq> 0 then False
      else \<not> bit d 63 \<or> (double_expo d = 0 \<and> double_mantissa d = 0))"

definition double_trunc :: "u64 \<Rightarrow> nat" where
  "double_trunc d =
     (let e = double_expo d; m = double_mantissa d; sig = (if e = 0 then m else m + 2 ^ 52);
          ex = (if e = 0 then 1 else e)
      in if 1075 \<le> ex then sig * 2 ^ (ex - 1075) else sig div 2 ^ (1075 - ex))"

definition double_to_u64 :: "u64 \<Rightarrow> u64 option" where
  "double_to_u64 d =
     (if double_expo d = 2047 \<or> double_trunc d \<ge> 2 ^ 64 then None
      else Some (of_nat (double_trunc d)))"

fun getCoreconfValueAsUint64 :: "CoreconfValue \<Rightarrow> u64 option" where
  "getCoreconfValueAsUint64 (CORECONF_INT_64 v) = Some v"
| "getCoreconfValueAsUint64 (CORECONF_REAL d) =
     (if double_ge_zero d then double_to_u64 d else Some 0)"
| "getCoreconfValueAsUint64 (CORECONF_INT_16 v) = Some (scast v)"
| "getCoreconfValueAsUint64 (CORECONF_INT_32 v) = Some (scast v)"
| "getCoreconfValueAsUint64 (CORECONF_INT_8 v) = Some (scast v)"
| "getCoreconfValueAsUint64 (CORECONF_UINT_64 v) = Some v"
| "getCoreconfValueAsUint64 (CORECONF_UINT_16 v) = Some (ucast v)"
| "getCoreconfValueAsUint64 (CORECONF_UINT_32 v) = Some (ucast v)"
| "getCoreconfValueAsUint64 (CORECONF_UINT_8 v) = Some (ucast v)"
| "getCoreconfValueAsUint64 _ = Some 0"

section \<open>Well-formed hash maps\<close>

definition chain_ok :: "nat \<Rightarrow> 'v CoreconfObject list \<Rightarrow> bool" where
  "chain_ok i chain \<longleftrightarrow>
     (\<forall>k \<in> fst ` set chain. hashKey (ucast k) = i) \<and> distinct (map fst chain) \<and>
     length chain \<le> CORECONF_MAX_LOOP + 2"

definition hm_wf :: "'v CoreconfHashMap \<Rightarrow> bool" where
  "hm_wf hm \<longleftrightarrow>
     length (hm_table hm) = HASHMAP_TABLE_SIZE \<and>
     (\<forall>i < HASHMAP_TABLE_SIZE. chain_ok i (hm_table hm ! i)) \<and>
     hm_size hm = of_nat (length (hm_objects hm)) \<and>
     hm_capacity hm = of_nat HASHMAP_TABLE_SIZE"

lemma hashKey_less: "hashKey key < HASHMAP_TABLE_SIZE"
  by (simp add: hashKey_def HASHMAP_TABLE_SIZE_def)

lemma get_scan_map_of: "get_scan key chain = map_of chain key"
  by (induction chain) auto

text \<open>The insertion scan, described by the first 51 nodes of the chain.\<close>

fun chain_update :: "u64 \<Rightarrow> 'v \<Rightarrow> 'v CoreconfObject list \<Rightarrow> 'v CoreconfObject list" where
  "chain_update key value [] = []"
| "chain_update key value (obj # rest) =
     (if fst obj = key then (key, value) # rest else obj # chain_update key value rest)"

lemma insert_scan_spec:
  "insert_scan n key v chain =
     (if key \<in> fst ` set (take (Suc CORECONF_MAX_LOOP - n) chain) then ChainHit (chain_update key v chain)
      else if length chain \<le> Suc CORECONF_MAX_LOOP - n then ChainEnd else ChainLimit)"
proof (induction n key v chain rule: insert_scan.induct)
  case (1 n key v)
  then show ?case by simp
next
  case (2 n key v current rest)
  show ?case
  proof (cases "n > CORECONF_MAX_LOOP")
    case True
    then show ?thesis by simp
  next
    case False
    then have "Suc CORECONF_MAX_LOOP - n = Suc (Suc CORECONF_MAX_LOOP - Suc n)"
      by simp
    with 2 False show ?thesis by (auto split: chain_scan.splits)
  qed
qed

lemma map_fst_chain_update: "map fst (chain_update key v chain) = map fst chain"
  by (induction chain) auto

lemma length_chain_update: "length (chain_update key v chain) = length chain"
  by (induction chain) auto

lemma map_of_chain_update:
  "key \<in> fst ` set chain \<Longrightarrow>
     map_of (chain_update key v chain) x = (if x = key then Some v else map_of chain x)"
proof (induction chain)
  case Nil
  then show ?case by simp
next
  case (Cons obj chain)
  then show ?case by (cases "fst obj = key") (simp_all, metis)
qed

lemma delete_scan_Some:
  "delete_scan key chain = Some chain' \<Longrightarrow>
     key \<in> fst ` set chain \<and> set chain' \<subseteq> set chain \<and> length chain = Suc (length chain')"
  by (induction chain arbitrary: chain') (auto split: if_splits)

lemma delete_scan_None: "delete_scan key chain = None \<longleftrightarrow> key \<notin> fst ` set chain"
  by (induction chain) auto

lemma delete_scan_filter:
  "delete_scan key chain = Some chain' \<Longrightarrow> distinct (map fst chain) \<Longrightarrow>
     chain' = filter (\<lambda>obj. fst obj \<noteq> key) chain"
proof (induction chain arbitrary: chain')
  case Nil
  then show ?case by simp
next
  case (Cons obj chain)
  show ?case
  proof (cases "fst obj = key")
    case True
    with Cons.prems have "chain' = chain" and "key \<notin> fst ` set chain" by auto
    then have "chain' = chain" and "\<forall>x \<in> set chain. fst x \<noteq> key" by (blast intro: rev_image_eqI)+
    with True show ?thesis by simp
  next
    case False
    with Cons show ?thesis by auto
  qed
qed

lemma map_of_filter_key:
  "map_of (filter (\<lambda>obj. fst obj \<noteq> key) chain) x = (if x = key then None else map_of chain x)"
  by (induction chain) auto

lemma distinct_map_fst_filter: "distinct (map fst xs) \<Longrightarrow> distinct (map fst (filter P xs))"
  by (induction xs) auto

text \<open>Replacing one chain of a well-formed map.\<close>

lemma length_hm_objects_update:
  assumes "i < length table"
  shows "length (concat (table[i := chain])) + length (table ! i) = length (concat table) + length chain"
  using sum_list_update_nat[OF assms, of length chain] by (simp add: length_concat)

lemma hm_wf_update:
  assumes wf: "hm_wf hm" and i: "i < HASHMAP_TABLE_SIZE" and ok: "chain_ok i chain"
    and sz: "size' + of_nat (length (hm_table hm ! i)) = hm_size hm + of_nat (length chain)"
  shows "hm_wf (CoreconfHashMap ((hm_table hm)[i := chain]) size' (hm_capacity hm))"
proof -
  have len: "i < length (hm_table hm)" using wf i by (simp add: hm_wf_def)
  have "(of_nat (length (concat ((hm_table hm)[i := chain]))) :: u64) + of_nat (length (hm_table hm ! i))
      = of_nat (length (concat (hm_table hm))) + of_nat (length chain)"
    using length_hm_objects_update[OF len, of chain] by (simp flip: of_nat_add)
  then have "size' = of_nat (length (concat ((hm_table hm)[i := chain])))"
    using sz wf by (simp add: hm_wf_def hm_objects_def) (metis add_right_cancel)
  then show ?thesis
    using wf i ok by (auto simp: hm_wf_def hm_objects_def nth_list_update)
qed

lemma hm_wf_chain_ok: "hm_wf hm \<Longrightarrow> chain_ok (hashKey k) (hm_table hm ! hashKey k)"
  by (simp add: hm_wf_def hashKey_less)

lemma hm_wf_index: "hm_wf hm \<Longrightarrow> hashKey k < length (hm_table hm)"
  by (simp add: hm_wf_def hashKey_less)

text \<open>A table whose bucket \<open>i\<close> only holds keys that hash to \<open>i\<close>, seen as one association list.\<close>

lemma map_of_concat_buckets:
  assumes "\<And>i k. i < length table \<Longrightarrow> k \<in> fst ` set (table ! i) \<Longrightarrow> h k = i"
  shows "map_of (concat table) x = (if h x < length table then map_of (table ! h x) x else None)"
  using assms
proof (induction table rule: rev_induct)
  case Nil
  then show ?case by simp
next
  case (snoc chain table)
  have IH: "map_of (concat table) x = (if h x < length table then map_of (table ! h x) x else None)"
  proof (rule snoc.IH)
    fix i k assume "i < length table" "k \<in> fst ` set (table ! i)"
    then show "h k = i" using snoc.prems[of i k] by (simp add: nth_append)
  qed
  have last: "k \<in> fst ` set chain \<Longrightarrow> h k = length table" for k
    using snoc.prems[of "length table" k] by simp
  show ?case
  proof (cases "h x = length table")
    case True
    with IH show ?thesis by (simp add: map_add_def split: option.split)
  next
    case False
    then have "map_of chain x = None" using last[of x] by (auto simp: map_of_eq_None_iff)
    with IH False show ?thesis by (auto simp: map_add_def nth_append split: option.split)
  qed
qed

lemma distinct_concat_buckets:
  assumes "\<And>i k. i < length table \<Longrightarrow> k \<in> fst ` set (table ! i) \<Longrightarrow> h k = i"
    and "\<And>i. i < length table \<Longrightarrow> distinct (map fst (table ! i))"
  shows "distinct (map fst (concat table))"
  using assms
proof (induction table rule: rev_induct)
  case Nil
  then show ?case by simp
next
  case (snoc chain table)
  have d: "distinct (map fst (concat table))"
  proof (rule snoc.IH)
    fix i k assume "i < length table" "k \<in> fst ` set (table ! i)"
    then show "h k = i" using snoc.prems(1)[of i k] by (simp add: nth_append)
  next
    fix i assume "i < length table"
    then show "distinct (map fst (table ! i))" using snoc.prems(2)[of i] by (simp add: nth_append)
  qed
  have "k \<notin> fst ` set chain" if "k \<in> fst ` set (concat table)" for k
  proof -
    from that obtain chain' where "chain' \<in> set table" "k \<in> fst ` set chain'"
      by auto
    then obtain i where "i < length table" "k \<in> fst ` set (table ! i)"
      by (auto simp: in_set_conv_nth[of chain'])
    then have "h k < length table" using snoc.prems(1)[of i k] by (simp add: nth_append)
    then show ?thesis using snoc.prems(1)[of "length table" k] by auto
  qed
  then show ?case using d snoc.prems(2)[of "length table"] by auto
qed

lemma hm_wf_buckets:
  assumes "hm_wf hm" and "i < length (hm_table hm)"
  shows "k \<in> fst ` set (hm_table hm ! i) \<Longrightarrow> hashKey (ucast k) = i"
    and "distinct (map fst (hm_table hm ! i))"
    and "length (hm_table hm ! i) \<le> CORECONF_MAX_LOOP + 2"
  using assms by (auto simp: hm_wf_def chain_ok_def)

lemma map_of_hm_objects: "hm_wf hm \<Longrightarrow> map_of (hm_objects hm) k = getCoreconfHashMap hm k"
  using map_of_concat_buckets[of "hm_table hm" "\<lambda>k. hashKey (ucast k)" k]
  by (simp add: hm_objects_def getCoreconfHashMap_def get_scan_map_of hm_wf_buckets hm_wf_index)

lemma distinct_hm_objects: "hm_wf hm \<Longrightarrow> distinct (map fst (hm_objects hm))"
  using distinct_concat_buckets[of "hm_table hm" "\<lambda>k. hashKey (ucast k)"]
  by (simp add: hm_objects_def hm_wf_buckets)

text \<open>At most 52 nodes hang from each of the 100 buckets, so \<open>size\<close> never wraps.\<close>

lemma length_hm_objects_le: "hm_wf hm \<Longrightarrow> length (hm_objects hm) \<le> 5200"
proof -
  assume wf: "hm_wf hm"
  have "length chain \<le> 52" if "chain \<in> set (hm_table hm)" for chain
    using that hm_wf_buckets(3)[OF wf] by (auto simp: in_set_conv_nth CORECONF_MAX_LOOP_def)
  then have "sum_list (map length (hm_table hm)) \<le> length (hm_table hm) * 52"
    by (rule sum_list_bound_nat)
  then show ?thesis
    using wf by (simp add: hm_objects_def length_concat hm_wf_def HASHMAP_TABLE_SIZE_def)
qed

lemma unat_hm_size: "hm_wf hm \<Longrightarrow> unat (hm_size hm) = length (hm_objects hm)"
  using length_hm_objects_le[of hm] by (simp add: hm_wf_def unat_of_nat take_bit_nat_eq_self)

lemma length_bucket_le: "i < length (hm_table hm) \<Longrightarrow> length (hm_table hm ! i) \<le> length (hm_objects hm)"
  by (simp add: hm_objects_def length_concat member_le_sum_list)

section \<open>The operations keep maps well formed\<close>

lemma hm_wf_empty: "hm_wf empty_hashmap"
  by (simp add: hm_wf_def empty_hashmap_def hm_objects_def chain_ok_def concat_replicate_trivial)

definition insert_fits :: "'v CoreconfHashMap \<Rightarrow> u64 \<Rightarrow> bool" where
  "insert_fits hm key \<longleftrightarrow>
     (let chain = hm_table hm ! hashKey (ucast key) in
      key \<in> fst ` set (take (Suc CORECONF_MAX_LOOP) chain) \<or> length chain \<le> Suc CORECONF_MAX_LOOP)"

lemma insert_fst: "fst (insertCoreconfHashMap hm key v) = (if insert_fits hm key then 0 else -1)"
  by (simp add: insertCoreconfHashMap_def insert_scan_spec insert_fits_def Let_def)

lemma insert_refused: "\<not> insert_fits hm key \<Longrightarrow> snd (insertCoreconfHashMap hm key v) = hm"
  by (simp add: insertCoreconfHashMap_def insert_scan_spec insert_fits_def Let_def)

lemma insert_snd:
  assumes "insert_fits hm key"
  shows "snd (insertCoreconfHashMap hm key v) =
    (let i = hashKey (ucast key); chain = hm_table hm ! i in
     if key \<in> fst ` set chain
     then CoreconfHashMap ((hm_table hm)[i := chain_update key v chain]) (hm_size hm) (hm_capacity hm)
     else CoreconfHashMap ((hm_table hm)[i := (key, v) # chain]) (hm_size hm + 1) (hm_capacity hm))"
proof -
  have "key \<in> fst ` set (take (Suc CORECONF_MAX_LOOP) chain) \<longleftrightarrow> key \<in> fst ` set chain"
    if "chain = hm_table hm ! hashKey (ucast key)" for chain
    using assms in_set_takeD[of _ "Suc CORECONF_MAX_LOOP" chain] that
    by (auto simp: insert_fits_def Let_def intro: rev_image_eqI)
  then show ?thesis
    using assms by (auto simp: insertCoreconfHashMap_def insert_scan_spec insert_fits_def Let_def)
qed

lemma chain_ok_update: "chain_ok i chain \<Longrightarrow> chain_ok i (chain_update key v chain)"
  unfolding chain_ok_def list.set_map[symmetric] by (simp add: map_fst_chain_update length_chain_update)

lemma hm_wf_insert: "hm_wf hm \<Longrightarrow> hm_wf (snd (insertCoreconfHashMap hm key v))"
proof (cases "insert_fits hm key")
  case False
  then show "hm_wf hm \<Longrightarrow> hm_wf (snd (insertCoreconfHashMap hm key v))"
    by (simp add: insert_refused)
next
  case True
  assume wf: "hm_wf hm"
  let ?i = "hashKey (ucast key)" let ?c = "hm_table hm ! ?i"
  note ok = hm_wf_chain_ok[OF wf, of "ucast key"]
  show "hm_wf (snd (insertCoreconfHashMap hm key v))"
  proof (cases "key \<in> fst ` set ?c")
    case hit: True
    have "chain_ok ?i (chain_update key v ?c)" by (rule chain_ok_update[OF ok])
    then show ?thesis
      using True hit hm_wf_update[OF wf hashKey_less]
      by (simp add: insert_snd Let_def length_chain_update)
  next
    case miss: False
    then have "length ?c \<le> Suc CORECONF_MAX_LOOP"
      using True in_set_takeD[of _ "Suc CORECONF_MAX_LOOP" ?c] by (auto simp: insert_fits_def Let_def)
    then have "chain_ok ?i ((key, v) # ?c)" using ok miss by (simp add: chain_ok_def)
    then show ?thesis
      using True miss hm_wf_update[OF wf hashKey_less, of "ucast key" "(key, v) # ?c" "hm_size hm + 1"]
      by (simp add: insert_snd Let_def)
  qed
qed

lemma get_insert:
  assumes wf: "hm_wf hm" and fits: "insert_fits hm key"
  shows "getCoreconfHashMap (snd (insertCoreconfHashMap hm key v)) x =
    (if x = key then Some v else getCoreconfHashMap hm x)"
  using fits hm_wf_index[OF wf]
  by (auto simp: insert_snd Let_def getCoreconfHashMap_def get_scan_map_of nth_list_update
      map_of_chain_update)

lemma delete_snd:
  assumes wf: "hm_wf hm"
  shows "deleteFromCoreconfHashMap hm key =
    (let i = hashKey (ucast key); chain = hm_table hm ! i in
     if key \<in> fst ` set chain
     then (0, CoreconfHashMap ((hm_table hm)[i := filter (\<lambda>obj. fst obj \<noteq> key) chain])
                (hm_size hm - 1) (hm_capacity hm))
     else (-1, hm))"
proof -
  let ?i = "hashKey (ucast key)" let ?c = "hm_table hm ! ?i"
  have pos: "hm_size hm > 0" if "key \<in> fst ` set ?c"
  proof -
    have "0 < length ?c" using that by auto
    then have "0 < unat (hm_size hm)"
      using length_bucket_le[OF hm_wf_index[OF wf], of "ucast key"] unat_hm_size[OF wf] by linarith
    then show ?thesis by (simp add: word_less_nat_alt)
  qed
  show ?thesis
  proof (cases "delete_scan key ?c")
    case None
    moreover from None have "key \<notin> fst ` set ?c" using delete_scan_None by blast
    ultimately show ?thesis by (simp add: deleteFromCoreconfHashMap_def Let_def)
  next
    case (Some c')
    then have "key \<in> fst ` set ?c" using delete_scan_Some by blast
    moreover have "c' = filter (\<lambda>obj. fst obj \<noteq> key) ?c"
      using delete_scan_filter[OF Some] hm_wf_buckets(2)[OF wf hm_wf_index[OF wf]] by blast
    ultimately show ?thesis using Some pos
      by (simp add: deleteFromCoreconfHashMap_def Let_def)
  qed
qed

lemma length_filter_key:
  "distinct (map fst chain) \<Longrightarrow> key \<in> fst ` set chain \<Longrightarrow>
     Suc (length (filter (\<lambda>obj. fst obj \<noteq> key) chain)) = length (chain :: 'v CoreconfObject list)"
  using delete_scan_Some[of key chain] delete_scan_filter[of key chain] delete_scan_None[of key chain]
  by (cases "delete_scan key chain") auto

lemma hm_wf_delete: "hm_wf hm \<Longrightarrow> hm_wf (snd (deleteFromCoreconfHashMap hm key))"
proof -
  assume wf: "hm_wf hm"
  let ?i = "hashKey (ucast key)" let ?c = "hm_table hm ! ?i"
  let ?c' = "filter (\<lambda>obj. fst obj \<noteq> key) ?c"
  note ok = hm_wf_chain_ok[OF wf, of "ucast key"]
  have "length ?c' \<le> CORECONF_MAX_LOOP + 2"
    using ok order_trans[OF length_filter_le] unfolding chain_ok_def by blast
  then have "chain_ok ?i ?c'"
    using ok by (auto simp: chain_ok_def distinct_map_fst_filter)
  moreover have "hm_size hm - 1 + of_nat (length ?c) = hm_size hm + of_nat (length ?c')"
    if "key \<in> fst ` set ?c"
    using arg_cong[OF length_filter_key[OF hm_wf_buckets(2)[OF wf hm_wf_index[OF wf]] that],
        of "of_nat :: nat \<Rightarrow> u64"]
    by (simp add: algebra_simps)
  ultimately show ?thesis
    using wf hm_wf_update[OF wf hashKey_less, of "ucast key" ?c' "hm_size hm - 1"]
    by (simp add: delete_snd Let_def)
qed

lemma get_delete:
  assumes wf: "hm_wf hm"
  shows "getCoreconfHashMap (snd (deleteFromCoreconfHashMap hm key)) x =
    (if x = key then None else getCoreconfHashMap hm x)"
proof (cases "key \<in> fst ` set (hm_table hm ! hashKey (ucast key))")
  case True
  then show ?thesis
    using hm_wf_index[OF wf, of "ucast key"]
    by (simp add: delete_snd[OF wf] Let_def getCoreconfHashMap_def get_scan_map_of nth_list_update
        map_of_filter_key)
next
  case False
  then have "map_of (hm_table hm ! hashKey (ucast key)) key = None"
    by (simp add: map_of_eq_None_iff)
  with False show ?thesis
    by (simp add: delete_snd[OF wf] Let_def getCoreconfHashMap_def get_scan_map_of)
qed

lemma delete_fst:
  "hm_wf hm \<Longrightarrow> fst (deleteFromCoreconfHashMap hm key) = (if getCoreconfHashMap hm key = None then -1 else 0)"
  by (auto simp: delete_snd Let_def getCoreconfHashMap_def get_scan_map_of map_of_eq_None_iff)

lemma insert_fits_room:
  "hm_wf hm \<Longrightarrow> length (hm_objects hm) \<le> Suc CORECONF_MAX_LOOP \<Longrightarrow> insert_fits hm key"
  using length_bucket_le[OF hm_wf_index, of hm "ucast key"] by (simp add: insert_fits_def Let_def)

interpretation hm: sid_map empty_hashmap insertCoreconfHashMap deleteFromCoreconfHashMap
  getCoreconfHashMap hm_objects hm_wf "Suc CORECONF_MAX_LOOP"
proof
  fix m :: "'a CoreconfHashMap" and k v
  show "hm_wf (empty_hashmap :: 'a CoreconfHashMap)" by (rule hm_wf_empty)
  show "getCoreconfHashMap (empty_hashmap :: 'a CoreconfHashMap) = Map.empty"
    by (simp add: fun_eq_iff getCoreconfHashMap_def empty_hashmap_def hashKey_less)
  show "fst (insertCoreconfHashMap m k v) = 0 \<or> fst (insertCoreconfHashMap m k v) = - 1"
    by (simp add: insert_fst)
  show "fst (insertCoreconfHashMap m k v) \<noteq> 0 \<Longrightarrow> snd (insertCoreconfHashMap m k v) = m"
    using insert_refused by (auto simp: insert_fst split: if_splits)
next
  fix m :: "'a CoreconfHashMap" and k v
  assume wf: "hm_wf m"
  show "hm_wf (snd (insertCoreconfHashMap m k v))" using wf by (rule hm_wf_insert)
  show "hm_wf (snd (deleteFromCoreconfHashMap m k))" using wf by (rule hm_wf_delete)
  show "map_of (hm_objects m) = getCoreconfHashMap m" using wf by (simp add: fun_eq_iff map_of_hm_objects)
  show "distinct (map fst (hm_objects m))" using wf by (rule distinct_hm_objects)
  show "length (hm_objects m) \<le> Suc CORECONF_MAX_LOOP \<Longrightarrow> fst (insertCoreconfHashMap m k v) = 0"
    using wf by (simp add: insert_fits_room insert_fst)
  show "getCoreconfHashMap (snd (deleteFromCoreconfHashMap m k)) = (getCoreconfHashMap m)(k := None)"
    using get_delete[OF wf] by (simp add: fun_eq_iff)
  show "fst (deleteFromCoreconfHashMap m k) = (if getCoreconfHashMap m k = None then - 1 else 0)"
    using wf by (rule delete_fst)
  show "fst (insertCoreconfHashMap m k v) = 0 \<Longrightarrow>
      getCoreconfHashMap (snd (insertCoreconfHashMap m k v)) = (getCoreconfHashMap m)(k \<mapsto> v)"
    using get_insert[OF wf] by (auto simp: fun_eq_iff insert_fst split: if_splits)
qed

section \<open>Properties of the hash map\<close>

text \<open>A sequence of edits of one map; \<open>None\<close> stands for a deletion of the key.\<close>

fun hm_edits :: "'v CoreconfHashMap \<Rightarrow> (u64 \<times> 'v option) list \<Rightarrow> 'v CoreconfHashMap" where
  "hm_edits m [] = m"
| "hm_edits m ((k, None) # es) = hm_edits (snd (deleteFromCoreconfHashMap m k)) es"
| "hm_edits m ((k, Some v) # es) = hm_edits (snd (insertCoreconfHashMap m k v)) es"

lemma hm_edits_edit_all: "hm_edits m es = hm.edit_all m es"
  by (induction m es rule: hm_edits.induct) auto

text \<open>
  C7. Any sequence of at most 52 insertions and deletions on an empty map leaves exactly the
  finite map that the same sequence of updates gives: the bucket chains refine a map from SIDs.
  (Beyond 52 edits a chain can be full, and then an insertion is refused.)
\<close>

theorem hashmap_refines_map:
  assumes "length es \<le> 52"
  shows "getCoreconfHashMap (hm_edits empty_hashmap es) =
    fold (\<lambda>(k, e) f. f(k := e)) es Map.empty"
  using hm.lkp_edit_all[OF hm.inv_emp, of es] assms
  by (simp add: hm.lkp_emp hm_edits_edit_all CORECONF_MAX_LOOP_def)

theorem hashmap_refines_map_witness:
  "length [(5 :: u64, Some (1 :: nat)), (105, Some 2), (5, None), (5, Some 3)] \<le> 52 \<and>
   getCoreconfHashMap
     (hm_edits empty_hashmap [(5, Some (1 :: nat)), (105, Some 2), (5, None), (5, Some 3)]) 5 = Some 3"
  using fun_cong[OF hashmap_refines_map[of "[(5, Some (1 :: nat)), (105, Some 2), (5, None), (5, Some 3)]"], of 5]
  by simp

text \<open>
  Whatever the sequence of edits, the map stays well formed, and its \<open>size\<close> field is the
  number of keys it holds, at most 5200; the 64-bit counter never wraps.
\<close>

lemma hashmap_size_counts_keys:
  "hm_wf (hm_edits empty_hashmap es) \<and>
   unat (hm_size (hm_edits empty_hashmap es)) = card (dom (getCoreconfHashMap (hm_edits empty_hashmap es))) \<and>
   unat (hm_size (hm_edits empty_hashmap es)) \<le> 5200"
proof -
  have wf: "hm_wf (hm_edits empty_hashmap es)"
    unfolding hm_edits_edit_all by (rule hm.inv_edit_all[OF hm.inv_emp])
  then show ?thesis
    by (simp add: unat_hm_size hm.length_objs[OF wf, symmetric] length_hm_objects_le)
qed

text \<open>
  An insertion into a well-formed map is refused exactly when the scan of the key's chain
  passes 51 nodes without meeting the key and is not at the end of the chain; a refused insertion
  leaves the map as it was. So a key stored at the 52nd position of its chain cannot be updated.
\<close>

lemma insert_refused_iff:
  "fst (insertCoreconfHashMap hm key v) = -1 \<longleftrightarrow>
     51 < length (hm_table hm ! hashKey (ucast key)) \<and>
     key \<notin> fst ` set (take 51 (hm_table hm ! hashKey (ucast key)))"
  by (auto simp: insert_fst insert_fits_def Let_def CORECONF_MAX_LOOP_def)

text \<open>
  C25. The signed 64-bit product in \<open>hashKey\<close> is the mathematical one exactly for keys below
  3474701534. Above, the C expression overflows a \<open>long\<close>, which the standard leaves undefined;
  the model takes the wrapped value that two's complement machines produce. The bucket index is
  in range for every key.
\<close>

theorem hashKey_overflow_iff:
  "hashKey key < HASHMAP_TABLE_SIZE \<and>
   (sint (hashKey_product key) = uint key * 2654435769 \<longleftrightarrow> key < 3474701534)"
proof -
  have b: "uint key < 2 ^ 32" using uint_bounded [of key] by simp
  have "uint (hashKey_product key) = uint key * 2654435769"
    using b unfolding hashKey_product_def
    by (simp add: uint_word_ariths unsigned_ucast_eq take_bit_int_eq_self flip: take_bit_eq_mod)
  then have s: "sint (hashKey_product key) =
      (if uint key * 2654435769 < 2 ^ 63 then uint key * 2654435769 else uint key * 2654435769 - 2 ^ 64)"
    by (simp add: sint_u64)
  show ?thesis unfolding s using b by (simp add: hashKey_less word_less_def)
qed

end
