(* ===== verification/Zcbor_Common.thy ===== *)
theory Zcbor_Common
  imports Prelude
begin

text \<open>
  The codec state of \<open>coreconf_zcbor_generated/zcbor_common.c\<close>, shared by the encoder and the
  decoder. A pointer into the payload is an offset into the buffer \<open>mem\<close>. The part of the state
  that zcbor copies into its backup list is the record \<open>zcbor_state\<close>; the extension \<open>zcbor\<close> adds
  the buffer and the fields of \<open>struct zcbor_state_constant\<close>, which every copy shares. The stack of
  backups is a list, newest last, so \<open>current_backup\<close> is its length. The build sets none of
  \<open>ZCBOR_CANONICAL\<close>, \<open>ZCBOR_STOP_ON_ERROR\<close>, \<open>ZCBOR_ASSERTS\<close> and \<open>ZCBOR_MAP_SMART_SEARCH\<close>, and the
  sources always pass at least two states, so the constant state is never NULL.
\<close>

section \<open>Data\<close>

datatype zcbor_err =
    ZCBOR_SUCCESS
  | ZCBOR_ERR_NO_BACKUP_MEM
  | ZCBOR_ERR_NO_BACKUP_ACTIVE
  | ZCBOR_ERR_LOW_ELEM_COUNT
  | ZCBOR_ERR_HIGH_ELEM_COUNT
  | ZCBOR_ERR_INT_SIZE
  | ZCBOR_ERR_FLOAT_SIZE
  | ZCBOR_ERR_ADDITIONAL_INVAL
  | ZCBOR_ERR_NO_PAYLOAD
  | ZCBOR_ERR_PAYLOAD_NOT_CONSUMED
  | ZCBOR_ERR_WRONG_TYPE
  | ZCBOR_ERR_WRONG_VALUE
  | ZCBOR_ERR_PAYLOAD_OUTDATED
  | ZCBOR_ERR_INVALID_VALUE_ENCODING
  | ZCBOR_ERR_BAD_ARG

datatype zcbor_major_type =
    ZCBOR_MAJOR_TYPE_PINT
  | ZCBOR_MAJOR_TYPE_NINT
  | ZCBOR_MAJOR_TYPE_BSTR
  | ZCBOR_MAJOR_TYPE_TSTR
  | ZCBOR_MAJOR_TYPE_LIST
  | ZCBOR_MAJOR_TYPE_MAP
  | ZCBOR_MAJOR_TYPE_TAG
  | ZCBOR_MAJOR_TYPE_SIMPLE

primrec major_code :: "zcbor_major_type \<Rightarrow> u8" where
  "major_code ZCBOR_MAJOR_TYPE_PINT = 0"
| "major_code ZCBOR_MAJOR_TYPE_NINT = 1"
| "major_code ZCBOR_MAJOR_TYPE_BSTR = 2"
| "major_code ZCBOR_MAJOR_TYPE_TSTR = 3"
| "major_code ZCBOR_MAJOR_TYPE_LIST = 4"
| "major_code ZCBOR_MAJOR_TYPE_MAP = 5"
| "major_code ZCBOR_MAJOR_TYPE_TAG = 6"
| "major_code ZCBOR_MAJOR_TYPE_SIMPLE = 7"

definition ZCBOR_MAJOR_TYPE :: "u8 \<Rightarrow> zcbor_major_type" where
  "ZCBOR_MAJOR_TYPE header_byte =
     (let m = drop_bit 5 header_byte AND 7 in
      if m = 0 then ZCBOR_MAJOR_TYPE_PINT
      else if m = 1 then ZCBOR_MAJOR_TYPE_NINT
      else if m = 2 then ZCBOR_MAJOR_TYPE_BSTR
      else if m = 3 then ZCBOR_MAJOR_TYPE_TSTR
      else if m = 4 then ZCBOR_MAJOR_TYPE_LIST
      else if m = 5 then ZCBOR_MAJOR_TYPE_MAP
      else if m = 6 then ZCBOR_MAJOR_TYPE_TAG
      else ZCBOR_MAJOR_TYPE_SIMPLE)"

definition ZCBOR_ADDITIONAL :: "u8 \<Rightarrow> u8" where
  "ZCBOR_ADDITIONAL header_byte = header_byte AND 0x1F"

definition ZCBOR_IS_FLOAT :: "u8 \<Rightarrow> bool" where
  "ZCBOR_IS_FLOAT header_byte \<longleftrightarrow> header_byte \<ge> 0xF9 \<and> header_byte \<le> 0xFB"

abbreviation ZCBOR_VALUE_IN_HEADER :: u8 where "ZCBOR_VALUE_IN_HEADER \<equiv> 23"
abbreviation ZCBOR_VALUE_IS_1_BYTE :: u8 where "ZCBOR_VALUE_IS_1_BYTE \<equiv> 24"
abbreviation ZCBOR_VALUE_IS_8_BYTES :: u8 where "ZCBOR_VALUE_IS_8_BYTES \<equiv> 27"
abbreviation ZCBOR_VALUE_IS_INDEFINITE_LENGTH :: u8 where "ZCBOR_VALUE_IS_INDEFINITE_LENGTH \<equiv> 31"
abbreviation ZCBOR_MAX_ELEM_COUNT :: u64 where "ZCBOR_MAX_ELEM_COUNT \<equiv> - 1"
abbreviation ZCBOR_LARGE_ELEM_COUNT :: u64 where "ZCBOR_LARGE_ELEM_COUNT \<equiv> - 16"

record zcbor_state =
  payload :: nat
  payload_bak :: nat
  elem_count :: u64
  payload_end :: nat
  payload_moved :: bool
  indefinite_length_array :: bool
  counting_map_elems :: bool
  map_elems_processed :: u64
  map_start_backup_num :: nat
  map_elem_count :: u64

record zcbor = zcbor_state +
  mem :: bytes
  backup_list :: "zcbor_state list"
  num_backups :: nat
  zerror :: zcbor_err
  enforce_canonical :: bool
  manually_process_elem :: bool

abbreviation current_backup :: "zcbor \<Rightarrow> nat" where
  "current_backup s \<equiv> length (backup_list s)"

text \<open>The byte \<open>*state->payload\<close>; the code reads it only below \<open>payload_end\<close>.\<close>

definition header_at :: "zcbor \<Rightarrow> u8" where
  "header_at s = mem s ! payload s"

definition zcbor_error :: "zcbor_err \<Rightarrow> zcbor \<Rightarrow> zcbor" where
  "zcbor_error err s = s\<lparr>zerror := err\<rparr>"

definition zcbor_payload_at_end :: "zcbor \<Rightarrow> bool" where
  "zcbor_payload_at_end s \<longleftrightarrow> payload s = payload_end s"

section \<open>State set-up and backups\<close>

text \<open>
  \<open>zcbor_new_state\<close> on a state array of \<open>n_states\<close> elements over the bytes of \<open>buf\<close> from offset
  \<open>start\<close> on. The fields it does not set keep what the stack held, which is the argument \<open>old\<close>.
\<close>

definition zcbor_new_state ::
  "zcbor_state \<Rightarrow> nat \<Rightarrow> bytes \<Rightarrow> nat \<Rightarrow> nat \<Rightarrow> u64 \<Rightarrow> zcbor" where
  "zcbor_new_state old n_states buf start payload_len elems =
     zcbor_state.extend
       (old\<lparr>payload := start, payload_end := start + payload_len, elem_count := elems,
            payload_moved := False, indefinite_length_array := False, map_elems_processed := 0\<rparr>)
       (zcbor.fields buf [] (n_states - 2) ZCBOR_SUCCESS False False)"

definition zcbor_new_backup :: "zcbor \<Rightarrow> u64 \<Rightarrow> bool \<times> zcbor" where
  "zcbor_new_backup s new_elem_count =
     (if current_backup s \<ge> num_backups s then (False, zcbor_error ZCBOR_ERR_NO_BACKUP_MEM s)
      else let s1 = s\<lparr>payload_moved := False\<rparr> in
        (True, s1\<lparr>backup_list := backup_list s1 @ [zcbor_state.truncate s1],
                 elem_count := new_elem_count\<rparr>))"

record backup_flags =
  flag_restore :: bool
  flag_consume :: bool
  flag_keep_payload :: bool
  flag_keep_decode_state :: bool

definition restore_state :: "zcbor_state \<Rightarrow> zcbor \<Rightarrow> zcbor" where
  "restore_state b s = zcbor_state.extend b (zcbor_state.more s)"

definition keep_decode_state :: "zcbor \<Rightarrow> zcbor \<Rightarrow> zcbor" where
  "keep_decode_state from s =
     s\<lparr>indefinite_length_array := indefinite_length_array from,
       counting_map_elems := counting_map_elems from,
       map_elems_processed := map_elems_processed from,
       map_start_backup_num := map_start_backup_num from,
       map_elem_count := map_elem_count from\<rparr>"

definition zcbor_process_backup_num ::
  "zcbor \<Rightarrow> backup_flags \<Rightarrow> u64 \<Rightarrow> nat \<Rightarrow> bool \<times> zcbor" where
  "zcbor_process_backup_num s flags max_elem_count backup_num =
     (if backup_num = 0 \<or> backup_num > current_backup s \<or> backup_num - 1 \<ge> num_backups s
      then (False, zcbor_error ZCBOR_ERR_BAD_ARG s)
      else let local_copy = s; backup = backup_list s ! (backup_num - 1) in
        if flag_restore flags \<and> \<not> flag_keep_payload flags \<and> payload_moved backup
        then (False, zcbor_error ZCBOR_ERR_PAYLOAD_OUTDATED s)
        else let
          s1 = (if flag_restore flags then restore_state backup s else s);
          s2 = (if flag_consume flags then s1\<lparr>backup_list := butlast (backup_list s1)\<rparr> else s1)
        in if elem_count local_copy > max_elem_count
        then (False, zcbor_error ZCBOR_ERR_HIGH_ELEM_COUNT s2)
        else let
          s3 = (if flag_keep_payload flags then s2\<lparr>payload := payload local_copy\<rparr> else s2);
          s4 = (if flag_keep_decode_state flags then keep_decode_state local_copy s3 else s3)
        in (True, s4))"

definition zcbor_process_backup :: "zcbor \<Rightarrow> backup_flags \<Rightarrow> u64 \<Rightarrow> bool \<times> zcbor" where
  "zcbor_process_backup s flags max_elem_count =
     (if current_backup s = 0 then (False, zcbor_error ZCBOR_ERR_NO_BACKUP_ACTIVE s)
      else zcbor_process_backup_num s flags max_elem_count (current_backup s))"

section \<open>Header lengths\<close>

definition zcbor_header_len :: "u64 \<Rightarrow> nat" where
  "zcbor_header_len val =
     (if val \<le> 23 then 1
      else if val \<le> 0xFF then 2
      else if val \<le> 0xFFFF then 3
      else if val \<le> 0xFFFFFFFF then 5
      else 9)"

text \<open>
  An integer operand passed as a \<open>void *\<close> and a size is its value and the number of bytes that
  count, on a little-endian machine its low bytes.
\<close>

definition zcbor_header_len_ptr :: "u64 \<Rightarrow> nat \<Rightarrow> nat" where
  "zcbor_header_len_ptr val value_len =
     (if value_len > 8 then 0 else zcbor_header_len (take_bit (8 * value_len) val))"

section \<open>Lemmas\<close>

lemma header_fields:
  assumes "a < 32"
  shows "ZCBOR_MAJOR_TYPE (push_bit 5 (major_code m) OR (a AND 0x1F)) = m"
    and "ZCBOR_ADDITIONAL (push_bit 5 (major_code m) OR (a AND 0x1F)) = a"
proof -
  have "unat (take_bit 5 a) = unat a"
    using assms by (simp add: unsigned_take_bit_eq take_bit_nat_eq_self word_less_nat_alt)
  then have "take_bit 5 a = a" by (simp only: word_unat_eq_iff)
  then have a: "a AND 0x1F = a" by (simp add: take_bit_eq_mask mask_numeral)
  have 1: "drop_bit 5 (push_bit 5 c OR take_bit 5 a) AND 7 = c AND 7" for c :: u8
  proof -
    have "drop_bit 5 (push_bit 5 c OR take_bit 5 a) AND mask 3 = c AND mask 3"
      by (rule bit_word_eqI) (auto simp: bit_simps)
    then show ?thesis by (simp add: mask_numeral)
  qed
  have 2: "(push_bit 5 c OR take_bit 5 a) AND mask 5 = take_bit 5 a" for c :: u8
    by (rule bit_word_eqI) (auto simp: bit_simps)
  have t: "take_bit 5 a = a AND 0x1F" by (simp add: take_bit_eq_mask mask_numeral)
  show "ZCBOR_MAJOR_TYPE (push_bit 5 (major_code m) OR (a AND 0x1F)) = m"
    using 1[of "major_code m"] unfolding ZCBOR_MAJOR_TYPE_def t by (cases m) (simp_all add: Let_def)
  show "ZCBOR_ADDITIONAL (push_bit 5 (major_code m) OR (a AND 0x1F)) = a"
    using 2[of "major_code m"] a unfolding ZCBOR_ADDITIONAL_def t by (simp add: mask_numeral)
qed

lemma restore_state_fields [simp]:
  "payload (restore_state b s) = payload b"
  "payload_bak (restore_state b s) = payload_bak b"
  "payload_end (restore_state b s) = payload_end b"
  "elem_count (restore_state b s) = elem_count b"
  "indefinite_length_array (restore_state b s) = indefinite_length_array b"
  "mem (restore_state b s) = mem s"
  "backup_list (restore_state b s) = backup_list s"
  "num_backups (restore_state b s) = num_backups s"
  "zerror (restore_state b s) = zerror s"
  "enforce_canonical (restore_state b s) = enforce_canonical s"
  by (cases s; simp add: restore_state_def zcbor_state.defs)+

lemma zcbor_error_fields [simp]:
  "payload (zcbor_error e s) = payload s"
  "payload_bak (zcbor_error e s) = payload_bak s"
  "payload_end (zcbor_error e s) = payload_end s"
  "elem_count (zcbor_error e s) = elem_count s"
  "indefinite_length_array (zcbor_error e s) = indefinite_length_array s"
  "mem (zcbor_error e s) = mem s"
  "backup_list (zcbor_error e s) = backup_list s"
  "num_backups (zcbor_error e s) = num_backups s"
  "enforce_canonical (zcbor_error e s) = enforce_canonical s"
  "zerror (zcbor_error e s) = e"
  by (simp_all add: zcbor_error_def)

lemma new_state_fields [simp]:
  "payload (zcbor_new_state old n buf start len k) = start"
  "payload_end (zcbor_new_state old n buf start len k) = start + len"
  "elem_count (zcbor_new_state old n buf start len k) = k"
  "indefinite_length_array (zcbor_new_state old n buf start len k) = False"
  "mem (zcbor_new_state old n buf start len k) = buf"
  "backup_list (zcbor_new_state old n buf start len k) = []"
  "num_backups (zcbor_new_state old n buf start len k) = n - 2"
  "zerror (zcbor_new_state old n buf start len k) = ZCBOR_SUCCESS"
  "enforce_canonical (zcbor_new_state old n buf start len k) = False"
  by (simp_all add: zcbor_new_state_def zcbor_state.defs zcbor.defs)

end
