(* ===== verification/Zcbor_Encode.thy ===== *)
theory Zcbor_Encode
  imports Zcbor_Common
begin

text \<open>
  The encoder \<open>coreconf_zcbor_generated/zcbor_encode.c\<close>: every function writes into the buffer at
  \<open>payload\<close> and returns whether it could. Lists and maps are written with the indefinite-length
  headers that the build without \<open>ZCBOR_CANONICAL\<close> selects. The lemmas say that each function
  appends exactly the bytes RFC 8949 prescribes when they fit between \<open>payload\<close> and \<open>payload_end\<close>,
  and that it writes nothing when they do not.
\<close>

section \<open>Operations\<close>

definition log2ceil :: "nat \<Rightarrow> u8" where
  "log2ceil n =
     (if n = 1 then 0 else if n = 2 then 1 else if n = 3 then 2 else if n = 4 then 2
      else if n = 5 then 3 else if n = 6 then 3 else if n = 7 then 3 else if n = 8 then 3 else 0)"

definition get_additional :: "nat \<Rightarrow> u8 \<Rightarrow> u8" where
  "get_additional len value0 = (if len = 0 then value0 else 24 + log2ceil len)"

text \<open>\<open>*(state->payload_mut++) = b\<close>.\<close>

definition put_byte :: "u8 \<Rightarrow> zcbor \<Rightarrow> zcbor" where
  "put_byte b s = s\<lparr>mem := (mem s)[payload s := b], payload := payload s + 1\<rparr>"

definition encode_header_byte :: "zcbor \<Rightarrow> zcbor_major_type \<Rightarrow> u8 \<Rightarrow> bool \<times> zcbor" where
  "encode_header_byte s major_type additional =
     (if payload s \<ge> payload_end s then (False, zcbor_error ZCBOR_ERR_NO_PAYLOAD s)
      else (True, put_byte (push_bit 5 (major_code major_type) OR (additional AND 0x1F)) s))"

definition value_encode_len :: "zcbor \<Rightarrow> zcbor_major_type \<Rightarrow> u64 \<Rightarrow> nat \<Rightarrow> bool \<times> zcbor" where
  "value_encode_len s major_type result result_len =
     (if payload s + 1 + result_len > payload_end s
      then (False, zcbor_error ZCBOR_ERR_NO_PAYLOAD s)
      else case encode_header_byte s major_type (get_additional result_len (ucast result)) of
        (False, s1) \<Rightarrow> (False, s1)
      | (True, s1) \<Rightarrow>
          let s2 = fold put_byte (be_bytes result_len result) s1
          in (True, s2\<lparr>elem_count := elem_count s2 + 1\<rparr>))"

definition value_encode :: "zcbor \<Rightarrow> zcbor_major_type \<Rightarrow> u64 \<Rightarrow> nat \<Rightarrow> bool \<times> zcbor" where
  "value_encode s major_type input max_result_len =
     value_encode_len s major_type input (zcbor_header_len_ptr input max_result_len - 1)"

definition zcbor_int_encode :: "zcbor \<Rightarrow> u64 \<Rightarrow> nat \<Rightarrow> bool \<times> zcbor" where
  "zcbor_int_encode s input int_size =
     (if int_size > 8 then (False, zcbor_error ZCBOR_ERR_INT_SIZE s)
      else if bit input (8 * int_size - 1)
      then value_encode s ZCBOR_MAJOR_TYPE_NINT (NOT input) int_size
      else value_encode s ZCBOR_MAJOR_TYPE_PINT input int_size)"

definition zcbor_uint_encode :: "zcbor \<Rightarrow> u64 \<Rightarrow> nat \<Rightarrow> bool \<times> zcbor" where
  "zcbor_uint_encode s input uint_size = value_encode s ZCBOR_MAJOR_TYPE_PINT input uint_size"

definition zcbor_int32_put :: "zcbor \<Rightarrow> u32 \<Rightarrow> bool \<times> zcbor" where
  "zcbor_int32_put s input = zcbor_int_encode s (ucast input) 4"

definition zcbor_int64_put :: "zcbor \<Rightarrow> u64 \<Rightarrow> bool \<times> zcbor" where
  "zcbor_int64_put s input = zcbor_int_encode s input 8"

definition zcbor_uint32_put :: "zcbor \<Rightarrow> u32 \<Rightarrow> bool \<times> zcbor" where
  "zcbor_uint32_put s input = zcbor_uint_encode s (ucast input) 4"

definition zcbor_uint64_put :: "zcbor \<Rightarrow> u64 \<Rightarrow> bool \<times> zcbor" where
  "zcbor_uint64_put s input = zcbor_uint_encode s input 8"

text \<open>
  A \<open>struct zcbor_string\<close> to encode is the list of its bytes, which lie outside the output buffer.
\<close>

definition str_start_encode :: "zcbor \<Rightarrow> bytes \<Rightarrow> zcbor_major_type \<Rightarrow> bool \<times> zcbor" where
  "str_start_encode s input major_type =
     (let len = of_nat (length input) in
      if zcbor_header_len_ptr len 8 + length input + payload s > payload_end s
      then (False, zcbor_error ZCBOR_ERR_NO_PAYLOAD s)
      else value_encode s major_type len 8)"

definition str_encode :: "zcbor \<Rightarrow> bytes \<Rightarrow> zcbor_major_type \<Rightarrow> bool \<times> zcbor" where
  "str_encode s input major_type =
     (if payload s \<ge> payload_end s then (False, zcbor_error ZCBOR_ERR_NO_PAYLOAD s)
      else if length input > payload_end s - payload s
      then (False, zcbor_error ZCBOR_ERR_NO_PAYLOAD s)
      else case str_start_encode s input major_type of
        (False, s1) \<Rightarrow> (False, s1)
      | (True, s1) \<Rightarrow> (True, fold put_byte input s1))"

definition zcbor_bstr_encode :: "zcbor \<Rightarrow> bytes \<Rightarrow> bool \<times> zcbor" where
  "zcbor_bstr_encode s input = str_encode s input ZCBOR_MAJOR_TYPE_BSTR"

definition zcbor_tstr_encode :: "zcbor \<Rightarrow> bytes \<Rightarrow> bool \<times> zcbor" where
  "zcbor_tstr_encode s input = str_encode s input ZCBOR_MAJOR_TYPE_TSTR"

text \<open>\<open>zcbor_tstr_encode_ptr\<close> reads \<open>len\<close> bytes from \<open>str\<close>; \<open>str\<close> here is the object it points into.\<close>

definition zcbor_tstr_encode_ptr :: "zcbor \<Rightarrow> bytes \<Rightarrow> nat \<Rightarrow> c_fault + bool \<times> zcbor" where
  "zcbor_tstr_encode_ptr s str len =
     (if len > length str then Inl OutOfBoundsRead else Inr (zcbor_tstr_encode s (take len str)))"

definition list_map_start_encode :: "zcbor \<Rightarrow> zcbor_major_type \<Rightarrow> bool \<times> zcbor" where
  "list_map_start_encode s major_type =
     encode_header_byte s major_type ZCBOR_VALUE_IS_INDEFINITE_LENGTH"

definition zcbor_list_start_encode :: "zcbor \<Rightarrow> u64 \<Rightarrow> bool \<times> zcbor" where
  "zcbor_list_start_encode s max_num = list_map_start_encode s ZCBOR_MAJOR_TYPE_LIST"

definition zcbor_map_start_encode :: "zcbor \<Rightarrow> u64 \<Rightarrow> bool \<times> zcbor" where
  "zcbor_map_start_encode s max_num = list_map_start_encode s ZCBOR_MAJOR_TYPE_MAP"

definition list_map_end_encode :: "zcbor \<Rightarrow> bool \<times> zcbor" where
  "list_map_end_encode s =
     encode_header_byte s ZCBOR_MAJOR_TYPE_SIMPLE ZCBOR_VALUE_IS_INDEFINITE_LENGTH"

definition zcbor_list_end_encode :: "zcbor \<Rightarrow> u64 \<Rightarrow> bool \<times> zcbor" where
  "zcbor_list_end_encode s max_num = list_map_end_encode s"

definition zcbor_map_end_encode :: "zcbor \<Rightarrow> u64 \<Rightarrow> bool \<times> zcbor" where
  "zcbor_map_end_encode s max_num = list_map_end_encode s"

definition zcbor_simple_encode :: "zcbor \<Rightarrow> u8 \<Rightarrow> bool \<times> zcbor" where
  "zcbor_simple_encode s input =
     (if input > ZCBOR_VALUE_IN_HEADER \<and> input < 32
      then (False, zcbor_error ZCBOR_ERR_INVALID_VALUE_ENCODING s)
      else value_encode s ZCBOR_MAJOR_TYPE_SIMPLE (ucast input) 1)"

definition zcbor_simple_put :: "zcbor \<Rightarrow> u8 \<Rightarrow> bool \<times> zcbor" where
  "zcbor_simple_put s input = zcbor_simple_encode s input"

definition zcbor_nil_put :: "zcbor \<Rightarrow> bool \<times> zcbor" where
  "zcbor_nil_put s = zcbor_simple_put s 22"

definition zcbor_bool_put :: "zcbor \<Rightarrow> bool \<Rightarrow> bool \<times> zcbor" where
  "zcbor_bool_put s input = zcbor_simple_put s (of_bool input + 20)"

definition zcbor_float64_encode :: "zcbor \<Rightarrow> u64 \<Rightarrow> bool \<times> zcbor" where
  "zcbor_float64_encode s input = value_encode_len s ZCBOR_MAJOR_TYPE_SIMPLE input 8"

definition zcbor_float64_put :: "zcbor \<Rightarrow> u64 \<Rightarrow> bool \<times> zcbor" where
  "zcbor_float64_put s input = zcbor_float64_encode s input"

definition zcbor_new_encode_state :: "zcbor_state \<Rightarrow> nat \<Rightarrow> bytes \<Rightarrow> nat \<Rightarrow> nat \<Rightarrow> u64 \<Rightarrow> zcbor" where
  "zcbor_new_encode_state old n_states buf start payload_len elems =
     zcbor_new_state old n_states buf start payload_len elems"

section \<open>Reference encoding of headers (RFC 8949, section 3)\<close>

definition header_byte :: "zcbor_major_type \<Rightarrow> u8 \<Rightarrow> u8" where
  "header_byte m a = push_bit 5 (major_code m) OR a"

definition cbor_head :: "zcbor_major_type \<Rightarrow> u64 \<Rightarrow> bytes" where
  "cbor_head m v =
     (if v < 24 then [header_byte m (ucast v)]
      else if v < 2 ^ 8 then header_byte m 24 # be_bytes 1 v
      else if v < 2 ^ 16 then header_byte m 25 # be_bytes 2 v
      else if v < 2 ^ 32 then header_byte m 26 # be_bytes 4 v
      else header_byte m 27 # be_bytes 8 v)"

section \<open>Appending bytes\<close>

definition enc_ok :: "zcbor \<Rightarrow> bool" where
  "enc_ok s \<longleftrightarrow> payload s \<le> payload_end s \<and> payload_end s \<le> length (mem s)"

definition fits :: "zcbor \<Rightarrow> nat \<Rightarrow> bool" where
  "fits s n \<longleftrightarrow> payload s + n \<le> payload_end s"

definition emit :: "bytes \<Rightarrow> u64 \<Rightarrow> zcbor \<Rightarrow> zcbor" where
  "emit bs n s = s\<lparr>mem := take (payload s) (mem s) @ bs @ drop (payload s + length bs) (mem s),
                   payload := payload s + length bs, elem_count := elem_count s + n\<rparr>"

lemma emit_Nil [simp]: "emit [] 0 s = s"
  by (simp add: emit_def)

lemma emit_fields [simp]:
  "payload (emit bs n s) = payload s + length bs"
  "payload_end (emit bs n s) = payload_end s"
  "elem_count (emit bs n s) = elem_count s + n"
  "backup_list (emit bs n s) = backup_list s"
  "num_backups (emit bs n s) = num_backups s"
  "zerror (emit bs n s) = zerror s"
  by (simp_all add: emit_def)

lemma fits_emit [simp]: "fits (emit bs n s) m \<longleftrightarrow> fits s (length bs + m)"
  by (simp add: fits_def add.assoc)

lemma length_mem_emit:
  "enc_ok s \<Longrightarrow> fits s (length bs) \<Longrightarrow> length (mem (emit bs n s)) = length (mem s)"
  by (simp add: emit_def enc_ok_def fits_def)

lemma enc_ok_emit: "enc_ok s \<Longrightarrow> fits s (length bs) \<Longrightarrow> enc_ok (emit bs n s)"
  using length_mem_emit[of s bs n] by (simp add: enc_ok_def fits_def)

lemma emit_emit:
  assumes "enc_ok s" and "fits s (length bs + length cs)"
  shows "emit cs m (emit bs n s) = emit (bs @ cs) (n + m) s"
  using assms by (simp add: emit_def enc_ok_def fits_def min_absorb2 algebra_simps)

lemma put_byte_emit: "enc_ok s \<Longrightarrow> fits s 1 \<Longrightarrow> put_byte b s = emit [b] 0 s"
  by (simp add: put_byte_def emit_def enc_ok_def fits_def upd_conv_take_nth_drop)

lemma fold_put_byte_emit:
  "enc_ok s \<Longrightarrow> fits s (length bs) \<Longrightarrow> fold put_byte bs s = emit bs 0 s"
proof (induction bs arbitrary: s)
  case Nil
  then show ?case by simp
next
  case (Cons b bs)
  have 1: "put_byte b s = emit [b] 0 s"
    using Cons.prems by (intro put_byte_emit) (auto simp: fits_def)
  have ok: "enc_ok (emit [b] 0 s)"
    using Cons.prems by (intro enc_ok_emit) (auto simp: fits_def)
  have "fold put_byte bs (emit [b] 0 s) = emit bs 0 (emit [b] 0 s)"
    using Cons.IH[OF ok] Cons.prems by simp
  also have "\<dots> = emit (b # bs) 0 s"
    using emit_emit[of s "[b]" bs 0 0] Cons.prems by simp
  finally show ?case by (simp add: 1)
qed

section \<open>What each operation appends\<close>

text \<open>All of the bytes or nothing: the result shared by the scalar encoders.\<close>

definition enc_all :: "bytes \<Rightarrow> u64 \<Rightarrow> zcbor \<Rightarrow> bool \<times> zcbor" where
  "enc_all bs n s =
     (if fits s (length bs) then (True, emit bs n s) else (False, zcbor_error ZCBOR_ERR_NO_PAYLOAD s))"

lemma encode_header_byte_spec:
  "enc_ok s \<Longrightarrow> encode_header_byte s m a = enc_all [header_byte m (a AND 0x1F)] 0 s"
  by (simp add: encode_header_byte_def enc_all_def put_byte_emit fits_def header_byte_def)

lemma value_encode_len_spec:
  assumes "enc_ok s"
  shows "value_encode_len s m v n =
    enc_all (header_byte m (get_additional n (ucast v) AND 0x1F) # be_bytes n v) 1 s"
proof (cases "fits s (Suc n)")
  case False
  then show ?thesis by (simp add: value_encode_len_def enc_all_def fits_def)
next
  case True
  let ?h = "header_byte m (get_additional n (ucast v) AND 0x1F)"
  have one: "encode_header_byte s m (get_additional n (ucast v)) = (True, emit [?h] 0 s)"
    using True assms by (simp add: encode_header_byte_spec enc_all_def fits_def)
  have ok: "enc_ok (emit [?h] 0 s)"
    using True assms by (intro enc_ok_emit) (auto simp: fits_def)
  have "fold put_byte (be_bytes n v) (emit [?h] 0 s) = emit (be_bytes n v) 0 (emit [?h] 0 s)"
    using True ok by (intro fold_put_byte_emit) simp_all
  also have "\<dots> = emit (?h # be_bytes n v) 0 s"
    using emit_emit[OF assms, of "[?h]" "be_bytes n v" 0 0] True by simp
  finally show ?thesis
    using True one by (simp add: value_encode_len_def enc_all_def fits_def emit_def)
qed

lemma be_bytes_take_bit: "n \<le> k \<Longrightarrow> be_bytes n (take_bit (8 * k) v) = be_bytes n v"
proof (induction n)
  case 0
  then show ?case by simp
next
  case (Suc n)
  have "(ucast (drop_bit (8 * n) (take_bit (8 * k) v)) :: u8) = ucast (drop_bit (8 * n) v)"
    using Suc.prems by (intro bit_word_eqI) (auto simp: bit_simps)
  with Suc show ?case by simp
qed

lemma small_additional: "v < 24 \<Longrightarrow> (ucast v :: u8) AND 0x1F = ucast (v :: u64)"
proof -
  assume "v < 24"
  then have v: "unat v < 24" by (simp add: word_less_nat_alt)
  have "unat (ucast v :: u8) = unat v"
    using v by (simp add: unsigned_ucast_eq take_bit_nat_eq_self)
  then have "unat (take_bit 5 (ucast v :: u8)) = unat (ucast v :: u8)"
    using v by (simp add: unsigned_take_bit_eq take_bit_nat_eq_self)
  then have "take_bit 5 (ucast v :: u8) = ucast v" by (simp only: word_unat_eq_iff)
  then show ?thesis by (simp add: take_bit_eq_mask mask_numeral)
qed

lemma cbor_head_eq:
  "header_byte m (get_additional (zcbor_header_len v - 1) (ucast v) AND 0x1F)
     # be_bytes (zcbor_header_len v - 1) v = cbor_head m v"
proof -
  have c: "v \<le> 23 \<longleftrightarrow> v < 24" "v \<le> 0xFF \<longleftrightarrow> v < 2 ^ 8" "v \<le> 0xFFFF \<longleftrightarrow> v < 2 ^ 16"
    "v \<le> 0xFFFFFFFF \<longleftrightarrow> v < 2 ^ 32"
    by (simp_all add: word_less_nat_alt word_le_nat_alt) linarith+
  show ?thesis
    unfolding zcbor_header_len_def cbor_head_def c
    by (auto simp: get_additional_def log2ceil_def small_additional)
qed

lemma header_len_le:
  assumes "k \<in> {1, 2, 4, 8}"
  shows "zcbor_header_len (take_bit (8 * k) v) - 1 \<le> k"
proof -
  have "unat (take_bit (8 * k) v) < 2 ^ (8 * k)" by (simp add: unsigned_take_bit_eq)
  then show ?thesis using assms by (auto simp: zcbor_header_len_def word_le_nat_alt)
qed

lemma value_encode_spec:
  assumes ok: "enc_ok s" and k: "k \<in> {1, 2, 4, 8}"
  shows "value_encode s m v k = enc_all (cbor_head m (take_bit (8 * k) v)) 1 s"
proof -
  let ?v = "take_bit (8 * k) v" let ?n = "zcbor_header_len ?v - 1"
  have u: "(ucast v :: u8) = ucast ?v"
    using k by (intro bit_word_eqI) (auto simp: bit_simps)
  have l: "zcbor_header_len_ptr v k = zcbor_header_len ?v"
    using k by (auto simp: zcbor_header_len_ptr_def)
  have b: "be_bytes ?n v = be_bytes ?n ?v"
    using be_bytes_take_bit[OF header_len_le[OF k], of v v] by simp
  show ?thesis
    unfolding value_encode_def value_encode_len_spec[OF ok] l b u by (simp only: cbor_head_eq)
qed

lemma length_cbor_head: "length (cbor_head m v) = zcbor_header_len v"
  using arg_cong[OF cbor_head_eq[of m v], of length] by (simp add: zcbor_header_len_def)

lemma uint64_put_spec:
  "enc_ok s \<Longrightarrow> zcbor_uint64_put s v = enc_all (cbor_head ZCBOR_MAJOR_TYPE_PINT v) 1 s"
  by (simp add: zcbor_uint64_put_def zcbor_uint_encode_def value_encode_spec)

lemma uint32_put_spec:
  "enc_ok s \<Longrightarrow> zcbor_uint32_put s v = enc_all (cbor_head ZCBOR_MAJOR_TYPE_PINT (ucast v)) 1 s"
  by (simp add: zcbor_uint32_put_def zcbor_uint_encode_def value_encode_spec unsigned_ucast_eq)

text \<open>A signed integer is written as itself or, when negative, as \<open>-1 - v\<close> with major type 1.\<close>

definition cbor_int :: "u64 \<Rightarrow> bytes" where
  "cbor_int v = (if bit v 63 then cbor_head ZCBOR_MAJOR_TYPE_NINT (NOT v)
                 else cbor_head ZCBOR_MAJOR_TYPE_PINT v)"

lemma int64_put_spec: "enc_ok s \<Longrightarrow> zcbor_int64_put s v = enc_all (cbor_int v) 1 s"
  by (simp add: zcbor_int64_put_def zcbor_int_encode_def value_encode_spec cbor_int_def)

lemma int32_put_spec: "enc_ok s \<Longrightarrow> zcbor_int32_put s v = enc_all (cbor_int (scast v)) 1 s"
proof -
  assume ok: "enc_ok s"
  have 1: "bit (scast v :: u64) 63 = bit (ucast v :: u64) 31" by (simp add: bit_simps)
  have 2: "take_bit 32 (NOT (ucast v :: u64)) = NOT (scast v)" if "bit (ucast v :: u64) 31"
    using that by (intro bit_word_eqI) (auto simp: bit_simps min_def dest: nat_31 bit_u32_31)
  have 3: "(scast v :: u64) = ucast v" if "\<not> bit (ucast v :: u64) 31"
    using that by (intro bit_word_eqI) (auto simp: bit_simps min_def dest: nat_31 bit_u32_31)
  show ?thesis
    using ok by (simp add: zcbor_int32_put_def zcbor_int_encode_def value_encode_spec cbor_int_def 1 2 3)
qed

lemma simple_put_spec:
  "enc_ok s \<Longrightarrow> v < 24 \<Longrightarrow> zcbor_simple_put s v = enc_all [header_byte ZCBOR_MAJOR_TYPE_SIMPLE v] 1 s"
proof -
  assume ok: "enc_ok s" and v: "v < 24"
  have "(ucast v :: u64) < 24" and "\<not> 23 < v" using v by (simp_all add: word_less_nat_alt)
  then show ?thesis
    using ok v by (simp add: zcbor_simple_put_def zcbor_simple_encode_def value_encode_spec cbor_head_def)
qed

lemma nil_put_spec: "enc_ok s \<Longrightarrow> zcbor_nil_put s = enc_all [0xF6] 1 s"
  by (simp add: zcbor_nil_put_def simple_put_spec header_byte_def)

lemma bool_put_spec: "enc_ok s \<Longrightarrow> zcbor_bool_put s b = enc_all [if b then 0xF5 else 0xF4] 1 s"
  by (cases b) (simp_all add: zcbor_bool_put_def simple_put_spec header_byte_def)

lemma float64_put_spec: "enc_ok s \<Longrightarrow> zcbor_float64_put s d = enc_all (0xFB # be_bytes 8 d) 1 s"
  by (simp add: zcbor_float64_put_def zcbor_float64_encode_def value_encode_len_spec get_additional_def
      log2ceil_def header_byte_def)

lemma list_start_spec: "enc_ok s \<Longrightarrow> zcbor_list_start_encode s n = enc_all [0x9F] 0 s"
  by (simp add: zcbor_list_start_encode_def list_map_start_encode_def encode_header_byte_spec header_byte_def)

lemma map_start_spec: "enc_ok s \<Longrightarrow> zcbor_map_start_encode s n = enc_all [0xBF] 0 s"
  by (simp add: zcbor_map_start_encode_def list_map_start_encode_def encode_header_byte_spec header_byte_def)

lemma list_end_spec: "enc_ok s \<Longrightarrow> zcbor_list_end_encode s n = enc_all [0xFF] 0 s"
  by (simp add: zcbor_list_end_encode_def list_map_end_encode_def encode_header_byte_spec header_byte_def)

lemma map_end_spec: "enc_ok s \<Longrightarrow> zcbor_map_end_encode s n = enc_all [0xFF] 0 s"
  by (simp add: zcbor_map_end_encode_def list_map_end_encode_def encode_header_byte_spec header_byte_def)

definition cbor_str :: "zcbor_major_type \<Rightarrow> bytes \<Rightarrow> bytes" where
  "cbor_str m bs = cbor_head m (of_nat (length bs)) @ bs"

lemma str_encode_spec:
  assumes ok: "enc_ok s"
  shows "str_encode s bs m = enc_all (cbor_str m bs) 1 s"
proof -
  let ?h = "cbor_head m (of_nat (length bs))"
  have pos: "0 < length ?h" by (simp add: length_cbor_head zcbor_header_len_def)
  show ?thesis
  proof (cases "fits s (length ?h + length bs)")
    case True
    then have start: "str_start_encode s bs m = (True, emit ?h 1 s)"
      using ok by (simp add: str_start_encode_def zcbor_header_len_ptr_def value_encode_spec
          enc_all_def fits_def length_cbor_head Let_def)
    have "enc_ok (emit ?h 1 s)"
      using ok True by (intro enc_ok_emit) (auto simp: fits_def)
    then have "fold put_byte bs (emit ?h 1 s) = emit bs 0 (emit ?h 1 s)"
      using True by (intro fold_put_byte_emit) simp_all
    also have "\<dots> = emit (cbor_str m bs) 1 s"
      using emit_emit[OF ok, of ?h bs 0 1] True by (simp add: cbor_str_def)
    finally show ?thesis
      using True pos start
      by (simp add: str_encode_def enc_all_def fits_def cbor_str_def del: length_greater_0_conv)
  next
    case False
    then show ?thesis
      using ok by (auto simp: str_encode_def str_start_encode_def zcbor_header_len_ptr_def
          enc_all_def fits_def length_cbor_head Let_def cbor_str_def)
  qed
qed

lemma tstr_encode_spec: "enc_ok s \<Longrightarrow> zcbor_tstr_encode s bs = enc_all (cbor_str ZCBOR_MAJOR_TYPE_TSTR bs) 1 s"
  by (simp add: zcbor_tstr_encode_def str_encode_spec)

lemma bstr_encode_spec: "enc_ok s \<Longrightarrow> zcbor_bstr_encode s bs = enc_all (cbor_str ZCBOR_MAJOR_TYPE_BSTR bs) 1 s"
  by (simp add: zcbor_bstr_encode_def str_encode_spec)

lemmas put_specs = uint64_put_spec uint32_put_spec int64_put_spec int32_put_spec nil_put_spec
  bool_put_spec float64_put_spec list_start_spec map_start_spec list_end_spec map_end_spec
  tstr_encode_spec bstr_encode_spec

section \<open>Composing encoders\<close>

text \<open>A loop over the elements that stops at the first failure.\<close>

fun encode_each :: "('a \<Rightarrow> zcbor \<Rightarrow> bool \<times> zcbor) \<Rightarrow> 'a list \<Rightarrow> zcbor \<Rightarrow> bool \<times> zcbor" where
  "encode_each f [] s = (True, s)"
| "encode_each f (x # xs) s =
     (case f x s of (False, s) \<Rightarrow> (False, s) | (True, s) \<Rightarrow> encode_each f xs s)"

lemma encode_each_cong [fundef_cong]:
  assumes "xs = ys" and "s = t" and "\<And>x s. x \<in> set ys \<Longrightarrow> f x s = g x s"
  shows "encode_each f xs s = encode_each g ys t"
  unfolding assms(1,2) using assms(3)
  by (induction ys arbitrary: t) (auto split: prod.split bool.split)

text \<open>
  \<open>appended bs s s'\<close>: the bytes \<open>bs\<close> went in at \<open>payload\<close>, before \<open>payload_end\<close>, and nothing else of
  the buffer changed. \<open>writes f bs\<close>: the encoder \<open>f\<close> only ever appends; it succeeds and appends
  exactly \<open>bs\<close> when they fit.
\<close>

definition appended :: "bytes \<Rightarrow> zcbor \<Rightarrow> zcbor \<Rightarrow> bool" where
  "appended bs s s' \<longleftrightarrow> fits s (length bs) \<and> (\<exists>n e. s' = (emit bs n s)\<lparr>zerror := e\<rparr>)"

definition writes :: "(zcbor \<Rightarrow> bool \<times> zcbor) \<Rightarrow> bytes \<Rightarrow> bool" where
  "writes f bs \<longleftrightarrow> (\<forall>s. enc_ok s \<longrightarrow>
     (\<exists>cs. appended cs s (snd (f s)) \<and> (fits s (length bs) \<longrightarrow> cs = bs \<and> fst (f s))))"

lemma enc_ok_error [simp]: "enc_ok (s\<lparr>zerror := e\<rparr>) = enc_ok s"
  by (simp add: enc_ok_def)

lemma emit_error: "emit bs n (s\<lparr>zerror := e\<rparr>) = (emit bs n s)\<lparr>zerror := e\<rparr>"
  by (simp add: emit_def)

lemma appended_refl: "enc_ok s \<Longrightarrow> appended [] s (s\<lparr>zerror := e\<rparr>)"
  unfolding appended_def by (auto simp: fits_def enc_ok_def intro!: exI[of _ 0])

lemma appended_Nil: "enc_ok s \<Longrightarrow> appended [] s s"
  using appended_refl[of s "zerror s"] by simp

lemma appended_enc_ok: "enc_ok s \<Longrightarrow> appended bs s s' \<Longrightarrow> enc_ok s'"
  by (auto simp: appended_def enc_ok_emit)

lemma appended_fits: "appended bs s s' \<Longrightarrow> fits s' n \<longleftrightarrow> fits s (length bs + n)"
  by (auto simp: appended_def fits_def)

lemma appended_trans:
  assumes ok: "enc_ok s" and 1: "appended bs s s'" and 2: "appended cs s' s''"
  shows "appended (bs @ cs) s s''"
proof -
  obtain n e where s': "s' = (emit bs n s)\<lparr>zerror := e\<rparr>" using 1 by (auto simp: appended_def)
  obtain m f where s'': "s'' = (emit cs m s')\<lparr>zerror := f\<rparr>" using 2 by (auto simp: appended_def)
  have fit: "fits s (length bs + length cs)"
    using 2 appended_fits[OF 1] by (simp add: appended_def)
  have "s'' = (emit (bs @ cs) (n + m) s)\<lparr>zerror := f\<rparr>"
    unfolding s'' s' using emit_emit[OF ok fit, of m n] by (simp add: emit_error)
  then show ?thesis using fit by (auto simp: appended_def)
qed

lemma writesE:
  assumes "writes f bs" and "enc_ok s"
  obtains cs where "appended cs s (snd (f s))" "fits s (length bs) \<longrightarrow> cs = bs"
    "fits s (length bs) \<longrightarrow> fst (f s)" "enc_ok (snd (f s))"
  using assms appended_enc_ok unfolding writes_def by blast

lemma fits_mono: "fits s n \<Longrightarrow> m \<le> n \<Longrightarrow> fits s m"
  by (simp add: fits_def)

lemma writes_enc_all:
  assumes "\<And>s. enc_ok s \<Longrightarrow> f s = enc_all bs n s"
  shows "writes f bs"
  unfolding writes_def
proof (intro allI impI)
  fix s assume ok: "enc_ok s"
  show "\<exists>cs. appended cs s (snd (f s)) \<and> (fits s (length bs) \<longrightarrow> cs = bs \<and> fst (f s))"
  proof (cases "fits s (length bs)")
    case True
    then have "appended bs s (emit bs n s)"
      unfolding appended_def by (auto intro!: exI[of _ n] exI[of _ "zerror s"] simp: emit_def)
    then show ?thesis using True assms[OF ok] by (auto simp: enc_all_def)
  next
    case False
    then show ?thesis
      using assms[OF ok] appended_refl[OF ok] by (auto simp: enc_all_def zcbor_error_def)
  qed
qed

lemma writes_cong: "writes f bs \<Longrightarrow> (\<And>s. f s = g s) \<Longrightarrow> bs = cs \<Longrightarrow> writes g cs"
  by (simp add: writes_def)

lemma writes_Nil: "writes (\<lambda>s. (True, s)) []"
  by (auto simp: writes_def intro: appended_Nil)

lemma writes_seq:
  assumes f: "writes f as" and g: "writes g bs"
  shows "writes (\<lambda>s. case f s of (False, s) \<Rightarrow> (False, s) | (True, s) \<Rightarrow> g s) (as @ bs)"
  unfolding writes_def
proof (intro allI impI)
  fix s assume ok: "enc_ok s"
  obtain cs where cs: "appended cs s (snd (f s))" "fits s (length as) \<longrightarrow> cs = as"
      "fits s (length as) \<longrightarrow> fst (f s)" "enc_ok (snd (f s))"
    using f ok by (elim writesE)
  obtain ds where ds: "appended ds (snd (f s)) (snd (g (snd (f s))))"
      "fits (snd (f s)) (length bs) \<longrightarrow> ds = bs" "fits (snd (f s)) (length bs) \<longrightarrow> fst (g (snd (f s)))"
    using g cs(4) by (elim writesE)
  have both: "cs @ ds = as @ bs" "fst (f s)" "fst (g (snd (f s)))" if "fits s (length (as @ bs))"
    using that cs ds appended_fits[OF cs(1)] fits_mono[of s "length (as @ bs)" "length as"] by auto
  show "\<exists>cs. appended cs s (snd (case f s of (False, s) \<Rightarrow> (False, s) | (True, s) \<Rightarrow> g s)) \<and>
      (fits s (length (as @ bs)) \<longrightarrow> cs = as @ bs \<and> fst (case f s of (False, s) \<Rightarrow> (False, s) | (True, s) \<Rightarrow> g s))"
  proof (cases "fst (f s)")
    case True
    then show ?thesis using both appended_trans[OF ok cs(1) ds(1)]
      by (auto simp: split_beta intro!: exI[of _ "cs @ ds"] split: bool.split)
  next
    case False
    then show ?thesis using both cs(1) by (auto simp: split_beta split: bool.split)
  qed
qed

text \<open>The same when the caller ignores the results.\<close>

lemma writes_then:
  assumes f: "writes f as" and g: "writes g bs"
  shows "writes (\<lambda>s. (True, snd (g (snd (f s))))) (as @ bs)"
  unfolding writes_def
proof (intro allI impI)
  fix s assume ok: "enc_ok s"
  obtain cs where cs: "appended cs s (snd (f s))" "fits s (length as) \<longrightarrow> cs = as"
      "fits s (length as) \<longrightarrow> fst (f s)" "enc_ok (snd (f s))"
    using f ok by (elim writesE)
  obtain ds where ds: "appended ds (snd (f s)) (snd (g (snd (f s))))"
      "fits (snd (f s)) (length bs) \<longrightarrow> ds = bs" "fits (snd (f s)) (length bs) \<longrightarrow> fst (g (snd (f s)))"
    using g cs(4) by (elim writesE)
  have "cs @ ds = as @ bs" if "fits s (length (as @ bs))"
    using that cs ds appended_fits[OF cs(1)] fits_mono[of s "length (as @ bs)" "length as"] by auto
  then show "\<exists>cs. appended cs s (snd (True, snd (g (snd (f s))))) \<and>
      (fits s (length (as @ bs)) \<longrightarrow> cs = as @ bs \<and> fst (True, snd (g (snd (f s)))))"
    using appended_trans[OF ok cs(1) ds(1)] by auto
qed

lemma writes_each:
  assumes "\<And>x. x \<in> set xs \<Longrightarrow> writes (f x) (bs x)"
  shows "writes (encode_each f xs) (concat (map bs xs))"
  using assms
proof (induction xs)
  case Nil
  then show ?case using writes_Nil by (simp add: writes_def)
next
  case (Cons x xs)
  have "writes (\<lambda>s. case f x s of (False, s) \<Rightarrow> (False, s) | (True, s) \<Rightarrow> encode_each f xs s)
      (bs x @ concat (map bs xs))"
    using Cons by (intro writes_seq) simp_all
  then show ?case by (simp add: writes_def)
qed

lemma writes_fold:
  assumes "\<And>x. x \<in> set xs \<Longrightarrow> writes (\<lambda>s. (True, f x s)) (bs x)"
  shows "writes (\<lambda>s. (True, fold f xs s)) (concat (map bs xs))"
  using assms
proof (induction xs)
  case Nil
  then show ?case using writes_Nil by simp
next
  case (Cons x xs)
  have "writes (\<lambda>s. (True, snd (True, fold f xs (snd (True, f x s))))) (bs x @ concat (map bs xs))"
    using Cons by (intro writes_then[of "\<lambda>s. (True, f x s)" _ "\<lambda>s. (True, fold f xs s)"]) simp_all
  then show ?case by simp
qed

text \<open>The primitive encoders as writers.\<close>

lemma writes_primitive [writes_intros]:
  "writes (\<lambda>s. zcbor_uint64_put s v) (cbor_head ZCBOR_MAJOR_TYPE_PINT v)"
  "writes (\<lambda>s. zcbor_uint32_put s v32) (cbor_head ZCBOR_MAJOR_TYPE_PINT (ucast v32))"
  "writes (\<lambda>s. zcbor_int64_put s v) (cbor_int v)"
  "writes (\<lambda>s. zcbor_int32_put s v32) (cbor_int (scast v32))"
  "writes zcbor_nil_put [0xF6]"
  "writes (\<lambda>s. zcbor_bool_put s b) [if b then 0xF5 else 0xF4]"
  "writes (\<lambda>s. zcbor_float64_put s v) (0xFB # be_bytes 8 v)"
  "writes (\<lambda>s. zcbor_tstr_encode s bs) (cbor_str ZCBOR_MAJOR_TYPE_TSTR bs)"
  "writes (\<lambda>s. zcbor_bstr_encode s bs) (cbor_str ZCBOR_MAJOR_TYPE_BSTR bs)"
  by (rule writes_enc_all[where n = 1]; simp add: put_specs)+

lemma writes_delimiters [writes_intros]:
  "writes (\<lambda>s. zcbor_list_start_encode s n) [0x9F]"
  "writes (\<lambda>s. zcbor_map_start_encode s n) [0xBF]"
  "writes (\<lambda>s. zcbor_list_end_encode s n) [0xFF]"
  "writes (\<lambda>s. zcbor_map_end_encode s n) [0xFF]"
  by (rule writes_enc_all[where n = 0]; simp add: put_specs)+

text \<open>\<open>exact f bs\<close>: besides, a success of \<open>f\<close> means that the bytes did fit.\<close>

definition exact :: "(zcbor \<Rightarrow> bool \<times> zcbor) \<Rightarrow> bytes \<Rightarrow> bool" where
  "exact f bs \<longleftrightarrow> writes f bs \<and> (\<forall>s. enc_ok s \<longrightarrow> fst (f s) \<longrightarrow> fits s (length bs))"

lemma exact_writes: "exact f bs \<Longrightarrow> writes f bs"
  by (simp add: exact_def)

lemma exact_enc_all:
  assumes "\<And>s. enc_ok s \<Longrightarrow> f s = enc_all bs n s"
  shows "exact f bs"
  using assms writes_enc_all[of f bs n] by (auto simp: exact_def enc_all_def split: if_splits)

lemma exact_cong: "exact f bs \<Longrightarrow> (\<And>s. f s = g s) \<Longrightarrow> bs = cs \<Longrightarrow> exact g cs"
  by (simp add: exact_def writes_def)

lemma exact_Nil: "exact (\<lambda>s. (True, s)) []"
  by (simp add: exact_def writes_Nil fits_def enc_ok_def)

lemma exact_seq:
  assumes f: "exact f as" and g: "exact g bs"
  shows "exact (\<lambda>s. case f s of (False, s) \<Rightarrow> (False, s) | (True, s) \<Rightarrow> g s) (as @ bs)"
proof -
  have "fits s (length (as @ bs))"
    if ok: "enc_ok s" and r: "fst (case f s of (False, s) \<Rightarrow> (False, s) | (True, s) \<Rightarrow> g s)" for s
  proof -
    have fs: "fst (f s)" and gs: "fst (g (snd (f s)))"
      using r by (auto simp: split_beta split: bool.splits)
    have "fits s (length as)" using f ok fs by (simp add: exact_def)
    then obtain cs where "appended cs s (snd (f s))" "cs = as" "enc_ok (snd (f s))"
      using writesE[OF exact_writes[OF f] ok] by blast
    moreover have "fits (snd (f s)) (length bs)" using g calculation(3) gs by (simp add: exact_def)
    ultimately show ?thesis by (simp add: appended_fits)
  qed
  then show ?thesis using writes_seq[OF exact_writes[OF f] exact_writes[OF g]] by (simp add: exact_def)
qed

lemma exact_each:
  assumes "\<And>x. x \<in> set xs \<Longrightarrow> exact (f x) (bs x)"
  shows "exact (encode_each f xs) (concat (map bs xs))"
  using assms
proof (induction xs)
  case Nil
  then show ?case by (intro exact_cong[OF exact_Nil]) simp_all
next
  case (Cons x xs)
  have "exact (\<lambda>s. case f x s of (False, s) \<Rightarrow> (False, s) | (True, s) \<Rightarrow> encode_each f xs s)
      (bs x @ concat (map bs xs))"
    using Cons by (intro exact_seq) simp_all
  then show ?case by (rule exact_cong) simp_all
qed

lemma exact_primitive [exact_intros]:
  "exact (\<lambda>s. zcbor_uint64_put s v) (cbor_head ZCBOR_MAJOR_TYPE_PINT v)"
  "exact (\<lambda>s. zcbor_uint32_put s v32) (cbor_head ZCBOR_MAJOR_TYPE_PINT (ucast v32))"
  "exact (\<lambda>s. zcbor_int64_put s v) (cbor_int v)"
  "exact (\<lambda>s. zcbor_int32_put s v32) (cbor_int (scast v32))"
  "exact zcbor_nil_put [0xF6]"
  "exact (\<lambda>s. zcbor_bool_put s b) [if b then 0xF5 else 0xF4]"
  "exact (\<lambda>s. zcbor_float64_put s v) (0xFB # be_bytes 8 v)"
  "exact (\<lambda>s. zcbor_tstr_encode s bs) (cbor_str ZCBOR_MAJOR_TYPE_TSTR bs)"
  "exact (\<lambda>s. zcbor_bstr_encode s bs) (cbor_str ZCBOR_MAJOR_TYPE_BSTR bs)"
  by (rule exact_enc_all[where n = 1]; simp add: put_specs)+

lemma exact_delimiters [exact_intros]:
  "exact (\<lambda>s. zcbor_list_start_encode s n) [0x9F]"
  "exact (\<lambda>s. zcbor_map_start_encode s n) [0xBF]"
  "exact (\<lambda>s. zcbor_list_end_encode s n) [0xFF]"
  "exact (\<lambda>s. zcbor_map_end_encode s n) [0xFF]"
  by (rule exact_enc_all[where n = 0]; simp add: put_specs)+

end
