(* ===== verification/Zcbor_Decode.thy ===== *)
theory Zcbor_Decode
  imports Zcbor_Common
begin

text \<open>
  The decoder \<open>coreconf_zcbor_generated/zcbor_decode.c\<close>. A decoding function returns \<open>Some\<close> of what
  it stores through its result pointer when it returns true and \<open>None\<close> when it returns false,
  together with the state it leaves, which on the failing paths is what \<open>ZCBOR_ERR\<close> or
  \<open>ERR_RESTORE\<close> make of it. Every read of \<open>*state->payload\<close> stands behind the test of
  \<open>payload_end\<close>, as in the code.
\<close>

section \<open>Headers\<close>

definition additional_len :: "u8 \<Rightarrow> nat" where
  "additional_len additional =
     (if additional \<le> ZCBOR_VALUE_IN_HEADER then 0
      else if ZCBOR_VALUE_IS_1_BYTE \<le> additional \<and> additional \<le> ZCBOR_VALUE_IS_8_BYTES
      then 2 ^ unat (additional - ZCBOR_VALUE_IS_1_BYTE)
      else 0xF)"

definition initial_checks :: "zcbor \<Rightarrow> bool \<times> zcbor" where
  "initial_checks s =
     (if payload s \<ge> payload_end s then (False, zcbor_error ZCBOR_ERR_NO_PAYLOAD s) else (True, s))"

definition type_check :: "zcbor \<Rightarrow> zcbor_major_type \<Rightarrow> bool \<times> zcbor" where
  "type_check s exp_major_type =
     (case initial_checks s of
        (False, s) \<Rightarrow> (False, s)
      | (True, s) \<Rightarrow>
          if ZCBOR_MAJOR_TYPE (header_at s) \<noteq> exp_major_type
          then (False, zcbor_error ZCBOR_ERR_WRONG_TYPE s)
          else (True, s))"

definition err_restore :: "zcbor \<Rightarrow> zcbor_err \<Rightarrow> zcbor" where
  "err_restore s err =
     zcbor_error err (s\<lparr>payload := payload_bak s, elem_count := elem_count s + 1\<rparr>)"

definition fail_restore :: "zcbor \<Rightarrow> zcbor" where
  "fail_restore s = s\<lparr>payload := payload_bak s, elem_count := elem_count s + 1\<rparr>"

text \<open>\<open>endian_copy\<close> of \<open>len\<close> big-endian bytes into a zeroed little-endian integer.\<close>

definition endian_copy :: "bytes \<Rightarrow> u64" where
  "endian_copy src = be_word src"

text \<open>
  \<open>value_extract\<close> returns the value and whether the header announces an indefinite length; the
  argument \<open>ila_allowed\<close> says whether the caller passed a pointer for the latter. For an indefinite
  length the code leaves the result as the caller had it, 0 here.
\<close>

definition value_extract :: "zcbor \<Rightarrow> nat \<Rightarrow> bool \<Rightarrow> (u64 \<times> bool) option \<times> zcbor" where
  "value_extract s result_len ila_allowed =
     (case initial_checks s of
        (False, s) \<Rightarrow> (None, s)
      | (True, s) \<Rightarrow>
          if elem_count s = 0 then (None, zcbor_error ZCBOR_ERR_LOW_ELEM_COUNT s)
          else let header = header_at s; additional = ZCBOR_ADDITIONAL header;
                   done = (\<lambda>len. s\<lparr>payload_bak := payload s, payload := payload s + len + 1,
                                  elem_count := elem_count s - 1\<rparr>) in
          if additional = ZCBOR_VALUE_IS_INDEFINITE_LENGTH \<and> ila_allowed
          then if enforce_canonical s
               then (None, zcbor_error ZCBOR_ERR_INVALID_VALUE_ENCODING s)
               else (Some (0, True), done 0)
          else let len = additional_len additional in
            if additional > ZCBOR_VALUE_IS_8_BYTES
            then (None, zcbor_error ZCBOR_ERR_ADDITIONAL_INVAL s)
            else if len > result_len then (None, zcbor_error ZCBOR_ERR_INT_SIZE s)
            else if payload s + len + 1 > payload_end s
            then (None, zcbor_error ZCBOR_ERR_NO_PAYLOAD s)
            else if len = 0 then (Some (ucast additional, False), done len)
            else let result = endian_copy (take len (drop (payload s + 1) (mem s))) in
              if enforce_canonical s \<and> \<not> ZCBOR_IS_FLOAT header \<and>
                 zcbor_header_len_ptr result result_len \<noteq> len + 1
              then (None, zcbor_error ZCBOR_ERR_INVALID_VALUE_ENCODING s)
              else (Some (result, False), done len))"

section \<open>Integers\<close>

text \<open>\<open>val_to_int\<close> on a result of \<open>size\<close> bytes; \<open>Inl\<close> is a nonzero return code.\<close>

definition val_to_int :: "zcbor_major_type \<Rightarrow> u64 \<Rightarrow> nat \<Rightarrow> zcbor_err + u64" where
  "val_to_int major_type result result_size =
     (if result_size = 0 \<or> bit result (8 * result_size - 1) then Inl ZCBOR_ERR_INT_SIZE
      else if major_type = ZCBOR_MAJOR_TYPE_NINT then Inr (take_bit (8 * result_size) (NOT result))
      else Inr result)"

definition zcbor_int_decode :: "zcbor \<Rightarrow> nat \<Rightarrow> u64 option \<times> zcbor" where
  "zcbor_int_decode s result_size =
     (case initial_checks s of
        (False, s) \<Rightarrow> (None, s)
      | (True, s) \<Rightarrow>
          let major_type = ZCBOR_MAJOR_TYPE (header_at s) in
          if major_type \<noteq> ZCBOR_MAJOR_TYPE_PINT \<and> major_type \<noteq> ZCBOR_MAJOR_TYPE_NINT
          then (None, zcbor_error ZCBOR_ERR_WRONG_TYPE s)
          else case value_extract s result_size False of
            (None, s) \<Rightarrow> (None, s)
          | (Some (result, _), s) \<Rightarrow>
              (case val_to_int major_type result result_size of
                 Inl err \<Rightarrow> (None, err_restore s err)
               | Inr r \<Rightarrow> (Some r, s)))"

definition zcbor_int64_decode :: "zcbor \<Rightarrow> u64 option \<times> zcbor" where
  "zcbor_int64_decode s = zcbor_int_decode s 8"

definition zcbor_uint_decode :: "zcbor \<Rightarrow> nat \<Rightarrow> u64 option \<times> zcbor" where
  "zcbor_uint_decode s result_size =
     (case type_check s ZCBOR_MAJOR_TYPE_PINT of
        (False, s) \<Rightarrow> (None, s)
      | (True, s) \<Rightarrow> apfst (map_option fst) (value_extract s result_size False))"

definition zcbor_uint64_decode :: "zcbor \<Rightarrow> u64 option \<times> zcbor" where
  "zcbor_uint64_decode s = zcbor_uint_decode s 8"

section \<open>Strings\<close>

text \<open>A decoded \<open>struct zcbor_string\<close> is the offset of its first byte and its length.\<close>

definition str_start_decode :: "zcbor \<Rightarrow> zcbor_major_type \<Rightarrow> (nat \<times> u64) option \<times> zcbor" where
  "str_start_decode s exp_major_type =
     (case type_check s exp_major_type of
        (False, s) \<Rightarrow> (None, s)
      | (True, s) \<Rightarrow>
          (case value_extract s 8 False of
             (None, s) \<Rightarrow> (None, s)
           | (Some (len, _), s) \<Rightarrow> (Some (payload s, len), s)))"

definition str_overflow_check :: "zcbor \<Rightarrow> u64 \<Rightarrow> bool \<times> zcbor" where
  "str_overflow_check s len =
     (if unat len > payload_end s - payload s then (False, err_restore s ZCBOR_ERR_NO_PAYLOAD)
      else (True, s))"

definition str_start_decode_with_overflow_check ::
  "zcbor \<Rightarrow> zcbor_major_type \<Rightarrow> (nat \<times> u64) option \<times> zcbor" where
  "str_start_decode_with_overflow_check s exp_major_type =
     (case str_start_decode s exp_major_type of
        (None, s) \<Rightarrow> (None, s)
      | (Some (start, len), s) \<Rightarrow>
          (case str_overflow_check s len of
             (False, s) \<Rightarrow> (None, s)
           | (True, s) \<Rightarrow> (Some (start, len), s)))"

definition str_decode :: "zcbor \<Rightarrow> zcbor_major_type \<Rightarrow> (nat \<times> u64) option \<times> zcbor" where
  "str_decode s exp_major_type =
     (case str_start_decode_with_overflow_check s exp_major_type of
        (None, s) \<Rightarrow> (None, s)
      | (Some (start, len), s) \<Rightarrow> (Some (start, len), s\<lparr>payload := payload s + unat len\<rparr>))"

definition zcbor_bstr_decode :: "zcbor \<Rightarrow> (nat \<times> u64) option \<times> zcbor" where
  "zcbor_bstr_decode s = str_decode s ZCBOR_MAJOR_TYPE_BSTR"

definition zcbor_tstr_decode :: "zcbor \<Rightarrow> (nat \<times> u64) option \<times> zcbor" where
  "zcbor_tstr_decode s = str_decode s ZCBOR_MAJOR_TYPE_TSTR"

section \<open>Lists and maps\<close>

definition exit_map :: "zcbor \<Rightarrow> zcbor" where
  "exit_map s = s\<lparr>map_elems_processed := 0, map_elem_count := 0\<rparr>"

definition list_map_start_decode :: "zcbor \<Rightarrow> zcbor_major_type \<Rightarrow> bool \<times> zcbor" where
  "list_map_start_decode s exp_major_type =
     (case type_check s exp_major_type of
        (False, s) \<Rightarrow> (False, s)
      | (True, s) \<Rightarrow>
          (case value_extract s 8 True of
             (None, s) \<Rightarrow> (False, s)
           | (Some (new_elem_count, ila), s) \<Rightarrow>
               (case zcbor_new_backup s (if ila then ZCBOR_LARGE_ELEM_COUNT else new_elem_count) of
                  (False, s) \<Rightarrow> (False, fail_restore s)
                | (True, s) \<Rightarrow>
                    (True, exit_map (s\<lparr>map_start_backup_num := current_backup s,
                                       indefinite_length_array := ila\<rparr>)))))"

definition zcbor_list_start_decode :: "zcbor \<Rightarrow> bool \<times> zcbor" where
  "zcbor_list_start_decode s = list_map_start_decode s ZCBOR_MAJOR_TYPE_LIST"

definition zcbor_map_start_decode :: "zcbor \<Rightarrow> bool \<times> zcbor" where
  "zcbor_map_start_decode s =
     (case list_map_start_decode s ZCBOR_MAJOR_TYPE_MAP of
        (False, s) \<Rightarrow> (False, s)
      | (True, s) \<Rightarrow>
          if \<not> indefinite_length_array s
          then if elem_count s \<ge> ZCBOR_MAX_ELEM_COUNT div 2
               then (False, err_restore s ZCBOR_ERR_INT_SIZE)
               else (True, s\<lparr>elem_count := elem_count s * 2\<rparr>)
          else (True, s))"

definition zcbor_array_at_end :: "zcbor \<Rightarrow> bool" where
  "zcbor_array_at_end s \<longleftrightarrow>
     (\<not> indefinite_length_array s \<and> elem_count s = 0) \<or>
     (indefinite_length_array s \<and> payload s < payload_end s \<and> header_at s = 0xFF)"

definition array_end_expect :: "zcbor \<Rightarrow> bool \<times> zcbor" where
  "array_end_expect s =
     (case initial_checks s of
        (False, s) \<Rightarrow> (False, s)
      | (True, s) \<Rightarrow>
          if header_at s \<noteq> 0xFF then (False, zcbor_error ZCBOR_ERR_WRONG_TYPE s)
          else (True, s\<lparr>payload := payload s + 1\<rparr>))"

definition list_map_end_decode :: "zcbor \<Rightarrow> bool \<times> zcbor" where
  "list_map_end_decode s =
     (let state_copy = s in
      case zcbor_process_backup s
             \<lparr>flag_restore = True, flag_consume = True, flag_keep_payload = True,
              flag_keep_decode_state = False\<rparr> ZCBOR_MAX_ELEM_COUNT of
        (False, s) \<Rightarrow> (False, s)
      | (True, s) \<Rightarrow>
          if indefinite_length_array state_copy then array_end_expect s
          else if elem_count state_copy > 0 then (False, zcbor_error ZCBOR_ERR_HIGH_ELEM_COUNT s)
          else (True, s))"

definition zcbor_list_end_decode :: "zcbor \<Rightarrow> bool \<times> zcbor" where
  "zcbor_list_end_decode s = list_map_end_decode s"

definition zcbor_map_end_decode :: "zcbor \<Rightarrow> bool \<times> zcbor" where
  "zcbor_map_end_decode s = list_map_end_decode s"

section \<open>Simple values and floats\<close>

definition zcbor_simple_decode :: "zcbor \<Rightarrow> u8 option \<times> zcbor" where
  "zcbor_simple_decode s =
     (case type_check s ZCBOR_MAJOR_TYPE_SIMPLE of
        (False, s) \<Rightarrow> (None, s)
      | (True, s) \<Rightarrow>
          let additional = ZCBOR_ADDITIONAL (header_at s) in
          if additional > ZCBOR_VALUE_IS_1_BYTE then (None, zcbor_error ZCBOR_ERR_WRONG_TYPE s)
          else case value_extract s 1 False of
            (None, s) \<Rightarrow> (None, s)
          | (Some (r, _), s) \<Rightarrow>
              let result = (ucast r :: u8) in
              if additional = ZCBOR_VALUE_IS_1_BYTE \<and> result < 32
              then (None, err_restore s ZCBOR_ERR_INVALID_VALUE_ENCODING)
              else (Some result, s))"

definition zcbor_simple_expect :: "zcbor \<Rightarrow> u8 \<Rightarrow> bool \<times> zcbor" where
  "zcbor_simple_expect s expected =
     (case zcbor_simple_decode s of
        (None, s) \<Rightarrow> (False, s)
      | (Some actual, s) \<Rightarrow>
          if actual \<noteq> expected then (False, err_restore s ZCBOR_ERR_WRONG_VALUE) else (True, s))"

definition zcbor_nil_expect :: "zcbor \<Rightarrow> bool \<times> zcbor" where
  "zcbor_nil_expect s = zcbor_simple_expect s 22"

definition zcbor_bool_decode :: "zcbor \<Rightarrow> bool option \<times> zcbor" where
  "zcbor_bool_decode s =
     (case zcbor_simple_decode s of
        (None, s) \<Rightarrow> (None, s)
      | (Some v, s) \<Rightarrow>
          let b = v - 20 in
          if b > 1 then (None, err_restore s ZCBOR_ERR_WRONG_TYPE) else (Some (b \<noteq> 0), s))"

definition float_check :: "zcbor \<Rightarrow> u8 \<Rightarrow> bool \<times> zcbor" where
  "float_check s additional_val =
     (case type_check s ZCBOR_MAJOR_TYPE_SIMPLE of
        (False, s) \<Rightarrow> (False, s)
      | (True, s) \<Rightarrow>
          if ZCBOR_ADDITIONAL (header_at s) \<noteq> additional_val
          then (False, zcbor_error ZCBOR_ERR_FLOAT_SIZE s)
          else (True, s))"

definition zcbor_float64_decode :: "zcbor \<Rightarrow> u64 option \<times> zcbor" where
  "zcbor_float64_decode s =
     (case float_check s ZCBOR_VALUE_IS_8_BYTES of
        (False, s) \<Rightarrow> (None, s)
      | (True, s) \<Rightarrow> apfst (map_option fst) (value_extract s 8 False))"

section \<open>Tags and skipping\<close>

definition zcbor_tag_decode :: "zcbor \<Rightarrow> u32 option \<times> zcbor" where
  "zcbor_tag_decode s =
     (case type_check s ZCBOR_MAJOR_TYPE_TAG of
        (False, s) \<Rightarrow> (None, s)
      | (True, s) \<Rightarrow>
          (case value_extract s 4 False of
             (None, s) \<Rightarrow> (None, s)
           | (Some (result, _), s) \<Rightarrow> (Some (ucast result), s\<lparr>elem_count := elem_count s + 1\<rparr>)))"

definition zcbor_new_decode_state :: "zcbor_state \<Rightarrow> nat \<Rightarrow> bytes \<Rightarrow> nat \<Rightarrow> nat \<Rightarrow> u64 \<Rightarrow> zcbor" where
  "zcbor_new_decode_state old n_states buf start payload_len elems =
     zcbor_new_state old n_states buf start payload_len elems"

section \<open>What a header extraction does to the state\<close>

definition advance :: "zcbor \<Rightarrow> nat \<Rightarrow> zcbor" where
  "advance s k = s\<lparr>payload_bak := payload s, payload := payload s + k, elem_count := elem_count s - 1\<rparr>"

lemma advance_fields [simp]:
  "payload (advance s k) = payload s + k"
  "payload_bak (advance s k) = payload s"
  "elem_count (advance s k) = elem_count s - 1"
  "payload_end (advance s k) = payload_end s"
  "mem (advance s k) = mem s"
  "backup_list (advance s k) = backup_list s"
  "num_backups (advance s k) = num_backups s"
  "indefinite_length_array (advance s k) = indefinite_length_array s"
  "enforce_canonical (advance s k) = enforce_canonical s"
  "payload_moved (advance s k) = payload_moved s"
  "zerror (advance s k) = zerror s"
  by (simp_all add: advance_def)

lemma value_extract_cases:
  obtains (fail) err where "value_extract s n ila = (None, zcbor_error err s)"
  | (ok) v i k where "value_extract s n ila = (Some (v, i), advance s k)"
      "0 < k" "payload s + k \<le> payload_end s" "elem_count s \<noteq> 0"
proof (cases "fst (value_extract s n ila)")
  case None
  then have "\<exists>err. value_extract s n ila = (None, zcbor_error err s)"
    by (auto simp: value_extract_def initial_checks_def Let_def split: if_splits)
  then show ?thesis using fail by blast
next
  case (Some r)
  let ?s' = "snd (value_extract s n ila)"
  have "?s' = advance s (payload ?s' - payload s) \<and> payload s < payload ?s' \<and>
      payload ?s' \<le> payload_end s \<and> elem_count s \<noteq> 0"
    using Some
    by (auto simp: value_extract_def initial_checks_def Let_def advance_def split: if_splits)
  then have "value_extract s n ila = (Some (fst r, snd r), advance s (payload ?s' - payload s))"
    and "0 < payload ?s' - payload s" and "payload s + (payload ?s' - payload s) \<le> payload_end s"
    and "elem_count s \<noteq> 0"
    using Some by (simp_all add: prod_eq_iff)
  then show ?thesis using ok by blast
qed

lemma type_check_cases:
  obtains (fail) err where "type_check s m = (False, zcbor_error err s)"
  | (ok) "type_check s m = (True, s)" "payload s < payload_end s" "ZCBOR_MAJOR_TYPE (header_at s) = m"
  by (cases "fst (type_check s m)")
    (auto simp: type_check_def initial_checks_def split: if_splits)

lemma tag_decode_cases:
  obtains (fail) err where "zcbor_tag_decode s = (None, zcbor_error err s)"
  | (ok) tag k where "zcbor_tag_decode s = (Some tag, (advance s k)\<lparr>elem_count := elem_count s\<rparr>)"
      "0 < k" "payload s + k \<le> payload_end s"
proof (cases rule: type_check_cases[of s ZCBOR_MAJOR_TYPE_TAG])
  case (fail err)
  then show ?thesis using that by (simp add: zcbor_tag_decode_def)
next
  case tc: ok
  show ?thesis
  proof (cases rule: value_extract_cases[of s 4 False])
    case (fail err)
    then show ?thesis using that tc by (simp add: zcbor_tag_decode_def)
  next
    case (ok v i k)
    then show ?thesis using that(2) tc by (simp add: zcbor_tag_decode_def)
  qed
qed

text \<open>
  The loop of \<open>zcbor_any_skip\<close> over leading tags. It works on the copy of the state, whose
  \<open>constant_state\<close> (and with it the error code) is shared with the original.
\<close>

function skip_tags :: "zcbor \<Rightarrow> bool \<times> zcbor" where
  "skip_tags s =
     (if ZCBOR_MAJOR_TYPE (header_at s) = ZCBOR_MAJOR_TYPE_TAG
      then case zcbor_tag_decode s of
          (None, s) \<Rightarrow> (False, s)
        | (Some _, s) \<Rightarrow>
            if payload s \<ge> payload_end s then (False, zcbor_error ZCBOR_ERR_NO_PAYLOAD s)
            else skip_tags s
      else (True, s))"
  by pat_completeness auto
termination
proof (relation "measure (\<lambda>s. payload_end s - payload s)")
  fix s a s' r
  assume "(a, s') = zcbor_tag_decode s" and "a = Some r" and "\<not> payload_end s' \<le> payload s'"
  then show "(s', s) \<in> measure (\<lambda>s. payload_end s - payload s)"
    by (cases rule: tag_decode_cases[of s]) auto
qed simp

declare skip_tags.simps [simp del]

definition share_error :: "zcbor \<Rightarrow> zcbor \<Rightarrow> zcbor" where
  "share_error c s = s\<lparr>zerror := zerror c\<rparr>"

definition skip_commit :: "zcbor \<Rightarrow> zcbor \<Rightarrow> bool \<times> zcbor" where
  "skip_commit s c = (True, share_error c (s\<lparr>payload := payload c, elem_count := elem_count s - 1\<rparr>))"

text \<open>
  \<open>zcbor_any_skip\<close> recurses into lists and maps; \<open>skip_elems\<close> is its inner loop. \<open>None\<close> means that
  the fuel did not suffice to see the call return. The overflow check of a string is made on the
  original state, whose payload still points at the header, as in the code.
\<close>

fun zcbor_any_skip :: "nat \<Rightarrow> zcbor \<Rightarrow> (bool \<times> zcbor) option"
  and skip_elems :: "nat \<Rightarrow> zcbor \<Rightarrow> (bool \<times> zcbor) option" where
  "zcbor_any_skip 0 s = None"
| "zcbor_any_skip (Suc fuel) s =
     (case initial_checks s of
        (False, s) \<Rightarrow> Some (False, s)
      | (True, s) \<Rightarrow>
        (case skip_tags s of
           (False, c) \<Rightarrow> Some (False, share_error c s)
         | (True, c) \<Rightarrow>
           let major_type = ZCBOR_MAJOR_TYPE (header_at c);
               container = (major_type = ZCBOR_MAJOR_TYPE_MAP \<or> major_type = ZCBOR_MAJOR_TYPE_LIST) in
           (case value_extract c 8 container of
              (None, c) \<Rightarrow> Some (False, share_error c s)
            | (Some (val, ila), c) \<Rightarrow>
              if major_type = ZCBOR_MAJOR_TYPE_BSTR \<or> major_type = ZCBOR_MAJOR_TYPE_TSTR
              then (case str_overflow_check s val of
                      (False, s) \<Rightarrow> Some (False, s)
                    | (True, s) \<Rightarrow> Some (skip_commit s (c\<lparr>payload := payload c + unat val\<rparr>)))
              else if major_type = ZCBOR_MAJOR_TYPE_MAP \<and> val > ZCBOR_MAX_ELEM_COUNT div 2
              then Some (False, zcbor_error ZCBOR_ERR_INT_SIZE s)
              else if container
              then let val = (if major_type = ZCBOR_MAJOR_TYPE_MAP then val * 2 else val);
                       val = (if ila then ZCBOR_LARGE_ELEM_COUNT else val) in
                   (case skip_elems fuel (c\<lparr>elem_count := val, indefinite_length_array := ila\<rparr>) of
                      None \<Rightarrow> None
                    | Some (False, c) \<Rightarrow> Some (False, share_error c s)
                    | Some (True, c) \<Rightarrow>
                        if ila
                        then (case array_end_expect c of
                                (False, c) \<Rightarrow> Some (False, share_error c s)
                              | (True, c) \<Rightarrow> Some (skip_commit s c))
                        else Some (skip_commit s c))
              else Some (skip_commit s c))))"
| "skip_elems 0 c = None"
| "skip_elems (Suc fuel) c =
     (if zcbor_array_at_end c then Some (True, c)
      else case zcbor_any_skip fuel c of
          None \<Rightarrow> None
        | Some (False, c) \<Rightarrow> Some (False, c)
        | Some (True, c) \<Rightarrow> skip_elems fuel c)"

section \<open>Skipping moves forward and returns\<close>


lemma skip_tags_frame:
  "payload_end (snd (skip_tags s)) = payload_end s \<and> payload s \<le> payload (snd (skip_tags s)) \<and>
   mem (snd (skip_tags s)) = mem s \<and>
   (payload s < payload_end s \<longrightarrow> fst (skip_tags s) \<longrightarrow> payload (snd (skip_tags s)) < payload_end s)"
proof (induction s rule: skip_tags.induct)
  case (1 s)
  show ?case
  proof (cases rule: tag_decode_cases[of s])
    case (fail err)
    then show ?thesis by (simp add: skip_tags.simps[of s] zcbor_error_def)
  next
    case (ok tag k)
    let ?s = "(advance s k)\<lparr>elem_count := elem_count s\<rparr>"
    note IH = 1[OF _ ok(1)[symmetric] refl]
    show ?thesis
      using IH ok by (auto simp: skip_tags.simps[of s] zcbor_error_def split: if_splits)
  qed
qed

lemma array_end_expect_cases:
  obtains (fail) err where "array_end_expect s = (False, zcbor_error err s)"
  | (ok) "array_end_expect s = (True, s\<lparr>payload := payload s + 1\<rparr>)" "payload s < payload_end s"
  by (cases "fst (array_end_expect s)") (auto simp: array_end_expect_def initial_checks_def split: if_splits)


lemma any_skip_start:
  "zcbor_any_skip (Suc fuel) s = Some (b, s') \<Longrightarrow> b \<Longrightarrow> payload s < payload_end s"
  by (auto simp: initial_checks_def split: if_splits)

lemma any_skip_header:
  assumes "\<And>v i c k. payload s < payload_end s \<Longrightarrow> skip_tags s = (True, c) \<Longrightarrow>
      value_extract c 8 (ZCBOR_MAJOR_TYPE (header_at c) = ZCBOR_MAJOR_TYPE_MAP \<or>
        ZCBOR_MAJOR_TYPE (header_at c) = ZCBOR_MAJOR_TYPE_LIST) = (Some (v, i), advance c k) \<Longrightarrow>
      0 < k \<Longrightarrow> payload c + k \<le> payload_end s \<Longrightarrow> payload s \<le> payload c \<Longrightarrow>
      payload_end c = payload_end s \<Longrightarrow> P"
    and "\<And>err. (\<And>fuel. zcbor_any_skip (Suc fuel) s = Some (False, zcbor_error err s)) \<Longrightarrow> P"
  shows P
proof (cases "payload s < payload_end s")
  case False
  then show ?thesis using assms(2)[of ZCBOR_ERR_NO_PAYLOAD] by (simp add: initial_checks_def)
next
  case True
  then have ini: "initial_checks s = (True, s)" by (simp add: initial_checks_def)
  obtain tb c where tags: "skip_tags s = (tb, c)" by (cases "skip_tags s")
  have c: "payload_end c = payload_end s" "payload s \<le> payload c"
    using skip_tags_frame[of s] tags by simp_all
  let ?cont = "ZCBOR_MAJOR_TYPE (header_at c) = ZCBOR_MAJOR_TYPE_MAP \<or>
    ZCBOR_MAJOR_TYPE (header_at c) = ZCBOR_MAJOR_TYPE_LIST"
  have failed: "zcbor_any_skip (Suc fuel) s = Some (False, zcbor_error (zerror c) s)" if "\<not> tb" for fuel
    using that ini tags by (simp add: share_error_def zcbor_error_def)
  show ?thesis
  proof (cases rule: value_extract_cases[of c 8 ?cont])
    case (fail err)
    then have "zcbor_any_skip (Suc fuel) s = Some (False, zcbor_error err s)" if tb for fuel
      using that ini tags by (simp add: share_error_def zcbor_error_def)
    then show ?thesis using assms(2) failed by blast
  next
    case (ok v i k)
    then show ?thesis
      using assms(1)[OF True _ ok(1)] assms(2) failed tags c by (cases tb) auto
  qed
qed

lemma any_skip_value [consumes 3, case_names str big container plain]:
  assumes "payload s < payload_end s" and "skip_tags s = (True, c)"
    and "value_extract c 8 (ZCBOR_MAJOR_TYPE (header_at c) = ZCBOR_MAJOR_TYPE_MAP \<or>
        ZCBOR_MAJOR_TYPE (header_at c) = ZCBOR_MAJOR_TYPE_LIST) = (Some (v, i), c')"
  obtains (str) "ZCBOR_MAJOR_TYPE (header_at c) = ZCBOR_MAJOR_TYPE_BSTR \<or>
        ZCBOR_MAJOR_TYPE (header_at c) = ZCBOR_MAJOR_TYPE_TSTR"
      "zcbor_any_skip (Suc fuel) s =
        Some (case str_overflow_check s v of (False, s) \<Rightarrow> (False, s)
         | (True, s) \<Rightarrow> skip_commit s (c'\<lparr>payload := payload c' + unat v\<rparr>))"
  | (big) "ZCBOR_MAJOR_TYPE (header_at c) = ZCBOR_MAJOR_TYPE_MAP"
      "zcbor_any_skip (Suc fuel) s = Some (False, zcbor_error ZCBOR_ERR_INT_SIZE s)"
  | (container) n where
      "zcbor_any_skip (Suc fuel) s =
        (case skip_elems fuel (c'\<lparr>elem_count := n, indefinite_length_array := i\<rparr>) of
            None \<Rightarrow> None
          | Some (False, c) \<Rightarrow> Some (False, share_error c s)
          | Some (True, c) \<Rightarrow>
             Some (if i then case array_end_expect c of (False, c) \<Rightarrow> (False, share_error c s)
                        | (True, c) \<Rightarrow> skip_commit s c
                   else skip_commit s c))"
  | (plain) "zcbor_any_skip (Suc fuel) s = Some (skip_commit s c')"
proof -
  have ini: "initial_checks s = (True, s)" using assms by (simp add: initial_checks_def)
  note eq = assms(2,3) ini
  show ?thesis
  proof (cases "ZCBOR_MAJOR_TYPE (header_at c)")
    case ZCBOR_MAJOR_TYPE_PINT
    then show ?thesis using plain eq by simp
  next
    case ZCBOR_MAJOR_TYPE_NINT
    then show ?thesis using plain eq by simp
  next
    case ZCBOR_MAJOR_TYPE_TAG
    then show ?thesis using plain eq by simp
  next
    case ZCBOR_MAJOR_TYPE_SIMPLE
    then show ?thesis using plain eq by simp
  next
    case ZCBOR_MAJOR_TYPE_BSTR
    then show ?thesis using str eq by (simp split: prod.splits bool.splits)
  next
    case ZCBOR_MAJOR_TYPE_TSTR
    then show ?thesis using str eq by (simp split: prod.splits bool.splits)
  next
    case ZCBOR_MAJOR_TYPE_LIST
    show ?thesis
      by (rule container[of "if i then ZCBOR_LARGE_ELEM_COUNT else v"])
        (use ZCBOR_MAJOR_TYPE_LIST eq in \<open>simp split: prod.split option.split bool.split\<close>)
  next
    case ZCBOR_MAJOR_TYPE_MAP
    show ?thesis
    proof (cases "v > ZCBOR_MAX_ELEM_COUNT div 2")
      case True
      then show ?thesis using big eq ZCBOR_MAJOR_TYPE_MAP by simp
    next
      case False
      show ?thesis
        by (rule container[of "if i then ZCBOR_LARGE_ELEM_COUNT else v * 2"])
          (use ZCBOR_MAJOR_TYPE_MAP eq False in \<open>simp split: prod.split option.split bool.split\<close>)
    qed
  qed
qed

text \<open>A successful skip moves the payload pointer forward; no skip touches the end pointer.\<close>

definition skip_forward :: "nat \<Rightarrow> bool" where
  "skip_forward fuel \<longleftrightarrow>
     (\<forall>s b s'. zcbor_any_skip fuel s = Some (b, s') \<longrightarrow>
        payload_end s' = payload_end s \<and> (b \<longrightarrow> payload s < payload s')) \<and>
     (\<forall>c b c'. skip_elems fuel c = Some (b, c') \<longrightarrow>
        payload_end c' = payload_end c \<and> (b \<longrightarrow> payload c \<le> payload c'))"

lemma any_skip_forward_Suc:
  assumes IH: "skip_forward fuel" and run: "zcbor_any_skip (Suc fuel) s = Some (b, s')"
  shows "payload_end s' = payload_end s \<and> (b \<longrightarrow> payload s < payload s')"
proof (rule any_skip_header[where s = s])
  fix err assume "\<And>fuel. zcbor_any_skip (Suc fuel) s = Some (False, zcbor_error err s)"
  with run show ?thesis by (auto simp: zcbor_error_def)
next
  fix v i c k
  assume h: "payload s < payload_end s" "skip_tags s = (True, c)"
    "value_extract c 8 (ZCBOR_MAJOR_TYPE (header_at c) = ZCBOR_MAJOR_TYPE_MAP \<or>
        ZCBOR_MAJOR_TYPE (header_at c) = ZCBOR_MAJOR_TYPE_LIST) = (Some (v, i), advance c k)"
    and k: "0 < k" "payload s \<le> payload c" "payload_end c = payload_end s"
  show ?thesis
  using h proof (cases rule: any_skip_value[where fuel = fuel])
    case str
    then show ?thesis using run k
      by (auto simp: str_overflow_check_def err_restore_def zcbor_error_def skip_commit_def share_error_def
          split: if_splits)
  next
    case big
    then show ?thesis using run by (auto simp: zcbor_error_def)
  next
    case plain
    then show ?thesis using run k by (auto simp: skip_commit_def share_error_def)
  next
    case (container n)
    let ?c = "(advance c k)\<lparr>elem_count := n, indefinite_length_array := i\<rparr>"
    obtain b' c' where r: "skip_elems fuel ?c = Some (b', c')"
      using container run by (cases "skip_elems fuel ?c") auto
    have c': "b' \<longrightarrow> payload s < payload c'"
      using IH r k unfolding skip_forward_def by fastforce
    show ?thesis
      using c' container r run
      by (cases b'; cases rule: array_end_expect_cases[of c'])
        (auto simp: skip_commit_def share_error_def split: if_splits)
  qed
qed

lemma skip_forward: "skip_forward fuel"
proof (induction fuel)
  case 0
  then show ?case by (simp add: skip_forward_def)
next
  case (Suc fuel)
  have "payload_end c' = payload_end c \<and> (b \<longrightarrow> payload c \<le> payload c')"
    if "skip_elems (Suc fuel) c = Some (b, c')" for c b c'
    using that Suc unfolding skip_forward_def
    by (auto split: if_splits option.splits prod.splits bool.splits) (fastforce dest: less_imp_le)+
  then show ?case
    using any_skip_forward_Suc[OF Suc] by (auto simp: skip_forward_def simp del: zcbor_any_skip.simps skip_elems.simps)
qed

lemma any_skip_returns:
  "(\<forall>s. 2 * (payload_end s - payload s) < fuel \<longrightarrow> zcbor_any_skip fuel s \<noteq> None) \<and>
   (\<forall>c. 2 * (payload_end c - payload c) + 1 < fuel \<longrightarrow> skip_elems fuel c \<noteq> None)"
proof (induction fuel)
  case 0
  then show ?case by simp
next
  case (Suc fuel)
  have "zcbor_any_skip (Suc fuel) s \<noteq> None" if enough: "2 * (payload_end s - payload s) < Suc fuel" for s
  proof (rule any_skip_header[where s = s])
    fix err assume "\<And>fuel. zcbor_any_skip (Suc fuel) s = Some (False, zcbor_error err s)"
    then show ?thesis by simp
  next
    fix v i c k
    assume h: "payload s < payload_end s" "skip_tags s = (True, c)"
      "value_extract c 8 (ZCBOR_MAJOR_TYPE (header_at c) = ZCBOR_MAJOR_TYPE_MAP \<or>
          ZCBOR_MAJOR_TYPE (header_at c) = ZCBOR_MAJOR_TYPE_LIST) = (Some (v, i), advance c k)"
      and k: "0 < k" "payload s \<le> payload c" "payload_end c = payload_end s"
    show ?thesis
    using h proof (cases rule: any_skip_value[where fuel = fuel])
      case (container n)
      have "skip_elems fuel ((advance c k)\<lparr>elem_count := n, indefinite_length_array := i\<rparr>) \<noteq> None"
        using Suc enough h(1) k by simp
      then show ?thesis using container by (auto split: bool.splits)
    qed simp_all
  qed
  moreover have "skip_elems (Suc fuel) c \<noteq> None"
    if enough: "2 * (payload_end c - payload c) + 1 < Suc fuel" for c
  proof (cases "zcbor_array_at_end c")
    case True
    then show ?thesis by simp
  next
    case False
    have "zcbor_any_skip fuel c \<noteq> None" using Suc enough by simp
    then obtain b c' where skip: "zcbor_any_skip fuel c = Some (b, c')" by auto
    show ?thesis
    proof (cases b)
      case b: True
      then have "payload c < payload_end c"
        using skip any_skip_start by (cases fuel) auto
      moreover have "payload_end c' = payload_end c" "payload c < payload c'"
        using skip_forward[of fuel] skip b unfolding skip_forward_def by blast+
      ultimately have "2 * (payload_end c' - payload c') + 1 < fuel"
        using enough by linarith
      then show ?thesis using Suc b skip False by simp
    qed (simp add: skip False)
  qed
  ultimately show ?case by blast
qed

lemma skip_elems_mono_step:
  assumes "\<And>c r. skip_elems f c = Some r \<Longrightarrow> skip_elems g c = Some r"
    and "zcbor_any_skip (Suc f) s = Some r"
  shows "zcbor_any_skip (Suc g) s = Some r"
proof (rule any_skip_header[where s = s])
  fix err assume "\<And>fuel. zcbor_any_skip (Suc fuel) s = Some (False, zcbor_error err s)"
  with assms(2) show ?thesis by simp
next
  fix v i c k
  assume h: "payload s < payload_end s" "skip_tags s = (True, c)"
    "value_extract c 8 (ZCBOR_MAJOR_TYPE (header_at c) = ZCBOR_MAJOR_TYPE_MAP \<or>
        ZCBOR_MAJOR_TYPE (header_at c) = ZCBOR_MAJOR_TYPE_LIST) = (Some (v, i), advance c k)"
  then have ini: "initial_checks s = (True, s)" by (simp add: initial_checks_def)
  show ?thesis
    using assms(2) h(2,3) ini
    by (cases "ZCBOR_MAJOR_TYPE (header_at c)")
      (auto simp: Let_def dest: assms(1) split: if_splits option.splits prod.splits bool.splits)
qed

lemma skip_mono_Suc:
  "(\<forall>s r. zcbor_any_skip fuel s = Some r \<longrightarrow> zcbor_any_skip (Suc fuel) s = Some r) \<and>
   (\<forall>c r. skip_elems fuel c = Some r \<longrightarrow> skip_elems (Suc fuel) c = Some r)"
proof (induction fuel)
  case 0
  then show ?case by simp
next
  case (Suc fuel)
  have "zcbor_any_skip (Suc (Suc fuel)) s = Some r" if "zcbor_any_skip (Suc fuel) s = Some r" for s r
    using that Suc by (intro skip_elems_mono_step[of fuel "Suc fuel"]) blast+
  moreover have "skip_elems (Suc (Suc fuel)) c = Some r" if run: "skip_elems (Suc fuel) c = Some r" for c r
  proof (cases "zcbor_array_at_end c")
    case True
    then show ?thesis using run by simp
  next
    case False
    then obtain b c' where skip: "zcbor_any_skip fuel c = Some (b, c')"
      using run by (cases "zcbor_any_skip fuel c") auto
    then have "zcbor_any_skip (Suc fuel) c = Some (b, c')" using Suc by blast
    moreover have "b \<Longrightarrow> skip_elems (Suc fuel) c' = Some r"
    proof -
      assume b
      then have "skip_elems fuel c' = Some r" using run skip False by simp
      then show ?thesis using Suc by blast
    qed
    ultimately show ?thesis
      using run skip False by (cases b) (auto simp del: zcbor_any_skip.simps skip_elems.simps
          simp: skip_elems.simps(2)[of "Suc fuel" c] skip_elems.simps(2)[of fuel c])
  qed
  ultimately show ?case by blast
qed

lemma any_skip_mono:
  assumes "zcbor_any_skip f s = Some r" and "f \<le> g"
  shows "zcbor_any_skip g s = Some r"
  using assms(2,1)
proof (induction g rule: dec_induct)
  case base
  then show ?case .
next
  case (step n)
  then show ?case using skip_mono_Suc[of n] by blast
qed

text \<open>
  C27. \<open>zcbor_any_skip\<close> returns on every input, whatever the nesting and the announced lengths:
  recursion and inner loop are bounded by the bytes left. It does not move \<open>payload_end\<close>, and when
  it succeeds it has moved the payload pointer forward.
\<close>

theorem any_skip_total:
  assumes "2 * (payload_end s - payload s) < fuel"
  shows "\<exists>ok s'. zcbor_any_skip fuel s = Some (ok, s') \<and> payload_end s' = payload_end s \<and>
    (ok \<longrightarrow> payload s < payload s')"
proof -
  obtain ok s' where r: "zcbor_any_skip fuel s = Some (ok, s')"
    using any_skip_returns[of fuel] assms by fast
  then show ?thesis using skip_forward[of fuel] unfolding skip_forward_def by blast
qed

theorem any_skip_total_witness:
  "\<exists>ok s'. zcbor_any_skip 7
      (zcbor_new_decode_state (zcbor_state.make 0 0 0 0 False False False 0 0 0) 8 [0x82, 0x01, 0x02] 0 3 1) = Some (ok, s') \<and>
    payload_end s' = 3"
  using any_skip_total[of "zcbor_new_decode_state (zcbor_state.make 0 0 0 0 False False False 0 0 0) 8 [0x82, 0x01, 0x02] 0 3 1" 7]
  by (auto simp: zcbor_new_decode_state_def)

text \<open>
  The overflow check for a skipped string compares its length with the bytes left before the
  header instead of after it. On the two bytes \<open>62 41\<close> (a text string of two bytes of which only one
  is there) \<open>zcbor_any_skip\<close> succeeds and leaves the payload pointer one byte behind \<open>payload_end\<close>.
\<close>

lemma any_skip_passes_end:
  "map_option (\<lambda>(ok, s'). (ok, payload s', payload_end s'))
     (zcbor_any_skip 5 (zcbor_new_decode_state (zcbor_state.make 0 0 0 0 False False False 0 0 0) 8 [0x62, 0x41] 0 2 1))
   = Some (True, 3, 2)"
  by code_simp

section \<open>Reading back what an encoder wrote\<close>

text \<open>\<open>coming s bs\<close>: the next bytes before the end of the payload are \<open>bs\<close>.\<close>

definition coming :: "zcbor \<Rightarrow> bytes \<Rightarrow> bool" where
  "coming s bs \<longleftrightarrow> payload_end s \<le> length (mem s) \<and> payload s + length bs \<le> payload_end s \<and>
     take (length bs) (drop (payload s) (mem s)) = bs"

lemma coming_append: "coming s (as @ bs) \<longleftrightarrow> coming s as \<and> coming (s\<lparr>payload := payload s + length as\<rparr>) bs"
  by (auto simp: coming_def take_add append_eq_conv_conj add.commute min_def)

lemma coming_more:
  assumes "payload s' = payload s" "payload_end s' = payload_end s" "mem s' = mem s"
  shows "coming s' bs \<longleftrightarrow> coming s bs"
  using assms by (simp add: coming_def)

lemma coming_hd:
  assumes "coming s (b # bs)"
  shows "header_at s = b" and "payload s < payload_end s"
proof -
  have l: "payload s < length (mem s)" using assms by (simp add: coming_def)
  have "take (Suc (length bs)) (drop (payload s) (mem s)) = b # bs"
    using assms by (simp add: coming_def)
  then show "header_at s = b" using l by (simp add: header_at_def flip: Cons_nth_drop_Suc)
  show "payload s < payload_end s" using assms by (simp add: coming_def)
qed

end
