(* ===== verification/Zcbor_Roundtrip.thy ===== *)
theory Zcbor_Roundtrip
  imports Zcbor_Encode Zcbor_Decode
begin

text \<open>
  The decoder reads back what the encoder writes: for every item the encoder can append, the
  decoder function of that type returns the value and moves just past it. These lemmas carry the
  round trips of \<open>Serialization\<close> and of the request and response formats.
\<close>

lemma cbor_head_form:
  obtains a k where "cbor_head m v = header_byte m a # be_bytes k v" "a \<le> 27" "additional_len a = k"
    "k = zcbor_header_len v - 1" "if k = 0 then ucast a = v else take_bit (8 * k) v = v"
proof -
  have n: "unat v < 2 ^ j \<Longrightarrow> take_bit j v = v" for j by (rule take_bit_u64_id)
  consider "v < 24" | "24 \<le> v" "v < 2 ^ 8" | "2 ^ 8 \<le> v" "v < 2 ^ 16" | "2 ^ 16 \<le> v" "v < 2 ^ 32" | "2 ^ 32 \<le> v"
    using not_le by blast
  then show ?thesis
  proof cases
    case 1
    then have "unat v < 24" by (simp add: word_less_nat_alt)
    then have "unat (ucast v :: u8) = unat v" by (simp add: unsigned_ucast_eq take_bit_nat_eq_self)
    then have "(ucast v :: u8) \<le> 23" "ucast (ucast v :: u8) = v"
      using \<open>unat v < 24\<close> by (simp_all add: word_le_nat_alt word_unat_eq_iff)
    then show ?thesis
      using 1 by (intro that[of "ucast v" 0])
        (auto simp: cbor_head_def additional_len_def zcbor_header_len_def word_le_nat_alt word_less_nat_alt)
  next
    case 2
    then show ?thesis
      by (intro that[of 24 1])
        (auto simp: cbor_head_def additional_len_def zcbor_header_len_def word_le_nat_alt word_less_nat_alt intro!: n)
  next
    case 3
    then show ?thesis
      by (intro that[of 25 2])
        (auto simp: cbor_head_def additional_len_def zcbor_header_len_def word_le_nat_alt word_less_nat_alt intro!: n)
  next
    case 4
    then show ?thesis
      by (intro that[of 26 4])
        (auto simp: cbor_head_def additional_len_def zcbor_header_len_def word_le_nat_alt word_less_nat_alt intro!: n)
  next
    case 5
    then show ?thesis
      by (intro that[of 27 8])
        (auto simp: cbor_head_def additional_len_def zcbor_header_len_def word_le_nat_alt word_less_nat_alt)
  qed
qed

lemma header_byte_fields:
  assumes "a \<le> 27"
  shows "ZCBOR_MAJOR_TYPE (header_byte m a) = m" and "ZCBOR_ADDITIONAL (header_byte m a) = a"
proof -
  have a: "a < 32" using assms by (simp add: word_le_nat_alt word_less_nat_alt)
  then have "a AND 0x1F = a" using header_fields(2)[OF a, of ZCBOR_MAJOR_TYPE_PINT]
    by (simp add: ZCBOR_ADDITIONAL_def and.assoc)
  then show "ZCBOR_MAJOR_TYPE (header_byte m a) = m" "ZCBOR_ADDITIONAL (header_byte m a) = a"
    using header_fields[OF a, of m] by (simp_all add: header_byte_def)
qed

lemma coming_be_bytes:
  assumes "coming s (b # be_bytes k v)"
  shows "take k (drop (Suc (payload s)) (mem s)) = be_bytes k v"
    and "payload s + k + 1 \<le> payload_end s"
proof -
  have l: "payload s < length (mem s)" using assms by (simp add: coming_def)
  have "take (Suc k) (drop (payload s) (mem s)) = b # be_bytes k v"
    using assms by (simp add: coming_def)
  then show "take k (drop (Suc (payload s)) (mem s)) = be_bytes k v"
    using l by (simp flip: Cons_nth_drop_Suc)
  show "payload s + k + 1 \<le> payload_end s" using assms by (simp add: coming_def)
qed

lemma head_major: "coming s (cbor_head m v) \<Longrightarrow> ZCBOR_MAJOR_TYPE (header_at s) = m \<and> payload s < payload_end s"
  by (rule cbor_head_form[of m v]) (auto simp: header_byte_fields dest: coming_hd)

lemma value_extract_head:
  assumes com: "coming s (cbor_head m v)" and e: "elem_count s \<noteq> 0" and nc: "\<not> enforce_canonical s"
    and n: "zcbor_header_len v - 1 \<le> n"
  shows "value_extract s n ila = (Some (v, False), advance s (length (cbor_head m v)))"
proof (rule cbor_head_form[of m v])
  fix a k
  assume f: "cbor_head m v = header_byte m a # be_bytes k v" "a \<le> 27" "additional_len a = k"
    "k = zcbor_header_len v - 1" "if k = 0 then ucast a = v else take_bit (8 * k) v = v"
  have com': "coming s (header_byte m a # be_bytes k v)" using com f(1) by simp
  have h: "ZCBOR_ADDITIONAL (header_at s) = a" "payload s < payload_end s"
    using coming_hd[OF com'] f(2) by (simp_all add: header_byte_fields)
  have "a \<noteq> 31" "\<not> a > 27" using f(2) by (auto simp: word_le_nat_alt word_less_nat_alt)
  moreover have "length (cbor_head m v) = Suc k" by (simp add: f(1))
  moreover have "be_word (be_bytes k v) = v" if "k \<noteq> 0"
    using f(5) that by (simp add: be_word_be_bytes)
  ultimately show ?thesis
    using h e nc n f(3,4,5) coming_be_bytes[OF com']
    by (auto simp: value_extract_def initial_checks_def endian_copy_def advance_def Let_def)
qed

section \<open>The state after an item\<close>

text \<open>
  \<open>consumed n k s s'\<close>: from \<open>s\<close> to \<open>s'\<close> the decoder has read \<open>n\<close> bytes and \<open>k\<close> items of the
  current list or map, and the enclosing containers are as they were. The error code and the
  temporary \<open>payload_bak\<close> may differ: failed attempts at other types leave traces there.
\<close>

definition consumed :: "nat \<Rightarrow> u64 \<Rightarrow> zcbor \<Rightarrow> zcbor \<Rightarrow> bool" where
  "consumed n k s s' \<longleftrightarrow>
     payload s' = payload s + n \<and> payload_end s' = payload_end s \<and> mem s' = mem s \<and>
     elem_count s' = elem_count s - k \<and> backup_list s' = backup_list s \<and>
     num_backups s' = num_backups s \<and> indefinite_length_array s' = indefinite_length_array s \<and>
     enforce_canonical s' = enforce_canonical s"

lemma consumed_refl [simp]: "consumed 0 0 s s"
  by (simp add: consumed_def)

lemma consumed_advance [simp]: "consumed n 1 s (advance s n)"
  by (simp add: consumed_def)

lemma consumed_trans: "consumed n k s s' \<Longrightarrow> consumed m l s' s'' \<Longrightarrow> consumed (n + m) (k + l) s s''"
  by (simp add: consumed_def)

lemma consumedD:
  assumes "consumed n k s s'"
  shows "payload s' = payload s + n" "payload_end s' = payload_end s" "mem s' = mem s"
    "elem_count s' = elem_count s - k" "backup_list s' = backup_list s" "num_backups s' = num_backups s"
    "indefinite_length_array s' = indefinite_length_array s" "enforce_canonical s' = enforce_canonical s"
  using assms by (simp_all add: consumed_def)

lemma coming_consumed:
  "coming s (as @ bs) \<Longrightarrow> consumed (length as) k s s' \<Longrightarrow> coming s' bs"
  using coming_append[of s as bs] by (auto simp: consumed_def coming_def)

lemma coming_appendD: "coming s (as @ bs) \<Longrightarrow> coming s as"
  by (simp add: coming_append)

section \<open>Integers and strings\<close>

lemma head_len_9: "zcbor_header_len v - 1 \<le> 8"
  by (simp add: zcbor_header_len_def)

lemma uint64_decode_head:
  assumes "coming s (cbor_head ZCBOR_MAJOR_TYPE_PINT v)" and "elem_count s \<noteq> 0" and "\<not> enforce_canonical s"
  shows "zcbor_uint64_decode s = (Some v, advance s (length (cbor_head ZCBOR_MAJOR_TYPE_PINT v)))"
  using assms head_major[OF assms(1)] value_extract_head[OF assms head_len_9, of False]
  by (simp add: zcbor_uint64_decode_def zcbor_uint_decode_def type_check_def initial_checks_def)

lemma int64_decode_head:
  assumes "coming s (cbor_head ZCBOR_MAJOR_TYPE_NINT (NOT v))" and "elem_count s \<noteq> 0"
    and "\<not> enforce_canonical s" and "bit v 63"
  shows "zcbor_int64_decode s = (Some v, advance s (length (cbor_head ZCBOR_MAJOR_TYPE_NINT (NOT v))))"
  using assms(4) head_major[OF assms(1)] value_extract_head[OF assms(1-3) head_len_9, of False]
  by (simp add: zcbor_int64_decode_def zcbor_int_decode_def initial_checks_def val_to_int_def bit_not_iff)

lemma str_decode_coming:
  assumes "coming s (cbor_str m bs)" and "elem_count s \<noteq> 0" and "\<not> enforce_canonical s"
    and "length bs < 2 ^ 64"
  obtains s' where "str_decode s m = (Some (payload s + length (cbor_head m (of_nat (length bs))), of_nat (length bs)), s')"
    "consumed (length (cbor_str m bs)) 1 s s'"
    "take (length bs) (drop (payload s + length (cbor_head m (of_nat (length bs)))) (mem s)) = bs"
proof -
  let ?h = "cbor_head m (of_nat (length bs))"
  have h: "coming s ?h" using assms(1) by (simp add: cbor_str_def coming_append)
  have b: "coming (advance s (length ?h)) bs"
    using coming_consumed[OF assms(1)[unfolded cbor_str_def] consumed_advance] .
  have l: "unat (of_nat (length bs) :: u64) = length bs"
    using assms(4) by (simp add: unat_of_nat take_bit_nat_eq_self)
  have "payload s + length ?h + length bs \<le> payload_end s" using b by (simp add: coming_def)
  then have room: "\<not> payload_end s - (payload s + length ?h) < length bs" by linarith
  have "str_decode s m = (Some (payload s + length ?h, of_nat (length bs)),
      (advance s (length ?h))\<lparr>payload := payload s + length ?h + length bs\<rparr>)"
    using head_major[OF h] value_extract_head[OF h assms(2,3) head_len_9, of False] room l
    by (simp add: str_decode_def str_start_decode_with_overflow_check_def str_start_decode_def
        type_check_def initial_checks_def str_overflow_check_def)
  moreover have "take (length bs) (drop (payload s + length ?h) (mem s)) = bs"
    using b by (simp add: coming_def)
  ultimately show ?thesis
    by (intro that) (auto simp: consumed_def cbor_str_def)
qed

section \<open>Simple values\<close>

lemma float64_decode_coming:
  assumes "coming s (0xFB # be_bytes 8 d)" and "elem_count s \<noteq> 0" and "\<not> enforce_canonical s"
  shows "zcbor_float64_decode s = (Some d, advance s 9)"
proof -
  have hb: "(0xFB :: u8) = header_byte ZCBOR_MAJOR_TYPE_SIMPLE 27" by (simp add: header_byte_def)
  have f: "ZCBOR_MAJOR_TYPE (0xFB) = ZCBOR_MAJOR_TYPE_SIMPLE" "ZCBOR_ADDITIONAL 0xFB = 27"
    unfolding hb by (rule header_byte_fields; simp)+
  show ?thesis
    using coming_hd[OF assms(1)] coming_be_bytes[OF assms(1)] assms(2,3) f
    by (simp add: zcbor_float64_decode_def float_check_def type_check_def initial_checks_def
        value_extract_def additional_len_def endian_copy_def advance_def be_word_be_bytes Let_def)
qed

lemma simple_decode_coming:
  assumes "coming s [header_byte ZCBOR_MAJOR_TYPE_SIMPLE a]" and "a < 24" and "elem_count s \<noteq> 0"
    and "\<not> enforce_canonical s"
  shows "zcbor_simple_decode s = (Some a, advance s 1)"
    and "zcbor_float64_decode s = (None, zcbor_error ZCBOR_ERR_FLOAT_SIZE s)"
proof -
  have a: "a \<le> 27" "\<not> 24 < a" "a \<noteq> 24" "a \<noteq> 27" "a \<noteq> 31" "\<not> 27 < a" "a \<le> 23"
    using assms(2) by (auto simp: word_le_nat_alt word_less_nat_alt)
  have h: "header_at s = header_byte ZCBOR_MAJOR_TYPE_SIMPLE a" "payload s < payload_end s"
    using coming_hd[OF assms(1)] by simp_all
  show "zcbor_simple_decode s = (Some a, advance s 1)"
    using h a assms(3,4) header_byte_fields[OF a(1)]
    by (simp add: zcbor_simple_decode_def type_check_def initial_checks_def value_extract_def
        additional_len_def advance_def Let_def)
  show "zcbor_float64_decode s = (None, zcbor_error ZCBOR_ERR_FLOAT_SIZE s)"
    using h a header_byte_fields[OF a(1)]
    by (simp add: zcbor_float64_decode_def float_check_def type_check_def initial_checks_def)
qed

lemma bool_decode_coming:
  assumes "coming s [if b then 0xF5 else 0xF4]" and "elem_count s \<noteq> 0" and "\<not> enforce_canonical s"
  shows "zcbor_float64_decode s = (None, zcbor_error ZCBOR_ERR_FLOAT_SIZE s)"
    and "zcbor_bool_decode (zcbor_error e s) = (Some b, advance (zcbor_error e s) 1)"
proof -
  let ?a = "if b then 21 else 20 :: u8"
  have hb: "(if b then 0xF5 else 0xF4 :: u8) = header_byte ZCBOR_MAJOR_TYPE_SIMPLE ?a"
    by (simp add: header_byte_def)
  have c: "coming s [header_byte ZCBOR_MAJOR_TYPE_SIMPLE ?a]" using assms(1) unfolding hb .
  show "zcbor_float64_decode s = (None, zcbor_error ZCBOR_ERR_FLOAT_SIZE s)"
    by (rule simple_decode_coming(2)[OF c]) (use assms in \<open>simp_all split: if_splits\<close>)
  have "coming (zcbor_error e s) [header_byte ZCBOR_MAJOR_TYPE_SIMPLE ?a]"
    using c by (simp add: coming_def zcbor_error_def)
  then have "zcbor_simple_decode (zcbor_error e s) = (Some ?a, advance (zcbor_error e s) 1)"
    by (rule simple_decode_coming(1)) (use assms in \<open>simp_all add: zcbor_error_def split: if_splits\<close>)
  then show "zcbor_bool_decode (zcbor_error e s) = (Some b, advance (zcbor_error e s) 1)"
    by (simp add: zcbor_bool_decode_def)
qed

lemma nil_decode_coming:
  assumes "coming s [0xF6]" and "elem_count s \<noteq> 0" and "\<not> enforce_canonical s"
  obtains s1 s' where "zcbor_float64_decode s = (None, zcbor_error ZCBOR_ERR_FLOAT_SIZE s)"
    "zcbor_bool_decode (zcbor_error ZCBOR_ERR_FLOAT_SIZE s) = (None, s1)"
    "zcbor_nil_expect s1 = (True, s')" "consumed 1 1 s s'"
proof -
  have hb: "(0xF6 :: u8) = header_byte ZCBOR_MAJOR_TYPE_SIMPLE 22" by (simp add: header_byte_def)
  have c: "coming s [header_byte ZCBOR_MAJOR_TYPE_SIMPLE 22]" using assms(1) unfolding hb .
  let ?e = "zcbor_error ZCBOR_ERR_FLOAT_SIZE s"
  have "coming ?e [header_byte ZCBOR_MAJOR_TYPE_SIMPLE 22]"
    using c by (simp add: coming_def zcbor_error_def)
  then have d1: "zcbor_simple_decode ?e = (Some 22, advance ?e 1)"
    by (rule simple_decode_coming(1)) (use assms in \<open>simp_all add: zcbor_error_def\<close>)
  let ?s1 = "err_restore (advance ?e 1) ZCBOR_ERR_WRONG_TYPE"
  have "coming ?s1 [header_byte ZCBOR_MAJOR_TYPE_SIMPLE 22]"
    using c by (simp add: coming_def zcbor_error_def err_restore_def)
  then have d2: "zcbor_simple_decode ?s1 = (Some 22, advance ?s1 1)"
    by (rule simple_decode_coming(1)) (use assms in \<open>simp_all add: zcbor_error_def err_restore_def\<close>)
  show ?thesis
  proof (rule that[of ?s1 "advance ?s1 1"])
    show "zcbor_float64_decode s = (None, ?e)"
      by (rule simple_decode_coming(2)[OF c]) (use assms in simp_all)
    show "zcbor_bool_decode ?e = (None, ?s1)"
      by (simp add: zcbor_bool_decode_def d1)
    show "zcbor_nil_expect ?s1 = (True, advance ?s1 1)"
      using d2 by (simp add: zcbor_nil_expect_def zcbor_simple_expect_def)
    show "consumed 1 1 s (advance ?s1 1)"
      by (simp add: consumed_def err_restore_def zcbor_error_def)
  qed
qed

section \<open>Lists and maps\<close>

text \<open>
  The state inside a container of indefinite length opened at \<open>s\<close>: one more backup, which holds
  the state just after the header.
\<close>

definition opened :: "zcbor \<Rightarrow> zcbor \<Rightarrow> bool" where
  "opened s s1 \<longleftrightarrow>
     payload s1 = payload s + 1 \<and> payload_end s1 = payload_end s \<and> mem s1 = mem s \<and>
     elem_count s1 = ZCBOR_LARGE_ELEM_COUNT \<and> num_backups s1 = num_backups s \<and>
     enforce_canonical s1 = enforce_canonical s \<and> indefinite_length_array s1 \<and>
     (\<exists>b. backup_list s1 = backup_list s @ [b] \<and> payload_end b = payload_end s \<and>
          elem_count b = elem_count s - 1 \<and> indefinite_length_array b = indefinite_length_array s)"

lemma coming_opened: "coming s (b # bs) \<Longrightarrow> opened s s1 \<Longrightarrow> coming s1 bs"
  using coming_append[of s "[b]" bs] by (auto simp: opened_def coming_def)

lemma list_map_start_coming:
  assumes "coming s [header_byte m 31]" and "elem_count s \<noteq> 0" and "\<not> enforce_canonical s"
    and "length (backup_list s) < num_backups s"
  obtains s1 where "list_map_start_decode s m = (True, s1)" "opened s s1"
proof -
  have "ZCBOR_MAJOR_TYPE (header_byte m 31) = m" "ZCBOR_ADDITIONAL (header_byte m 31) = 31"
    using header_fields[of 31 m] by (simp_all add: header_byte_def)
  then have "\<exists>s1. list_map_start_decode s m = (True, s1) \<and> opened s s1"
    using coming_hd[OF assms(1)] assms(2-4)
    by (simp add: list_map_start_decode_def type_check_def initial_checks_def value_extract_def
        zcbor_new_backup_def exit_map_def opened_def zcbor_state.defs Let_def)
  then show ?thesis using that by blast
qed

lemma list_start_coming:
  assumes "coming s [0x9F]" and "elem_count s \<noteq> 0" and "\<not> enforce_canonical s"
    and "length (backup_list s) < num_backups s"
  obtains s1 where "zcbor_list_start_decode s = (True, s1)" "opened s s1"
proof -
  have "(0x9F :: u8) = header_byte ZCBOR_MAJOR_TYPE_LIST 31" by (simp add: header_byte_def)
  then show ?thesis
    using list_map_start_coming[of s ZCBOR_MAJOR_TYPE_LIST] assms that
    by (auto simp: zcbor_list_start_decode_def)
qed

lemma map_start_coming:
  assumes "coming s [0xBF]" and "elem_count s \<noteq> 0" and "\<not> enforce_canonical s"
    and "length (backup_list s) < num_backups s"
  obtains s1 where "zcbor_map_start_decode s = (True, s1)" "opened s s1"
proof -
  have "(0xBF :: u8) = header_byte ZCBOR_MAJOR_TYPE_MAP 31" by (simp add: header_byte_def)
  then obtain s1 where s1: "list_map_start_decode s ZCBOR_MAJOR_TYPE_MAP = (True, s1)" "opened s s1"
    using list_map_start_coming[of s ZCBOR_MAJOR_TYPE_MAP] assms by auto
  then show ?thesis using that[of s1] by (simp add: zcbor_map_start_decode_def opened_def)
qed

lemma array_at_end_break:
  "indefinite_length_array s \<Longrightarrow> coming s [0xFF] \<Longrightarrow> zcbor_array_at_end s"
  by (auto simp: zcbor_array_at_end_def dest: coming_hd)

lemma array_not_at_end:
  "indefinite_length_array s \<Longrightarrow> coming s (b # bs) \<Longrightarrow> b \<noteq> 0xFF \<Longrightarrow> \<not> zcbor_array_at_end s"
  by (auto simp: zcbor_array_at_end_def dest: coming_hd)

lemma list_map_end_coming:
  assumes op: "opened s s1" and con: "consumed n k s1 s2" and com: "coming s2 [0xFF]"
    and room: "length (backup_list s) < num_backups s"
  obtains s' where "list_map_end_decode s2 = (True, s')" "consumed (n + 2) 1 s s'"
proof -
  obtain b where b: "backup_list s1 = backup_list s @ [b]" "payload_end b = payload_end s"
      "elem_count b = elem_count s - 1" "indefinite_length_array b = indefinite_length_array s"
    using op by (auto simp: opened_def)
  note f = consumedD[OF con]
  have ne: "\<not> elem_count s2 > ZCBOR_MAX_ELEM_COUNT" by (simp add: not_less word_le_nat_alt)
  let ?r = "(restore_state b s2)\<lparr>backup_list := backup_list s, payload := payload s2\<rparr>"
  have "zcbor_process_backup s2 \<lparr>flag_restore = True, flag_consume = True, flag_keep_payload = True,
      flag_keep_decode_state = False\<rparr> ZCBOR_MAX_ELEM_COUNT = (True, ?r)"
    using ne b op room f
    by (simp add: zcbor_process_backup_def zcbor_process_backup_num_def opened_def nth_append Let_def)
  moreover have "array_end_expect ?r = (True, ?r\<lparr>payload := payload s2 + 1\<rparr>)"
    using coming_hd[OF com] b op f
    by (simp add: array_end_expect_def initial_checks_def header_at_def opened_def)
  moreover have "indefinite_length_array s2" using op f by (simp add: opened_def)
  ultimately have "list_map_end_decode s2 = (True, ?r\<lparr>payload := payload s2 + 1\<rparr>)"
    by (simp add: list_map_end_decode_def Let_def)
  then show ?thesis
  proof (rule that)
    show "consumed (n + 2) 1 s (?r\<lparr>payload := payload s2 + 1\<rparr>)"
      using b op f by (simp add: consumed_def opened_def)
  qed
qed

end
