(* ===== verification/Serialization.thy ===== *)
theory Serialization
  imports Coreconf_Types Zcbor_Roundtrip
begin

text \<open>
  \<open>src/src/serialization.c\<close>: CORECONF values to CBOR and back. The encoder follows the recursion of
  the code, through \<open>iterateCoreconfHashMap\<close> and its callback. The decoder's loops may fail to
  return, so \<open>cborToCoreconfValue\<close>, \<open>_parse_array\<close> and \<open>_parse_map\<close> take fuel, and \<open>None\<close> means that
  the call has not returned within it.
\<close>

section \<open>Encoding\<close>

lemma object_size:
  "(k, v) \<in> set (hm_objects hm) \<Longrightarrow> size v < size (CORECONF_HASHMAP hm)"
proof -
  assume "(k, v) \<in> set (hm_objects hm)"
  then obtain chain where c: "chain \<in> set (hm_table hm)" "(k, v) \<in> set chain"
    by (auto simp: hm_objects_def)
  have "size_list (size_prod (\<lambda>_. 0) size) chain
      \<le> size_list (size_list (size_prod (\<lambda>_. 0) size)) (hm_table hm)"
    by (rule size_list_estimation'[OF c(1) order_refl])
  moreover have "size_prod (\<lambda>_. 0) size (k, v) \<le> size_list (size_prod (\<lambda>_. 0) size) chain"
    by (rule size_list_estimation'[OF c(2) order_refl])
  ultimately show ?thesis by (cases hm) simp
qed

lemma object_size_simp [termination_simp]:
  "obj \<in> set (hm_objects hm) \<Longrightarrow> size (snd obj) < Suc (size_CoreconfHashMap size (hm :: CoreconfValue CoreconfHashMap))"
  using object_size[of "fst obj" "snd obj" hm] by simp

lemma iterate_cong [fundef_cong]:
  assumes "hm = hm'" and "u = u'"
    and "\<And>obj x. obj \<in> set (hm_objects hm') \<Longrightarrow> f obj x = g obj x"
  shows "iterateCoreconfHashMap hm u f = iterateCoreconfHashMap hm' u' g"
proof -
  have "fold f xs x = fold g xs x" if "set xs \<subseteq> set (hm_objects hm')" for xs x
    using that assms(3) by (induction xs arbitrary: x) auto
  then show ?thesis using assms by (simp add: iterateCoreconfHashMap_def)
qed

function coreconfToCBOR :: "CoreconfValue \<Rightarrow> zcbor \<Rightarrow> bool \<times> zcbor"
  and serializeCoreconfObject :: "CoreconfValue CoreconfObject \<Rightarrow> zcbor \<Rightarrow> zcbor" where
  "coreconfToCBOR (CORECONF_HASHMAP hm) s =
     (case zcbor_map_start_encode s (hm_size hm) of
        (False, s) \<Rightarrow> (False, s)
      | (True, s) \<Rightarrow>
          zcbor_map_end_encode (iterateCoreconfHashMap hm s serializeCoreconfObject) (hm_size hm))"
| "coreconfToCBOR (CORECONF_ARRAY elements) s =
     (let arrayLength = of_nat (length elements) in
      case zcbor_list_start_encode s arrayLength of
        (False, s) \<Rightarrow> (False, s)
      | (True, s) \<Rightarrow>
          (case encode_each coreconfToCBOR elements s of
             (False, s) \<Rightarrow> (False, s)
           | (True, s) \<Rightarrow> zcbor_list_end_encode s arrayLength))"
| "coreconfToCBOR (CORECONF_REAL d) s = zcbor_float64_put s d"
| "coreconfToCBOR (CORECONF_INT_8 v) s = zcbor_int32_put s (scast v)"
| "coreconfToCBOR (CORECONF_INT_16 v) s = zcbor_int32_put s (scast v)"
| "coreconfToCBOR (CORECONF_INT_32 v) s = zcbor_int32_put s v"
| "coreconfToCBOR (CORECONF_INT_64 v) s = zcbor_int64_put s v"
| "coreconfToCBOR (CORECONF_UINT_8 v) s = zcbor_uint32_put s (ucast v)"
| "coreconfToCBOR (CORECONF_UINT_16 v) s = zcbor_uint32_put s (ucast v)"
| "coreconfToCBOR (CORECONF_UINT_32 v) s = zcbor_uint32_put s v"
| "coreconfToCBOR (CORECONF_UINT_64 v) s = zcbor_uint64_put s v"
| "coreconfToCBOR (CORECONF_STRING str) s = zcbor_tstr_encode s (c_string str)"
| "coreconfToCBOR CORECONF_TRUE s = zcbor_bool_put s True"
| "coreconfToCBOR CORECONF_FALSE s = zcbor_bool_put s False"
| "coreconfToCBOR CORECONF_NULL s = zcbor_nil_put s"
| "serializeCoreconfObject object s =
     (let (_, s) = zcbor_uint64_put s (fst object) in snd (coreconfToCBOR (snd object) s))"
  by pat_completeness auto
termination
proof (relation "measure (\<lambda>x. case x of Inl (v, _) \<Rightarrow> 2 * size v | Inr (obj, _) \<Rightarrow> 2 * size (snd obj) + 1)", goal_cases)
  case (2 hm s a s' obj x)
  then show ?case using object_size[of "fst obj" "snd obj" hm] by (cases obj) auto
next
  case (3 elements s n a s' x y)
  then show ?case by (auto dest: size_list_estimation'[OF _ order_refl, of _ _ size])
qed auto

section \<open>Decoding\<close>

text \<open>
  The bytes of a decoded \<open>struct zcbor_string\<close>. Both the byte string and the text string branch
  end in \<open>strdup\<close>, so the value holds them up to the first NUL. (The text string branch passes the
  length to \<open>%.*s\<close> as an \<open>int\<close>; payloads of 2 GiB and more are outside the model.)
\<close>

definition zstr_bytes :: "zcbor \<Rightarrow> nat \<times> u64 \<Rightarrow> bytes" where
  "zstr_bytes s zstr = take (unat (snd zstr)) (drop (fst zstr) (mem s))"

definition cbor_simple_value :: "zcbor \<Rightarrow> CoreconfValue option \<times> zcbor" where
  "cbor_simple_value s =
     (case zcbor_float64_decode s of
        (Some doubleValue, s) \<Rightarrow> (Some (createCoreconfReal doubleValue), s)
      | (None, s) \<Rightarrow>
          (case zcbor_bool_decode s of
             (Some boolValue, s) \<Rightarrow> (Some (createCoreconfBoolean boolValue), s)
           | (None, s) \<Rightarrow>
               (case zcbor_nil_expect s of
                  (True, s) \<Rightarrow> (Some CORECONF_NULL, s)
                | (False, s) \<Rightarrow> (None, s))))"

text \<open>
  \<open>_parse_array\<close> and \<open>_parse_map\<close> get the decoder of the elements as the argument \<open>dec\<close>; their
  loops run at most \<open>fuel\<close> rounds.
\<close>

type_synonym value_decoder = "zcbor \<Rightarrow> nat \<Rightarrow> (CoreconfValue option \<times> zcbor) option"

fun parse_array_loop ::
  "value_decoder \<Rightarrow> nat \<Rightarrow> zcbor \<Rightarrow> CoreconfValue \<Rightarrow> nat \<Rightarrow> (CoreconfValue \<times> zcbor) option" where
  "parse_array_loop dec 0 s arr indent = None"
| "parse_array_loop dec (Suc fuel) s arr indent =
     (if zcbor_array_at_end s then Some (arr, s)
      else case dec s (indent + 1) of
          None \<Rightarrow> None
        | Some (None, s) \<Rightarrow> parse_array_loop dec fuel s arr indent
        | Some (Some v, s) \<Rightarrow> parse_array_loop dec fuel s (projr (addToCoreconfArray arr v)) indent)"

definition parse_array ::
  "value_decoder \<Rightarrow> nat \<Rightarrow> zcbor \<Rightarrow> CoreconfValue \<Rightarrow> nat \<Rightarrow> (bool \<times> CoreconfValue \<times> zcbor) option" where
  "parse_array dec fuel s arr indent =
     (case zcbor_list_start_decode s of
        (False, s) \<Rightarrow> Some (False, arr, s)
      | (True, s) \<Rightarrow>
          (case parse_array_loop dec fuel s arr indent of
             None \<Rightarrow> None
           | Some (arr, s) \<Rightarrow> (case zcbor_list_end_decode s of (r, s) \<Rightarrow> Some (r, arr, s))))"

fun parse_map_loop ::
  "value_decoder \<Rightarrow> nat \<Rightarrow> zcbor \<Rightarrow> CoreconfValue CoreconfHashMap \<Rightarrow> nat \<Rightarrow> nat
     \<Rightarrow> (bool \<times> CoreconfValue CoreconfHashMap \<times> zcbor) option" where
  "parse_map_loop dec 0 s hm indent loopCount = None"
| "parse_map_loop dec (Suc fuel) s hm indent loopCount =
     (if zcbor_array_at_end s then Some (True, hm, s)
      else if loopCount > CORECONF_MAX_LOOP then Some (False, hm, s)
      else case zcbor_uint64_decode s of
          (None, s) \<Rightarrow> Some (False, hm, s)
        | (Some coreconfKey, s) \<Rightarrow>
            (case dec s (indent + 1) of
               None \<Rightarrow> None
             | Some (None, s) \<Rightarrow> parse_map_loop dec fuel s hm indent (loopCount + 1)
             | Some (Some v, s) \<Rightarrow>
                 parse_map_loop dec fuel s (snd (insertCoreconfHashMap hm coreconfKey v)) indent (loopCount + 1)))"

definition parse_map ::
  "value_decoder \<Rightarrow> nat \<Rightarrow> zcbor \<Rightarrow> CoreconfValue CoreconfHashMap \<Rightarrow> nat
     \<Rightarrow> (bool \<times> CoreconfValue CoreconfHashMap \<times> zcbor) option" where
  "parse_map dec fuel s hm indent =
     (case zcbor_map_start_decode s of
        (False, s) \<Rightarrow> Some (False, hm, s)
      | (True, s) \<Rightarrow>
          (case parse_map_loop dec fuel s hm indent 0 of
             None \<Rightarrow> None
           | Some (False, hm, s) \<Rightarrow> Some (False, hm, s)
           | Some (True, hm, s) \<Rightarrow> (case zcbor_map_end_decode s of (r, s) \<Rightarrow> Some (r, hm, s))))"

primrec cborToCoreconfValue :: "nat \<Rightarrow> value_decoder" where
  "cborToCoreconfValue 0 s indent = None"
| "cborToCoreconfValue (Suc fuel) s indent =
     (if indent > CORECONF_MAX_DEPTH then Some (None, s)
      else if payload s \<ge> payload_end s then Some (None, s)
      else case ZCBOR_MAJOR_TYPE (header_at s) of
        ZCBOR_MAJOR_TYPE_PINT \<Rightarrow> Some (apfst (map_option createCoreconfUint64) (zcbor_uint64_decode s))
      | ZCBOR_MAJOR_TYPE_NINT \<Rightarrow> Some (apfst (map_option createCoreconfInt64) (zcbor_int64_decode s))
      | ZCBOR_MAJOR_TYPE_BSTR \<Rightarrow>
          Some (apfst (map_option (\<lambda>zstr. createCoreconfString (zstr_bytes s zstr))) (zcbor_bstr_decode s))
      | ZCBOR_MAJOR_TYPE_TSTR \<Rightarrow>
          Some (apfst (map_option (\<lambda>zstr. createCoreconfString (zstr_bytes s zstr))) (zcbor_tstr_decode s))
      | ZCBOR_MAJOR_TYPE_LIST \<Rightarrow>
          map_option (\<lambda>(_, v, s). (Some v, s))
            (parse_array (cborToCoreconfValue fuel) fuel s createCoreconfArray indent)
      | ZCBOR_MAJOR_TYPE_MAP \<Rightarrow>
          map_option (\<lambda>(_, hm, s). (Some (CORECONF_HASHMAP hm), s))
            (parse_map (cborToCoreconfValue fuel) fuel s empty_hashmap indent)
      | ZCBOR_MAJOR_TYPE_SIMPLE \<Rightarrow> Some (cbor_simple_value s)
      | ZCBOR_MAJOR_TYPE_TAG \<Rightarrow> Some (None, s))"

section \<open>Reference encoding\<close>

fun cbor_of :: "CoreconfValue \<Rightarrow> bytes" where
  "cbor_of (CORECONF_HASHMAP hm) =
     [0xBF] @ concat (map (\<lambda>obj. cbor_head ZCBOR_MAJOR_TYPE_PINT (fst obj) @ cbor_of (snd obj)) (hm_objects hm))
       @ [0xFF]"
| "cbor_of (CORECONF_ARRAY elements) = [0x9F] @ concat (map cbor_of elements) @ [0xFF]"
| "cbor_of (CORECONF_REAL d) = 0xFB # be_bytes 8 d"
| "cbor_of (CORECONF_INT_8 v) = cbor_int (scast v)"
| "cbor_of (CORECONF_INT_16 v) = cbor_int (scast v)"
| "cbor_of (CORECONF_INT_32 v) = cbor_int (scast v)"
| "cbor_of (CORECONF_INT_64 v) = cbor_int v"
| "cbor_of (CORECONF_UINT_8 v) = cbor_head ZCBOR_MAJOR_TYPE_PINT (ucast v)"
| "cbor_of (CORECONF_UINT_16 v) = cbor_head ZCBOR_MAJOR_TYPE_PINT (ucast v)"
| "cbor_of (CORECONF_UINT_32 v) = cbor_head ZCBOR_MAJOR_TYPE_PINT (ucast v)"
| "cbor_of (CORECONF_UINT_64 v) = cbor_head ZCBOR_MAJOR_TYPE_PINT v"
| "cbor_of (CORECONF_STRING str) = cbor_str ZCBOR_MAJOR_TYPE_TSTR (c_string str)"
| "cbor_of CORECONF_TRUE = [0xF5]"
| "cbor_of CORECONF_FALSE = [0xF4]"
| "cbor_of CORECONF_NULL = [0xF6]"

text \<open>Induction over values, through the objects of a map.\<close>

lemma coreconf_induct [case_names array hashmap scalar]:
  assumes "\<And>xs. (\<And>x. x \<in> set xs \<Longrightarrow> P x) \<Longrightarrow> P (CORECONF_ARRAY xs)"
    and "\<And>hm. (\<And>obj. obj \<in> set (hm_objects hm) \<Longrightarrow> P (snd obj)) \<Longrightarrow> P (CORECONF_HASHMAP hm)"
    and "\<And>v. \<nexists>xs. v = CORECONF_ARRAY xs \<Longrightarrow> \<nexists>hm. v = CORECONF_HASHMAP hm \<Longrightarrow> P v"
  shows "P v"
proof (induction v rule: measure_induct_rule[of size])
  case (less v)
  consider xs where "v = CORECONF_ARRAY xs" | hm where "v = CORECONF_HASHMAP hm"
    | "\<nexists>xs. v = CORECONF_ARRAY xs" "\<nexists>hm. v = CORECONF_HASHMAP hm" by blast
  then show ?case
  proof cases
    case (1 xs)
    have "P x" if "x \<in> set xs" for x
      using less[of x] size_list_estimation'[OF that order_refl, of size] 1 by simp
    then show ?thesis using assms(1) 1 by blast
  next
    case (2 hm)
    then show ?thesis
      using less assms(2) object_size by (metis prod.collapse)
  next
    case 3
    then show ?thesis using assms(3) by blast
  qed
qed

section \<open>The encoder writes the reference encoding\<close>

abbreviation encodes :: "CoreconfValue \<Rightarrow> bool" where
  "encodes v \<equiv> writes (coreconfToCBOR v) (cbor_of v)"

lemma scast_u32_u64: "(scast (scast (v :: 'a :: len word) :: u32) :: u64) = scast v" if "LENGTH('a) \<le> 32"
  using that by (intro bit_word_eqI) (auto simp: bit_simps min_def)

lemma ucast_u32_u64: "(ucast (ucast (v :: 'a :: len word) :: u32) :: u64) = ucast v" if "LENGTH('a) \<le> 32"
  using that by (intro bit_word_eqI) (auto simp: bit_simps dest: bit_imp_le_length)

lemma encodes_scalar:
  "\<nexists>xs. v = CORECONF_ARRAY xs \<Longrightarrow> \<nexists>hm. v = CORECONF_HASHMAP hm \<Longrightarrow> encodes v"
  by (cases v) (auto intro!: writes_enc_all[where n = 1] simp: put_specs scast_u32_u64 ucast_u32_u64)

lemma encodes_array:
  assumes "\<And>x. x \<in> set xs \<Longrightarrow> encodes x"
  shows "encodes (CORECONF_ARRAY xs)"
proof -
  have "writes (encode_each coreconfToCBOR xs) (concat (map cbor_of xs))"
    using assms by (rule writes_each)
  then have "writes (\<lambda>s. case zcbor_list_start_encode s n of (False, s) \<Rightarrow> (False, s) | (True, s) \<Rightarrow>
      (case encode_each coreconfToCBOR xs s of (False, s) \<Rightarrow> (False, s)
       | (True, s) \<Rightarrow> zcbor_list_end_encode s n)) ([0x9F] @ concat (map cbor_of xs) @ [0xFF])" for n
    by (intro writes_seq writes_intros)
  then show ?thesis by (simp add: Let_def writes_def)
qed

lemma writes_object:
  assumes "encodes (snd obj)"
  shows "writes (\<lambda>s. (True, serializeCoreconfObject obj s))
    (cbor_head ZCBOR_MAJOR_TYPE_PINT (fst obj) @ cbor_of (snd obj))"
proof -
  have "writes (\<lambda>s. (True, snd (coreconfToCBOR (snd obj) (snd (zcbor_uint64_put s (fst obj))))))
      (cbor_head ZCBOR_MAJOR_TYPE_PINT (fst obj) @ cbor_of (snd obj))"
    using assms by (intro writes_then writes_intros)
  then show ?thesis by (simp add: split_beta)
qed

lemma encodes_hashmap:
  assumes "\<And>obj. obj \<in> set (hm_objects hm) \<Longrightarrow> encodes (snd obj)"
  shows "encodes (CORECONF_HASHMAP hm)"
proof -
  let ?bs = "\<lambda>obj. cbor_head ZCBOR_MAJOR_TYPE_PINT (fst obj) @ cbor_of (snd obj)"
  have "writes (\<lambda>s. (True, fold serializeCoreconfObject (hm_objects hm) s)) (concat (map ?bs (hm_objects hm)))"
    using assms writes_object by (intro writes_fold) blast
  then have "writes (\<lambda>s. case zcbor_map_start_encode s (hm_size hm) of (False, s) \<Rightarrow> (False, s) | (True, s) \<Rightarrow>
      (case (True, fold serializeCoreconfObject (hm_objects hm) s) of (False, s) \<Rightarrow> (False, s)
       | (True, s) \<Rightarrow> zcbor_map_end_encode s (hm_size hm))) ([0xBF] @ concat (map ?bs (hm_objects hm)) @ [0xFF])"
    by (intro writes_seq writes_intros)
  then show ?thesis
    by (rule writes_cong[of _ _ "coreconfToCBOR (CORECONF_HASHMAP hm)"])
      (simp_all add: iterateCoreconfHashMap_def split: prod.split bool.split)
qed

lemma encodes_all: "encodes v"
proof (induction v rule: coreconf_induct)
  case (array xs)
  then show ?case by (rule encodes_array)
next
  case (hashmap hm)
  then show ?case by (rule encodes_hashmap)
next
  case (scalar v)
  then show ?case by (rule encodes_scalar)
qed

text \<open>Values without a map inside: for these a success of the encoder can be trusted.\<close>

fun map_free :: "CoreconfValue \<Rightarrow> bool" where
  "map_free (CORECONF_HASHMAP hm) = False"
| "map_free (CORECONF_ARRAY xs) = list_all map_free xs"
| "map_free _ = True"

lemma exact_coreconfToCBOR: "map_free v \<Longrightarrow> exact (coreconfToCBOR v) (cbor_of v)"
proof (induction v rule: coreconf_induct)
  case (array xs)
  then have "exact (encode_each coreconfToCBOR xs) (concat (map cbor_of xs))"
    by (intro exact_each) (simp add: list_all_iff)
  then have "exact (\<lambda>s. case zcbor_list_start_encode s n of (False, s) \<Rightarrow> (False, s) | (True, s) \<Rightarrow>
      (case encode_each coreconfToCBOR xs s of (False, s) \<Rightarrow> (False, s)
       | (True, s) \<Rightarrow> zcbor_list_end_encode s n)) ([0x9F] @ concat (map cbor_of xs) @ [0xFF])" for n
    by (intro exact_seq exact_intros)
  from this[of "of_nat (length xs)"] show ?case by (rule exact_cong) (simp_all add: Let_def)
next
  case (hashmap hm)
  then show ?case by simp
next
  case (scalar v)
  then show ?case
    by (cases v) (auto intro!: exact_enc_all[where n = 1] simp: put_specs scast_u32_u64 ucast_u32_u64)
qed

section \<open>What decoding an encoded value gives\<close>

text \<open>
  The decoder knows CBOR types, not CORECONF types: unsigned and non-negative integers come back
  as \<open>CORECONF_UINT_64\<close>, negative ones as \<open>CORECONF_INT_64\<close>, and a map is rebuilt by inserting its
  objects in the order in which they were written.
\<close>

definition decoded_int :: "u64 \<Rightarrow> CoreconfValue" where
  "decoded_int v = (if bit v 63 then CORECONF_INT_64 v else CORECONF_UINT_64 v)"

definition hm_of_list :: "'v CoreconfObject list \<Rightarrow> 'v CoreconfHashMap \<Rightarrow> 'v CoreconfHashMap" where
  "hm_of_list objs hm = fold (\<lambda>obj m. snd (insertCoreconfHashMap m (fst obj) (snd obj))) objs hm"

fun norm :: "CoreconfValue \<Rightarrow> CoreconfValue" where
  "norm (CORECONF_HASHMAP hm) =
     CORECONF_HASHMAP (hm_of_list (map (\<lambda>obj. (fst obj, norm (snd obj))) (hm_objects hm)) empty_hashmap)"
| "norm (CORECONF_ARRAY elements) = CORECONF_ARRAY (map norm elements)"
| "norm (CORECONF_REAL d) = CORECONF_REAL d"
| "norm (CORECONF_INT_8 v) = decoded_int (scast v)"
| "norm (CORECONF_INT_16 v) = decoded_int (scast v)"
| "norm (CORECONF_INT_32 v) = decoded_int (scast v)"
| "norm (CORECONF_INT_64 v) = decoded_int v"
| "norm (CORECONF_UINT_8 v) = CORECONF_UINT_64 (ucast v)"
| "norm (CORECONF_UINT_16 v) = CORECONF_UINT_64 (ucast v)"
| "norm (CORECONF_UINT_32 v) = CORECONF_UINT_64 (ucast v)"
| "norm (CORECONF_UINT_64 v) = CORECONF_UINT_64 v"
| "norm (CORECONF_STRING str) = CORECONF_STRING (c_string str)"
| "norm CORECONF_TRUE = CORECONF_TRUE"
| "norm CORECONF_FALSE = CORECONF_FALSE"
| "norm CORECONF_NULL = CORECONF_NULL"

text \<open>Nesting depth, and the values whose encoding the decoder accepts in full.\<close>

fun nest :: "CoreconfValue \<Rightarrow> nat" where
  "nest (CORECONF_HASHMAP hm) = Suc (fold max (map (\<lambda>obj. nest (snd obj)) (hm_objects hm)) 0)"
| "nest (CORECONF_ARRAY elements) = Suc (fold max (map nest elements) 0)"
| "nest (CORECONF_REAL _) = 0"
| "nest (CORECONF_INT_8 _) = 0"
| "nest (CORECONF_INT_16 _) = 0"
| "nest (CORECONF_INT_32 _) = 0"
| "nest (CORECONF_INT_64 _) = 0"
| "nest (CORECONF_UINT_8 _) = 0"
| "nest (CORECONF_UINT_16 _) = 0"
| "nest (CORECONF_UINT_32 _) = 0"
| "nest (CORECONF_UINT_64 _) = 0"
| "nest (CORECONF_STRING _) = 0"
| "nest CORECONF_TRUE = 0"
| "nest CORECONF_FALSE = 0"
| "nest CORECONF_NULL = 0"

fun wire_ok :: "CoreconfValue \<Rightarrow> bool" where
  "wire_ok (CORECONF_HASHMAP hm) \<longleftrightarrow>
     length (hm_objects hm) \<le> Suc CORECONF_MAX_LOOP \<and> list_all (\<lambda>obj. wire_ok (snd obj)) (hm_objects hm)"
| "wire_ok (CORECONF_ARRAY elements) \<longleftrightarrow> length elements < 2 ^ 63 \<and> list_all wire_ok elements"
| "wire_ok (CORECONF_STRING str) \<longleftrightarrow> length str < 2 ^ 63"
| "wire_ok (CORECONF_REAL _) \<longleftrightarrow> True"
| "wire_ok (CORECONF_INT_8 _) \<longleftrightarrow> True"
| "wire_ok (CORECONF_INT_16 _) \<longleftrightarrow> True"
| "wire_ok (CORECONF_INT_32 _) \<longleftrightarrow> True"
| "wire_ok (CORECONF_INT_64 _) \<longleftrightarrow> True"
| "wire_ok (CORECONF_UINT_8 _) \<longleftrightarrow> True"
| "wire_ok (CORECONF_UINT_16 _) \<longleftrightarrow> True"
| "wire_ok (CORECONF_UINT_32 _) \<longleftrightarrow> True"
| "wire_ok (CORECONF_UINT_64 _) \<longleftrightarrow> True"
| "wire_ok CORECONF_TRUE \<longleftrightarrow> True"
| "wire_ok CORECONF_FALSE \<longleftrightarrow> True"
| "wire_ok CORECONF_NULL \<longleftrightarrow> True"

section \<open>Decoding an encoded value\<close>

definition decodes :: "CoreconfValue \<Rightarrow> bool" where
  "decodes v \<longleftrightarrow> (\<forall>s fuel indent.
     wire_ok v \<longrightarrow> coming s (cbor_of v) \<longrightarrow> elem_count s \<noteq> 0 \<longrightarrow> \<not> enforce_canonical s \<longrightarrow>
     length (backup_list s) + nest v \<le> num_backups s \<longrightarrow> indent + nest v \<le> CORECONF_MAX_DEPTH \<longrightarrow>
     length (cbor_of v) \<le> fuel \<longrightarrow>
     (\<exists>s'. cborToCoreconfValue fuel s indent = Some (Some (norm v), s') \<and>
           consumed (length (cbor_of v)) 1 s s'))"

lemma decodesE:
  assumes "decodes v" "wire_ok v" "coming s (cbor_of v)" "elem_count s \<noteq> 0" "\<not> enforce_canonical s"
    "length (backup_list s) + nest v \<le> num_backups s" "indent + nest v \<le> CORECONF_MAX_DEPTH"
    "length (cbor_of v) \<le> fuel"
  obtains s' where "cborToCoreconfValue fuel s indent = Some (Some (norm v), s')"
    "consumed (length (cbor_of v)) 1 s s'"
  using assms unfolding decodes_def by blast

text \<open>A scalar: the first byte selects the branch, the primitive decoder does the rest.\<close>

lemma decodesI:
  assumes "\<And>fuel s indent. wire_ok v \<Longrightarrow> coming s (cbor_of v) \<Longrightarrow> elem_count s \<noteq> 0 \<Longrightarrow> \<not> enforce_canonical s \<Longrightarrow>
      length (backup_list s) + nest v \<le> num_backups s \<Longrightarrow> indent + nest v \<le> CORECONF_MAX_DEPTH \<Longrightarrow>
      length (cbor_of v) \<le> Suc fuel \<Longrightarrow> payload s < payload_end s \<Longrightarrow>
      \<exists>s'. cborToCoreconfValue (Suc fuel) s indent = Some (Some (norm v), s') \<and>
           consumed (length (cbor_of v)) 1 s s'"
    and "cbor_of v \<noteq> []"
  shows "decodes v"
  unfolding decodes_def
proof (intro allI impI)
  fix s fuel indent
  assume a: "wire_ok v" "coming s (cbor_of v)" "elem_count s \<noteq> 0" "\<not> enforce_canonical s"
    "length (backup_list s) + nest v \<le> num_backups s" "indent + nest v \<le> CORECONF_MAX_DEPTH"
    "length (cbor_of v) \<le> fuel"
  obtain b bs where "cbor_of v = b # bs" using assms(2) by (cases "cbor_of v") auto
  then have "payload s < payload_end s" using a(2) by (auto dest: coming_hd)
  moreover obtain f where "fuel = Suc f" using a(7) assms(2) by (cases fuel) auto
  ultimately show "\<exists>s'. cborToCoreconfValue fuel s indent = Some (Some (norm v), s') \<and>
      consumed (length (cbor_of v)) 1 s s'"
    using assms(1)[OF a(1-6)] a(7) by blast
qed

lemma cbor_head_ne [simp]: "cbor_head m v \<noteq> []"
  by (rule cbor_head_form[of m v]) simp

lemma decodes_pint:
  assumes "cbor_of v = cbor_head ZCBOR_MAJOR_TYPE_PINT n" and "norm v = CORECONF_UINT_64 n"
  shows "decodes v"
proof (rule decodesI)
  fix fuel s indent
  assume a: "coming s (cbor_of v)" "elem_count s \<noteq> 0" "\<not> enforce_canonical s"
    "indent + nest v \<le> CORECONF_MAX_DEPTH" "payload s < payload_end s"
  show "\<exists>s'. cborToCoreconfValue (Suc fuel) s indent = Some (Some (norm v), s') \<and>
      consumed (length (cbor_of v)) 1 s s'"
    using uint64_decode_head[OF a(1)[unfolded assms(1)] a(2,3)] head_major[OF a(1)[unfolded assms(1)]] a(4,5)
    by (simp add: assms createCoreconfUint64_def)
qed (simp add: assms)

lemma decodes_int:
  assumes "cbor_of v = cbor_int n" and "norm v = decoded_int n"
  shows "decodes v"
proof (cases "bit n 63")
  case False
  then show ?thesis using assms by (intro decodes_pint) (simp_all add: cbor_int_def decoded_int_def)
next
  case True
  then have c: "cbor_of v = cbor_head ZCBOR_MAJOR_TYPE_NINT (NOT n)" using assms by (simp add: cbor_int_def)
  show ?thesis
  proof (rule decodesI)
    fix fuel s indent
    assume a: "coming s (cbor_of v)" "elem_count s \<noteq> 0" "\<not> enforce_canonical s"
      "indent + nest v \<le> CORECONF_MAX_DEPTH" "payload s < payload_end s"
    show "\<exists>s'. cborToCoreconfValue (Suc fuel) s indent = Some (Some (norm v), s') \<and>
        consumed (length (cbor_of v)) 1 s s'"
      using int64_decode_head[OF a(1)[unfolded c] a(2,3) True] head_major[OF a(1)[unfolded c]] a(4,5) True
      by (simp add: c assms(2) decoded_int_def createCoreconfInt64_def)
  qed (simp add: c)
qed

lemma decodes_string: "decodes (CORECONF_STRING str)"
proof (rule decodesI)
  fix fuel s indent
  let ?m = ZCBOR_MAJOR_TYPE_TSTR let ?bs = "c_string str"
  assume a: "wire_ok (CORECONF_STRING str)" "coming s (cbor_of (CORECONF_STRING str))" "elem_count s \<noteq> 0"
    "\<not> enforce_canonical s" "indent + nest (CORECONF_STRING str) \<le> CORECONF_MAX_DEPTH" "payload s < payload_end s"
  have len: "length ?bs < 2 ^ 64"
    using a(1) length_takeWhile_le[of "\<lambda>b. b \<noteq> 0" str] by (simp add: c_string_def)
  have com: "coming s (cbor_str ?m ?bs)" using a(2) by simp
  obtain s' where s': "str_decode s ?m = (Some (payload s + length (cbor_head ?m (of_nat (length ?bs))), of_nat (length ?bs)), s')"
      "consumed (length (cbor_str ?m ?bs)) 1 s s'"
      "take (length ?bs) (drop (payload s + length (cbor_head ?m (of_nat (length ?bs)))) (mem s)) = ?bs"
    using str_decode_coming[OF com a(3,4) len] by blast
  have "ZCBOR_MAJOR_TYPE (header_at s) = ?m"
    using head_major[of s ?m "of_nat (length ?bs)"] com by (simp add: cbor_str_def coming_append)
  moreover have "unat (of_nat (length ?bs) :: u64) = length ?bs"
    using len by (simp add: unat_of_nat take_bit_nat_eq_self)
  moreover have "c_string ?bs = ?bs" by (simp add: c_string_def)
  ultimately show "\<exists>s'. cborToCoreconfValue (Suc fuel) s indent = Some (Some (norm (CORECONF_STRING str)), s') \<and>
      consumed (length (cbor_of (CORECONF_STRING str))) 1 s s'"
    using s' a(5,6) by (simp add: zcbor_tstr_decode_def zstr_bytes_def createCoreconfString_def)
qed (simp add: cbor_str_def)

lemma simple_major: "ZCBOR_MAJOR_TYPE 0xFB = ZCBOR_MAJOR_TYPE_SIMPLE" "ZCBOR_MAJOR_TYPE 0xF4 = ZCBOR_MAJOR_TYPE_SIMPLE"
  "ZCBOR_MAJOR_TYPE 0xF5 = ZCBOR_MAJOR_TYPE_SIMPLE" "ZCBOR_MAJOR_TYPE 0xF6 = ZCBOR_MAJOR_TYPE_SIMPLE"
  "ZCBOR_MAJOR_TYPE 0x9F = ZCBOR_MAJOR_TYPE_LIST" "ZCBOR_MAJOR_TYPE 0xBF = ZCBOR_MAJOR_TYPE_MAP"
  by (simp_all add: ZCBOR_MAJOR_TYPE_def Let_def)

lemma decodes_real: "decodes (CORECONF_REAL d)"
proof (rule decodesI)
  fix fuel s indent
  assume a: "coming s (cbor_of (CORECONF_REAL d))" "elem_count s \<noteq> 0"
    "\<not> enforce_canonical s" "indent + nest (CORECONF_REAL d) \<le> CORECONF_MAX_DEPTH" "payload s < payload_end s"
  have com: "coming s (0xFB # be_bytes 8 d)" using a(1) by simp
  show "\<exists>s'. cborToCoreconfValue (Suc fuel) s indent = Some (Some (norm (CORECONF_REAL d)), s') \<and>
      consumed (length (cbor_of (CORECONF_REAL d))) 1 s s'"
    using float64_decode_coming[OF com a(2,3)] coming_hd[OF com] a(4) consumed_advance[of 9 s]
    by (simp add: simple_major cbor_simple_value_def createCoreconfReal_def)
qed simp

lemma decodes_bool:
  assumes "cbor_of v = [if b then 0xF5 else 0xF4]" and "norm v = createCoreconfBoolean b"
  shows "decodes v"
proof (rule decodesI)
  fix fuel s indent
  assume a: "coming s (cbor_of v)" "elem_count s \<noteq> 0" "\<not> enforce_canonical s"
    "indent + nest v \<le> CORECONF_MAX_DEPTH" "payload s < payload_end s"
  have com: "coming s [if b then 0xF5 else 0xF4]" using a(1) assms(1) by simp
  have "ZCBOR_MAJOR_TYPE (header_at s) = ZCBOR_MAJOR_TYPE_SIMPLE"
    using coming_hd(1)[OF com] by (simp add: simple_major)
  moreover have "consumed 1 1 s (advance (zcbor_error e s) 1)" for e
    by (simp add: consumed_def)
  ultimately show "\<exists>s'. cborToCoreconfValue (Suc fuel) s indent = Some (Some (norm v), s') \<and>
      consumed (length (cbor_of v)) 1 s s'"
    using bool_decode_coming[OF com a(2,3)] a(4,5) assms by (simp add: cbor_simple_value_def)
qed (simp add: assms)

lemma decodes_null: "decodes CORECONF_NULL"
proof (rule decodesI)
  fix fuel s indent
  assume a: "coming s (cbor_of CORECONF_NULL)" "elem_count s \<noteq> 0" "\<not> enforce_canonical s"
    "indent + nest CORECONF_NULL \<le> CORECONF_MAX_DEPTH" "payload s < payload_end s"
  have com: "coming s [0xF6]" using a(1) by simp
  obtain s1 s' where d: "zcbor_float64_decode s = (None, zcbor_error ZCBOR_ERR_FLOAT_SIZE s)"
    "zcbor_bool_decode (zcbor_error ZCBOR_ERR_FLOAT_SIZE s) = (None, s1)"
    "zcbor_nil_expect s1 = (True, s')" "consumed 1 1 s s'"
    using nil_decode_coming[OF com a(2,3)] by blast
  then show "\<exists>s'. cborToCoreconfValue (Suc fuel) s indent = Some (Some (norm CORECONF_NULL), s') \<and>
      consumed (length (cbor_of CORECONF_NULL)) 1 s s'"
    using coming_hd[OF com] a(4) by (simp add: simple_major cbor_simple_value_def)
qed simp

lemma decodes_true: "decodes CORECONF_TRUE"
  by (rule decodes_bool[where b = True]) (simp_all add: createCoreconfBoolean_def)

lemma decodes_false: "decodes CORECONF_FALSE"
  by (rule decodes_bool[where b = False]) (simp_all add: createCoreconfBoolean_def)

lemmas decodes_ints =
  decodes_int[OF cbor_of.simps(4) norm.simps(4)] decodes_int[OF cbor_of.simps(5) norm.simps(5)]
  decodes_int[OF cbor_of.simps(6) norm.simps(6)] decodes_int[OF cbor_of.simps(7) norm.simps(7)]
  decodes_pint[OF cbor_of.simps(8) norm.simps(8)] decodes_pint[OF cbor_of.simps(9) norm.simps(9)]
  decodes_pint[OF cbor_of.simps(10) norm.simps(10)] decodes_pint[OF cbor_of.simps(11) norm.simps(11)]

lemma decodes_scalar:
  "\<nexists>xs. v = CORECONF_ARRAY xs \<Longrightarrow> \<nexists>hm. v = CORECONF_HASHMAP hm \<Longrightarrow> decodes v"
  by (cases v) (simp_all add: decodes_real decodes_string decodes_null decodes_true decodes_false decodes_ints)

text \<open>No encoded value starts with the break byte.\<close>

lemma cbor_head_no_break: "cbor_head m v = b # bs \<Longrightarrow> b \<noteq> 0xFF"
proof (rule cbor_head_form[of m v])
  fix a k
  assume "cbor_head m v = b # bs" "cbor_head m v = header_byte m a # be_bytes k v" "a \<le> 27"
  then have "ZCBOR_ADDITIONAL b \<le> 27" by (auto simp: header_byte_fields)
  then show "b \<noteq> 0xFF" by (auto simp: ZCBOR_ADDITIONAL_def)
qed

lemma cbor_of_first:
  obtains b bs where "cbor_of v = b # bs" "b \<noteq> 0xFF"
proof -
  have h: "\<exists>b bs. cbor_head m n @ xs = b # bs \<and> b \<noteq> 0xFF" for m n xs
    using cbor_head_no_break[of m n] by (cases "cbor_head m n") auto
  have "\<exists>b bs. cbor_of v = b # bs \<and> b \<noteq> 0xFF"
    using h[of _ _ "[]"] h by (cases v) (simp_all add: cbor_int_def cbor_str_def)
  then show ?thesis using that by blast
qed

section \<open>The loops over encoded elements\<close>

lemma fold_max_ge: "(a :: nat) \<le> fold max ns a"
proof (induction ns arbitrary: a)
  case (Cons n ns)
  then show ?case using max.boundedE[OF Cons[of "max n a"]] by simp
qed simp

lemma nest_le_fold: "x \<in> set xs \<Longrightarrow> f x \<le> fold max (map f xs) (a :: nat)"
proof (induction xs arbitrary: a)
  case (Cons y ys)
  then show ?case using max.boundedE[OF fold_max_ge[of "max (f y) a" "map f ys"]] by auto
qed simp

lemma parse_array_loop_coming:
  assumes "\<And>x. x \<in> set xs \<Longrightarrow> decodes x \<and> wire_ok x \<and> length (backup_list s) + nest x \<le> num_backups s \<and>
      indent + 1 + nest x \<le> CORECONF_MAX_DEPTH"
    and "coming s (concat (map cbor_of xs) @ [0xFF])" and "length xs < unat (elem_count s)"
    and "indefinite_length_array s" and "\<not> enforce_canonical s"
    and "length (concat (map cbor_of xs)) \<le> fuel" and "length xs < rounds"
  shows "\<exists>s'. parse_array_loop (cborToCoreconfValue fuel) rounds s (CORECONF_ARRAY acc) indent
      = Some (CORECONF_ARRAY (acc @ map norm xs), s') \<and>
    consumed (length (concat (map cbor_of xs))) (of_nat (length xs)) s s' \<and> coming s' [0xFF]"
  using assms
proof (induction xs arbitrary: s acc rounds)
  case Nil
  then obtain r where "rounds = Suc r" by (cases rounds) auto
  then show ?case using Nil array_at_end_break[of s] by simp
next
  case (Cons x xs)
  let ?rest = "concat (map cbor_of xs) @ [0xFF]"
  obtain r where r: "rounds = Suc r" using Cons.prems by (cases rounds) auto
  have com: "coming s (cbor_of x @ ?rest)" using Cons.prems(2) by simp
  obtain b bs where b: "cbor_of x = b # bs" "b \<noteq> 0xFF" by (rule cbor_of_first)
  have notend: "\<not> zcbor_array_at_end s"
    using array_not_at_end[of s b bs] Cons.prems(4) coming_appendD[OF com] b by simp
  have dx: "decodes x" "wire_ok x" "length (backup_list s) + nest x \<le> num_backups s"
      "indent + 1 + nest x \<le> CORECONF_MAX_DEPTH"
    using Cons.prems(1)[of x] by simp_all
  have ne: "elem_count s \<noteq> 0" using Cons.prems(3) by auto
  obtain s1 where s1: "cborToCoreconfValue fuel s (indent + 1) = Some (Some (norm x), s1)"
      "consumed (length (cbor_of x)) 1 s s1"
  proof (rule decodesE[OF dx(1,2) coming_appendD[OF com] ne Cons.prems(5) dx(3,4)])
    show "length (cbor_of x) \<le> fuel" using Cons.prems(6) by simp
  qed (rule that)
  note f = consumedD[OF s1(2)]
  have cnt: "unat (elem_count s1) = unat (elem_count s) - 1"
    using f(4) unat_dec[OF ne] by simp
  have "\<exists>s'. parse_array_loop (cborToCoreconfValue fuel) r s1 (CORECONF_ARRAY (acc @ [norm x])) indent
      = Some (CORECONF_ARRAY ((acc @ [norm x]) @ map norm xs), s') \<and>
    consumed (length (concat (map cbor_of xs))) (of_nat (length xs)) s1 s' \<and> coming s' [0xFF]"
    by (rule Cons.IH) (use Cons.prems f cnt r coming_consumed[OF com s1(2)] in auto)
  then obtain s' where s': "parse_array_loop (cborToCoreconfValue fuel) r s1 (CORECONF_ARRAY (acc @ [norm x])) indent
      = Some (CORECONF_ARRAY (acc @ norm x # map norm xs), s')"
      "consumed (length (concat (map cbor_of xs))) (of_nat (length xs)) s1 s'" "coming s' [0xFF]"
    by auto
  show ?case
    using s' s1 r notend consumed_trans[OF s1(2) s'(2)]
    by (simp add: addToCoreconfArray_def)
qed

lemma large_count: "unat ZCBOR_LARGE_ELEM_COUNT = 2 ^ 64 - 16"
  by simp

lemma decodes_array:
  assumes IH: "\<And>x. x \<in> set xs \<Longrightarrow> decodes x"
  shows "decodes (CORECONF_ARRAY xs)"
proof (rule decodesI)
  fix fuel s indent
  let ?v = "CORECONF_ARRAY xs" let ?body = "concat (map cbor_of xs)"
  assume a: "wire_ok ?v" "coming s (cbor_of ?v)" "elem_count s \<noteq> 0" "\<not> enforce_canonical s"
    "length (backup_list s) + nest ?v \<le> num_backups s" "indent + nest ?v \<le> CORECONF_MAX_DEPTH"
    "length (cbor_of ?v) \<le> Suc fuel" "payload s < payload_end s"
  have com: "coming s ([0x9F] @ ?body @ [0xFF])" using a(2) by simp
  have room: "length (backup_list s) < num_backups s" using a(5) by simp
  obtain s1 where s1: "zcbor_list_start_decode s = (True, s1)" "opened s s1"
    by (rule list_start_coming[OF coming_appendD[OF com] a(3,4) room])
  have com1: "coming s1 (?body @ [0xFF])"
    using coming_opened[of s _ _ s1] com s1(2) by simp
  have els: "decodes x \<and> wire_ok x \<and> length (backup_list s1) + nest x \<le> num_backups s1 \<and>
      indent + 1 + nest x \<le> CORECONF_MAX_DEPTH" if "x \<in> set xs" for x
    using that IH[OF that] a(1,5,6) nest_le_fold[OF that, of nest 0] s1(2)
    by (auto simp: opened_def list_all_iff)
  have "length xs \<le> length ?body"
  proof -
    have "1 \<le> length (cbor_of x)" for x by (rule cbor_of_first[of x]) simp
    then have "sum_list (map (\<lambda>_. 1) xs) \<le> sum_list (map (length \<circ> cbor_of) xs)"
      by (intro sum_list_mono) simp
    then show ?thesis by (simp add: length_concat sum_list_triv)
  qed
  then have n: "length xs < fuel" "length ?body \<le> fuel" using a(7) by simp_all
  have "length xs < unat (elem_count s1)" using a(1) s1(2) by (simp add: opened_def)
  then obtain s2 where s2: "parse_array_loop (cborToCoreconfValue fuel) fuel s1 (CORECONF_ARRAY []) indent
      = Some (CORECONF_ARRAY (map norm xs), s2)" "consumed (length ?body) (of_nat (length xs)) s1 s2" "coming s2 [0xFF]"
    using parse_array_loop_coming[OF els com1 _ _ _ n(2,1), of "[]"] s1(2) a(4) by (auto simp: opened_def)
  obtain s' where "list_map_end_decode s2 = (True, s')" "consumed (length ?body + 2) 1 s s'"
    by (rule list_map_end_coming[OF s1(2) s2(2,3) room])
  then show "\<exists>s'. cborToCoreconfValue (Suc fuel) s indent = Some (Some (norm ?v), s') \<and>
      consumed (length (cbor_of ?v)) 1 s s'"
    using s1(1) s2(1) a(6,8) coming_hd(1)[of s "0x9F"] com
    by (simp add: simple_major parse_array_def createCoreconfArray_def zcbor_list_end_decode_def)
qed simp

abbreviation cbor_object :: "CoreconfValue CoreconfObject \<Rightarrow> bytes" where
  "cbor_object obj \<equiv> cbor_head ZCBOR_MAJOR_TYPE_PINT (fst obj) @ cbor_of (snd obj)"

lemma parse_map_loop_coming:
  assumes "\<And>obj. obj \<in> set objs \<Longrightarrow> decodes (snd obj) \<and> wire_ok (snd obj) \<and>
      length (backup_list s) + nest (snd obj) \<le> num_backups s \<and> indent + 1 + nest (snd obj) \<le> CORECONF_MAX_DEPTH"
    and "coming s (concat (map cbor_object objs) @ [0xFF])" and "2 * length objs < unat (elem_count s)"
    and "indefinite_length_array s" and "\<not> enforce_canonical s"
    and "length (concat (map cbor_object objs)) \<le> fuel" and "length objs < rounds"
    and "loopCount + length objs \<le> Suc CORECONF_MAX_LOOP"
  shows "\<exists>s' k. parse_map_loop (cborToCoreconfValue fuel) rounds s hm indent loopCount
      = Some (True, hm_of_list (map (\<lambda>obj. (fst obj, norm (snd obj))) objs) hm, s') \<and>
    consumed (length (concat (map cbor_object objs))) k s s' \<and> coming s' [0xFF]"
  using assms
proof (induction objs arbitrary: s hm rounds loopCount)
  case Nil
  then obtain r where "rounds = Suc r" by (cases rounds) auto
  then show ?case using Nil array_at_end_break[of s] by (auto simp: hm_of_list_def intro: exI[of _ 0])
next
  case (Cons obj objs)
  let ?head = "cbor_head ZCBOR_MAJOR_TYPE_PINT (fst obj)" let ?v = "snd obj"
  let ?rest = "concat (map cbor_object objs) @ [0xFF]"
  let ?hm = "snd (insertCoreconfHashMap hm (fst obj) (norm ?v))"
  obtain r where r: "rounds = Suc r" using Cons.prems by (cases rounds) auto
  have com: "coming s (?head @ cbor_of ?v @ ?rest)" using Cons.prems(2) by simp
  obtain b bs where b: "?head = b # bs" by (cases ?head) auto
  have notend: "\<not> zcbor_array_at_end s"
    using array_not_at_end[of s b bs] Cons.prems(4) coming_appendD[OF com] b cbor_head_no_break[OF b] by simp
  have ne: "elem_count s \<noteq> 0" using Cons.prems(3) by auto
  let ?s0 = "advance s (length ?head)"
  have key: "zcbor_uint64_decode s = (Some (fst obj), ?s0)"
    by (rule uint64_decode_head[OF coming_appendD[OF com] ne Cons.prems(5)])
  have com0: "coming ?s0 (cbor_of ?v @ ?rest)" by (rule coming_consumed[OF com consumed_advance])
  have ne0: "elem_count ?s0 \<noteq> 0" using Cons.prems(3) unat_dec[OF ne] by auto
  have dx: "decodes ?v" "wire_ok ?v" "length (backup_list ?s0) + nest ?v \<le> num_backups ?s0"
      "indent + 1 + nest ?v \<le> CORECONF_MAX_DEPTH" "\<not> enforce_canonical ?s0"
    using Cons.prems(1)[of obj] Cons.prems(5) by simp_all
  obtain s1 where s1: "cborToCoreconfValue fuel ?s0 (indent + 1) = Some (Some (norm ?v), s1)"
      "consumed (length (cbor_of ?v)) 1 ?s0 s1"
  proof (rule decodesE[OF dx(1,2) coming_appendD[OF com0] ne0 dx(5,3,4)])
    show "length (cbor_of ?v) \<le> fuel" using Cons.prems(6) by simp
  qed (rule that)
  have all: "consumed (length (cbor_object obj)) (1 + 1) s s1"
    using consumed_trans[OF consumed_advance s1(2)] by simp
  note f = consumedD[OF all]
  have "unat (elem_count s1) = unat (elem_count s) - 2"
    using consumedD(4)[OF s1(2)] unat_dec[OF ne] unat_dec[OF ne0] by simp
  then have "\<exists>s' k. parse_map_loop (cborToCoreconfValue fuel) r s1 ?hm indent (loopCount + 1)
      = Some (True, hm_of_list (map (\<lambda>obj. (fst obj, norm (snd obj))) objs) ?hm, s') \<and>
    consumed (length (concat (map cbor_object objs))) k s1 s' \<and> coming s' [0xFF]"
    by (intro Cons.IH) (use Cons.prems f r coming_consumed[OF com0 s1(2)] in auto)
  then obtain s' k where s': "parse_map_loop (cborToCoreconfValue fuel) r s1 ?hm indent (loopCount + 1)
      = Some (True, hm_of_list (map (\<lambda>obj. (fst obj, norm (snd obj))) objs) ?hm, s')"
      "consumed (length (concat (map cbor_object objs))) k s1 s'" "coming s' [0xFF]"
    by blast
  have "\<not> loopCount > CORECONF_MAX_LOOP" using Cons.prems(8) by simp
  then show ?case
    using s' s1 r notend key consumed_trans[OF all s'(2)] by (auto simp: hm_of_list_def add.assoc)
qed

lemma decodes_hashmap:
  assumes IH: "\<And>obj. obj \<in> set (hm_objects hm) \<Longrightarrow> decodes (snd obj)"
  shows "decodes (CORECONF_HASHMAP hm)"
proof (rule decodesI)
  fix fuel s indent
  let ?v = "CORECONF_HASHMAP hm" let ?objs = "hm_objects hm" let ?body = "concat (map cbor_object ?objs)"
  assume a: "wire_ok ?v" "coming s (cbor_of ?v)" "elem_count s \<noteq> 0" "\<not> enforce_canonical s"
    "length (backup_list s) + nest ?v \<le> num_backups s" "indent + nest ?v \<le> CORECONF_MAX_DEPTH"
    "length (cbor_of ?v) \<le> Suc fuel" "payload s < payload_end s"
  have com: "coming s ([0xBF] @ ?body @ [0xFF])" using a(2) by simp
  have room: "length (backup_list s) < num_backups s" using a(5) by simp
  obtain s1 where s1: "zcbor_map_start_decode s = (True, s1)" "opened s s1"
    by (rule map_start_coming[OF coming_appendD[OF com] a(3,4) room])
  have com1: "coming s1 (?body @ [0xFF])"
    using coming_opened[of s _ _ s1] com s1(2) by simp
  have els: "decodes (snd obj) \<and> wire_ok (snd obj) \<and> length (backup_list s1) + nest (snd obj) \<le> num_backups s1 \<and>
      indent + 1 + nest (snd obj) \<le> CORECONF_MAX_DEPTH" if "obj \<in> set ?objs" for obj
    using that IH[OF that] a(1,5,6) nest_le_fold[OF that, of "\<lambda>obj. nest (snd obj)" 0] s1(2)
    by (auto simp: opened_def list_all_iff)
  have "length ?objs \<le> length ?body"
  proof -
    have "1 \<le> length (cbor_of x)" for x by (rule cbor_of_first[of x]) simp
    then have "sum_list (map (\<lambda>_. 1) ?objs) \<le> sum_list (map (length \<circ> cbor_object) ?objs)"
      by (intro sum_list_mono) (simp add: trans_le_add2)
    then show ?thesis by (simp add: length_concat sum_list_triv)
  qed
  then have n: "length ?objs < fuel" "length ?body \<le> fuel" using a(7) by simp_all
  have cnt: "2 * length ?objs < unat (elem_count s1)"
    using a(1) s1(2) by (simp add: opened_def CORECONF_MAX_LOOP_def)
  then obtain s2 k where s2: "parse_map_loop (cborToCoreconfValue fuel) fuel s1 empty_hashmap indent 0
      = Some (True, hm_of_list (map (\<lambda>obj. (fst obj, norm (snd obj))) ?objs) empty_hashmap, s2)"
      "consumed (length ?body) k s1 s2" "coming s2 [0xFF]"
    using parse_map_loop_coming[OF els com1 cnt _ _ n(2,1), of 0 empty_hashmap] s1(2) a(1,4)
    by (auto simp: opened_def)
  obtain s' where "list_map_end_decode s2 = (True, s')" "consumed (length ?body + 2) 1 s s'"
    by (rule list_map_end_coming[OF s1(2) s2(2,3) room])
  then show "\<exists>s'. cborToCoreconfValue (Suc fuel) s indent = Some (Some (norm ?v), s') \<and>
      consumed (length (cbor_of ?v)) 1 s s'"
    using s1(1) s2(1) a(6,8) coming_hd(1)[of s "0xBF"] com
    by (simp add: simple_major parse_map_def zcbor_map_end_decode_def)
qed simp

lemma decodes_all: "decodes v"
proof (induction v rule: coreconf_induct)
  case (array xs)
  then show ?case by (rule decodes_array)
next
  case (hashmap hm)
  then show ?case by (rule decodes_hashmap)
next
  case (scalar v)
  then show ?case by (rule decodes_scalar)
qed

section \<open>Properties of the serialisation\<close>

text \<open>Contents of uninitialised stack memory, for the concrete runs.\<close>

abbreviation any_state :: zcbor_state where
  "any_state \<equiv> zcbor_state.make 0 0 0 0 False False False 0 0 0"

lemma appended_region:
  assumes "enc_ok s" and "appended bs s s'"
  shows "payload s' = payload s + length bs" "payload_end s' = payload_end s"
    "payload s' \<le> payload_end s" "length (mem s') = length (mem s)"
    "take (length bs) (drop (payload s) (mem s')) = bs"
    "i < payload s \<or> payload s' \<le> i \<Longrightarrow> mem s' ! i = mem s ! i"
proof -
  have m: "mem s' = take (payload s) (mem s) @ bs @ drop (payload s + length bs) (mem s)"
    and p: "payload s' = payload s + length bs" and l: "payload s + length bs \<le> payload_end s"
      "payload_end s \<le> length (mem s)" "payload_end s' = payload_end s"
    using assms by (auto simp: appended_def fits_def enc_ok_def emit_def)
  show "payload s' = payload s + length bs" "payload_end s' = payload_end s"
    "payload s' \<le> payload_end s" "length (mem s') = length (mem s)"
    "take (length bs) (drop (payload s) (mem s')) = bs"
    using m p l by simp_all
  assume "i < payload s \<or> payload s' \<le> i"
  then show "mem s' ! i = mem s ! i" using l p unfolding m by (auto simp: nth_append)
qed

text \<open>
  C10. Given room for it, \<open>coreconfToCBOR\<close> returns true and the buffer then holds, from the payload
  pointer on, exactly the RFC 8949 encoding of the value; the pointer ends up just behind it.
\<close>

theorem coreconfToCBOR_correct:
  assumes "enc_ok s" and "payload s + length (cbor_of v) \<le> payload_end s"
  shows "fst (coreconfToCBOR v s) \<and>
    payload (snd (coreconfToCBOR v s)) = payload s + length (cbor_of v) \<and>
    take (length (cbor_of v)) (drop (payload s) (mem (snd (coreconfToCBOR v s)))) = cbor_of v"
proof (rule writesE[OF encodes_all[of v] assms(1)])
  fix cs
  assume "appended cs s (snd (coreconfToCBOR v s))" "fits s (length (cbor_of v)) \<longrightarrow> cs = cbor_of v"
    "fits s (length (cbor_of v)) \<longrightarrow> fst (coreconfToCBOR v s)"
  then show ?thesis using assms appended_region[OF assms(1)] by (auto simp: fits_def)
qed

theorem coreconfToCBOR_correct_witness:
  "fst (coreconfToCBOR (CORECONF_ARRAY [CORECONF_INT_8 (-2), CORECONF_UINT_16 500])
     (zcbor_new_encode_state any_state 8 (replicate 10 0) 0 10 1)) \<and>
   cbor_of (CORECONF_ARRAY [CORECONF_INT_8 (-2), CORECONF_UINT_16 500]) = [0x9F, 0x21, 0x19, 0x01, 0xF4, 0xFF]"
  (is "fst (coreconfToCBOR ?v ?s) \<and> ?e")
proof -
  have e: ?e
    by code_simp
  then have "length (cbor_of ?v) = 6" by simp
  then show ?thesis
    using coreconfToCBOR_correct[of ?s ?v] e by (simp add: enc_ok_def zcbor_new_encode_state_def)
qed

lemma coreconfToCBOR_in_bounds_aux:
  "enc_ok s \<Longrightarrow> payload (snd (coreconfToCBOR v s)) \<le> payload_end s"
  by (metis appended_region(3) encodes_all writesE)

text \<open>
  C26. Whatever the value and the room, encoding stays inside the buffer: the payload pointer only
  moves forward and never past \<open>payload_end\<close>, and no byte before the old pointer or from the new
  pointer on is changed.
\<close>

theorem coreconfToCBOR_in_bounds:
  assumes "enc_ok s"
  shows "payload s \<le> payload (snd (coreconfToCBOR v s)) \<and>
    payload (snd (coreconfToCBOR v s)) \<le> payload_end s \<and>
    length (mem (snd (coreconfToCBOR v s))) = length (mem s) \<and>
    (\<forall>i. i < payload s \<or> payload (snd (coreconfToCBOR v s)) \<le> i \<longrightarrow>
         mem (snd (coreconfToCBOR v s)) ! i = mem s ! i)"
proof (rule writesE[OF encodes_all[of v] assms])
  fix cs
  assume "appended cs s (snd (coreconfToCBOR v s))"
  note r = appended_region[OF assms this]
  show ?thesis using r(1,3,4) r(6) by auto
qed

theorem coreconfToCBOR_in_bounds_witness:
  "payload (snd (coreconfToCBOR (CORECONF_STRING [0x61, 0x62]) (zcbor_new_encode_state any_state 8 [1, 2] 0 2 1))) \<le> 2"
  using coreconfToCBOR_in_bounds[of "zcbor_new_encode_state any_state 8 [1, 2] 0 2 1" "CORECONF_STRING [0x61, 0x62]"]
  by (simp add: enc_ok_def zcbor_new_encode_state_def)

lemma decode_buffer:
  assumes "wire_ok v" and "nest v \<le> n - 2" and "nest v \<le> CORECONF_MAX_DEPTH"
    and "take (length (cbor_of v)) (drop start buf) = cbor_of v" and "start + len \<le> length buf"
    and "length (cbor_of v) \<le> len" and "length (cbor_of v) \<le> fuel" and "k \<noteq> 0"
  obtains s' where "cborToCoreconfValue fuel (zcbor_new_decode_state old n buf start len k) 0 = Some (Some (norm v), s')"
    "consumed (length (cbor_of v)) 1 (zcbor_new_decode_state old n buf start len k) s'"
  by (rule decodesE[OF decodes_all[of v] assms(1), of "zcbor_new_decode_state old n buf start len k" 0 fuel])
    (use assms that in \<open>auto simp: zcbor_new_decode_state_def coming_def\<close>)

text \<open>
  C1. Round trip: a value with at most 51 entries per map and at most six nested containers,
  encoded with room to spare, decodes (from a fresh state of eight, as all callers use) to the
  same value up to the integer types and the order inside the bucket chains; every byte written
  is consumed, and a number of loop rounds equal to the number of bytes is enough.
\<close>

theorem serialization_roundtrip:
  assumes "wire_ok v" and "nest v \<le> 6" and "length (cbor_of v) \<le> length buf"
    and "coreconfToCBOR v (zcbor_new_encode_state old 8 buf 0 (length buf) 1) = (ok, s')"
    and "payload s' \<le> fuel"
  shows "ok \<and> (\<exists>s''. cborToCoreconfValue fuel (zcbor_new_decode_state old' 8 (mem s') 0 (payload s') 1) 0
      = Some (Some (norm v), s'') \<and> payload s'' = payload_end s'')"
proof -
  let ?s = "zcbor_new_encode_state old 8 buf 0 (length buf) 1"
  have s: "enc_ok ?s" "payload ?s = 0" "payload_end ?s = length buf" "mem ?s = buf"
    by (simp_all add: enc_ok_def zcbor_new_encode_state_def)
  obtain cs where cs: "appended cs ?s s'" "cs = cbor_of v" ok
    using writesE[OF encodes_all[of v] s(1)] s(2,3) assms(3,4) by (auto simp: fits_def)
  note r = appended_region[OF s(1) cs(1)]
  have buf': "take (length (cbor_of v)) (drop 0 (mem s')) = cbor_of v" "payload s' = length (cbor_of v)"
    "0 + payload s' \<le> length (mem s')"
    using r(1,3,4,5) cs(2) s by simp_all
  have nest: "nest v \<le> 8 - 2" "nest v \<le> CORECONF_MAX_DEPTH"
    using assms(2) by (simp_all add: CORECONF_MAX_DEPTH_def)
  have len: "length (cbor_of v) \<le> payload s'" "length (cbor_of v) \<le> fuel" "(1 :: u64) \<noteq> 0"
    using buf'(2) assms(5) by simp_all
  obtain s'' where s'': "cborToCoreconfValue fuel (zcbor_new_decode_state old' 8 (mem s') 0 (payload s') 1) 0
      = Some (Some (norm v), s'')"
      "consumed (length (cbor_of v)) 1 (zcbor_new_decode_state old' 8 (mem s') 0 (payload s') 1) s''"
    by (rule decode_buffer[OF assms(1) nest buf'(1,3) len])
  then show ?thesis
    using cs(3) buf'(2) consumedD(1,2)[OF s''(2)] by (auto simp: zcbor_new_decode_state_def)
qed

theorem serialization_roundtrip_witness:
  "\<exists>ok s' s''. coreconfToCBOR (CORECONF_ARRAY [CORECONF_INT_8 (-2), CORECONF_TRUE])
      (zcbor_new_encode_state any_state 8 (replicate 8 0) 0 8 1) = (ok, s') \<and>
     cborToCoreconfValue 8 (zcbor_new_decode_state any_state 8 (mem s') 0 (payload s') 1) 0
      = Some (Some (CORECONF_ARRAY [CORECONF_INT_64 (-2), CORECONF_TRUE]), s'')"
proof -
  let ?v = "CORECONF_ARRAY [CORECONF_INT_8 (-2), CORECONF_TRUE]"
  let ?s = "zcbor_new_encode_state any_state 8 (replicate 8 0) 0 8 1"
  obtain ok s' where e: "coreconfToCBOR ?v ?s = (ok, s')" by (cases "coreconfToCBOR ?v ?s")
  have c: "cbor_of ?v = [0x9F, 0x21, 0xF5, 0xFF]" by code_simp
  have n: "norm ?v = CORECONF_ARRAY [CORECONF_INT_64 (-2), CORECONF_TRUE]" by code_simp
  have "payload s' \<le> 8"
    using coreconfToCBOR_in_bounds_aux[of ?s ?v] e by (simp add: enc_ok_def zcbor_new_encode_state_def)
  then show ?thesis
    using serialization_roundtrip[of ?v "replicate 8 0" any_state ok s' 8 any_state] e c n by auto
qed

lemma hm_of_list_edits: "hm_of_list objs hm = hm_edits hm (map (\<lambda>obj. (fst obj, Some (snd obj))) objs)"
  by (induction objs arbitrary: hm) (simp_all add: hm_of_list_def)

lemma fold_updates_map_of:
  "distinct (map fst objs) \<Longrightarrow>
     fold (\<lambda>(k, e) f. f(k := e)) (map (\<lambda>obj. (fst obj, Some (snd obj))) objs) f x
       = (case map_of objs x of Some v \<Rightarrow> Some v | None \<Rightarrow> f x)"
proof (induction objs arbitrary: f)
  case Nil
  then show ?case by simp
next
  case (Cons obj objs)
  have "map_of objs (fst obj) = None" using Cons.prems by (simp add: map_of_eq_None_iff)
  then show ?case using Cons by (cases "x = fst obj") (simp_all split: option.split)
qed

lemma map_of_map_snd: "map_of (map (\<lambda>obj. (fst obj, f (snd obj))) objs) x = map_option f (map_of objs x)"
  by (induction objs) auto

lemma norm_map_lookups:
  assumes "hm_wf hm" and "length (hm_objects hm) \<le> 52"
  shows "\<exists>hm'. norm (CORECONF_HASHMAP hm) = CORECONF_HASHMAP hm' \<and> hm_wf hm' \<and>
    getCoreconfHashMap hm' = (\<lambda>k. map_option norm (getCoreconfHashMap hm k))"
proof -
  let ?objs = "map (\<lambda>obj. (fst obj, norm (snd obj))) (hm_objects hm)"
  let ?es = "map (\<lambda>obj. (fst obj, Some (snd obj))) ?objs"
  have d: "distinct (map fst ?objs)"
    using distinct_hm_objects[OF assms(1)] by (simp add: comp_def)
  have "hm_of_list ?objs empty_hashmap = hm.edit_all empty_hashmap ?es"
    by (simp only: hm_of_list_edits hm_edits_edit_all)
  moreover have "getCoreconfHashMap (hm.edit_all empty_hashmap ?es) k = map_option norm (getCoreconfHashMap hm k)" for k
  proof -
    have "getCoreconfHashMap (hm.edit_all empty_hashmap ?es) k = fold (\<lambda>(k, e) f. f(k := e)) ?es Map.empty k"
      using hm.lkp_edit_all[OF hm.inv_emp, of ?es] assms(2)
      by (simp add: hm.lkp_emp CORECONF_MAX_LOOP_def)
    also have "\<dots> = map_of ?objs k"
      unfolding fold_updates_map_of[OF d] by (simp split: option.split)
    finally show ?thesis by (simp add: map_of_map_snd map_of_hm_objects[OF assms(1)])
  qed
  moreover have "hm_wf (hm.edit_all empty_hashmap ?es)" by (rule hm.inv_edit_all[OF hm.inv_emp])
  ultimately show ?thesis by auto
qed

text \<open>
  What the round trip does to a map: rebuilding a well-formed map of at most 52 entries from
  its written objects gives a well-formed map with the same keys, and under every key the decoded
  form of the value that was there.
\<close>

lemma norm_keeps_lookups:
  assumes "hm_wf hm" and "length (hm_objects hm) \<le> 52"
  shows "\<exists>hm'. norm (CORECONF_HASHMAP hm) = CORECONF_HASHMAP hm' \<and> hm_wf hm' \<and>
    getCoreconfHashMap hm' = (\<lambda>k. map_option norm (getCoreconfHashMap hm k))"
  by (rule norm_map_lookups[OF assms])

lemma norm_keeps_lookups_witness:
  "\<exists>hm'. norm (CORECONF_HASHMAP (snd (insertCoreconfHashMap empty_hashmap 7 (CORECONF_INT_8 3)))) = CORECONF_HASHMAP hm' \<and>
     getCoreconfHashMap hm' 7 = Some (CORECONF_UINT_64 3)"
proof -
  let ?hm = "snd (insertCoreconfHashMap empty_hashmap 7 (CORECONF_INT_8 3))"
  have "hm_wf ?hm" by (rule hm_wf_insert[OF hm_wf_empty])
  moreover have "length (hm_objects ?hm) \<le> 52" by code_simp
  moreover have "map_option norm (getCoreconfHashMap ?hm 7) = Some (CORECONF_UINT_64 3)" by code_simp
  ultimately show ?thesis using norm_keeps_lookups[of ?hm] by metis
qed

section \<open>Where the decoder and the encoder go wrong\<close>

lemma parse_array_loop_stuck:
  assumes "\<not> zcbor_array_at_end s" and "dec s (indent + 1) = Some (None, s) \<or> dec s (indent + 1) = None"
  shows "parse_array_loop dec rounds s arr indent = None"
  using assms by (induction rounds) auto

text \<open>
  C22. \<open>_parse_array\<close> does not return on a list whose payload ends before the list does: with no
  byte left the element decoder returns NULL without consuming anything, and the loop only tests
  \<open>zcbor_array_at_end\<close>. The one-byte payload \<open>81\<close> (a list of one element) is enough to make
  \<open>cborToCoreconfValue\<close>, and with it PUT and iPATCH, run forever.
\<close>

theorem truncated_list_never_returns:
  "cborToCoreconfValue fuel (zcbor_new_decode_state old 8 [0x81] 0 1 1) 0 = None"
proof (cases fuel)
  case 0
  then show ?thesis by simp
next
  case (Suc f)
  let ?s = "zcbor_new_decode_state old 8 [0x81] 0 1 1"
  have h: "ZCBOR_MAJOR_TYPE 0x81 = ZCBOR_MAJOR_TYPE_LIST" "ZCBOR_ADDITIONAL 0x81 = 1"
    by (simp_all add: ZCBOR_MAJOR_TYPE_def ZCBOR_ADDITIONAL_def Let_def)
  have start: "\<exists>s1. zcbor_list_start_decode ?s = (True, s1) \<and> payload s1 = 1 \<and> payload_end s1 = 1 \<and>
      elem_count s1 = 1 \<and> \<not> indefinite_length_array s1"
    using h by (simp add: zcbor_list_start_decode_def list_map_start_decode_def type_check_def initial_checks_def
        value_extract_def zcbor_new_decode_state_def zcbor_new_backup_def exit_map_def header_at_def
        additional_len_def zcbor_state.defs Let_def)
  then obtain s1 where s1: "zcbor_list_start_decode ?s = (True, s1)" "payload s1 = 1" "payload_end s1 = 1"
      "elem_count s1 = 1" "\<not> indefinite_length_array s1" by blast
  have "cborToCoreconfValue f s1 (0 + 1) = Some (None, s1) \<or> cborToCoreconfValue f s1 (0 + 1) = None"
    using s1 by (cases f) auto
  moreover have "\<not> zcbor_array_at_end s1" using s1 by (simp add: zcbor_array_at_end_def)
  ultimately have "parse_array_loop (cborToCoreconfValue f) f s1 createCoreconfArray 0 = None"
    by (intro parse_array_loop_stuck)
  then show ?thesis
    using Suc s1 h by (simp add: parse_array_def header_at_def zcbor_new_decode_state_def)
qed

text \<open>
  \<open>coreconfToCBOR\<close> reports success although it lost an entry: \<open>serializeCoreconfObject\<close> ignores
  the results of its two calls. In a buffer of four bytes the map \<open>{1: "abc"}\<close> comes out as
  \<open>bf 01 ff\<close> with the return value true, which is no well-formed CBOR map.
\<close>

lemma coreconfToCBOR_drops_entry:
  "fst (coreconfToCBOR (CORECONF_HASHMAP (snd (insertCoreconfHashMap empty_hashmap 1 (CORECONF_STRING [0x61, 0x62, 0x63]))))
      (zcbor_new_encode_state any_state 8 (replicate 4 0) 0 4 1)) \<and>
   mem (snd (coreconfToCBOR (CORECONF_HASHMAP (snd (insertCoreconfHashMap empty_hashmap 1 (CORECONF_STRING [0x61, 0x62, 0x63]))))
      (zcbor_new_encode_state any_state 8 (replicate 4 0) 0 4 1))) = [0xBF, 0x01, 0xFF, 0]"
  by code_simp

end
