(* ===== verification/Get_Put.thy ===== *)
theory Get_Put
  imports Serialization
begin

text \<open>
  \<open>src/src/get.c\<close> and \<open>src/src/put.c\<close>: the whole datastore as one CBOR map, written into a caller's
  buffer, and read back. A pointer argument that the code compares with NULL is an option. A
  function that fills a buffer returns the number of bytes and the buffer; \<open>old\<close> is the stack memory
  under its \<open>zcbor_state_t\<close> array. Decoding takes fuel, as in \<open>Serialization\<close>.
\<close>

section \<open>Operations\<close>

text \<open>One entry of the loop over the table: the key, then the value, each with an early return.\<close>

definition put_entry :: "CoreconfValue CoreconfObject \<Rightarrow> zcbor \<Rightarrow> bool \<times> zcbor" where
  "put_entry obj s =
     (case zcbor_uint64_put s (fst obj) of
        (False, s) \<Rightarrow> (False, s)
      | (True, s) \<Rightarrow> coreconfToCBOR (snd obj) s)"

definition create_get_response ::
  "zcbor_state \<Rightarrow> bytes option \<Rightarrow> nat \<Rightarrow> CoreconfValue option \<Rightarrow> nat \<times> bytes option" where
  "create_get_response old buffer buffer_size datastore =
     (case (buffer, datastore) of
        (Some buf, Some (CORECONF_HASHMAP hm)) \<Rightarrow>
          let entry_count = hm_size hm in
          if entry_count = 0
          then (case zcbor_map_start_encode (zcbor_new_encode_state old 8 buf 0 buffer_size 1) 0 of
                  (False, s) \<Rightarrow> (0, Some (mem s))
                | (True, s) \<Rightarrow>
                    (case zcbor_map_end_encode s 0 of
                       (False, s) \<Rightarrow> (0, Some (mem s))
                     | (True, s) \<Rightarrow> (payload s, Some (mem s))))
          else (case zcbor_map_start_encode (zcbor_new_encode_state old 8 buf 0 buffer_size 1) entry_count of
                  (False, s) \<Rightarrow> (0, Some (mem s))
                | (True, s) \<Rightarrow>
                    (case encode_each put_entry (hm_objects hm) s of
                       (False, s) \<Rightarrow> (0, Some (mem s))
                     | (True, s) \<Rightarrow>
                         (case zcbor_map_end_encode s entry_count of
                            (False, s) \<Rightarrow> (0, Some (mem s))
                          | (True, s) \<Rightarrow> (payload s, Some (mem s)))))
      | _ \<Rightarrow> (0, buffer))"

definition parse_get_response ::
  "nat \<Rightarrow> zcbor_state \<Rightarrow> bytes option \<Rightarrow> nat \<Rightarrow> CoreconfValue option option" where
  "parse_get_response fuel old data len =
     (case data of
        None \<Rightarrow> Some None
      | Some buf \<Rightarrow>
          if len = 0 then Some None
          else map_option fst (cborToCoreconfValue fuel (zcbor_new_decode_state old 8 buf 0 len 1) 0))"

definition parse_put_request ::
  "nat \<Rightarrow> zcbor_state \<Rightarrow> bytes option \<Rightarrow> nat \<Rightarrow> CoreconfValue option option" where
  "parse_put_request fuel old data len =
     (case data of
        None \<Rightarrow> Some None
      | Some buf \<Rightarrow>
          if len = 0 then Some None
          else map_option fst (cborToCoreconfValue fuel (zcbor_new_decode_state old 8 buf 0 len 1) 0))"

definition create_put_request ::
  "zcbor_state \<Rightarrow> bytes option \<Rightarrow> nat \<Rightarrow> CoreconfValue option \<Rightarrow> nat \<times> bytes option" where
  "create_put_request old buffer buffer_size datastore =
     (case (buffer, datastore) of
        (Some buf, Some (CORECONF_HASHMAP hm)) \<Rightarrow>
          let entry_count = hm_size hm; state = zcbor_new_encode_state old 8 buf 0 buffer_size 1 in
          if entry_count = 0
          then (case zcbor_map_start_encode state 0 of
                  (False, s) \<Rightarrow> (0, Some (mem s))
                | (True, s) \<Rightarrow>
                    (case zcbor_map_end_encode s 0 of
                       (False, s) \<Rightarrow> (0, Some (mem s))
                     | (True, s) \<Rightarrow> (payload s, Some (mem s))))
          else (case zcbor_map_start_encode state entry_count of
                  (False, s) \<Rightarrow> (0, Some (mem s))
                | (True, s) \<Rightarrow>
                    (case encode_each put_entry (hm_objects hm) s of
                       (False, s) \<Rightarrow> (0, Some (mem s))
                     | (True, s) \<Rightarrow>
                         (case zcbor_map_end_encode s entry_count of
                            (False, s) \<Rightarrow> (0, Some (mem s))
                          | (True, s) \<Rightarrow> (payload s, Some (mem s)))))
      | _ \<Rightarrow> (0, buffer))"

section \<open>Lemmas\<close>

text \<open>The result of a buffer-filling function whose encoder is \<open>f\<close>.\<close>

definition finish :: "bool \<times> zcbor \<Rightarrow> nat \<times> bytes option" where
  "finish r = (if fst r then payload (snd r) else 0, Some (mem (snd r)))"

definition put_map :: "CoreconfValue CoreconfHashMap \<Rightarrow> zcbor \<Rightarrow> bool \<times> zcbor" where
  "put_map hm s =
     (case zcbor_map_start_encode s (hm_size hm) of
        (False, s) \<Rightarrow> (False, s)
      | (True, s) \<Rightarrow>
          (case encode_each put_entry (hm_objects hm) s of
             (False, s) \<Rightarrow> (False, s)
           | (True, s) \<Rightarrow> zcbor_map_end_encode s (hm_size hm)))"

lemma writes_entry: "writes (put_entry obj) (cbor_object obj)"
proof -
  have "writes (\<lambda>s. case zcbor_uint64_put s (fst obj) of (False, s) \<Rightarrow> (False, s)
      | (True, s) \<Rightarrow> coreconfToCBOR (snd obj) s) (cbor_object obj)"
    by (intro writes_seq writes_intros encodes_all)
  then show ?thesis by (rule writes_cong) (simp_all add: put_entry_def)
qed

lemma writes_map: "writes (put_map hm) (cbor_of (CORECONF_HASHMAP hm))"
proof -
  have "writes (\<lambda>s. case zcbor_map_start_encode s (hm_size hm) of (False, s) \<Rightarrow> (False, s) | (True, s) \<Rightarrow>
      (case encode_each put_entry (hm_objects hm) s of (False, s) \<Rightarrow> (False, s)
       | (True, s) \<Rightarrow> zcbor_map_end_encode s (hm_size hm)))
      ([0xBF] @ concat (map cbor_object (hm_objects hm)) @ [0xFF])"
    by (intro writes_seq writes_intros writes_each writes_entry)
  then show ?thesis by (rule writes_cong) (simp_all add: put_map_def)
qed

lemma hm_size_0: "hm_wf hm \<Longrightarrow> hm_size hm = 0 \<Longrightarrow> hm_objects hm = []"
  using unat_hm_size[of hm] by simp

lemma create_get_response_put_map:
  assumes "hm_wf hm"
  shows "create_get_response old (Some buf) n (Some (CORECONF_HASHMAP hm)) =
    finish (put_map hm (zcbor_new_encode_state old 8 buf 0 n 1))"
  using hm_size_0[OF assms]
  by (auto simp: create_get_response_def put_map_def finish_def Let_def split: prod.splits bool.splits)

lemma create_put_request_get: "create_put_request = create_get_response"
  by (intro ext) (simp only: create_put_request_def create_get_response_def Let_def)

lemma parse_put_request_get: "parse_put_request = parse_get_response"
  by (intro ext) (simp only: parse_put_request_def parse_get_response_def)

text \<open>A writer run from a fresh state: what the buffer holds then.\<close>

lemma writes_fresh:
  assumes w: "writes f bs" and n: "start + n \<le> length buf" and fit: "length bs \<le> n"
    and r: "f (zcbor_new_encode_state old k buf start n e) = (ok, s')"
  shows "ok" "payload s' = start + length bs" "length (mem s') = length buf"
    "take (length bs) (drop start (mem s')) = bs" "take start (mem s') = take start buf"
proof -
  let ?s = "zcbor_new_encode_state old k buf start n e"
  have s: "enc_ok ?s" "payload ?s = start" "payload_end ?s = start + n" "mem ?s = buf"
    using n by (simp_all add: enc_ok_def zcbor_new_encode_state_def)
  obtain cs where cs: "appended cs ?s s'" "cs = bs" ok
    using writesE[OF w s(1)] s(2,3) r fit by (auto simp: fits_def)
  note reg = appended_region[OF s(1) cs(1)]
  show ok by (rule cs(3))
  show "payload s' = start + length bs" "length (mem s') = length buf"
    "take (length bs) (drop start (mem s')) = bs"
    using reg(1,4,5) cs(2) s by simp_all
  show "take start (mem s') = take start buf"
    using reg(4) reg(6) s by (intro nth_equalityI) simp_all
qed

lemma get_response_bytes:
  assumes "hm_wf hm" and "length (cbor_of (CORECONF_HASHMAP hm)) \<le> buffer_size" and "buffer_size \<le> length buf"
  obtains buf' where "create_get_response old (Some buf) buffer_size (Some (CORECONF_HASHMAP hm)) =
      (length (cbor_of (CORECONF_HASHMAP hm)), Some buf')"
    "take (length (cbor_of (CORECONF_HASHMAP hm))) buf' = cbor_of (CORECONF_HASHMAP hm)" "length buf' = length buf"
proof -
  let ?s = "zcbor_new_encode_state old 8 buf 0 buffer_size 1"
  obtain ok s' where r: "put_map hm ?s = (ok, s')" by (cases "put_map hm ?s")
  have sz: "0 + buffer_size \<le> length buf" using assms(3) by simp
  note w = writes_fresh[OF writes_map sz assms(2) r]
  show thesis
    using that[of "mem s'"] w r by (simp add: create_get_response_put_map[OF assms(1)] finish_def)
qed

lemma parse_put_bytes:
  assumes "wire_ok v" and "cbor_of v \<noteq> []" and "nest v \<le> 6" and "take n buf = cbor_of v" and "n = length (cbor_of v)" and "n \<le> fuel"
    and "n \<le> length buf"
  shows "parse_put_request fuel old (Some buf) n = Some (Some (norm v))"
proof -
  have nest: "nest v \<le> 8 - 2" "nest v \<le> CORECONF_MAX_DEPTH" using assms(3) by (simp_all add: CORECONF_MAX_DEPTH_def)
  have b: "take (length (cbor_of v)) (drop 0 buf) = cbor_of v" using assms(4,5) by simp
  have len: "0 + n \<le> length buf" "length (cbor_of v) \<le> n" "length (cbor_of v) \<le> fuel" "(1 :: u64) \<noteq> 0"
    using assms(5-7) by simp_all
  obtain s where "cborToCoreconfValue fuel (zcbor_new_decode_state old 8 buf 0 n 1) 0 = Some (Some (norm v), s)"
    by (rule decode_buffer[OF assms(1) nest b len])
  moreover have "n \<noteq> 0" using assms(2,5) by simp
  ultimately show ?thesis by (simp add: parse_put_request_def)
qed

section \<open>Properties\<close>

text \<open>
  C23. GET: given room, the response is the CBOR encoding of the datastore and nothing else, and
  a client that parses it (a map of at most 51 entries per level, at most six nested containers)
  gets the datastore back up to integer types and chain order.
\<close>

theorem get_response_roundtrip:
  assumes "hm_wf hm" and "wire_ok (CORECONF_HASHMAP hm)" and "nest (CORECONF_HASHMAP hm) \<le> 6"
    and "length (cbor_of (CORECONF_HASHMAP hm)) \<le> buffer_size" and "buffer_size \<le> length buf"
    and "create_get_response old (Some buf) buffer_size (Some (CORECONF_HASHMAP hm)) = (n, Some buf')"
    and "n \<le> fuel"
  shows "take n buf' = cbor_of (CORECONF_HASHMAP hm) \<and>
    parse_get_response fuel old' (Some buf') n = Some (Some (norm (CORECONF_HASHMAP hm)))"
proof -
  let ?v = "CORECONF_HASHMAP hm"
  obtain buf'' where r: "create_get_response old (Some buf) buffer_size (Some ?v) = (length (cbor_of ?v), Some buf'')"
      "take (length (cbor_of ?v)) buf'' = cbor_of ?v" "length buf'' = length buf"
    by (rule get_response_bytes[OF assms(1,4,5)])
  then have n: "n = length (cbor_of ?v)" "take n buf' = cbor_of ?v" "n \<le> length buf'" using assms(4-6) by simp_all
  then show ?thesis
    using parse_put_bytes[OF assms(2) _ assms(3) n(2,1) assms(7) n(3)] by (simp add: parse_put_request_get)
qed

text \<open>A one-entry datastore for the concrete instances.\<close>

definition sample_map :: "CoreconfValue CoreconfHashMap" where
  "sample_map = snd (insertCoreconfHashMap empty_hashmap 20 (CORECONF_INT_8 5))"

lemma sample_map_wf: "hm_wf sample_map"
  unfolding sample_map_def by (rule hm_wf_insert[OF hm_wf_empty])

lemma sample_map_facts:
  "cbor_of (CORECONF_HASHMAP sample_map) = [0xBF, 0x14, 0x05, 0xFF]"
  "wire_ok (CORECONF_HASHMAP sample_map)" "nest (CORECONF_HASHMAP sample_map) = 1"
  by code_simp+

theorem get_response_roundtrip_witness:
  "\<exists>n buf'. create_get_response any_state (Some (replicate 16 0)) 16 (Some (CORECONF_HASHMAP sample_map)) = (n, Some buf') \<and>
     take n buf' = [0xBF, 0x14, 0x05, 0xFF]"
proof -
  let ?r = "create_get_response any_state (Some (replicate 16 0)) 16 (Some (CORECONF_HASHMAP sample_map))"
  obtain n buf' where r: "?r = (n, Some buf')"
    by (simp add: create_get_response_put_map[OF sample_map_wf] finish_def)
  then show ?thesis
    using get_response_roundtrip[OF sample_map_wf sample_map_facts(2) _ _ _ r, of n any_state] sample_map_facts by simp
qed

text \<open>
  PUT: the request a client builds from a datastore is, byte for byte, the GET response of that
  datastore, and the server's parser is the client's, so a PUT of what a GET returned restores it.
\<close>

lemma put_request_is_get_response:
  "create_put_request old buffer buffer_size datastore = create_get_response old buffer buffer_size datastore \<and>
   parse_put_request fuel old' data len = parse_get_response fuel old' data len"
  by (simp add: create_put_request_get parse_put_request_get)

lemma exact_map:
  assumes "\<And>obj. obj \<in> set (hm_objects hm) \<Longrightarrow> map_free (snd obj)"
  shows "exact (put_map hm) (cbor_of (CORECONF_HASHMAP hm))"
proof -
  have entry: "exact (put_entry obj) (cbor_object obj)" if "obj \<in> set (hm_objects hm)" for obj
  proof -
    have "exact (\<lambda>s. case zcbor_uint64_put s (fst obj) of (False, s) \<Rightarrow> (False, s)
        | (True, s) \<Rightarrow> coreconfToCBOR (snd obj) s) (cbor_object obj)"
      using assms[OF that] by (intro exact_seq exact_intros exact_coreconfToCBOR)
    then show ?thesis by (rule exact_cong) (simp_all add: put_entry_def)
  qed
  have "exact (\<lambda>s. case zcbor_map_start_encode s (hm_size hm) of (False, s) \<Rightarrow> (False, s) | (True, s) \<Rightarrow>
      (case encode_each put_entry (hm_objects hm) s of (False, s) \<Rightarrow> (False, s)
       | (True, s) \<Rightarrow> zcbor_map_end_encode s (hm_size hm)))
      ([0xBF] @ concat (map cbor_object (hm_objects hm)) @ [0xFF])"
    by (intro exact_seq exact_intros exact_each entry)
  then show ?thesis by (rule exact_cong) (simp_all add: put_map_def)
qed

text \<open>
  GET is all or nothing on a datastore whose values hold no maps: the result is 0 exactly when
  the encoding does not fit, and otherwise it is the length of the complete encoding. (With a
  map below the top level the inner encoder can drop entries and still succeed.)
\<close>

lemma get_response_all_or_nothing:
  assumes "hm_wf hm" and "\<forall>obj \<in> set (hm_objects hm). map_free (snd obj)" and "buffer_size \<le> length buf"
  shows "fst (create_get_response old (Some buf) buffer_size (Some (CORECONF_HASHMAP hm))) =
    (if length (cbor_of (CORECONF_HASHMAP hm)) \<le> buffer_size then length (cbor_of (CORECONF_HASHMAP hm)) else 0)"
proof -
  let ?v = "CORECONF_HASHMAP hm" let ?s = "zcbor_new_encode_state old 8 buf 0 buffer_size 1"
  obtain ok s' where r: "put_map hm ?s = (ok, s')" by (cases "put_map hm ?s")
  have s: "enc_ok ?s" "fits ?s (length (cbor_of ?v)) \<longleftrightarrow> length (cbor_of ?v) \<le> buffer_size"
    using assms(3) by (simp_all add: enc_ok_def fits_def zcbor_new_encode_state_def)
  have ex: "exact (put_map hm) (cbor_of ?v)" using assms(2) by (intro exact_map) blast
  have "ok \<longrightarrow> length (cbor_of ?v) \<le> buffer_size"
    using ex s r unfolding exact_def by (metis fst_conv)
  moreover have "length (cbor_of ?v) \<le> buffer_size \<Longrightarrow> ok \<and> payload s' = length (cbor_of ?v)"
    using writes_fresh[OF exact_writes[OF ex] _ _ r] assms(3) by simp
  ultimately show ?thesis
    using r by (auto simp: create_get_response_put_map[OF assms(1)] finish_def)
qed

lemma get_response_all_or_nothing_witness:
  "fst (create_get_response any_state (Some (replicate 3 0)) 3 (Some (CORECONF_HASHMAP sample_map))) = 0"
proof -
  have "\<forall>obj \<in> set (hm_objects sample_map). map_free (snd obj)" by code_simp
  then show ?thesis
    using get_response_all_or_nothing[OF sample_map_wf, of 3 "replicate 3 0" any_state]
    by (simp add: sample_map_facts(1) del: cbor_of.simps)
qed

end
