(* ===== verification/Ipatch.thy ===== *)
theory Ipatch
  imports Get_Put
begin

text \<open>
  \<open>src/src/ipatch.c\<close>: partial updates of the datastore, as a decoded patch map (\<open>apply_ipatch\<close>) and
  directly from a sequence of CBOR maps (\<open>apply_ipatch_raw\<close>, which the server calls). The raw form
  reads \<open>*state->payload\<close> without testing \<open>payload_end\<close>; a read behind the buffer is the fault
  \<open>OutOfBoundsRead\<close>. Fuel bounds the loops, as in \<open>Serialization\<close>; \<open>None\<close> means not returned.
  The shallow copy that \<open>apply_one_sid\<close> makes of a value is the same value here; that the copy
  shares the arrays and maps of the patch afterwards is outside this model.
\<close>

section \<open>Applying a decoded patch\<close>

record ApplyPatchCtx =
  target :: "CoreconfValue CoreconfHashMap"
  patch_error :: int

definition apply_one_sid :: "CoreconfValue CoreconfObject \<Rightarrow> ApplyPatchCtx \<Rightarrow> ApplyPatchCtx" where
  "apply_one_sid obj ctx =
     (if snd obj = CORECONF_NULL
      then ctx\<lparr>target := snd (deleteFromCoreconfHashMap (target ctx) (fst obj))\<rparr>
      else let copy = (case snd obj of CORECONF_STRING str \<Rightarrow> CORECONF_STRING (c_string str) | v \<Rightarrow> v);
               (r, t) = insertCoreconfHashMap (target ctx) (fst obj) copy
           in ctx\<lparr>target := t, patch_error := (if r \<noteq> 0 then 1 else patch_error ctx)\<rparr>)"

definition parse_ipatch_request ::
  "nat \<Rightarrow> zcbor_state \<Rightarrow> bytes option \<Rightarrow> nat \<Rightarrow> CoreconfValue option option" where
  "parse_ipatch_request fuel old data len =
     (case data of
        None \<Rightarrow> Some None
      | Some buf \<Rightarrow>
          if len = 0 then Some None
          else map_option fst (cborToCoreconfValue fuel (zcbor_new_decode_state old 8 buf 0 len 1) 0))"

definition apply_ipatch ::
  "CoreconfValue option \<Rightarrow> CoreconfValue option \<Rightarrow> int \<times> CoreconfValue option" where
  "apply_ipatch datastore patch =
     (case (datastore, patch) of
        (Some (CORECONF_HASHMAP target_map), Some (CORECONF_HASHMAP patch_map)) \<Rightarrow>
          let ctx = iterateCoreconfHashMap patch_map \<lparr>target = target_map, patch_error = 0\<rparr> apply_one_sid
          in (if patch_error ctx \<noteq> 0 then -1 else 0, Some (CORECONF_HASHMAP (target ctx)))
      | _ \<Rightarrow> (-1, datastore))"

section \<open>Requests\<close>

definition create_ipatch_request ::
  "zcbor_state \<Rightarrow> bytes option \<Rightarrow> nat \<Rightarrow> CoreconfValue option \<Rightarrow> nat \<times> bytes option" where
  "create_ipatch_request old buffer buffer_size patch =
     (case (buffer, patch) of
        (Some buf, Some (CORECONF_HASHMAP hm)) \<Rightarrow>
          let entry_count = hm_size hm; state = zcbor_new_encode_state old 8 buf 0 buffer_size 1 in
          if entry_count = 0
          then (case zcbor_map_start_encode state 0 of
                  (False, s) \<Rightarrow> (0, Some (mem s))
                | (True, s) \<Rightarrow>
                    (case zcbor_map_end_encode s 0 of
                       (False, s) \<Rightarrow> (0, Some (mem s))
                     | (True, s) \<Rightarrow> (payload s, Some (mem s))))
          else (case zcbor_map_start_encode state entry_count of
                  (False, s) \<Rightarrow> (0, Some (mem s))
                | (True, s) \<Rightarrow>
                    (case encode_each put_entry (hm_objects hm) s of
                       (False, s) \<Rightarrow> (0, Some (mem s))
                     | (True, s) \<Rightarrow>
                         (case zcbor_map_end_encode s entry_count of
                            (False, s) \<Rightarrow> (0, Some (mem s))
                          | (True, s) \<Rightarrow> (payload s, Some (mem s)))))
      | _ \<Rightarrow> (0, buffer))"

text \<open>The chain of encoder calls of \<open>create_ipatch_iid_request\<close>, each with its early return.\<close>

definition put_iid_patch :: "u64 \<Rightarrow> bytes \<Rightarrow> CoreconfValue option \<Rightarrow> zcbor \<Rightarrow> bool \<times> zcbor" where
  "put_iid_patch sid key_str val s =
     (case zcbor_map_start_encode s 1 of (False, s) \<Rightarrow> (False, s) | (True, s) \<Rightarrow>
     (case zcbor_list_start_encode s 2 of (False, s) \<Rightarrow> (False, s) | (True, s) \<Rightarrow>
     (case zcbor_uint64_put s sid of (False, s) \<Rightarrow> (False, s) | (True, s) \<Rightarrow>
     (case zcbor_tstr_encode s (c_string key_str) of (False, s) \<Rightarrow> (False, s) | (True, s) \<Rightarrow>
     (case zcbor_list_end_encode s 2 of (False, s) \<Rightarrow> (False, s) | (True, s) \<Rightarrow>
     (case (case val of Some v \<Rightarrow> coreconfToCBOR v s | None \<Rightarrow> zcbor_nil_put s) of
        (False, s) \<Rightarrow> (False, s)
      | (True, s) \<Rightarrow> zcbor_map_end_encode s 1))))))"

definition create_ipatch_iid_request ::
  "zcbor_state \<Rightarrow> bytes option \<Rightarrow> nat \<Rightarrow> u64 \<Rightarrow> bytes option \<Rightarrow> CoreconfValue option \<Rightarrow> nat \<times> bytes option" where
  "create_ipatch_iid_request old buffer buffer_size sid key_str val =
     (case (buffer, key_str) of
        (Some buf, Some key) \<Rightarrow>
          (case put_iid_patch sid key val (zcbor_new_encode_state old 8 buf 0 buffer_size 1) of
             (False, s) \<Rightarrow> (0, Some (mem s))
           | (True, s) \<Rightarrow> (payload s, Some (mem s)))
      | _ \<Rightarrow> (0, buffer))"

section \<open>List entries\<close>

definition entry_has_string :: "bytes \<Rightarrow> CoreconfValue \<Rightarrow> bool" where
  "entry_has_string key_str entry =
     (case entry of
        CORECONF_HASHMAP m \<Rightarrow>
          list_ex (\<lambda>obj. case snd obj of CORECONF_STRING str \<Rightarrow> c_string str = c_string key_str | _ \<Rightarrow> False)
            (hm_objects m)
      | _ \<Rightarrow> False)"

fun find_entry_from :: "nat \<Rightarrow> bytes \<Rightarrow> CoreconfValue list \<Rightarrow> int" where
  "find_entry_from i key_str [] = -1"
| "find_entry_from i key_str (entry # entries) =
     (if entry_has_string key_str entry then int i else find_entry_from (Suc i) key_str entries)"

definition find_list_entry_by_key :: "CoreconfValue option \<Rightarrow> bytes \<Rightarrow> int" where
  "find_list_entry_by_key arr key_str =
     (case arr of Some (CORECONF_ARRAY elements) \<Rightarrow> find_entry_from 0 key_str elements | _ \<Rightarrow> -1)"

text \<open>The shifting loop of \<open>remove_array_entry\<close> leaves the elements before and behind \<open>idx\<close>.\<close>

definition remove_array_entry :: "CoreconfValue list \<Rightarrow> nat \<Rightarrow> CoreconfValue list" where
  "remove_array_entry elements idx =
     (if idx \<ge> length elements then elements else take idx elements @ drop (Suc idx) elements)"

text \<open>
  The update of a list entry in place: the array is changed through the pointer that the lookup
  returned, so the object keeps its place in the chain.
\<close>

definition hm_replace :: "'v CoreconfHashMap \<Rightarrow> u64 \<Rightarrow> 'v \<Rightarrow> 'v CoreconfHashMap" where
  "hm_replace hm key v =
     (let i = hashKey (ucast key) in
      CoreconfHashMap ((hm_table hm)[i := chain_update key v (hm_table hm ! i)]) (hm_size hm) (hm_capacity hm))"

definition patch_list_entry :: "CoreconfValue list \<Rightarrow> bytes \<Rightarrow> CoreconfValue \<Rightarrow> CoreconfValue list" where
  "patch_list_entry elements key_str val =
     (let idx = find_list_entry_by_key (Some (CORECONF_ARRAY elements)) key_str in
      if val = CORECONF_NULL
      then (if idx \<ge> 0 then remove_array_entry elements (nat idx) else elements)
      else (if idx \<ge> 0 then elements[nat idx := val] else elements @ [val]))"

text \<open>
  Which entry a key names, said without the search of the code: an entry is a map with that string, up
  to the first NUL, among its values, and the first such entry of a list counts.
\<close>

inductive names_entry :: "bytes \<Rightarrow> CoreconfValue \<Rightarrow> bool" where
  "(sid, CORECONF_STRING str) \<in> set (hm_objects m) \<Longrightarrow> c_string str = c_string key \<Longrightarrow>
     names_entry key (CORECONF_HASHMAP m)"

inductive first_named :: "bytes \<Rightarrow> CoreconfValue list \<Rightarrow> CoreconfValue \<Rightarrow> bool" where
  "names_entry key e \<Longrightarrow> (\<And>x. x \<in> set before \<Longrightarrow> \<not> names_entry key x) \<Longrightarrow>
     first_named key (before @ e # behind) e"

lemma entry_has_string_names: "entry_has_string key e \<longleftrightarrow> names_entry key e"
proof -
  have "(case v of CORECONF_STRING str \<Rightarrow> P str | _ \<Rightarrow> False) \<longleftrightarrow> (\<exists>str. v = CORECONF_STRING str \<and> P str)" for v P
    by (cases v) auto
  then show ?thesis
    by (cases e) (force simp: entry_has_string_def list_ex_iff names_entry.simps)+
qed

lemma first_named_find: "first_named key es e \<longleftrightarrow> List.find (entry_has_string key) es = Some e"
proof (induction es)
  case Nil
  then show ?case by (simp add: first_named.simps)
next
  case (Cons x es)
  show ?case
  proof (cases "names_entry key x")
    case True
    then have "first_named key (x # es) x" using first_named.intros[of key x "[]" es] by simp
    moreover have "e = x" if "first_named key (x # es) e"
      using that True by (auto elim!: first_named.cases simp: Cons_eq_append_conv)
    ultimately show ?thesis using True by (auto simp: entry_has_string_names)
  next
    case False
    have "first_named key (x # es) e \<longleftrightarrow> first_named key es e"
    proof
      assume "first_named key (x # es) e"
      then show "first_named key es e"
        using False by (cases rule: first_named.cases) (auto simp: Cons_eq_append_conv intro!: first_named.intros)
    next
      assume "first_named key es e"
      then obtain before behind where "es = before @ e # behind" "names_entry key e"
          "\<And>y. y \<in> set before \<Longrightarrow> \<not> names_entry key y"
        by (auto elim: first_named.cases)
      then show "first_named key (x # es) e" using first_named.intros[of key e "x # before" behind] False by auto
    qed
    then show ?thesis using Cons False by (simp add: entry_has_string_names)
  qed
qed

lemma find_entry_from_find:
  "case List.find (entry_has_string key) es of
     None \<Rightarrow> find_entry_from i key es = -1
   | Some e \<Rightarrow> (\<exists>n < length es. find_entry_from i key es = int (i + n) \<and> es ! n = e)"
proof (induction es arbitrary: i)
  case Nil
  then show ?case by simp
next
  case (Cons x es)
  show ?case using Cons[of "Suc i"] by (force split: option.splits)
qed

text \<open>The search by index finds the entry that the key names.\<close>

lemma find_entry_from_named:
  "(find_entry_from 0 key es \<ge> 0 \<and> es ! nat (find_entry_from 0 key es) = e) \<longleftrightarrow> first_named key es e"
  "(find_entry_from 0 key es < 0) \<longleftrightarrow> (\<forall>e. \<not> first_named key es e)"
  using find_entry_from_find[where key = key and es = es and i = 0] by (auto simp: first_named_find split: option.splits)

section \<open>Applying a raw patch\<close>

definition patch_entry ::
  "CoreconfValue CoreconfHashMap \<Rightarrow> u64 \<Rightarrow> CoreconfValue \<Rightarrow> CoreconfValue CoreconfHashMap" where
  "patch_entry hm sid val =
     (if val = CORECONF_NULL then snd (deleteFromCoreconfHashMap hm sid)
      else let val' = (case (getCoreconfHashMap hm sid, val) of
                         (Some (CORECONF_ARRAY _), CORECONF_HASHMAP _) \<Rightarrow>
                           projr (addToCoreconfArray createCoreconfArray val)
                       | _ \<Rightarrow> val)
           in snd (insertCoreconfHashMap hm sid val'))"

record raw_patch =
  rp_state :: zcbor
  rp_map :: "CoreconfValue CoreconfHashMap"
  rp_count :: nat

text \<open>One key of the inner loop: \<open>Inr (False, _)\<close> stands for \<open>goto next_map\<close>.\<close>

type_synonym raw_step = "(c_fault + bool \<times> raw_patch) option"

definition read_header :: "zcbor \<Rightarrow> c_fault + u8" where
  "read_header s = (if payload s < length (mem s) then Inr (header_at s) else Inl OutOfBoundsRead)"

definition next_map :: "raw_patch \<Rightarrow> zcbor \<Rightarrow> raw_step" where
  "next_map rp s = Some (Inr (False, rp\<lparr>rp_state := s\<rparr>))"

definition raw_sid_entry :: "nat \<Rightarrow> raw_patch \<Rightarrow> raw_step" where
  "raw_sid_entry fuel rp =
     (case zcbor_uint64_decode (rp_state rp) of
        (None, s) \<Rightarrow> next_map rp s
      | (Some sid, s) \<Rightarrow>
          (case cborToCoreconfValue fuel s 0 of
             None \<Rightarrow> None
           | Some (None, s) \<Rightarrow> next_map rp s
           | Some (Some val, s) \<Rightarrow>
               Some (Inr (True, \<lparr>rp_state = s, rp_map = patch_entry (rp_map rp) sid val,
                                 rp_count = rp_count rp + 1\<rparr>))))"

definition raw_list_value :: "nat \<Rightarrow> raw_patch \<Rightarrow> zcbor \<Rightarrow> u64 \<Rightarrow> bytes \<Rightarrow> raw_step" where
  "raw_list_value fuel rp s sid key_str =
     (case cborToCoreconfValue fuel s 0 of
        None \<Rightarrow> None
      | Some (None, s) \<Rightarrow> next_map rp s
      | Some (Some val, s) \<Rightarrow>
          (case getCoreconfHashMap (rp_map rp) sid of
             Some (CORECONF_ARRAY elements) \<Rightarrow>
               Some (Inr (True,
                 \<lparr>rp_state = s,
                  rp_map = hm_replace (rp_map rp) sid (CORECONF_ARRAY (patch_list_entry elements key_str val)),
                  rp_count = rp_count rp + 1\<rparr>))
           | _ \<Rightarrow> Some (Inr (True, rp\<lparr>rp_state := s\<rparr>))))"

definition raw_list_entry :: "nat \<Rightarrow> raw_patch \<Rightarrow> raw_step" where
  "raw_list_entry fuel rp =
     (case zcbor_list_start_decode (rp_state rp) of
        (False, s) \<Rightarrow> next_map rp s
      | (True, s) \<Rightarrow>
        (case zcbor_uint64_decode s of
           (None, s) \<Rightarrow> next_map rp (snd (zcbor_list_end_decode s))
         | (Some sid, s) \<Rightarrow>
           (case read_header s of
              Inl f \<Rightarrow> Some (Inl f)
            | Inr b \<Rightarrow>
              if ZCBOR_MAJOR_TYPE b = ZCBOR_MAJOR_TYPE_TSTR
              then (case zcbor_tstr_decode s of
                      (None, s) \<Rightarrow> next_map rp (snd (zcbor_list_end_decode s))
                    | (Some zs, s) \<Rightarrow>
                      let klen = (if unat (snd zs) < 127 then unat (snd zs) else 127);
                          key_str = c_string (take klen (drop (fst zs) (mem s))) in
                      (case zcbor_list_end_decode s of
                         (False, s) \<Rightarrow> next_map rp s
                       | (True, s) \<Rightarrow> raw_list_value fuel rp s sid key_str))
              else next_map rp (snd (zcbor_list_end_decode s)))))"

fun raw_entries :: "nat \<Rightarrow> nat \<Rightarrow> raw_patch \<Rightarrow> (c_fault + raw_patch) option" where
  "raw_entries fuel 0 rp = None"
| "raw_entries fuel (Suc rounds) rp =
     (if zcbor_array_at_end (rp_state rp) then Some (Inr rp)
      else case read_header (rp_state rp) of
          Inl f \<Rightarrow> Some (Inl f)
        | Inr b \<Rightarrow>
            (case (if ZCBOR_MAJOR_TYPE b = ZCBOR_MAJOR_TYPE_PINT then raw_sid_entry fuel rp
                   else if ZCBOR_MAJOR_TYPE b = ZCBOR_MAJOR_TYPE_LIST then raw_list_entry fuel rp
                   else next_map rp (rp_state rp)) of
               None \<Rightarrow> None
             | Some (Inl f) \<Rightarrow> Some (Inl f)
             | Some (Inr (False, rp)) \<Rightarrow> Some (Inr rp)
             | Some (Inr (True, rp)) \<Rightarrow> raw_entries fuel rounds rp))"

fun raw_maps :: "zcbor_state \<Rightarrow> bytes \<Rightarrow> nat \<Rightarrow> nat \<Rightarrow> nat \<Rightarrow> nat \<Rightarrow> CoreconfValue CoreconfHashMap \<Rightarrow> nat
    \<Rightarrow> (c_fault + nat \<times> CoreconfValue CoreconfHashMap) option" where
  "raw_maps old data end_ptr fuel 0 ptr hm count = None"
| "raw_maps old data end_ptr fuel (Suc rounds) ptr hm count =
     (if ptr \<ge> end_ptr then Some (Inr (count, hm))
      else case zcbor_map_start_decode (zcbor_new_decode_state old 8 data ptr (end_ptr - ptr) 1) of
          (False, s) \<Rightarrow> Some (Inr (count, hm))
        | (True, s) \<Rightarrow>
            (case raw_entries fuel fuel \<lparr>rp_state = s, rp_map = hm, rp_count = count\<rparr> of
               None \<Rightarrow> None
             | Some (Inl f) \<Rightarrow> Some (Inl f)
             | Some (Inr rp) \<Rightarrow>
                 raw_maps old data end_ptr fuel rounds
                   (payload (snd (zcbor_map_end_decode (rp_state rp)))) (rp_map rp) (rp_count rp)))"

definition apply_ipatch_raw ::
  "nat \<Rightarrow> zcbor_state \<Rightarrow> CoreconfValue option \<Rightarrow> bytes option \<Rightarrow> nat
     \<Rightarrow> (c_fault + int \<times> CoreconfValue option) option" where
  "apply_ipatch_raw fuel old datastore data len =
     (case (datastore, data) of
        (Some (CORECONF_HASHMAP hm), Some buf) \<Rightarrow>
          if len = 0 then Some (Inr (-1, datastore))
          else map_option (map_sum id (\<lambda>(count, hm). (int count, Some (CORECONF_HASHMAP hm))))
                 (raw_maps old buf len fuel fuel 0 hm 0)
      | _ \<Rightarrow> Some (Inr (-1, datastore)))"

section \<open>The decoded patch as a map update\<close>

definition patch_copy :: "CoreconfValue \<Rightarrow> CoreconfValue" where
  "patch_copy v = (case v of CORECONF_STRING str \<Rightarrow> CORECONF_STRING (c_string str) | v \<Rightarrow> v)"

definition patch_edit :: "CoreconfValue CoreconfObject \<Rightarrow> u64 \<times> CoreconfValue option" where
  "patch_edit obj = (fst obj, if snd obj = CORECONF_NULL then None else Some (patch_copy (snd obj)))"

lemma fold_edits_map_of:
  "distinct (map fst es) \<Longrightarrow>
     fold (\<lambda>(k, e) f. f(k := e)) es f x = (case map_of es x of Some e \<Rightarrow> e | None \<Rightarrow> f x)"
proof (induction es arbitrary: f)
  case Nil
  then show ?case by simp
next
  case (Cons kv es)
  have "map_of es (fst kv) = None" using Cons.prems by (simp add: map_of_eq_None_iff)
  then show ?case using Cons by (cases kv; cases "x = fst kv") (simp_all split: option.split)
qed

lemma apply_one_sid_edit:
  "target (apply_one_sid obj ctx) = hm.edit_all (target ctx) [patch_edit obj]"
  by (simp add: apply_one_sid_def patch_edit_def patch_copy_def split_beta Let_def)

lemma apply_one_sid_error:
  assumes "hm_wf (target ctx)" and "card (dom (getCoreconfHashMap (target ctx))) \<le> Suc CORECONF_MAX_LOOP"
  shows "patch_error (apply_one_sid obj ctx) = patch_error ctx"
  using hm.ins_room[OF assms(1)] assms hm.length_objs[OF assms(1)]
  by (simp add: apply_one_sid_def split_beta Let_def)

lemma edit_all_append: "hm.edit_all m (es @ es') = hm.edit_all (hm.edit_all m es) es'"
  by (induction m es rule: hm.edit_all.induct) auto

lemma apply_patch_fold:
  assumes "hm_wf (target ctx)"
    and "card (dom (getCoreconfHashMap (target ctx))) + length objs \<le> Suc (Suc CORECONF_MAX_LOOP)"
  shows "target (fold apply_one_sid objs ctx) = hm.edit_all (target ctx) (map patch_edit objs)"
    and "patch_error (fold apply_one_sid objs ctx) = patch_error ctx"
proof -
  have "target (fold apply_one_sid objs ctx) = hm.edit_all (target ctx) (map patch_edit objs) \<and>
      patch_error (fold apply_one_sid objs ctx) = patch_error ctx"
    using assms
  proof (induction objs arbitrary: ctx)
    case Nil
    then show ?case by simp
  next
    case (Cons obj objs)
    let ?c = "apply_one_sid obj ctx"
    have wf: "hm_wf (target ?c)"
      unfolding apply_one_sid_edit by (rule hm.inv_edit_all[OF Cons.prems(1)])
    have "card (dom (getCoreconfHashMap (target ?c))) \<le> Suc (card (dom (getCoreconfHashMap (target ctx))))"
      using hm.card_dom_ins[OF Cons.prems(1)] hm.card_dom_del[OF Cons.prems(1)]
      unfolding apply_one_sid_edit by (auto simp: patch_edit_def intro: le_SucI)
    then have "card (dom (getCoreconfHashMap (target ?c))) + length objs \<le> Suc (Suc CORECONF_MAX_LOOP)"
      using Cons.prems(2) by simp
    note IH = Cons.IH[OF wf this]
    have err: "patch_error ?c = patch_error ctx"
      using Cons.prems by (intro apply_one_sid_error) simp_all
    show ?case
      using IH err edit_all_append[of "target ctx" "[patch_edit obj]" "map patch_edit objs"]
      by (simp add: apply_one_sid_edit)
  qed
  then show "target (fold apply_one_sid objs ctx) = hm.edit_all (target ctx) (map patch_edit objs)"
    and "patch_error (fold apply_one_sid objs ctx) = patch_error ctx" by auto
qed

lemma map_of_patch_edit:
  "map_of (map patch_edit objs) x =
     map_option (\<lambda>v. if v = CORECONF_NULL then None else Some (patch_copy v)) (map_of objs x)"
  by (induction objs) (auto simp: patch_edit_def)

text \<open>
  C18. iPATCH with a decoded patch, when both maps are well formed and together hold at most 52
  keys: it returns 0; every SID the patch names with null is gone, every other SID of the patch
  has the patch's value, and all other SIDs are untouched.
\<close>

theorem apply_ipatch_spec:
  assumes "hm_wf hm" and "hm_wf patch"
    and "card (dom (getCoreconfHashMap hm)) + card (dom (getCoreconfHashMap patch)) \<le> 52"
  shows "\<exists>hm'. apply_ipatch (Some (CORECONF_HASHMAP hm)) (Some (CORECONF_HASHMAP patch))
      = (0, Some (CORECONF_HASHMAP hm')) \<and> hm_wf hm' \<and>
    (\<forall>k. getCoreconfHashMap hm' k =
      (case getCoreconfHashMap patch k of
         None \<Rightarrow> getCoreconfHashMap hm k
       | Some v \<Rightarrow> if v = CORECONF_NULL then None else Some (patch_copy v)))"
proof -
  let ?objs = "hm_objects patch" let ?es = "map patch_edit ?objs"
  let ?ctx = "\<lparr>target = hm, patch_error = 0\<rparr>"
  have room: "card (dom (getCoreconfHashMap (target ?ctx))) + length ?objs \<le> Suc (Suc CORECONF_MAX_LOOP)"
    using assms(3) hm.length_objs[OF assms(2)] by (simp add: CORECONF_MAX_LOOP_def)
  have wf: "hm_wf (target ?ctx)" using assms(1) by simp
  note f = apply_patch_fold[OF wf room]
  have "distinct (map fst ?es)"
    using hm.objs_distinct[OF assms(2)] by (simp add: patch_edit_def comp_def)
  then have "getCoreconfHashMap (hm.edit_all hm ?es) k =
      (case map_of ?es k of Some e \<Rightarrow> e | None \<Rightarrow> getCoreconfHashMap hm k)" for k
    using hm.lkp_edit_all[OF assms(1), of ?es] room fold_edits_map_of[of ?es "getCoreconfHashMap hm" k] by simp
  then have "getCoreconfHashMap (hm.edit_all hm ?es) k =
      (case getCoreconfHashMap patch k of None \<Rightarrow> getCoreconfHashMap hm k
       | Some v \<Rightarrow> if v = CORECONF_NULL then None else Some (patch_copy v))" for k
    by (simp add: map_of_patch_edit map_of_hm_objects[OF assms(2)] split: option.split)
  moreover have "hm_wf (hm.edit_all hm ?es)" by (rule hm.inv_edit_all[OF assms(1)])
  ultimately show ?thesis
    using f by (simp add: apply_ipatch_def iterateCoreconfHashMap_def)
qed

theorem apply_ipatch_spec_witness:
  "\<exists>hm'. apply_ipatch (Some (CORECONF_HASHMAP sample_map))
      (Some (CORECONF_HASHMAP (snd (insertCoreconfHashMap empty_hashmap 20 CORECONF_NULL))))
      = (0, Some (CORECONF_HASHMAP hm')) \<and> getCoreconfHashMap hm' 20 = None"
proof -
  let ?p = "snd (insertCoreconfHashMap empty_hashmap 20 CORECONF_NULL)"
  have wf: "hm_wf ?p" by (rule hm_wf_insert[OF hm_wf_empty])
  have l: "length (hm_objects sample_map) = 1" "length (hm_objects ?p) = 1"
    "getCoreconfHashMap ?p 20 = Some CORECONF_NULL" by code_simp+
  then have "card (dom (getCoreconfHashMap sample_map)) + card (dom (getCoreconfHashMap ?p)) \<le> 52"
    using hm.length_objs[OF sample_map_wf] hm.length_objs[OF wf] by simp
  then show ?thesis using apply_ipatch_spec[OF sample_map_wf wf] l(3) by force
qed

section \<open>The raw patch\<close>

lemma read_header_coming: "coming s (b # bs) \<Longrightarrow> read_header s = Inr b"
  using coming_hd[of s b bs] by (auto simp: read_header_def coming_def)

lemma head_pint_major:
  assumes "coming s (cbor_head ZCBOR_MAJOR_TYPE_PINT n @ bs)"
  obtains b where "read_header s = Inr b" "ZCBOR_MAJOR_TYPE b = ZCBOR_MAJOR_TYPE_PINT" "b \<noteq> 0xFF"
    "header_at s = b" "payload s < payload_end s"
proof -
  obtain b ds where b: "cbor_head ZCBOR_MAJOR_TYPE_PINT n = b # ds" by (cases "cbor_head ZCBOR_MAJOR_TYPE_PINT n") auto
  have com: "coming s (b # ds @ bs)" using assms b by simp
  show ?thesis
    using that[of b] read_header_coming[OF com] coming_hd[OF com] cbor_head_no_break[OF b]
      head_major[OF coming_appendD[OF assms]] by simp
qed

lemma raw_entries_coming:
  assumes "\<And>obj. obj \<in> set objs \<Longrightarrow> wire_ok (snd obj) \<and>
      length (backup_list s) + nest (snd obj) \<le> num_backups s \<and> nest (snd obj) \<le> CORECONF_MAX_DEPTH"
    and "coming s (concat (map cbor_object objs) @ [0xFF])" and "2 * length objs < unat (elem_count s)"
    and "indefinite_length_array s" and "\<not> enforce_canonical s"
    and "length (concat (map cbor_object objs)) \<le> fuel" and "length objs < rounds"
  shows "\<exists>s' k. raw_entries fuel rounds \<lparr>rp_state = s, rp_map = hm, rp_count = n\<rparr>
      = Some (Inr \<lparr>rp_state = s', rp_map = fold (\<lambda>obj m. patch_entry m (fst obj) (norm (snd obj))) objs hm,
                   rp_count = n + length objs\<rparr>) \<and>
    consumed (length (concat (map cbor_object objs))) k s s' \<and> coming s' [0xFF]"
  using assms
proof (induction objs arbitrary: s hm n rounds)
  case Nil
  then obtain r where "rounds = Suc r" by (cases rounds) auto
  then show ?case using Nil array_at_end_break[of s] by (auto intro: exI[of _ 0])
next
  case (Cons obj objs)
  let ?head = "cbor_head ZCBOR_MAJOR_TYPE_PINT (fst obj)" let ?v = "snd obj"
  let ?rest = "concat (map cbor_object objs) @ [0xFF]"
  let ?hm = "patch_entry hm (fst obj) (norm ?v)"
  obtain r where r: "rounds = Suc r" using Cons.prems by (cases rounds) auto
  have com: "coming s (?head @ cbor_of ?v @ ?rest)" using Cons.prems(2) by simp
  obtain b where b: "read_header s = Inr b" "ZCBOR_MAJOR_TYPE b = ZCBOR_MAJOR_TYPE_PINT" "b \<noteq> 0xFF"
      "header_at s = b"
    using com by (rule head_pint_major)
  have notend: "\<not> zcbor_array_at_end s" using b Cons.prems(4) by (simp add: zcbor_array_at_end_def)
  have ne: "elem_count s \<noteq> 0" using Cons.prems(3) by auto
  let ?s0 = "advance s (length ?head)"
  have key: "zcbor_uint64_decode s = (Some (fst obj), ?s0)"
    by (rule uint64_decode_head[OF coming_appendD[OF com] ne Cons.prems(5)])
  have com0: "coming ?s0 (cbor_of ?v @ ?rest)" by (rule coming_consumed[OF com consumed_advance])
  have ne0: "elem_count ?s0 \<noteq> 0" using Cons.prems(3) unat_dec[OF ne] by auto
  have dx: "wire_ok ?v" "length (backup_list ?s0) + nest ?v \<le> num_backups ?s0"
      "0 + nest ?v \<le> CORECONF_MAX_DEPTH" "\<not> enforce_canonical ?s0"
    using Cons.prems(1)[of obj] Cons.prems(5) by simp_all
  obtain s1 where s1: "cborToCoreconfValue fuel ?s0 0 = Some (Some (norm ?v), s1)"
      "consumed (length (cbor_of ?v)) 1 ?s0 s1"
  proof (rule decodesE[OF decodes_all dx(1) coming_appendD[OF com0] ne0 dx(4,2,3)])
    show "length (cbor_of ?v) \<le> fuel" using Cons.prems(6) by simp
  qed (rule that)
  have all: "consumed (length (cbor_object obj)) (1 + 1) s s1"
    using consumed_trans[OF consumed_advance s1(2)] by simp
  note f = consumedD[OF all]
  have "unat (elem_count s1) = unat (elem_count s) - 2"
    using consumedD(4)[OF s1(2)] unat_dec[OF ne] unat_dec[OF ne0] by simp
  then have "\<exists>s' k. raw_entries fuel r \<lparr>rp_state = s1, rp_map = ?hm, rp_count = n + 1\<rparr>
      = Some (Inr \<lparr>rp_state = s', rp_map = fold (\<lambda>obj m. patch_entry m (fst obj) (norm (snd obj))) objs ?hm,
                   rp_count = n + 1 + length objs\<rparr>) \<and>
    consumed (length (concat (map cbor_object objs))) k s1 s' \<and> coming s' [0xFF]"
    by (intro Cons.IH) (use Cons.prems f r coming_consumed[OF com0 s1(2)] in auto)
  then obtain s' k where s': "raw_entries fuel r \<lparr>rp_state = s1, rp_map = ?hm, rp_count = n + 1\<rparr>
      = Some (Inr \<lparr>rp_state = s', rp_map = fold (\<lambda>obj m. patch_entry m (fst obj) (norm (snd obj))) objs ?hm,
                   rp_count = n + 1 + length objs\<rparr>)"
      "consumed (length (concat (map cbor_object objs))) k s1 s'" "coming s' [0xFF]"
    by blast
  then show ?case
    using s' s1 r notend key b consumed_trans[OF all s'(2)] by (auto simp: raw_sid_entry_def add.assoc)
qed

lemma raw_maps_one:
  assumes objs: "\<And>obj. obj \<in> set objs \<Longrightarrow> wire_ok (snd obj) \<and> nest (snd obj) \<le> 5"
    and n: "length objs < 2 ^ 62"
    and data: "data = [0xBF] @ concat (map cbor_object objs) @ [0xFF]" and fuel: "length data \<le> fuel"
  shows "raw_maps old data (length data) fuel fuel 0 hm 0
    = Some (Inr (length objs, fold (\<lambda>obj m. patch_entry m (fst obj) (norm (snd obj))) objs hm))"
proof -
  let ?s = "zcbor_new_decode_state old 8 data 0 (length data) 1"
  let ?body = "concat (map cbor_object objs)"
  have com: "coming ?s ([0xBF] @ ?body @ [0xFF])"
    by (simp add: coming_def zcbor_new_decode_state_def data)
  have room: "length (backup_list ?s) < num_backups ?s" and e: "elem_count ?s \<noteq> 0" "\<not> enforce_canonical ?s"
    by (simp_all add: zcbor_new_decode_state_def)
  obtain s1 where s1: "zcbor_map_start_decode ?s = (True, s1)" "opened ?s s1"
    by (rule map_start_coming[OF coming_appendD[OF com] e room])
  have com1: "coming s1 (?body @ [0xFF])" using coming_opened[of ?s _ _ s1] com s1(2) by simp
  have st: "length (backup_list s1) = 1" "num_backups s1 = 6" "\<not> enforce_canonical s1" "indefinite_length_array s1"
      "elem_count s1 = ZCBOR_LARGE_ELEM_COUNT"
    using s1(2) by (auto simp: opened_def zcbor_new_decode_state_def)
  have "length objs \<le> length ?body"
  proof -
    have "1 \<le> length (cbor_of x)" for x by (rule cbor_of_first[of x]) simp
    then have "sum_list (map (\<lambda>_. 1) objs) \<le> sum_list (map (length \<circ> cbor_object) objs)"
      by (intro sum_list_mono) (simp add: trans_le_add2)
    then show ?thesis by (simp add: length_concat sum_list_triv)
  qed
  then have f: "length objs < fuel" "length ?body \<le> fuel" using fuel data by simp_all
  have "\<exists>s' k. raw_entries fuel fuel \<lparr>rp_state = s1, rp_map = hm, rp_count = 0\<rparr>
      = Some (Inr \<lparr>rp_state = s', rp_map = fold (\<lambda>obj m. patch_entry m (fst obj) (norm (snd obj))) objs hm,
                   rp_count = 0 + length objs\<rparr>) \<and>
    consumed (length ?body) k s1 s' \<and> coming s' [0xFF]"
    by (rule raw_entries_coming[OF _ com1 _ st(4,3) f(2,1)])
      (use objs n st in \<open>auto simp: CORECONF_MAX_DEPTH_def dest: objs intro: order_trans\<close>)
  then obtain s2 k where s2: "raw_entries fuel fuel \<lparr>rp_state = s1, rp_map = hm, rp_count = 0\<rparr>
      = Some (Inr \<lparr>rp_state = s2, rp_map = fold (\<lambda>obj m. patch_entry m (fst obj) (norm (snd obj))) objs hm,
                   rp_count = length objs\<rparr>)"
      "consumed (length ?body) k s1 s2" "coming s2 [0xFF]"
    by auto
  obtain s' where me: "list_map_end_decode s2 = (True, s')" "consumed (length ?body + 2) 1 ?s s'"
    by (rule list_map_end_coming[OF s1(2) s2(2,3) room])
  have "length data = length ?body + 2" by (simp add: data)
  moreover have "payload s' = length ?body + 2"
    using consumedD(1)[OF me(2)] by (simp add: zcbor_new_decode_state_def)
  ultimately have p: "payload (snd (zcbor_map_end_decode s2)) = length data"
    by (simp add: zcbor_map_end_decode_def me(1))
  define g where "g = fuel - 2"
  have "length data \<ge> 2" by (simp add: data)
  then have g: "fuel = Suc (Suc g)" using fuel by (simp add: g_def)
  have "raw_maps old data (length data) fuel (Suc (Suc g)) 0 hm 0
    = Some (Inr (length objs, fold (\<lambda>obj m. patch_entry m (fst obj) (norm (snd obj))) objs hm))"
    using s1(1) s2(1) p \<open>length data \<ge> 2\<close> by auto
  then show ?thesis by (simp only: g[symmetric])
qed

section \<open>Properties of the raw patch\<close>

lemma hm_replace_lookup:
  assumes "hm_wf hm" and "getCoreconfHashMap hm key \<noteq> None"
  shows "getCoreconfHashMap (hm_replace hm key v) = (getCoreconfHashMap hm)(key \<mapsto> v)"
proof
  have hit: "key \<in> fst ` set (hm_table hm ! hashKey (ucast key))"
    using assms(2) by (auto simp: getCoreconfHashMap_def get_scan_map_of map_of_eq_None_iff)
  show "getCoreconfHashMap (hm_replace hm key v) x = ((getCoreconfHashMap hm)(key \<mapsto> v)) x" for x
  proof (cases "hashKey (ucast x) = hashKey (ucast key)")
    case True
    then show ?thesis
      using hm_wf_index[OF assms(1), of "ucast key"] map_of_chain_update[OF hit, of v x]
      by (auto simp: hm_replace_def Let_def getCoreconfHashMap_def get_scan_map_of)
  next
    case False
    then have "x \<noteq> key" by blast
    with False show ?thesis
      by (simp add: hm_replace_def Let_def getCoreconfHashMap_def nth_list_update_neq[OF not_sym])
  qed
qed

lemma hm_replace_wf: "hm_wf hm \<Longrightarrow> hm_wf (hm_replace hm key v)"
  unfolding hm_replace_def Let_def
  by (rule hm_wf_update[OF _ hashKey_less chain_ok_update[OF hm_wf_chain_ok]])
    (simp_all add: length_chain_update)

lemma patch_entry_wf: "hm_wf hm \<Longrightarrow> hm_wf (patch_entry hm sid v)"
  by (simp add: patch_entry_def Let_def hm_wf_insert hm_wf_delete)

lemma raw_step_wf:
  assumes "hm_wf (rp_map rp)"
  shows "raw_sid_entry fuel rp = Some (Inr (b, rp')) \<Longrightarrow> hm_wf (rp_map rp')"
    and "raw_list_entry fuel rp = Some (Inr (b, rp')) \<Longrightarrow> hm_wf (rp_map rp')"
  using assms
  by (auto simp: raw_sid_entry_def raw_list_entry_def raw_list_value_def next_map_def Let_def
      patch_entry_wf hm_replace_wf split: prod.splits option.splits bool.splits sum.splits if_splits
      CoreconfValue.splits)

lemma raw_entries_wf:
  "raw_entries fuel rounds rp = Some (Inr rp') \<Longrightarrow> hm_wf (rp_map rp) \<Longrightarrow> hm_wf (rp_map rp')"
proof (induction fuel rounds rp rule: raw_entries.induct)
  case (1 fuel rp)
  then show ?case by simp
next
  case (2 fuel rounds rp)
  then show ?case
    by (auto simp: next_map_def dest: raw_step_wf split: prod.splits option.splits bool.splits sum.splits if_splits)
qed

lemma raw_maps_wf:
  "raw_maps old data end_ptr fuel rounds ptr hm n = Some (Inr (n', hm')) \<Longrightarrow> hm_wf hm \<Longrightarrow> hm_wf hm'"
proof (induction rounds arbitrary: ptr hm n)
  case 0
  then show ?case by simp
next
  case (Suc rounds)
  then show ?case
    by (auto dest: raw_entries_wf split: prod.splits option.splits bool.splits sum.splits if_splits)
qed

text \<open>The bytes of a raw patch do not matter for the shape of the datastore it leaves.\<close>

lemma apply_ipatch_raw_keeps_wf:
  assumes "hm_wf hm"
    and "apply_ipatch_raw fuel old (Some (CORECONF_HASHMAP hm)) data len = Some (Inr (r, ds))"
  shows "\<exists>hm'. ds = Some (CORECONF_HASHMAP hm') \<and> hm_wf hm'"
proof -
  consider "ds = Some (CORECONF_HASHMAP hm)"
    | z buf where "raw_maps old buf len fuel fuel 0 hm 0 = Some z"
      "map_sum id (\<lambda>(count, hm). (int count, Some (CORECONF_HASHMAP hm))) z = Inr (r, ds)"
    using assms(2) by (auto simp: apply_ipatch_raw_def split: option.splits if_splits)
  then show ?thesis
  proof cases
    case 1
    then show ?thesis using assms(1) by simp
  next
    case 2
    then show ?thesis using raw_maps_wf[OF _ assms(1)] by (cases z) (auto split: prod.splits)
  qed
qed

section \<open>The raw patch as a map update\<close>

text \<open>What an entry of the datastore is afterwards: a map in the place of a list becomes a list of that one map.\<close>

definition patched :: "CoreconfValue option \<Rightarrow> CoreconfValue \<Rightarrow> CoreconfValue option" where
  "patched old v =
     (if v = CORECONF_NULL then None
      else case (old, v) of
          (Some (CORECONF_ARRAY _), CORECONF_HASHMAP _) \<Rightarrow> Some (CORECONF_ARRAY [v])
        | _ \<Rightarrow> Some v)"

lemma patch_entry_lookup:
  assumes "hm_wf hm" and "length (hm_objects hm) \<le> 51"
  shows "getCoreconfHashMap (patch_entry hm sid v) = (getCoreconfHashMap hm)(sid := patched (getCoreconfHashMap hm sid) v)"
proof (cases "v = CORECONF_NULL")
  case True
  then show ?thesis using hm.lkp_del[OF assms(1), of sid] by (simp add: patch_entry_def patched_def)
next
  case False
  have "getCoreconfHashMap (snd (insertCoreconfHashMap hm sid w)) = (getCoreconfHashMap hm)(sid \<mapsto> w)" for w
    using hm.lkp_ins_room[OF assms(1), of sid w] hm.length_objs[OF assms(1)] assms(2) by (simp add: CORECONF_MAX_LOOP_def)
  then show ?thesis using False
    by (auto simp: patch_entry_def patched_def Let_def createCoreconfArray_def addToCoreconfArray_def split: option.split CoreconfValue.split)
qed

lemma length_patch_entry:
  assumes "hm_wf hm"
  shows "length (hm_objects (patch_entry hm sid v)) \<le> Suc (length (hm_objects hm))"
proof -
  have "card (dom (getCoreconfHashMap (patch_entry hm sid v))) \<le> Suc (card (dom (getCoreconfHashMap hm)))"
    using hm.card_dom_ins[OF assms, of sid] hm.card_dom_del[OF assms, of sid] by (simp add: patch_entry_def Let_def)
  then show ?thesis by (simp add: hm.length_objs[OF patch_entry_wf[OF assms]] hm.length_objs[OF assms])
qed

lemma fold_patch_entry:
  assumes "hm_wf hm" and "length (hm_objects hm) + length objs \<le> 52"
  shows "hm_wf (fold (\<lambda>obj m. patch_entry m (fst obj) (norm (snd obj))) objs hm) \<and>
    getCoreconfHashMap (fold (\<lambda>obj m. patch_entry m (fst obj) (norm (snd obj))) objs hm) =
      fold (\<lambda>obj m. m(fst obj := patched (m (fst obj)) (norm (snd obj)))) objs (getCoreconfHashMap hm)"
  using assms
proof (induction objs arbitrary: hm)
  case Nil
  then show ?case by simp
next
  case (Cons obj objs)
  let ?hm = "patch_entry hm (fst obj) (norm (snd obj))"
  have "length (hm_objects ?hm) + length objs \<le> 52"
    using length_patch_entry[OF Cons.prems(1), of "fst obj" "norm (snd obj)"] Cons.prems(2) by simp
  then show ?case
    using Cons.IH[OF patch_entry_wf[OF Cons.prems(1)]] Cons.prems by (simp add: patch_entry_lookup)
qed

text \<open>
  C21. The raw patch on a well-formed payload: an indefinite-length map of SID/value pairs whose
  values can be put on the wire is applied entry by entry, in the order on the wire, and the number of
  entries is returned. On what the datastore holds under the SIDs, each entry acts as null deleting its
  SID, a map in the place of a list becoming a list of that one map, and any other value replacing what is
  there; other SIDs keep their values. The datastore and the patch have at most 52 entries together.
\<close>

theorem apply_ipatch_raw_spec:
  assumes "hm_wf hm" and "length (hm_objects hm) + length objs \<le> 52"
    and "\<And>obj. obj \<in> set objs \<Longrightarrow> wire_ok (snd obj) \<and> nest (snd obj) \<le> 5"
    and "data = [0xBF] @ concat (map cbor_object objs) @ [0xFF]" and "length data \<le> fuel"
  shows "\<exists>hm'. apply_ipatch_raw fuel old (Some (CORECONF_HASHMAP hm)) (Some data) (length data)
      = Some (Inr (int (length objs), Some (CORECONF_HASHMAP hm'))) \<and> hm_wf hm' \<and>
    getCoreconfHashMap hm' =
      fold (\<lambda>obj m. m(fst obj := patched (m (fst obj)) (norm (snd obj)))) objs (getCoreconfHashMap hm)"
proof -
  have "length objs < 2 ^ 62" using assms(2) by simp
  from raw_maps_one[OF assms(3) this assms(4,5), of old hm]
  show ?thesis using fold_patch_entry[OF assms(1,2)] assms(4) by (simp add: apply_ipatch_raw_def)
qed

text \<open>On the datastore \<open>{20: 5}\<close> the patch \<open>{20: null, 6: true}\<close> leaves \<open>{6: true}\<close>.\<close>

theorem apply_ipatch_raw_spec_witness:
  "\<exists>hm'. apply_ipatch_raw 9 any_state (Some (CORECONF_HASHMAP sample_map)) (Some [0xBF, 0x14, 0xF6, 6, 0xF5, 0xFF]) 6
      = Some (Inr (2, Some (CORECONF_HASHMAP hm'))) \<and> getCoreconfHashMap hm' 20 = None \<and>
    getCoreconfHashMap hm' 6 = Some CORECONF_TRUE"
proof -
  let ?objs = "[(20, CORECONF_NULL), (6, CORECONF_TRUE)]" let ?data = "[0xBF, 0x14, 0xF6, 6, 0xF5, 0xFF] :: bytes"
  have ok: "wire_ok (snd obj) \<and> nest (snd obj) \<le> 5" if "obj \<in> set ?objs" for obj :: "u64 \<times> CoreconfValue"
    using that by auto
  have room: "length (hm_objects sample_map) + length ?objs \<le> 52" by code_simp
  have len: "length ?data = 6" by simp
  have "?data = [0xBF] @ concat (map cbor_object ?objs) @ [0xFF]" by code_simp
  from apply_ipatch_raw_spec[OF sample_map_wf room, OF ok this, of 9 any_state]
  obtain hm' where hm': "apply_ipatch_raw 9 any_state (Some (CORECONF_HASHMAP sample_map)) (Some ?data) 6
      = Some (Inr (2, Some (CORECONF_HASHMAP hm')))"
      "getCoreconfHashMap hm' = fold (\<lambda>obj m. m(fst obj := patched (m (fst obj)) (norm (snd obj)))) ?objs
         (getCoreconfHashMap sample_map)"
    unfolding len by auto
  have "patched old CORECONF_TRUE = Some CORECONF_TRUE" "patched old CORECONF_NULL = None" for old
    by (simp_all add: patched_def split: option.split CoreconfValue.split)
  then show ?thesis using hm' by auto
qed

text \<open>
  A payload that ends inside a map of the raw patch makes the function read the byte behind the
  buffer: the inner loop looks at \<open>*state->payload\<close> before any function that tests for the end.
\<close>

lemma apply_ipatch_raw_overread:
  "apply_ipatch_raw 2 any_state (Some (CORECONF_HASHMAP hm)) (Some [0xBF]) 1 = Some (Inl OutOfBoundsRead)"
  by code_simp

end
