(* ===== verification/Cbor_Seq.thy ===== *)
theory Cbor_Seq
  imports Get_Put
begin

text \<open>
  The loop that \<open>fetch.c\<close> and \<open>post.c\<close> share: the items of a CBOR sequence, each written or read through
  a state array of \<open>k\<close> elements that is set up anew over the rest of the buffer. The first argument of
  the set-up is what the array held before.
\<close>

section \<open>Writing\<close>

fun encode_seq :: "nat \<Rightarrow> ('a \<Rightarrow> zcbor \<Rightarrow> bool \<times> zcbor) \<Rightarrow> zcbor_state \<Rightarrow> bytes \<Rightarrow> nat \<Rightarrow> 'a list \<Rightarrow> nat \<Rightarrow> nat \<times> bytes" where
  "encode_seq k put old buf buffer_size [] offset = (offset, buf)"
| "encode_seq k put old buf buffer_size (x # xs) offset =
     (case put x (zcbor_new_encode_state old k buf offset (buffer_size - offset) 0) of
        (False, s) \<Rightarrow> (0, mem s)
      | (True, s) \<Rightarrow> encode_seq k put (zcbor_state.truncate s) (mem s) buffer_size xs (payload s))"

lemma encode_seq_writes:
  assumes "\<And>x. x \<in> set xs \<Longrightarrow> writes (put x) (bs x)"
    and "offset + length (concat (map bs xs)) \<le> n" and "n \<le> length buf"
  shows "\<exists>buf'. encode_seq k put old buf n xs offset = (offset + length (concat (map bs xs)), buf') \<and>
    length buf' = length buf \<and> take offset buf' = take offset buf \<and>
    take (length (concat (map bs xs))) (drop offset buf') = concat (map bs xs)"
  using assms
proof (induction xs arbitrary: old buf offset)
  case Nil
  then show ?case by simp
next
  case (Cons x xs)
  let ?s = "zcbor_new_encode_state old k buf offset (n - offset) 0"
  obtain ok s where r: "put x ?s = (ok, s)" by (cases "put x ?s")
  have w: "writes (put x) (bs x)" by (simp add: Cons.prems(1))
  have "offset + (n - offset) \<le> length buf" "length (bs x) \<le> n - offset"
    using Cons.prems(2,3) by simp_all
  note f = writes_fresh[OF w this r]
  obtain buf' where b: "encode_seq k put (zcbor_state.truncate s) (mem s) n xs (payload s)
        = (payload s + length (concat (map bs xs)), buf')"
      "length buf' = length (mem s)" "take (payload s) buf' = take (payload s) (mem s)"
      "take (length (concat (map bs xs))) (drop (payload s) buf') = concat (map bs xs)"
    using Cons.IH[of "payload s" "mem s" "zcbor_state.truncate s"] Cons.prems f by auto
  have t: "take offset buf' = take offset (mem s)" "take (length (bs x)) (drop offset buf') = bs x"
    using arg_cong[OF b(3), of "take offset"] arg_cong[OF b(3), of "drop offset"] f(2,4)
    by (simp_all add: drop_take)
  have "take (length (bs x) + length (concat (map bs xs))) (drop offset buf') = bs x @ concat (map bs xs)"
    using t(2) b(4) f(2) by (simp add: take_add add.commute)
  then show ?case
    using r f b(1,2) t(1) by (simp add: add.assoc)
qed

lemma encode_seq_map: "encode_seq k put old buf n (map f xs) offset = encode_seq k (put \<circ> f) old buf n xs offset"
  by (induction xs arbitrary: old buf offset) (auto split: prod.split bool.split)

section \<open>Reading\<close>

text \<open>The set-up of the state array over what is left of the payload.\<close>

definition item_state :: "nat \<Rightarrow> zcbor_state \<Rightarrow> bytes \<Rightarrow> nat \<Rightarrow> nat \<Rightarrow> zcbor" where
  "item_state k old cbor_data cbor_size offset =
     zcbor_new_decode_state old k cbor_data offset (cbor_size - offset) 1"

lemma item_state_fields [simp]:
  "payload (item_state k old cbor_data n offset) = offset"
  "payload_end (item_state k old cbor_data n offset) = offset + (n - offset)"
  "mem (item_state k old cbor_data n offset) = cbor_data"
  "elem_count (item_state k old cbor_data n offset) = 1"
  "enforce_canonical (item_state k old cbor_data n offset) = False"
  "backup_list (item_state k old cbor_data n offset) = []"
  "num_backups (item_state k old cbor_data n offset) = k - 2"
  by (simp_all add: item_state_def zcbor_new_decode_state_def)

lemma item_state_coming:
  assumes "n \<le> length cbor_data" and "take (n - offset) (drop offset cbor_data) = bs @ cs" and "offset \<le> n"
  shows "coming (item_state k old cbor_data n offset) (bs @ cs)"
proof -
  have "length (bs @ cs) = n - offset" using assms by (simp flip: assms(2))
  then show ?thesis using assms by (simp add: coming_def)
qed

lemma item_rest:
  assumes "take (n - offset) (drop offset cbor_data) = bs @ cs"
  shows "take (n - (offset + length bs)) (drop (offset + length bs) cbor_data) = cs"
  using arg_cong[OF assms, of "drop (length bs)"] by (simp add: drop_take add.commute)

section \<open>A list of a SID and a string\<close>

abbreviation cbor_keyed :: "u64 \<Rightarrow> bytes \<Rightarrow> bytes" where
  "cbor_keyed sid key \<equiv>
     0x9F # cbor_head ZCBOR_MAJOR_TYPE_PINT sid @ cbor_str ZCBOR_MAJOR_TYPE_TSTR key @ [0xFF]"

lemma keyed_list_coming:
  assumes com: "coming s (cbor_keyed sid key @ bs)" and s: "elem_count s \<noteq> 0" "\<not> enforce_canonical s"
      "length (backup_list s) < num_backups s" and len: "length key < 2 ^ 64"
  obtains s1 s2 zs s3 s4 where "zcbor_list_start_decode s = (True, s1)" "zcbor_uint64_decode s1 = (Some sid, s2)"
    "zcbor_tstr_decode s2 = (Some zs, s3)" "zcbor_list_end_decode s3 = (True, s4)"
    "coming s2 (cbor_str ZCBOR_MAJOR_TYPE_TSTR key)" "mem s3 = mem s" "mem s4 = mem s" "unat (snd zs) = length key"
    "take (length key) (drop (fst zs) (mem s)) = key"
    "consumed (length (cbor_keyed sid key)) 1 s s4"
proof -
  let ?h = "cbor_head ZCBOR_MAJOR_TYPE_PINT sid" let ?ks = "cbor_str ZCBOR_MAJOR_TYPE_TSTR key"
  obtain s1 where s1: "zcbor_list_start_decode s = (True, s1)" "opened s s1"
  proof (rule list_start_coming[of s])
    show "coming s [0x9F]" by (rule coming_appendD[of s "[0x9F]"]) (use com in simp)
  qed (use s that in simp_all)
  have "coming s1 ((?h @ ?ks @ [0xFF]) @ bs)" using coming_opened[of s _ _ s1] com s1(2) by simp
  then have com1: "coming s1 (?h @ ?ks @ [0xFF])" by (rule coming_appendD)
  have nc: "\<not> enforce_canonical s1" "elem_count s1 = ZCBOR_LARGE_ELEM_COUNT" using s1(2) s by (simp_all add: opened_def)
  let ?s2 = "advance s1 (length ?h)"
  have d1: "zcbor_uint64_decode s1 = (Some sid, ?s2)"
    by (rule uint64_decode_head[OF coming_appendD[OF com1]]) (use nc in simp_all)
  have com2: "coming ?s2 (?ks @ [0xFF])" by (rule coming_consumed[OF com1 consumed_advance])
  have m2: "mem ?s2 = mem s" using s1(2) by (simp add: opened_def)
  have nc2: "elem_count ?s2 \<noteq> 0" "\<not> enforce_canonical ?s2" using nc by simp_all
  obtain s3 where s3: "str_decode ?s2 ZCBOR_MAJOR_TYPE_TSTR
      = (Some (payload ?s2 + length (cbor_head ZCBOR_MAJOR_TYPE_TSTR (of_nat (length key))), of_nat (length key)), s3)"
      "consumed (length ?ks) 1 ?s2 s3"
      "take (length key) (drop (payload ?s2 + length (cbor_head ZCBOR_MAJOR_TYPE_TSTR (of_nat (length key)))) (mem ?s2)) = key"
    by (rule str_decode_coming[OF coming_appendD[OF com2] nc2 len])
  have c: "consumed (length ?h + length ?ks) (1 + 1) s1 s3" by (rule consumed_trans[OF consumed_advance s3(2)])
  obtain s4 where s4: "list_map_end_decode s3 = (True, s4)" "consumed (length ?h + length ?ks + 2) 1 s s4"
    by (rule list_map_end_coming[OF s1(2) c coming_consumed[OF com2 s3(2)] s(3)])
  show ?thesis
  proof (rule that[OF s1(1) d1])
    show "zcbor_tstr_decode ?s2 = (Some (payload ?s2 + length (cbor_head ZCBOR_MAJOR_TYPE_TSTR (of_nat (length key))),
        of_nat (length key)), s3)" using s3(1) by (simp add: zcbor_tstr_decode_def)
    show "zcbor_list_end_decode s3 = (True, s4)" using s4(1) by (simp add: zcbor_list_end_decode_def)
    show "coming ?s2 ?ks" by (rule coming_appendD[OF com2])
    show "mem s3 = mem s" using consumedD(3)[OF s3(2)] m2 by simp
    show "mem s4 = mem s" by (rule consumedD(3)[OF s4(2)])
    show "consumed (length (cbor_keyed sid key)) 1 s s4" using s4(2) by (simp add: add.assoc)
  qed (use s3(3) m2 len in \<open>simp_all add: unat_of_nat take_bit_nat_eq_self\<close>)
qed

end
