(* ===== verification/Fetch.thy ===== *)
theory Fetch
  imports Ipatch Cbor_Seq
begin

text \<open>
  \<open>src/src/fetch.c\<close>: requests and responses for selected data nodes, as CBOR sequences. Each item of
  a sequence is written or read through a state array of five that is set up anew over the rest of
  the buffer, so a sequence is a loop over an offset. Parsing counts the items in a first pass and
  reads them in a second one; both loops are total, their termination proof shows that every round
  moves the offset on. The lists \<open>sids\<close> and \<open>iids\<close> stand for a pointer with its count, results that the
  code passes through out parameters are returned.
\<close>

section \<open>Instance identifiers\<close>

datatype InstanceIdentifier =
    is_IID_SIMPLE: IID_SIMPLE (iid_sid: u64)
  | IID_WITH_STR_KEY (iid_sid: u64) (str_key: bytes)
  | IID_WITH_INT_KEY (iid_sid: u64) (int_key: u64)

section \<open>Requests\<close>

fun strnlen :: "bytes \<Rightarrow> u64 \<Rightarrow> nat" where
  "strnlen [] maxlen = 0"
| "strnlen (b # bs) maxlen = (if maxlen = 0 \<or> b = 0 then 0 else Suc (strnlen bs (maxlen - 1)))"

text \<open>\<open>strnlen\<close> stops inside the object, so the bytes \<open>zcbor_tstr_encode_ptr\<close> reads are there.\<close>

definition zcbor_tstr_put_term :: "zcbor \<Rightarrow> bytes \<Rightarrow> u64 \<Rightarrow> bool \<times> zcbor" where
  "zcbor_tstr_put_term s str maxlen = zcbor_tstr_encode s (take (strnlen str maxlen) str)"

definition create_fetch_request ::
  "zcbor_state \<Rightarrow> bytes option \<Rightarrow> nat \<Rightarrow> u64 list option \<Rightarrow> nat \<times> bytes option" where
  "create_fetch_request old buffer buffer_size sids =
     (case (buffer, sids) of
        (Some buf, Some xs) \<Rightarrow>
          if xs = [] then (0, buffer)
          else apsnd Some (encode_seq 5 (\<lambda>sid s. zcbor_uint64_put s sid) old buf buffer_size xs 0)
      | _ \<Rightarrow> (0, buffer))"

definition put_iid :: "InstanceIdentifier \<Rightarrow> zcbor \<Rightarrow> bool \<times> zcbor" where
  "put_iid iid s =
     (case iid of
        IID_SIMPLE sid \<Rightarrow> zcbor_uint64_put s sid
      | IID_WITH_STR_KEY sid key \<Rightarrow>
          (case zcbor_list_start_encode s 2 of (False, s) \<Rightarrow> (False, s) | (True, s) \<Rightarrow>
          (case zcbor_uint64_put s sid of (False, s) \<Rightarrow> (False, s) | (True, s) \<Rightarrow>
          (case zcbor_tstr_put_term s key (-1) of (False, s) \<Rightarrow> (False, s) | (True, s) \<Rightarrow>
           zcbor_list_end_encode s 2)))
      | IID_WITH_INT_KEY sid key \<Rightarrow>
          (case zcbor_list_start_encode s 2 of (False, s) \<Rightarrow> (False, s) | (True, s) \<Rightarrow>
          (case zcbor_uint64_put s sid of (False, s) \<Rightarrow> (False, s) | (True, s) \<Rightarrow>
          (case zcbor_int64_put s key of (False, s) \<Rightarrow> (False, s) | (True, s) \<Rightarrow>
           zcbor_list_end_encode s 2))))"

definition create_fetch_request_with_iids ::
  "zcbor_state \<Rightarrow> bytes option \<Rightarrow> nat \<Rightarrow> InstanceIdentifier list option \<Rightarrow> nat \<times> bytes option" where
  "create_fetch_request_with_iids old buffer buffer_size iids =
     (case (buffer, iids) of
        (Some buf, Some xs) \<Rightarrow>
          if xs = [] then (0, buffer) else apsnd Some (encode_seq 5 put_iid old buf buffer_size xs 0)
      | _ \<Rightarrow> (0, buffer))"

section \<open>Responses\<close>

text \<open>One item of a response: a map of one entry, null for a value that is not there.\<close>

definition put_item :: "u64 \<Rightarrow> CoreconfValue option \<Rightarrow> zcbor \<Rightarrow> bool \<times> zcbor" where
  "put_item sid val s =
     (case zcbor_map_start_encode s 1 of (False, s) \<Rightarrow> (False, s) | (True, s) \<Rightarrow>
     (case zcbor_uint64_put s sid of (False, s) \<Rightarrow> (False, s) | (True, s) \<Rightarrow>
     (case (case val of Some v \<Rightarrow> coreconfToCBOR v s | None \<Rightarrow> zcbor_nil_put s) of
        (False, s) \<Rightarrow> (False, s)
      | (True, s) \<Rightarrow> zcbor_map_end_encode s 1)))"

definition fetch_value :: "CoreconfValue option \<Rightarrow> u64 \<Rightarrow> CoreconfValue option" where
  "fetch_value data_source sid =
     (case data_source of Some (CORECONF_HASHMAP hm) \<Rightarrow> getCoreconfHashMap hm sid | _ \<Rightarrow> None)"

definition create_fetch_response ::
  "zcbor_state \<Rightarrow> bytes option \<Rightarrow> nat \<Rightarrow> CoreconfValue option \<Rightarrow> u64 list option \<Rightarrow> nat \<times> bytes option" where
  "create_fetch_response old buffer buffer_size data_source sids =
     (case (buffer, sids) of
        (Some buf, Some xs) \<Rightarrow>
          if xs = [] then (0, buffer)
          else apsnd Some (encode_seq 5 (\<lambda>sid. put_item sid (fetch_value data_source sid)) old buf buffer_size xs 0)
      | _ \<Rightarrow> (0, buffer))"

definition fetch_value_by_iid :: "CoreconfValue option \<Rightarrow> InstanceIdentifier option \<Rightarrow> CoreconfValue option" where
  "fetch_value_by_iid data_source iid =
     (case (data_source, iid) of
        (Some (CORECONF_HASHMAP hm), Some iid) \<Rightarrow>
          (case getCoreconfHashMap hm (iid_sid iid) of
             None \<Rightarrow> None
           | Some val \<Rightarrow>
               (case iid of
                  IID_SIMPLE _ \<Rightarrow> Some val
                | IID_WITH_STR_KEY _ key \<Rightarrow>
                    (case val of CORECONF_ARRAY elements \<Rightarrow> List.find (entry_has_string key) elements | _ \<Rightarrow> None)
                | IID_WITH_INT_KEY _ key \<Rightarrow>
                    (case val of
                       CORECONF_ARRAY elements \<Rightarrow>
                         if 0 \<le> sint key \<and> unat key < length elements then Some (elements ! unat key) else None
                     | _ \<Rightarrow> None)))
      | _ \<Rightarrow> None)"

definition create_fetch_response_iids ::
  "zcbor_state \<Rightarrow> bytes option \<Rightarrow> nat \<Rightarrow> CoreconfValue option \<Rightarrow> InstanceIdentifier list option
     \<Rightarrow> nat \<times> bytes option" where
  "create_fetch_response_iids old buffer buffer_size data_source iids =
     (case (buffer, iids) of
        (Some buf, Some xs) \<Rightarrow>
          if xs = [] then (0, buffer)
          else apsnd Some (encode_seq 5 (\<lambda>iid. put_item (iid_sid iid) (fetch_value_by_iid data_source (Some iid)))
                             old buf buffer_size xs 0)
      | _ \<Rightarrow> (0, buffer))"

section \<open>Progress of the decoders\<close>

lemma uint64_decode_cases:
  obtains (fail) err where "zcbor_uint64_decode s = (None, zcbor_error err s)"
  | (ok) v k where "zcbor_uint64_decode s = (Some v, advance s k)" "0 < k" "payload s + k \<le> payload_end s"
proof (cases rule: type_check_cases[of s ZCBOR_MAJOR_TYPE_PINT])
  case (fail err)
  then show ?thesis using that by (simp add: zcbor_uint64_decode_def zcbor_uint_decode_def)
next
  case tc: ok
  show ?thesis
  proof (cases rule: value_extract_cases[of s 8 False])
    case (fail err)
    then show ?thesis using that tc by (simp add: zcbor_uint64_decode_def zcbor_uint_decode_def)
  next
    case (ok v i k)
    then show ?thesis using that tc by (simp add: zcbor_uint64_decode_def zcbor_uint_decode_def)
  qed
qed

lemma list_map_start_progress:
  assumes h: "list_map_start_decode s m = (True, s')"
  shows "payload s < payload s' \<and> payload_end s' = payload_end s \<and> payload s' \<le> payload_end s \<and> mem s' = mem s"
proof (cases rule: type_check_cases[of s m])
  case (fail err)
  then show ?thesis using h by (simp add: list_map_start_decode_def)
next
  case tc: ok
  show ?thesis
  proof (cases rule: value_extract_cases[of s 8 True])
    case (fail err)
    then show ?thesis using h tc by (simp add: list_map_start_decode_def)
  next
    case (ok v i k)
    then show ?thesis
      using h tc by (auto simp: list_map_start_decode_def zcbor_new_backup_def exit_map_def Let_def split: if_splits)
  qed
qed

lemma list_start_progress:
  assumes "zcbor_list_start_decode s = (True, s')"
  shows "payload s < payload s'" "payload_end s' = payload_end s" "payload s' \<le> payload_end s" "mem s' = mem s"
  using list_map_start_progress[of s ZCBOR_MAJOR_TYPE_LIST s'] assms by (simp_all add: zcbor_list_start_decode_def)

lemma map_start_progress:
  assumes "zcbor_map_start_decode s = (True, s')"
  shows "payload s < payload s'" "payload_end s' = payload_end s" "payload s' \<le> payload_end s" "mem s' = mem s"
  using list_map_start_progress[of s ZCBOR_MAJOR_TYPE_MAP] assms
  by (auto simp: zcbor_map_start_decode_def fail_restore_def split: prod.splits bool.splits if_splits)

lemma end_progress: "payload s \<le> payload (snd (list_map_end_decode s))"
  by (auto simp: list_map_end_decode_def zcbor_process_backup_def
      zcbor_process_backup_num_def array_end_expect_def initial_checks_def restore_state_def Let_def
      zcbor_state.defs split: prod.splits bool.splits if_splits)

lemma list_end_progress: "payload s \<le> payload (snd (zcbor_list_end_decode s))"
  by (simp add: zcbor_list_end_decode_def end_progress)

lemma map_end_progress: "payload s \<le> payload (snd (zcbor_map_end_decode s))"
  by (simp add: zcbor_map_end_decode_def end_progress)

section \<open>Reading sequences\<close>

function count_sids :: "zcbor_state \<Rightarrow> bytes \<Rightarrow> nat \<Rightarrow> nat \<Rightarrow> nat \<Rightarrow> nat" where
  "count_sids old cbor_data cbor_size offset count =
     (if offset < cbor_size
      then case zcbor_uint64_decode (item_state 5 old cbor_data cbor_size offset) of
          (None, s) \<Rightarrow> count
        | (Some temp_sid, s) \<Rightarrow>
            count_sids (zcbor_state.truncate s) cbor_data cbor_size (payload s) (count + 1)
      else count)"
  by pat_completeness auto
termination
proof (relation "measure (\<lambda>(old, cbor_data, cbor_size, offset, count). cbor_size - offset)")
  fix old :: zcbor_state and cbor_data :: bytes and cbor_size offset count :: nat and r s sid
  assume "offset < cbor_size" and "(r, s) = zcbor_uint64_decode (item_state 5 old cbor_data cbor_size offset)"
    and "r = Some sid"
  then show "((zcbor_state.truncate s, cbor_data, cbor_size, payload s, count + 1), old, cbor_data, cbor_size, offset, count)
      \<in> measure (\<lambda>(old, cbor_data, cbor_size, offset, count). cbor_size - offset)"
    by (cases rule: uint64_decode_cases[of "item_state 5 old cbor_data cbor_size offset"])
      auto
qed simp

declare count_sids.simps [simp del]

fun read_sids :: "zcbor_state \<Rightarrow> bytes \<Rightarrow> nat \<Rightarrow> nat \<Rightarrow> nat \<Rightarrow> u64 list option" where
  "read_sids old cbor_data cbor_size offset 0 = Some []"
| "read_sids old cbor_data cbor_size offset (Suc n) =
     (case zcbor_uint64_decode (item_state 5 old cbor_data cbor_size offset) of
        (None, s) \<Rightarrow> None
      | (Some sid, s) \<Rightarrow>
          map_option ((#) sid) (read_sids (zcbor_state.truncate s) cbor_data cbor_size (payload s) n))"

text \<open>The second pass starts with the state array as the first one left it, whatever that is.\<close>

definition parse_fetch_request :: "zcbor_state \<Rightarrow> zcbor_state \<Rightarrow> bytes option \<Rightarrow> nat \<Rightarrow> u64 list option" where
  "parse_fetch_request old old2 cbor_data cbor_size =
     (case cbor_data of
        None \<Rightarrow> None
      | Some data \<Rightarrow>
          let count = count_sids old data cbor_size 0 0 in
          if count = 0 then None else read_sids old2 data cbor_size 0 count)"

definition is_fetch_request :: "zcbor_state \<Rightarrow> bytes option \<Rightarrow> nat \<Rightarrow> bool" where
  "is_fetch_request old cbor_data cbor_size =
     (case cbor_data of
        None \<Rightarrow> False
      | Some data \<Rightarrow>
          cbor_size \<noteq> 0 \<and> fst (zcbor_uint64_decode (zcbor_new_decode_state old 5 data 0 cbor_size 1)) \<noteq> None)"

text \<open>
  The loop that looks for the end of a list item. It goes through the bytes, not the items: a byte
  whose top bits are those of an array or map header adds a level, any other byte with the low
  bits 31 removes one.
\<close>

function skip_depth :: "bytes \<Rightarrow> nat \<Rightarrow> nat \<Rightarrow> nat \<Rightarrow> nat" where
  "skip_depth cbor_data cbor_size depth ptr =
     (if depth > 0 \<and> ptr < cbor_size
      then let major = drop_bit 5 (cbor_data ! ptr); additional = cbor_data ! ptr AND 0x1F;
               depth = (if major = 4 \<or> major = 5 then depth + 1
                        else if additional = 31 then depth - 1 else depth)
           in skip_depth cbor_data cbor_size depth (ptr + 1)
      else ptr)"
  by pat_completeness auto
termination by (relation "measure (\<lambda>(cbor_data, cbor_size, depth, ptr). cbor_size - ptr)") auto

declare skip_depth.simps [simp del]

lemma skip_depth_progress: "ptr \<le> skip_depth cbor_data cbor_size depth ptr"
proof (induction cbor_data cbor_size depth ptr rule: skip_depth.induct)
  case (1 cbor_data cbor_size depth ptr)
  then show ?case by (subst skip_depth.simps) (fastforce simp: Let_def)
qed

function count_iids :: "zcbor_state \<Rightarrow> bytes \<Rightarrow> nat \<Rightarrow> nat \<Rightarrow> nat \<Rightarrow> nat" where
  "count_iids old cbor_data cbor_size offset count =
     (if offset < cbor_size
      then case zcbor_uint64_decode (item_state 5 old cbor_data cbor_size offset) of
          (Some temp_sid, s) \<Rightarrow>
            count_iids (zcbor_state.truncate s) cbor_data cbor_size (payload s) (count + 1)
        | (None, s) \<Rightarrow>
            (case zcbor_list_start_decode (item_state 5 (zcbor_state.truncate s) cbor_data cbor_size offset) of
               (False, s) \<Rightarrow> count
             | (True, s) \<Rightarrow>
                 let s = snd (zcbor_list_end_decode (s\<lparr>payload := skip_depth cbor_data cbor_size 1 (payload s)\<rparr>))
                 in count_iids (zcbor_state.truncate s) cbor_data cbor_size (payload s) (count + 1))
      else count)"
  by pat_completeness auto
termination
proof (relation "measure (\<lambda>(old, cbor_data, cbor_size, offset, count). cbor_size - offset)", simp, goal_cases)
  case (1 old cbor_data cbor_size offset count r s b s1 s2)
  have "zcbor_list_start_decode (item_state 5 (zcbor_state.truncate s) cbor_data cbor_size offset) = (True, s1)"
    using 1 by simp
  from list_start_progress[OF this] have "offset < payload s1" by simp
  moreover have "payload s1 \<le> payload s2"
    using 1 list_end_progress[of "s1\<lparr>payload := skip_depth cbor_data cbor_size 1 (payload s1)\<rparr>"]
      skip_depth_progress[of "payload s1" cbor_data cbor_size 1] by simp
  ultimately show ?case using 1 by auto
next
  case (2 old cbor_data cbor_size offset count r s sid)
  then show ?case
    by (cases rule: uint64_decode_cases[of "item_state 5 old cbor_data cbor_size offset"])
      auto
qed

declare count_iids.simps [simp del]

definition read_iid :: "zcbor_state \<Rightarrow> bytes \<Rightarrow> nat \<Rightarrow> nat \<Rightarrow> InstanceIdentifier option \<times> zcbor" where
  "read_iid old cbor_data cbor_size offset =
     (case zcbor_uint64_decode (item_state 5 old cbor_data cbor_size offset) of
        (Some sid, s) \<Rightarrow> (Some (IID_SIMPLE sid), s)
      | (None, s) \<Rightarrow>
          (case zcbor_list_start_decode (item_state 5 (zcbor_state.truncate s) cbor_data cbor_size offset) of
             (False, s) \<Rightarrow> (None, s)
           | (True, s) \<Rightarrow>
               (case zcbor_uint64_decode s of
                  (None, s) \<Rightarrow> (None, s)
                | (Some sid, s) \<Rightarrow>
                    (case (case zcbor_tstr_decode s of
                             (Some zstr, s) \<Rightarrow> (Some (IID_WITH_STR_KEY sid (c_string (zstr_bytes s zstr))), s)
                           | (None, s) \<Rightarrow> apfst (map_option (IID_WITH_INT_KEY sid)) (zcbor_int64_decode s)) of
                       (None, s) \<Rightarrow> (None, s)
                     | (Some iid, s) \<Rightarrow>
                         (case zcbor_list_end_decode s of
                            (False, s) \<Rightarrow> (None, s)
                          | (True, s) \<Rightarrow> (Some iid, s))))))"

fun read_iids :: "zcbor_state \<Rightarrow> bytes \<Rightarrow> nat \<Rightarrow> nat \<Rightarrow> nat \<Rightarrow> InstanceIdentifier list option" where
  "read_iids old cbor_data cbor_size offset 0 = Some []"
| "read_iids old cbor_data cbor_size offset (Suc n) =
     (case read_iid old cbor_data cbor_size offset of
        (None, s) \<Rightarrow> None
      | (Some iid, s) \<Rightarrow>
          map_option ((#) iid) (read_iids (zcbor_state.truncate s) cbor_data cbor_size (payload s) n))"

definition parse_fetch_request_iids ::
  "zcbor_state \<Rightarrow> zcbor_state \<Rightarrow> bytes option \<Rightarrow> nat \<Rightarrow> InstanceIdentifier list option" where
  "parse_fetch_request_iids old old2 cbor_data cbor_size =
     (case cbor_data of
        None \<Rightarrow> None
      | Some data \<Rightarrow>
          let count = count_iids old data cbor_size 0 0 in
          if count = 0 then None else read_iids old2 data cbor_size 0 count)"

section \<open>What the writers write\<close>

lemma strnlen_c_string: "length str < 2 ^ 64 \<Longrightarrow> take (strnlen str (-1)) str = c_string str"
proof -
  have "take (strnlen str m) str = c_string str" if "length str \<le> unat m" for m
    using that
  proof (induction str arbitrary: m)
    case Nil
    then show ?case by (simp add: c_string_def)
  next
    case (Cons b bs)
    then have "m \<noteq> 0" by auto
    then have "unat (m - 1) = unat m - 1" by (simp add: unat_minus_one)
    then show ?case using Cons \<open>m \<noteq> 0\<close> by (simp add: c_string_def)
  qed
  moreover have "unat (-1 :: u64) = 2 ^ 64 - 1"
    by (simp add: unsigned_minus_1_eq_mask mask_eq_exp_minus_1)
  ultimately show "length str < 2 ^ 64 \<Longrightarrow> take (strnlen str (-1)) str = c_string str" by simp
qed

text \<open>The bytes of an instance identifier and of a response item.\<close>

definition cbor_iid_key :: "InstanceIdentifier \<Rightarrow> bytes" where
  "cbor_iid_key iid =
     (case iid of IID_SIMPLE _ \<Rightarrow> [] | IID_WITH_STR_KEY _ key \<Rightarrow> cbor_str ZCBOR_MAJOR_TYPE_TSTR (c_string key)
      | IID_WITH_INT_KEY _ key \<Rightarrow> cbor_int key)"

definition cbor_iid :: "InstanceIdentifier \<Rightarrow> bytes" where
  "cbor_iid iid =
     (case iid of IID_SIMPLE sid \<Rightarrow> cbor_head ZCBOR_MAJOR_TYPE_PINT sid
      | _ \<Rightarrow> [0x9F] @ cbor_head ZCBOR_MAJOR_TYPE_PINT (iid_sid iid) @ cbor_iid_key iid @ [0xFF])"

text \<open>An identifier whose string key is a C string, as the parser makes it.\<close>

definition iid_norm :: "InstanceIdentifier \<Rightarrow> InstanceIdentifier" where
  "iid_norm iid = (case iid of IID_WITH_STR_KEY sid key \<Rightarrow> IID_WITH_STR_KEY sid (c_string key) | _ \<Rightarrow> iid)"

definition iid_ok :: "InstanceIdentifier \<Rightarrow> bool" where
  "iid_ok iid = (case iid of IID_WITH_STR_KEY _ key \<Rightarrow> length key < 2 ^ 64 | _ \<Rightarrow> True)"

lemma writes_iid: "iid_ok iid \<Longrightarrow> writes (put_iid iid) (cbor_iid iid)"
proof (cases iid)
  case (IID_SIMPLE sid)
  then show ?thesis
    by (intro writes_cong[OF writes_primitive(1)[of sid]]) (simp_all add: put_iid_def cbor_iid_def)
next
  case (IID_WITH_STR_KEY sid key)
  assume "iid_ok iid"
  then have k: "zcbor_tstr_put_term s key (-1) = zcbor_tstr_encode s (c_string key)" for s
    using IID_WITH_STR_KEY by (simp add: zcbor_tstr_put_term_def strnlen_c_string iid_ok_def)
  have "writes (\<lambda>s. case zcbor_list_start_encode s 2 of (False, s) \<Rightarrow> (False, s) | (True, s) \<Rightarrow>
      (case zcbor_uint64_put s sid of (False, s) \<Rightarrow> (False, s) | (True, s) \<Rightarrow>
      (case zcbor_tstr_encode s (c_string key) of (False, s) \<Rightarrow> (False, s) | (True, s) \<Rightarrow>
       zcbor_list_end_encode s 2)))
    ([0x9F] @ cbor_head ZCBOR_MAJOR_TYPE_PINT sid @ cbor_str ZCBOR_MAJOR_TYPE_TSTR (c_string key) @ [0xFF])"
    by (intro writes_seq writes_intros)
  then show ?thesis
    by (rule writes_cong) (simp_all add: IID_WITH_STR_KEY put_iid_def cbor_iid_def cbor_iid_key_def k split: prod.split bool.split)
next
  case (IID_WITH_INT_KEY sid key)
  have "writes (\<lambda>s. case zcbor_list_start_encode s 2 of (False, s) \<Rightarrow> (False, s) | (True, s) \<Rightarrow>
      (case zcbor_uint64_put s sid of (False, s) \<Rightarrow> (False, s) | (True, s) \<Rightarrow>
      (case zcbor_int64_put s key of (False, s) \<Rightarrow> (False, s) | (True, s) \<Rightarrow>
       zcbor_list_end_encode s 2)))
    ([0x9F] @ cbor_head ZCBOR_MAJOR_TYPE_PINT sid @ cbor_int key @ [0xFF])"
    by (intro writes_seq writes_intros)
  then show ?thesis
    by (rule writes_cong) (simp_all add: IID_WITH_INT_KEY put_iid_def cbor_iid_def cbor_iid_key_def)
qed

definition cbor_item :: "u64 \<Rightarrow> CoreconfValue option \<Rightarrow> bytes" where
  "cbor_item sid val =
     [0xBF] @ cbor_head ZCBOR_MAJOR_TYPE_PINT sid @ (case val of Some v \<Rightarrow> cbor_of v | None \<Rightarrow> [0xF6]) @ [0xFF]"

lemma writes_item: "writes (put_item sid val) (cbor_item sid val)"
proof -
  have v: "writes (\<lambda>s. case val of Some v \<Rightarrow> coreconfToCBOR v s | None \<Rightarrow> zcbor_nil_put s)
      (case val of Some v \<Rightarrow> cbor_of v | None \<Rightarrow> [0xF6])"
    by (cases val) (simp_all add: encodes_all writes_intros)
  have "writes (\<lambda>s. case zcbor_map_start_encode s 1 of (False, s) \<Rightarrow> (False, s) | (True, s) \<Rightarrow>
     (case zcbor_uint64_put s sid of (False, s) \<Rightarrow> (False, s) | (True, s) \<Rightarrow>
     (case (case val of Some v \<Rightarrow> coreconfToCBOR v s | None \<Rightarrow> zcbor_nil_put s) of
        (False, s) \<Rightarrow> (False, s)
      | (True, s) \<Rightarrow> zcbor_map_end_encode s 1)))
    ([0xBF] @ cbor_head ZCBOR_MAJOR_TYPE_PINT sid @ (case val of Some v \<Rightarrow> cbor_of v | None \<Rightarrow> [0xF6]) @ [0xFF])"
    by (intro writes_seq writes_intros v)
  then show ?thesis by (rule writes_cong) (simp_all add: put_item_def cbor_item_def)
qed

section \<open>Reading back\<close>

text \<open>What a fresh state reads does not depend on what the stack held.\<close>

lemma uint_item_old:
  obtains (fail) s s' where "zcbor_uint64_decode (item_state 5 old cbor_data n offset) = (None, s)"
      "zcbor_uint64_decode (item_state 5 old' cbor_data n offset) = (None, s')"
  | (ok) v s s' where "zcbor_uint64_decode (item_state 5 old cbor_data n offset) = (Some v, s)"
      "zcbor_uint64_decode (item_state 5 old' cbor_data n offset) = (Some v, s')"
      "payload s' = payload s" "offset < payload s" "payload s \<le> offset + (n - offset)"
proof -
  let ?s = "item_state 5 old cbor_data n offset" let ?s' = "item_state 5 old' cbor_data n offset"
  have h: "header_at ?s' = header_at ?s" by (simp add: header_at_def)
  have "map_option fst (fst (value_extract ?s' 8 False)) = map_option fst (fst (value_extract ?s 8 False)) \<and>
      payload (snd (value_extract ?s' 8 False)) = payload (snd (value_extract ?s 8 False))"
    by (simp add: value_extract_def initial_checks_def h Let_def)
  moreover have "fst (type_check ?s' ZCBOR_MAJOR_TYPE_PINT) = fst (type_check ?s ZCBOR_MAJOR_TYPE_PINT)"
    by (simp add: type_check_def initial_checks_def h)
  ultimately have "fst (zcbor_uint64_decode ?s') = fst (zcbor_uint64_decode ?s) \<and>
     (fst (zcbor_uint64_decode ?s) \<noteq> None \<longrightarrow>
       payload (snd (zcbor_uint64_decode ?s')) = payload (snd (zcbor_uint64_decode ?s)))"
    by (cases rule: type_check_cases[of ?s ZCBOR_MAJOR_TYPE_PINT];
        cases rule: type_check_cases[of ?s' ZCBOR_MAJOR_TYPE_PINT])
      (auto simp: zcbor_uint64_decode_def zcbor_uint_decode_def)
  then show ?thesis
    using fail ok
    by (cases rule: uint64_decode_cases[of ?s]; cases rule: uint64_decode_cases[of ?s']) auto
qed

lemma count_sids_read_sids:
  "\<exists>sids. count_sids old cbor_data n offset c = c + length sids \<and>
     read_sids old' cbor_data n offset (length sids) = Some sids \<and>
     (sids = [] \<longleftrightarrow> n \<le> offset \<or> fst (zcbor_uint64_decode (item_state 5 old' cbor_data n offset)) = None)"
proof (induction old cbor_data n offset c arbitrary: old' rule: count_sids.induct)
  case (1 old cbor_data n offset c)
  show ?case
  proof (cases "offset < n")
    case False
    then show ?thesis by (subst count_sids.simps) (auto intro: exI[of _ "[]"])
  next
    case less: True
    show ?thesis
    proof (cases rule: uint_item_old[of old cbor_data n offset old'])
      case (fail s s')
      then show ?thesis by (subst count_sids.simps) (auto intro: exI[of _ "[]"])
    next
      case (ok v s s')
      obtain sids where "count_sids (zcbor_state.truncate s) cbor_data n (payload s) (c + 1) = c + 1 + length sids"
          "read_sids (zcbor_state.truncate s') cbor_data n (payload s) (length sids) = Some sids"
        using "1.IH"[OF less ok(1)[symmetric] refl, of "zcbor_state.truncate s'"] by blast
      then show ?thesis
        using less ok by (subst count_sids.simps) (auto intro!: exI[of _ "v # sids"])
    qed
  qed
qed

text \<open>
  C30. The two passes of the FETCH parser agree: it returns the longest run of unsigned integers at
  the start of the payload and never fails in its second pass; and \<open>is_fetch_request\<close> accepts exactly
  the payloads that it can parse, whatever the stack held before either call.
\<close>

theorem is_fetch_request_iff_parsed:
  "is_fetch_request old cbor_data n \<longleftrightarrow> parse_fetch_request old1 old2 cbor_data n \<noteq> None"
proof (cases cbor_data)
  case None
  then show ?thesis by (simp add: is_fetch_request_def parse_fetch_request_def)
next
  case (Some cd)
  obtain sids where s: "count_sids old1 cd n 0 0 = 0 + length sids" "read_sids old2 cd n 0 (length sids) = Some sids"
      "sids = [] \<longleftrightarrow> n \<le> 0 \<or> fst (zcbor_uint64_decode (item_state 5 old2 cd n 0)) = None"
    using count_sids_read_sids[of old1 cd n 0 0 old2] by (elim exE conjE)
  have "fst (zcbor_uint64_decode (item_state 5 old2 cd n 0)) = fst (zcbor_uint64_decode (item_state 5 old cd n 0))"
    by (cases rule: uint_item_old[of old2 cd n 0 old]) simp_all
  then show ?thesis
    using s Some by (auto simp: is_fetch_request_def parse_fetch_request_def item_state_def)
qed

lemma sid_seq_coming:
  assumes "n \<le> length cbor_data" and "offset \<le> n"
    and "take (n - offset) (drop offset cbor_data) = concat (map (cbor_head ZCBOR_MAJOR_TYPE_PINT) sids)"
  shows "count_sids old cbor_data n offset c = c + length sids"
    and "read_sids old' cbor_data n offset (length sids) = Some sids"
proof -
  have "count_sids old cbor_data n offset c = c + length sids \<and>
      read_sids old' cbor_data n offset (length sids) = Some sids"
    using assms(2,3)
  proof (induction sids arbitrary: offset old old' c)
    case Nil
    then have "n = offset" using assms(1) by auto
    then show ?case by (subst count_sids.simps) simp
  next
    case (Cons sid sids)
    let ?h = "cbor_head ZCBOR_MAJOR_TYPE_PINT sid"
    have t: "take (n - offset) (drop offset cbor_data) = ?h @ concat (map (cbor_head ZCBOR_MAJOR_TYPE_PINT) sids)"
      using Cons.prems by simp
    have dec: "zcbor_uint64_decode (item_state 5 x cbor_data n offset)
        = (Some sid, advance (item_state 5 x cbor_data n offset) (length ?h))" for x
      by (rule uint64_decode_head[OF coming_appendD[OF item_state_coming[OF assms(1) t Cons.prems(1)]]]) simp_all
    have len: "offset + length ?h \<le> n" "0 < length ?h"
      using arg_cong[OF t, of length] assms(1) Cons.prems(1) length_cbor_head[of ZCBOR_MAJOR_TYPE_PINT sid]
      by (auto simp: zcbor_header_len_def min_def split: if_splits)
    then have "offset < n" by linarith
    then show ?case
      using Cons.IH[OF len(1) item_rest[OF t]] dec
      by (subst count_sids.simps) simp
  qed
  then show "count_sids old cbor_data n offset c = c + length sids"
    and "read_sids old' cbor_data n offset (length sids) = Some sids" by blast+
qed

text \<open>
  C29. FETCH requests for SIDs: given room, the request is the sequence of the SIDs' encodings, and
  the server's parser reads exactly these SIDs back, in order and with repetitions.
\<close>

theorem fetch_request_roundtrip:
  assumes "sids \<noteq> []" and "length (concat (map (cbor_head ZCBOR_MAJOR_TYPE_PINT) sids)) \<le> buffer_size"
    and "buffer_size \<le> length buf"
    and "create_fetch_request old (Some buf) buffer_size (Some sids) = (n, Some buf')"
  shows "take n buf' = concat (map (cbor_head ZCBOR_MAJOR_TYPE_PINT) sids) \<and>
    parse_fetch_request old1 old2 (Some buf') n = Some sids"
proof -
  let ?bs = "concat (map (cbor_head ZCBOR_MAJOR_TYPE_PINT) sids)"
  obtain b where "encode_seq 5 (\<lambda>sid s. zcbor_uint64_put s sid) old buf buffer_size sids 0 = (length ?bs, b)"
      "length b = length buf" "take (length ?bs) b = ?bs"
    using encode_seq_writes[of sids "\<lambda>sid s. zcbor_uint64_put s sid" "cbor_head ZCBOR_MAJOR_TYPE_PINT" 0
        buffer_size buf 5 old] assms(2,3) writes_primitive(1) by auto
  then have n: "n = length ?bs" "take n buf' = ?bs" "length buf' = length buf"
    using assms(1,4) by (auto simp: create_fetch_request_def)
  then have "count_sids old1 buf' n 0 0 = length sids" "read_sids old2 buf' n 0 (length sids) = Some sids"
    using sid_seq_coming(1)[of n buf' 0 sids old1 0] sid_seq_coming(2)[of n buf' 0 sids old2] assms(2,3) by simp_all
  then show ?thesis using n assms(1) by (simp add: parse_fetch_request_def)
qed

theorem fetch_request_roundtrip_witness:
  "parse_fetch_request any_state any_state (Some [0x05, 0x18, 0x64, 0x05, 0, 0]) 4 = Some [5, 100, 5]"
proof -
  have "create_fetch_request any_state (Some (replicate 6 0)) 6 (Some [5, 100, 5])
      = (4, Some [0x05, 0x18, 0x64, 0x05, 0, 0])" by code_simp
  moreover have "length (concat (map (cbor_head ZCBOR_MAJOR_TYPE_PINT) [5, 100, 5])) \<le> 6" by code_simp
  ultimately show ?thesis
    using fetch_request_roundtrip[of "[5, 100, 5]" 6 "replicate 6 0" any_state 4 _ any_state any_state] by simp
qed

section \<open>Lists of instance identifiers\<close>

text \<open>A byte that the depth loop passes without counting.\<close>

definition plain_byte :: "u8 \<Rightarrow> bool" where
  "plain_byte b \<longleftrightarrow> drop_bit 5 b \<noteq> 4 \<and> drop_bit 5 b \<noteq> 5 \<and> b AND 0x1F \<noteq> 31"

lemma skip_depth_plain:
  assumes "list_all plain_byte bs" and "take (length bs + 1) (drop ptr cbor_data) = bs @ [0xFF]"
    and "ptr + length bs < n"
  shows "skip_depth cbor_data n 1 ptr = ptr + length bs + 1"
  using assms
proof (induction bs arbitrary: ptr)
  case Nil
  then have "cbor_data ! ptr = 0xFF"
    by (cases "ptr < length cbor_data") (auto simp: take_Suc_conv_app_nth)
  then show ?case
    using Nil by (subst skip_depth.simps, simp, subst skip_depth.simps) simp
next
  case (Cons b bs)
  have l: "ptr < length cbor_data" using Cons.prems(2) by (cases "ptr < length cbor_data") auto
  then have d: "drop ptr cbor_data = cbor_data ! ptr # drop (Suc ptr) cbor_data" by (simp add: Cons_nth_drop_Suc)
  then have b: "cbor_data ! ptr = b" and r: "take (length bs + 1) (drop (Suc ptr) cbor_data) = bs @ [0xFF]"
    using Cons.prems(2) by simp_all
  show ?case
    using Cons.IH[of "Suc ptr"] Cons.prems r b
    by (subst skip_depth.simps) (simp add: plain_byte_def Let_def)
qed

text \<open>Closing a list where no break byte is: the error is ignored and the payload stays.\<close>

lemma list_end_no_break:
  assumes "opened s s1" and "payload_end s \<le> p \<or> mem s ! p \<noteq> 0xFF"
  shows "payload (snd (zcbor_list_end_decode (s1\<lparr>payload := p\<rparr>))) = p"
  using assms
  by (auto simp: opened_def zcbor_list_end_decode_def list_map_end_decode_def zcbor_process_backup_def
      zcbor_process_backup_num_def array_end_expect_def initial_checks_def header_at_def
      Let_def split: prod.splits bool.splits if_splits)

lemma tstr_decode_other:
  assumes "coming s (cbor_head m v)" and "m \<noteq> ZCBOR_MAJOR_TYPE_TSTR"
  obtains err where "zcbor_tstr_decode s = (None, zcbor_error err s)"
proof (cases rule: type_check_cases[of s ZCBOR_MAJOR_TYPE_TSTR])
  case (fail err)
  then show ?thesis
    using that by (simp add: zcbor_tstr_decode_def str_decode_def str_start_decode_with_overflow_check_def str_start_decode_def)
next
  case ok
  then show ?thesis using head_major[OF assms(1)] assms(2) by simp
qed

lemma int64_decode_int:
  assumes "coming s (cbor_int v)" and "elem_count s \<noteq> 0" and "\<not> enforce_canonical s"
  shows "zcbor_int64_decode s = (Some v, advance s (length (cbor_int v)))"
proof (cases "bit v 63")
  case True
  then show ?thesis using int64_decode_head[of s v] assms by (simp add: cbor_int_def)
next
  case False
  then have c: "coming s (cbor_head ZCBOR_MAJOR_TYPE_PINT v)" using assms by (simp add: cbor_int_def)
  show ?thesis
    using False head_major[OF c] value_extract_head[OF c assms(2,3) head_len_9, of False]
    by (simp add: zcbor_int64_decode_def zcbor_int_decode_def initial_checks_def val_to_int_def cbor_int_def)
qed

lemma iid_key_coming:
  assumes "coming s (cbor_iid_key iid)" and "elem_count s \<noteq> 0" and "\<not> enforce_canonical s"
    and "iid_ok iid" and "is_IID_SIMPLE iid \<Longrightarrow> False"
  shows "\<exists>s' k. (case zcbor_tstr_decode s of
        (Some zstr, s) \<Rightarrow> (Some (IID_WITH_STR_KEY (iid_sid iid) (c_string (zstr_bytes s zstr))), s)
      | (None, s) \<Rightarrow> apfst (map_option (IID_WITH_INT_KEY (iid_sid iid))) (zcbor_int64_decode s)) = (Some (iid_norm iid), s') \<and>
    consumed (length (cbor_iid_key iid)) 1 s s'"
proof (cases iid)
  case (IID_SIMPLE sid)
  then show ?thesis using assms(5) by simp
next
  case (IID_WITH_STR_KEY sid key)
  let ?k = "c_string key"
  have "length ?k \<le> length key" by (simp add: c_string_def length_takeWhile_le)
  then have len: "length ?k < 2 ^ 64" using assms(4) IID_WITH_STR_KEY by (simp add: iid_ok_def)
  have com: "coming s (cbor_str ZCBOR_MAJOR_TYPE_TSTR ?k)" using assms(1) IID_WITH_STR_KEY by (simp add: cbor_iid_key_def)
  obtain s' where s': "str_decode s ZCBOR_MAJOR_TYPE_TSTR
        = (Some (payload s + length (cbor_head ZCBOR_MAJOR_TYPE_TSTR (of_nat (length ?k))), of_nat (length ?k)), s')"
      "consumed (length (cbor_str ZCBOR_MAJOR_TYPE_TSTR ?k)) 1 s s'"
      "take (length ?k) (drop (payload s + length (cbor_head ZCBOR_MAJOR_TYPE_TSTR (of_nat (length ?k)))) (mem s)) = ?k"
    by (rule str_decode_coming[OF com assms(2,3) len])
  moreover have "unat (of_nat (length ?k) :: u64) = length ?k" using len by (simp add: unat_of_nat take_bit_nat_eq_self)
  moreover have "c_string ?k = ?k" by (simp add: c_string_def)
  ultimately show ?thesis
    using IID_WITH_STR_KEY consumedD(3)[OF s'(2)]
    by (simp add: zcbor_tstr_decode_def zstr_bytes_def cbor_iid_key_def iid_norm_def)
next
  case (IID_WITH_INT_KEY sid key)
  then have com: "coming s (cbor_int key)" using assms(1) by (simp add: cbor_iid_key_def)
  obtain err where e: "zcbor_tstr_decode s = (None, zcbor_error err s)"
    using com tstr_decode_other[of s ZCBOR_MAJOR_TYPE_PINT] tstr_decode_other[of s ZCBOR_MAJOR_TYPE_NINT]
    by (auto simp: cbor_int_def split: if_splits)
  have "coming (zcbor_error err s) (cbor_int key)" using com by (simp add: coming_def)
  then have "zcbor_int64_decode (zcbor_error err s) = (Some key, advance (zcbor_error err s) (length (cbor_int key)))"
    using assms(2,3) by (intro int64_decode_int) simp_all
  then show ?thesis
    using e IID_WITH_INT_KEY by (simp add: cbor_iid_key_def iid_norm_def consumed_def)
qed

lemma uint64_decode_not_list:
  assumes "coming s (0x9F # bs)"
  obtains err where "zcbor_uint64_decode s = (None, zcbor_error err s)"
proof (cases rule: type_check_cases[of s ZCBOR_MAJOR_TYPE_PINT])
  case (fail err)
  then show ?thesis using that by (simp add: zcbor_uint64_decode_def zcbor_uint_decode_def)
next
  case ok
  then show ?thesis using coming_hd(1)[OF assms] by (simp add: ZCBOR_MAJOR_TYPE_def)
qed

lemma read_iid_coming:
  assumes "n \<le> length cbor_data" and "offset \<le> n"
    and "take (n - offset) (drop offset cbor_data) = cbor_iid iid @ cs" and "iid_ok iid"
  obtains s' where "read_iid old cbor_data n offset = (Some (iid_norm iid), s')"
    "payload s' = offset + length (cbor_iid iid)"
proof (cases "is_IID_SIMPLE iid")
  case True
  let ?s = "item_state 5 old cbor_data n offset"
  have "coming ?s (cbor_head ZCBOR_MAJOR_TYPE_PINT (iid_sid iid))"
    using item_state_coming[OF assms(1,3,2)] True by (cases iid) (auto simp: cbor_iid_def dest: coming_appendD)
  then have "zcbor_uint64_decode ?s = (Some (iid_sid iid), advance ?s (length (cbor_head ZCBOR_MAJOR_TYPE_PINT (iid_sid iid))))"
    by (rule uint64_decode_head) simp_all
  then show ?thesis
    using that True by (cases iid) (auto simp: read_iid_def iid_norm_def cbor_iid_def)
next
  case False
  let ?s = "item_state 5 old cbor_data n offset" let ?h = "cbor_head ZCBOR_MAJOR_TYPE_PINT (iid_sid iid)"
  have bs: "cbor_iid iid = 0x9F # ?h @ cbor_iid_key iid @ [0xFF]" using False by (cases iid) (simp_all add: cbor_iid_def)
  have com: "coming (item_state 5 x cbor_data n offset) (0x9F # ?h @ cbor_iid_key iid @ [0xFF] @ cs)" for x
    using item_state_coming[OF assms(1,3,2), of 5 x] bs by simp
  obtain e where e: "zcbor_uint64_decode ?s = (None, zcbor_error e ?s)" by (rule uint64_decode_not_list[OF com])
  let ?t = "item_state 5 (zcbor_state.truncate (zcbor_error e ?s)) cbor_data n offset"
  have room: "length (backup_list ?t) < num_backups ?t" by simp
  obtain s1 where s1: "zcbor_list_start_decode ?t = (True, s1)" "opened ?t s1"
  proof (rule list_start_coming[of ?t])
    show "coming ?t [0x9F]" by (rule coming_appendD[of ?t "[0x9F]"]) (use com in simp)
  qed (use that in simp_all)
  have com1: "coming s1 (?h @ cbor_iid_key iid @ [0xFF])"
    using coming_opened[OF com s1(2)] coming_appendD[of s1 "?h @ cbor_iid_key iid @ [0xFF]" cs] by simp
  have nc: "\<not> enforce_canonical s1" "elem_count s1 = ZCBOR_LARGE_ELEM_COUNT" using s1(2) by (simp_all add: opened_def)
  have d1: "zcbor_uint64_decode s1 = (Some (iid_sid iid), advance s1 (length ?h))"
    by (rule uint64_decode_head[OF coming_appendD[OF com1]]) (use nc in simp_all)
  let ?s2 = "advance s1 (length ?h)"
  have com2: "coming ?s2 (cbor_iid_key iid @ [0xFF])" by (rule coming_consumed[OF com1 consumed_advance])
  obtain s3 where s3: "(case zcbor_tstr_decode ?s2 of
        (Some zstr, s) \<Rightarrow> (Some (IID_WITH_STR_KEY (iid_sid iid) (c_string (zstr_bytes s zstr))), s)
      | (None, s) \<Rightarrow> apfst (map_option (IID_WITH_INT_KEY (iid_sid iid))) (zcbor_int64_decode s)) = (Some (iid_norm iid), s3)"
      "consumed (length (cbor_iid_key iid)) 1 ?s2 s3"
    using iid_key_coming[OF coming_appendD[OF com2], of] nc assms(4) False by auto
  have c: "consumed (length ?h + length (cbor_iid_key iid)) (1 + 1) s1 s3" by (rule consumed_trans[OF consumed_advance s3(2)])
  obtain s4 where s4: "list_map_end_decode s3 = (True, s4)"
      "consumed (length ?h + length (cbor_iid_key iid) + 2) 1 ?t s4"
    by (rule list_map_end_coming[OF s1(2) c coming_consumed[OF com2 s3(2)] room])
  have "read_iid old cbor_data n offset = (Some (iid_norm iid), s4)"
    using e s1(1) d1 s3(1) s4(1) by (simp add: read_iid_def zcbor_list_end_decode_def)
  then show ?thesis using that consumedD(1)[OF s4(2)] bs by simp
qed

text \<open>What the counting pass needs: no byte of a list item but its first and last one misleads the loop.\<close>

definition iid_plain :: "InstanceIdentifier \<Rightarrow> bool" where
  "iid_plain iid \<longleftrightarrow>
     (is_IID_SIMPLE iid \<or> list_all plain_byte (cbor_head ZCBOR_MAJOR_TYPE_PINT (iid_sid iid) @ cbor_iid_key iid))"

lemma cbor_iid_first: "\<exists>b bs. cbor_iid iid = b # bs \<and> b \<noteq> 0xFF"
proof (cases "is_IID_SIMPLE iid")
  case True
  obtain b bs where b: "cbor_head ZCBOR_MAJOR_TYPE_PINT (iid_sid iid) = b # bs"
    by (rule cbor_head_form[of ZCBOR_MAJOR_TYPE_PINT "iid_sid iid"]) auto
  then show ?thesis using True cbor_head_no_break[OF b] by (cases iid) (simp_all add: cbor_iid_def)
next
  case False
  then show ?thesis by (cases iid) (simp_all add: cbor_iid_def)
qed

lemma count_iid_coming:
  assumes "n \<le> length cbor_data" and "offset \<le> n"
    and "take (n - offset) (drop offset cbor_data) = cbor_iid iid @ cs" and "iid_plain iid"
    and "cs = [] \<or> hd cs \<noteq> 0xFF"
  obtains old' where "count_iids old cbor_data n offset c = count_iids old' cbor_data n (offset + length (cbor_iid iid)) (c + 1)"
proof -
  let ?s = "item_state 5 old cbor_data n offset" let ?h = "cbor_head ZCBOR_MAJOR_TYPE_PINT (iid_sid iid)"
  let ?p = "offset + length (cbor_iid iid)"
  have len: "n - offset = length (cbor_iid iid) + length cs"
    using arg_cong[OF assms(3), of length] assms(1,2) by simp
  moreover have "cbor_iid iid \<noteq> []" using cbor_iid_first[of iid] by auto
  ultimately have less: "offset < n" by (cases "cbor_iid iid") auto
  show ?thesis
  proof (cases "is_IID_SIMPLE iid")
    case True
    have "coming ?s ?h"
      using item_state_coming[OF assms(1,3,2)] True by (cases iid) (auto simp: cbor_iid_def dest: coming_appendD)
    then have "zcbor_uint64_decode ?s = (Some (iid_sid iid), advance ?s (length ?h))"
      by (rule uint64_decode_head) simp_all
    moreover have "length (cbor_iid iid) = length ?h" using True by (cases iid) (simp_all add: cbor_iid_def)
    ultimately show ?thesis
      using less by (intro that[of "zcbor_state.truncate (advance ?s (length ?h))"]) (subst count_iids.simps, simp)
  next
    case False
    let ?bs = "?h @ cbor_iid_key iid"
    have bs: "cbor_iid iid = 0x9F # ?bs @ [0xFF]" using False by (cases iid) (simp_all add: cbor_iid_def)
    have com: "coming (item_state 5 x cbor_data n offset) (0x9F # ?bs @ [0xFF] @ cs)" for x
      using item_state_coming[OF assms(1,3,2), of 5 x] bs by simp
    obtain e where e: "zcbor_uint64_decode ?s = (None, zcbor_error e ?s)" by (rule uint64_decode_not_list[OF com])
    let ?t = "item_state 5 (zcbor_state.truncate (zcbor_error e ?s)) cbor_data n offset"
    obtain s1 where s1: "zcbor_list_start_decode ?t = (True, s1)" "opened ?t s1"
    proof (rule list_start_coming[of ?t])
      show "coming ?t [0x9F]" by (rule coming_appendD[of ?t "[0x9F]"]) (use com in simp)
    qed (use that in simp_all)
    have p1: "payload s1 = offset + 1" using s1(2) by (simp add: opened_def)
    have "coming s1 ((?bs @ [0xFF]) @ cs)" using coming_opened[OF com s1(2)] by simp
    then have "coming s1 (?bs @ [0xFF])" by (rule coming_appendD)
    then have "take (length ?bs + 1) (drop (offset + 1) cbor_data) = ?bs @ [0xFF]"
      using s1(2) by (simp add: coming_def opened_def)
    then have sk: "skip_depth cbor_data n 1 (payload s1) = ?p"
      using skip_depth_plain[of ?bs "offset + 1" cbor_data n] assms(4) False len bs
      by (simp add: iid_plain_def p1)
    have rest: "take (n - ?p) (drop ?p cbor_data) = cs" by (rule item_rest[OF assms(3)])
    have "payload_end ?t \<le> ?p \<or> mem ?t ! ?p \<noteq> 0xFF"
    proof (cases cs)
      case Nil
      then show ?thesis using len assms(2) by simp
    next
      case (Cons b ds)
      then have "?p < length cbor_data" using len assms(1,2) by simp
      then have "hd (take (n - ?p) (drop ?p cbor_data)) = cbor_data ! ?p"
        using len Cons by (simp add: hd_drop_conv_nth hd_take)
      then show ?thesis using rest Cons assms(5) by simp
    qed
    note pl = list_end_no_break[OF s1(2) this]
    let ?s2 = "snd (zcbor_list_end_decode (s1\<lparr>payload := ?p\<rparr>))"
    show ?thesis
      using less e s1(1) sk pl
      by (intro that[of "zcbor_state.truncate ?s2"]) (subst count_iids.simps, simp add: Let_def)
  qed
qed

lemma iid_seq_coming:
  assumes "n \<le> length cbor_data" and "offset \<le> n"
    and "take (n - offset) (drop offset cbor_data) = concat (map cbor_iid iids)"
    and "\<And>iid. iid \<in> set iids \<Longrightarrow> iid_plain iid \<and> iid_ok iid"
  shows "count_iids old cbor_data n offset c = c + length iids"
    and "read_iids old' cbor_data n offset (length iids) = Some (map iid_norm iids)"
proof -
  have "count_iids old cbor_data n offset c = c + length iids \<and>
      read_iids old' cbor_data n offset (length iids) = Some (map iid_norm iids)"
    using assms(2-4)
  proof (induction iids arbitrary: offset old old' c)
    case Nil
    then have "n = offset" using assms(1) by auto
    then show ?case by (subst count_iids.simps) simp
  next
    case (Cons iid iids)
    let ?cs = "concat (map cbor_iid iids)"
    have t: "take (n - offset) (drop offset cbor_data) = cbor_iid iid @ ?cs" using Cons.prems by simp
    have ok: "iid_plain iid" "iid_ok iid" using Cons.prems(3) by simp_all
    have hd: "?cs = [] \<or> hd ?cs \<noteq> 0xFF"
      using cbor_iid_first[of "hd iids"] by (cases iids) auto
    have le: "offset + length (cbor_iid iid) \<le> n"
      using arg_cong[OF t, of length] assms(1) Cons.prems(1) by simp
    obtain old2 where c: "count_iids old cbor_data n offset c
        = count_iids old2 cbor_data n (offset + length (cbor_iid iid)) (c + 1)"
      by (rule count_iid_coming[OF assms(1) Cons.prems(1) t ok(1) hd])
    obtain s' where s': "read_iid old' cbor_data n offset = (Some (iid_norm iid), s')"
        "payload s' = offset + length (cbor_iid iid)"
      by (rule read_iid_coming[OF assms(1) Cons.prems(1) t ok(2)])
    show ?case
      using Cons.IH[OF le item_rest[OF t], of old2 "c + 1" "zcbor_state.truncate s'"] Cons.prems(3) c s' by simp
  qed
  then show "count_iids old cbor_data n offset c = c + length iids"
    and "read_iids old' cbor_data n offset (length iids) = Some (map iid_norm iids)" by blast+
qed

text \<open>
  C31. FETCH requests for instance identifiers: given room, the request is the sequence of the
  identifiers' encodings, and the server's parser reads them back, string keys up to the first
  NUL, provided that the bytes of the list items do not mislead its counting loop.
\<close>

theorem fetch_iids_roundtrip:
  assumes "iids \<noteq> []" and "\<And>iid. iid \<in> set iids \<Longrightarrow> iid_plain iid \<and> iid_ok iid"
    and "length (concat (map cbor_iid iids)) \<le> buffer_size" and "buffer_size \<le> length buf"
    and "create_fetch_request_with_iids old (Some buf) buffer_size (Some iids) = (n, Some buf')"
  shows "take n buf' = concat (map cbor_iid iids) \<and>
    parse_fetch_request_iids old1 old2 (Some buf') n = Some (map iid_norm iids)"
proof -
  let ?bs = "concat (map cbor_iid iids)"
  obtain b where "encode_seq 5 put_iid old buf buffer_size iids 0 = (length ?bs, b)"
      "length b = length buf" "take (length ?bs) b = ?bs"
    using encode_seq_writes[of iids put_iid cbor_iid 0 buffer_size buf 5 old] assms(2,3,4) writes_iid by auto
  then have n: "n = length ?bs" "take n buf' = ?bs" "length buf' = length buf"
    using assms(1,5) by (auto simp: create_fetch_request_with_iids_def)
  then have "count_iids old1 buf' n 0 0 = length iids" "read_iids old2 buf' n 0 (length iids) = Some (map iid_norm iids)"
    using iid_seq_coming(1)[of n buf' 0 iids old1 0] iid_seq_coming(2)[of n buf' 0 iids old2] assms(2,3,4) by simp_all
  then show ?thesis using n assms(1) by (simp add: parse_fetch_request_iids_def)
qed

theorem fetch_iids_roundtrip_witness:
  "parse_fetch_request_iids any_state any_state (Some [0x9F, 5, 0x61, 0x61, 0xFF, 7]) 6
     = Some [IID_WITH_STR_KEY 5 [0x61], IID_SIMPLE 7]"
proof -
  let ?iids = "[IID_WITH_STR_KEY 5 [0x61], IID_SIMPLE 7]"
  have r: "create_fetch_request_with_iids any_state (Some (replicate 6 0)) 6 (Some ?iids)
      = (6, Some [0x9F, 5, 0x61, 0x61, 0xFF, 7])" by code_simp
  have "list_all (\<lambda>iid. iid_plain iid) ?iids" by code_simp
  then have ok: "iid_plain iid \<and> iid_ok iid" if "iid \<in> set ?iids" for iid
    using that by (auto simp: iid_ok_def)
  have len: "length (concat (map cbor_iid ?iids)) \<le> 6" by code_simp
  have "map iid_norm ?iids = ?iids" by (simp add: iid_norm_def c_string_def)
  moreover have "parse_fetch_request_iids any_state any_state (Some [0x9F, 5, 0x61, 0x61, 0xFF, 7]) 6
      = Some (map iid_norm ?iids)"
    by (rule conjunct2[OF fetch_iids_roundtrip[OF _ ok len _ r]]) simp_all
  ultimately show ?thesis by simp
qed

text \<open>
  A key with an underscore ends the counting of its list item early, since the underscore has the low
  bits 31. The request below asks for the entry named \<open>a_b\<close> and for the SID 7; the parser returns the
  first identifier only.
\<close>

lemma fetch_iids_lost_item:
  "take 8 (the (snd (create_fetch_request_with_iids any_state (Some (replicate 8 0)) 8
       (Some [IID_WITH_STR_KEY 5 [0x61, 0x5F, 0x62], IID_SIMPLE 7]))))
     = [0x9F, 5, 0x63, 0x61, 0x5F, 0x62, 0xFF, 7] \<and>
   parse_fetch_request_iids any_state any_state (Some [0x9F, 5, 0x63, 0x61, 0x5F, 0x62, 0xFF, 7]) 8
     = Some [IID_WITH_STR_KEY 5 [0x61, 0x5F, 0x62]]"
  by (intro conjI) code_simp+

section \<open>Responses\<close>

text \<open>
  What an identifier denotes in a data source, said without the search of the code: a SID what the map holds under it,
  a string key the first entry of the list that it names, and an integer key the entry with that many entries before it.
\<close>

inductive denotes :: "CoreconfValue option \<Rightarrow> InstanceIdentifier \<Rightarrow> CoreconfValue \<Rightarrow> bool" where
  simple: "getCoreconfHashMap hm sid = Some v \<Longrightarrow> denotes (Some (CORECONF_HASHMAP hm)) (IID_SIMPLE sid) v"
| named: "getCoreconfHashMap hm sid = Some (CORECONF_ARRAY es) \<Longrightarrow> first_named key es v \<Longrightarrow>
    denotes (Some (CORECONF_HASHMAP hm)) (IID_WITH_STR_KEY sid key) v"
| indexed: "getCoreconfHashMap hm sid = Some (CORECONF_ARRAY (before @ v # behind)) \<Longrightarrow> sint key = int (length before) \<Longrightarrow>
    denotes (Some (CORECONF_HASHMAP hm)) (IID_WITH_INT_KEY sid key) v"

inductive_simps denotes_simps:
  "denotes None iid v"
  "denotes (Some (CORECONF_HASHMAP hm)) (IID_SIMPLE sid) v"
  "denotes (Some (CORECONF_HASHMAP hm)) (IID_WITH_STR_KEY sid key) v"
  "denotes (Some (CORECONF_HASHMAP hm)) (IID_WITH_INT_KEY sid key) v"

lemma sint_unat: "0 \<le> sint (key :: u64) \<Longrightarrow> sint key = int (unat key)"
  using uint_lt2p[of key] by (simp add: sint_u64 split: if_splits)

lemma indexed_entry:
  "(\<exists>before behind. es = before @ v # behind \<and> sint (key :: u64) = int (length before)) \<longleftrightarrow>
     0 \<le> sint key \<and> unat key < length es \<and> es ! unat key = v"
proof
  assume "\<exists>before behind. es = before @ v # behind \<and> sint key = int (length before)"
  then obtain before behind where e: "es = before @ v # behind" "sint key = int (length before)" by blast
  then have "unat key = length before" using sint_unat[of key] by linarith
  then show "0 \<le> sint key \<and> unat key < length es \<and> es ! unat key = v" using e by simp
next
  assume r: "0 \<le> sint key \<and> unat key < length es \<and> es ! unat key = v"
  then have "es = take (unat key) es @ v # drop (Suc (unat key)) es" using id_take_nth_drop by blast
  moreover have "sint key = int (length (take (unat key) es))" using r sint_unat[of key] by simp
  ultimately show "\<exists>before behind. es = before @ v # behind \<and> sint key = int (length before)" by blast
qed

lemma denotes_fetch_value: "denotes ds iid v \<longleftrightarrow> fetch_value_by_iid ds (Some iid) = Some v"
proof (cases "\<exists>hm. ds = Some (CORECONF_HASHMAP hm)")
  case False
  then show ?thesis
    by (auto simp: fetch_value_by_iid_def elim: denotes.cases split: option.split CoreconfValue.split)
next
  case True
  then obtain hm where ds: "ds = Some (CORECONF_HASHMAP hm)" by blast
  show ?thesis
  proof (cases iid)
    case (IID_SIMPLE sid)
    then show ?thesis by (simp add: ds denotes_simps fetch_value_by_iid_def split: option.split)
  next
    case (IID_WITH_STR_KEY sid key)
    then show ?thesis
      by (auto simp: ds denotes_simps fetch_value_by_iid_def first_named_find split: option.splits CoreconfValue.splits)
  next
    case (IID_WITH_INT_KEY sid key)
    have "denotes ds iid v \<longleftrightarrow> (\<exists>es. getCoreconfHashMap hm sid = Some (CORECONF_ARRAY es) \<and>
        0 \<le> sint key \<and> unat key < length es \<and> es ! unat key = v)"
      unfolding ds IID_WITH_INT_KEY denotes_simps indexed_entry[symmetric] by blast
    then show ?thesis
      using IID_WITH_INT_KEY by (auto simp: ds fetch_value_by_iid_def split: option.splits CoreconfValue.splits if_splits)
  qed
qed

lemma denoted_values:
  "list_all2 (\<lambda>iid w. \<forall>v. w = Some v \<longleftrightarrow> denotes ds iid v) iids ws \<longleftrightarrow> ws = map (\<lambda>iid. fetch_value_by_iid ds (Some iid)) iids"
proof -
  have "(\<forall>v. w = Some v \<longleftrightarrow> denotes ds iid v) \<longleftrightarrow> w = fetch_value_by_iid ds (Some iid)" for iid w
    by (auto simp: denotes_fetch_value) (metis option.exhaust)
  then show ?thesis by (induction iids arbitrary: ws) (auto simp: list_all2_Cons1)
qed

text \<open>
  C32. The FETCH response for SIDs is the one for the instance identifiers without keys, on every data
  source and buffer; and given room the response for any identifiers is the sequence of one map per identifier, in the
  order of the request: its SID with the value that the identifier denotes (under the SID, the first list entry with the
  string key, or the list entry at the index), or null where it denotes none.
\<close>

theorem fetch_response_spec:
  "create_fetch_response old buffer n ds (Some sids)
     = create_fetch_response_iids old buffer n ds (Some (map IID_SIMPLE sids)) \<and>
   (\<exists>ws. list_all2 (\<lambda>iid w. \<forall>v. w = Some v \<longleftrightarrow> denotes ds iid v) iids ws \<and>
     (let bs = concat (map2 (\<lambda>iid w. cbor_item (iid_sid iid) w) iids ws) in
      iids \<noteq> [] \<longrightarrow> length bs \<le> n \<longrightarrow> n \<le> length buf \<longrightarrow>
        (\<exists>buf'. create_fetch_response_iids old (Some buf) n ds (Some iids) = (length bs, Some buf') \<and>
               length buf' = length buf \<and> take (length bs) buf' = bs)))"
proof (intro conjI, goal_cases)
  case 1
  have "(\<lambda>iid. put_item (iid_sid iid) (fetch_value_by_iid ds (Some iid))) \<circ> IID_SIMPLE
      = (\<lambda>sid. put_item sid (fetch_value ds sid))"
    by (auto simp: fetch_value_by_iid_def fetch_value_def split: option.splits CoreconfValue.splits)
  then show ?case
    by (cases buffer) (simp_all add: create_fetch_response_def create_fetch_response_iids_def encode_seq_map)
next
  case 2
  let ?ws = "map (\<lambda>iid. fetch_value_by_iid ds (Some iid)) iids"
  have "map2 (\<lambda>iid w. cbor_item (iid_sid iid) w) iids ?ws
      = map (\<lambda>iid. cbor_item (iid_sid iid) (fetch_value_by_iid ds (Some iid))) iids"
    by (simp add: zip_map2 zip_same_conv_map)
  then show ?case
    using encode_seq_writes[of iids "\<lambda>iid. put_item (iid_sid iid) (fetch_value_by_iid ds (Some iid))"
        "\<lambda>iid. cbor_item (iid_sid iid) (fetch_value_by_iid ds (Some iid))" 0 n buf 5 old] writes_item
    by (intro exI[of _ ?ws]) (auto simp: denoted_values create_fetch_response_iids_def Let_def)
qed

text \<open>A datastore with a list of two entries under SID 7, asked for the second, for the one named \<open>a\<close> and for a SID that is not there.\<close>

definition sample_list :: "CoreconfValue CoreconfHashMap" where
  "sample_list =
     (let entry = (\<lambda>b. CORECONF_HASHMAP (snd (insertCoreconfHashMap empty_hashmap 1 (CORECONF_STRING [b])))) in
      snd (insertCoreconfHashMap empty_hashmap 7 (CORECONF_ARRAY [entry 0x61, entry 0x62])))"

theorem fetch_response_spec_witness:
  "\<exists>buf'. create_fetch_response_iids any_state (Some (replicate 20 0)) 20 (Some (CORECONF_HASHMAP sample_list))
      (Some [IID_WITH_INT_KEY 7 1, IID_WITH_STR_KEY 7 [0x61], IID_SIMPLE 21]) = (20, Some buf') \<and>
    take 20 buf' = [0xBF, 7, 0xBF, 1, 0x61, 0x62, 0xFF, 0xFF, 0xBF, 7, 0xBF, 1, 0x61, 0x61, 0xFF, 0xFF, 0xBF, 0x15, 0xF6, 0xFF]"
proof -
  let ?ds = "Some (CORECONF_HASHMAP sample_list)" let ?iids = "[IID_WITH_INT_KEY 7 1, IID_WITH_STR_KEY 7 [0x61], IID_SIMPLE 21]"
  let ?ws = "map (\<lambda>iid. fetch_value_by_iid ?ds (Some iid)) ?iids"
  let ?bs = "[0xBF, 7, 0xBF, 1, 0x61, 0x62, 0xFF, 0xFF, 0xBF, 7, 0xBF, 1, 0x61, 0x61, 0xFF, 0xFF, 0xBF, 0x15, 0xF6, 0xFF] :: bytes"
  have b: "concat (map2 (\<lambda>iid w. cbor_item (iid_sid iid) w) ?iids ?ws) = ?bs" by code_simp
  obtain ws where ws: "list_all2 (\<lambda>iid w. \<forall>v. w = Some v \<longleftrightarrow> denotes ?ds iid v) ?iids ws"
      "let bs = concat (map2 (\<lambda>iid w. cbor_item (iid_sid iid) w) ?iids ws) in
        ?iids \<noteq> [] \<longrightarrow> length bs \<le> 20 \<longrightarrow> 20 \<le> length (replicate 20 0 :: bytes) \<longrightarrow>
        (\<exists>buf'. create_fetch_response_iids any_state (Some (replicate 20 0)) 20 ?ds (Some ?iids) = (length bs, Some buf') \<and>
               length buf' = length (replicate 20 0 :: bytes) \<and> take (length bs) buf' = bs)"
    using conjunct2[OF fetch_response_spec[of any_state None 20 ?ds "[]" ?iids "replicate 20 0"]] by blast
  have "ws = ?ws" using ws(1) by (simp only: denoted_values)
  note bytes = ws(2)[unfolded this Let_def b]
  have "length ?bs = 20" by simp
  with bytes show ?thesis by auto
qed

end
