(* ===== verification/Post.thy ===== *)
theory Post
  imports Fetch
begin

text \<open>
  \<open>src/src/post.c\<close>: the items of a POST request or response, a CBOR sequence of one-entry maps. The key of an
  entry is a SID or a list of a SID and a string. \<open>decode_post_key\<close> reads the first byte of the key
  without testing for the end of the payload, which is the fault \<open>OutOfBoundsRead\<close> behind the buffer. The
  parser loop is total: the code itself tests that the pointer moves on. What can fail to return is
  the decoder of a value; it takes fuel, and \<open>None\<close> is a call that has not returned.
\<close>

section \<open>Items\<close>

datatype PostIidType = POST_IID_SID | POST_IID_SID_STR_KEY

record PostItem =
  post_iid_type :: PostIidType
  post_sid :: u64
  post_str_key :: "bytes option"
  post_value :: "CoreconfValue option"

definition decode_post_key :: "zcbor \<Rightarrow> c_fault + (PostIidType \<times> u64 \<times> bytes option) option \<times> zcbor" where
  "decode_post_key s =
     (case read_header s of
        Inl f \<Rightarrow> Inl f
      | Inr b \<Rightarrow> Inr (
          if ZCBOR_MAJOR_TYPE b = ZCBOR_MAJOR_TYPE_PINT
          then apfst (map_option (\<lambda>sid. (POST_IID_SID, sid, None))) (zcbor_uint64_decode s)
          else if ZCBOR_MAJOR_TYPE b = ZCBOR_MAJOR_TYPE_LIST
          then (case zcbor_list_start_decode s of
                  (False, s) \<Rightarrow> (None, s)
                | (True, s) \<Rightarrow>
                (case zcbor_uint64_decode s of
                   (None, s) \<Rightarrow> (None, s)
                 | (Some sid, s) \<Rightarrow>
                (case zcbor_tstr_decode s of
                   (None, s) \<Rightarrow> (None, s)
                 | (Some key, s) \<Rightarrow>
                (case zcbor_list_end_decode s of
                   (False, s) \<Rightarrow> (None, s)
                 | (True, s) \<Rightarrow> (Some (POST_IID_SID_STR_KEY, sid, Some (c_string (zstr_bytes s key))), s)))))
          else (None, s)))"

definition encode_post_key :: "PostItem \<Rightarrow> zcbor \<Rightarrow> bool \<times> zcbor" where
  "encode_post_key item s =
     (case post_iid_type item of
        POST_IID_SID \<Rightarrow> zcbor_uint64_put s (post_sid item)
      | POST_IID_SID_STR_KEY \<Rightarrow>
          (case post_str_key item of
             None \<Rightarrow> (False, s)
           | Some skey \<Rightarrow>
               (case zcbor_list_start_encode s 2 of (False, s) \<Rightarrow> (False, s) | (True, s) \<Rightarrow>
               (case zcbor_uint64_put s (post_sid item) of (False, s) \<Rightarrow> (False, s) | (True, s) \<Rightarrow>
               (case zcbor_tstr_encode s (c_string skey) of (False, s) \<Rightarrow> (False, s) | (True, s) \<Rightarrow>
                zcbor_list_end_encode s 2)))))"

definition put_post_item :: "PostItem \<Rightarrow> zcbor \<Rightarrow> bool \<times> zcbor" where
  "put_post_item item s =
     (case zcbor_map_start_encode s 1 of (False, s) \<Rightarrow> (False, s) | (True, s) \<Rightarrow>
     (case encode_post_key item s of (False, s) \<Rightarrow> (False, s) | (True, s) \<Rightarrow>
     (case (case post_value item of Some v \<Rightarrow> coreconfToCBOR v s | None \<Rightarrow> zcbor_nil_put s) of
        (False, s) \<Rightarrow> (False, s)
      | (True, s) \<Rightarrow> zcbor_map_end_encode s 1)))"

definition create_post_items ::
  "zcbor_state \<Rightarrow> bytes option \<Rightarrow> nat \<Rightarrow> PostItem list option \<Rightarrow> nat \<times> bytes option" where
  "create_post_items old buffer buffer_size items =
     (case (buffer, items) of
        (Some buf, Some xs) \<Rightarrow>
          if xs = [] then (0, buffer) else apsnd Some (encode_seq 12 put_post_item old buf buffer_size xs 0)
      | _ \<Rightarrow> (0, buffer))"

definition create_post_request_rpc ::
  "zcbor_state \<Rightarrow> bytes option \<Rightarrow> nat \<Rightarrow> u64 \<Rightarrow> CoreconfValue option \<Rightarrow> nat \<times> bytes option" where
  "create_post_request_rpc old buffer buffer_size rpc_sid inp =
     create_post_items old buffer buffer_size
       (Some [\<lparr>post_iid_type = POST_IID_SID, post_sid = rpc_sid, post_str_key = None, post_value = inp\<rparr>])"

definition create_post_request_action_str ::
  "zcbor_state \<Rightarrow> bytes option \<Rightarrow> nat \<Rightarrow> u64 \<Rightarrow> bytes option \<Rightarrow> CoreconfValue option \<Rightarrow> nat \<times> bytes option" where
  "create_post_request_action_str old buffer buffer_size action_sid instance_key inp =
     (case instance_key of
        None \<Rightarrow> (0, buffer)
      | Some key \<Rightarrow>
          create_post_items old buffer buffer_size
            (Some [\<lparr>post_iid_type = POST_IID_SID_STR_KEY, post_sid = action_sid, post_str_key = Some key,
                    post_value = inp\<rparr>]))"

section \<open>The parser\<close>

text \<open>
  One round of the loop: \<open>Some (Inr None)\<close> is the return of \<open>false\<close>, otherwise the item and the state
  behind it.
\<close>

definition parse_post_item ::
  "nat \<Rightarrow> zcbor_state \<Rightarrow> bytes \<Rightarrow> nat \<Rightarrow> nat \<Rightarrow> (c_fault + (PostItem \<times> zcbor) option) option" where
  "parse_post_item fuel old cbor_data len ptr =
     (case zcbor_map_start_decode (item_state 12 old cbor_data len ptr) of
        (False, s) \<Rightarrow> Some (Inr None)
      | (True, s) \<Rightarrow>
          if zcbor_array_at_end s then Some (Inr None)
          else case decode_post_key s of
              Inl f \<Rightarrow> Some (Inl f)
            | Inr (None, s) \<Rightarrow> Some (Inr None)
            | Inr (Some (ty, sid, skey), s) \<Rightarrow>
                (case cborToCoreconfValue fuel s 0 of
                   None \<Rightarrow> None
                 | Some (None, s) \<Rightarrow> Some (Inr None)
                 | Some (Some v, s) \<Rightarrow>
                     if \<not> zcbor_array_at_end s then Some (Inr None)
                     else case zcbor_map_end_decode s of
                         (False, s) \<Rightarrow> Some (Inr None)
                       | (True, s) \<Rightarrow>
                           Some (Inr (Some (\<lparr>post_iid_type = ty, post_sid = sid, post_str_key = skey,
                                             post_value = Some v\<rparr>, s)))))"

function parse_post_loop ::
  "nat \<Rightarrow> zcbor_state \<Rightarrow> bytes \<Rightarrow> nat \<Rightarrow> nat \<Rightarrow> PostItem list \<Rightarrow> (c_fault + PostItem list option) option" where
  "parse_post_loop fuel old cbor_data len ptr items =
     (if ptr < len
      then case parse_post_item fuel old cbor_data len ptr of
          None \<Rightarrow> None
        | Some (Inl f) \<Rightarrow> Some (Inl f)
        | Some (Inr None) \<Rightarrow> Some (Inr None)
        | Some (Inr (Some (item, s))) \<Rightarrow>
            if payload s \<le> ptr then Some (Inr None)
            else parse_post_loop fuel (zcbor_state.truncate s) cbor_data len (payload s) (items @ [item])
      else Some (Inr (if items = [] then None else Some items)))"
  by pat_completeness auto
termination
  by (relation "measure (\<lambda>(fuel, old, cbor_data, len, ptr, items). len - ptr)") auto

declare parse_post_loop.simps [simp del]

definition parse_post_items ::
  "nat \<Rightarrow> zcbor_state \<Rightarrow> bytes option \<Rightarrow> nat \<Rightarrow> (c_fault + PostItem list option) option" where
  "parse_post_items fuel old cbor_data len =
     (case cbor_data of
        None \<Rightarrow> Some (Inr None)
      | Some cd \<Rightarrow> if len = 0 then Some (Inr None) else parse_post_loop fuel old cd len 0 [])"

section \<open>What is written\<close>

definition cbor_post_key :: "PostItem \<Rightarrow> bytes" where
  "cbor_post_key item =
     (case post_iid_type item of
        POST_IID_SID \<Rightarrow> cbor_head ZCBOR_MAJOR_TYPE_PINT (post_sid item)
      | POST_IID_SID_STR_KEY \<Rightarrow>
          [0x9F] @ cbor_head ZCBOR_MAJOR_TYPE_PINT (post_sid item) @
          cbor_str ZCBOR_MAJOR_TYPE_TSTR (c_string (the (post_str_key item))) @ [0xFF])"

definition post_val :: "PostItem \<Rightarrow> CoreconfValue" where
  "post_val item = (case post_value item of Some v \<Rightarrow> v | None \<Rightarrow> CORECONF_NULL)"

definition cbor_post_item :: "PostItem \<Rightarrow> bytes" where
  "cbor_post_item item = [0xBF] @ cbor_post_key item @ cbor_of (post_val item) @ [0xFF]"

definition post_item_ok :: "PostItem \<Rightarrow> bool" where
  "post_item_ok item \<longleftrightarrow>
     (post_iid_type item = POST_IID_SID_STR_KEY \<longrightarrow>
        (\<exists>key. post_str_key item = Some key \<and> length key < 2 ^ 64)) \<and>
     wire_ok (post_val item) \<and> nest (post_val item) \<le> 9"

text \<open>What the parser makes of an item: the value as decoded, the key as a C string, none with a plain SID.\<close>

definition post_norm :: "PostItem \<Rightarrow> PostItem" where
  "post_norm item =
     \<lparr>post_iid_type = post_iid_type item, post_sid = post_sid item,
      post_str_key = (case post_iid_type item of POST_IID_SID \<Rightarrow> None
                      | POST_IID_SID_STR_KEY \<Rightarrow> map_option c_string (post_str_key item)),
      post_value = Some (norm (post_val item))\<rparr>"

definition has_key :: "PostItem \<Rightarrow> bool" where
  "has_key item \<longleftrightarrow> (post_iid_type item = POST_IID_SID_STR_KEY \<longrightarrow> post_str_key item \<noteq> None)"

lemma post_item_ok_key: "post_item_ok item \<Longrightarrow> has_key item"
  by (auto simp: post_item_ok_def has_key_def)

lemma writes_post_key:
  assumes "has_key item"
  shows "writes (encode_post_key item) (cbor_post_key item)"
proof (cases "post_iid_type item")
  case POST_IID_SID
  then show ?thesis
    by (intro writes_cong[OF writes_primitive(1)[of "post_sid item"]]) (simp_all add: encode_post_key_def cbor_post_key_def)
next
  case POST_IID_SID_STR_KEY
  then obtain key where k: "post_str_key item = Some key" using assms by (auto simp: has_key_def)
  have "writes (\<lambda>s. case zcbor_list_start_encode s 2 of (False, s) \<Rightarrow> (False, s) | (True, s) \<Rightarrow>
      (case zcbor_uint64_put s (post_sid item) of (False, s) \<Rightarrow> (False, s) | (True, s) \<Rightarrow>
      (case zcbor_tstr_encode s (c_string key) of (False, s) \<Rightarrow> (False, s) | (True, s) \<Rightarrow>
       zcbor_list_end_encode s 2)))
    ([0x9F] @ cbor_head ZCBOR_MAJOR_TYPE_PINT (post_sid item) @ cbor_str ZCBOR_MAJOR_TYPE_TSTR (c_string key) @ [0xFF])"
    by (intro writes_seq writes_intros)
  then show ?thesis
    by (rule writes_cong) (simp_all add: POST_IID_SID_STR_KEY encode_post_key_def cbor_post_key_def k)
qed

lemma writes_post_item:
  assumes "has_key item"
  shows "writes (put_post_item item) (cbor_post_item item)"
proof -
  have v: "writes (\<lambda>s. case post_value item of Some v \<Rightarrow> coreconfToCBOR v s | None \<Rightarrow> zcbor_nil_put s)
      (cbor_of (post_val item))"
    by (cases "post_value item") (simp_all add: encodes_all writes_intros post_val_def)
  have "writes (\<lambda>s. case zcbor_map_start_encode s 1 of (False, s) \<Rightarrow> (False, s) | (True, s) \<Rightarrow>
     (case encode_post_key item s of (False, s) \<Rightarrow> (False, s) | (True, s) \<Rightarrow>
     (case (case post_value item of Some v \<Rightarrow> coreconfToCBOR v s | None \<Rightarrow> zcbor_nil_put s) of
        (False, s) \<Rightarrow> (False, s)
      | (True, s) \<Rightarrow> zcbor_map_end_encode s 1)))
    ([0xBF] @ cbor_post_key item @ cbor_of (post_val item) @ [0xFF])"
    by (intro writes_seq writes_intros v writes_post_key assms)
  then show ?thesis by (rule writes_cong) (simp_all add: put_post_item_def cbor_post_item_def)
qed

section \<open>Reading back\<close>

lemma decode_post_key_coming:
  assumes com: "coming s (cbor_post_key item @ bs)" and ok: "post_item_ok item"
    and s: "elem_count s = ZCBOR_LARGE_ELEM_COUNT" "\<not> enforce_canonical s"
      "length (backup_list s) < num_backups s" "indefinite_length_array s"
  obtains s' where "decode_post_key s = Inr (Some (post_iid_type item, post_sid item, post_str_key (post_norm item)), s')"
    "consumed (length (cbor_post_key item)) 1 s s'" "\<not> zcbor_array_at_end s"
proof (cases "post_iid_type item")
  case POST_IID_SID
  let ?h = "cbor_head ZCBOR_MAJOR_TYPE_PINT (post_sid item)"
  have com': "coming s (?h @ bs)" using com POST_IID_SID by (simp add: cbor_post_key_def)
  obtain b where b: "read_header s = Inr b" "ZCBOR_MAJOR_TYPE b = ZCBOR_MAJOR_TYPE_PINT" "b \<noteq> 0xFF" "header_at s = b"
    using com' by (rule head_pint_major)
  have "zcbor_uint64_decode s = (Some (post_sid item), advance s (length ?h))"
    by (rule uint64_decode_head[OF coming_appendD[OF com']]) (use s in simp_all)
  then show ?thesis
    using that b POST_IID_SID s(4) by (simp add: decode_post_key_def post_norm_def cbor_post_key_def zcbor_array_at_end_def)
next
  case POST_IID_SID_STR_KEY
  let ?h = "cbor_head ZCBOR_MAJOR_TYPE_PINT (post_sid item)"
  obtain key where key: "post_str_key item = Some key" "length key < 2 ^ 64"
    using ok POST_IID_SID_STR_KEY by (auto simp: post_item_ok_def)
  let ?k = "c_string key" let ?ks = "cbor_str ZCBOR_MAJOR_TYPE_TSTR ?k"
  have bs: "cbor_post_key item = 0x9F # ?h @ ?ks @ [0xFF]" using POST_IID_SID_STR_KEY key by (simp add: cbor_post_key_def)
  have com0: "coming s (cbor_keyed (post_sid item) ?k @ bs)" using com bs by simp
  have hd: "read_header s = Inr 0x9F" "ZCBOR_MAJOR_TYPE 0x9F = ZCBOR_MAJOR_TYPE_LIST" "header_at s = 0x9F"
    using read_header_coming[of s] coming_hd(1)[of s] com0 simple_major by simp_all
  have len: "length ?k < 2 ^ 64"
    using key(2) length_takeWhile_le[of "\<lambda>b. b \<noteq> 0" key] by (simp add: c_string_def)
  have ne: "elem_count s \<noteq> 0" using s(1) by simp
  have idem: "c_string ?k = ?k" by (simp add: c_string_def)
  obtain s1 s2 zs s3 s4 where d: "zcbor_list_start_decode s = (True, s1)" "zcbor_uint64_decode s1 = (Some (post_sid item), s2)"
      "zcbor_tstr_decode s2 = (Some zs, s3)" "zcbor_list_end_decode s3 = (True, s4)"
      "coming s2 ?ks" "mem s3 = mem s" "mem s4 = mem s" "unat (snd zs) = length ?k"
      "take (length ?k) (drop (fst zs) (mem s)) = ?k" "consumed (length (cbor_keyed (post_sid item) ?k)) 1 s s4"
    by (rule keyed_list_coming[OF com0 ne s(2,3) len])
  have "decode_post_key s = Inr (Some (post_iid_type item, post_sid item, post_str_key (post_norm item)), s4)"
    using d(1-4,7-9) hd key POST_IID_SID_STR_KEY idem by (simp add: decode_post_key_def post_norm_def zstr_bytes_def)
  then show ?thesis
    using that d(10) bs hd s(4) by (simp add: zcbor_array_at_end_def)
qed

lemma parse_post_item_coming:
  assumes "n \<le> length cbor_data" and "ptr \<le> n"
    and "take (n - ptr) (drop ptr cbor_data) = cbor_post_item item @ cs"
    and ok: "post_item_ok item" and fuel: "n \<le> fuel"
  obtains s' where "parse_post_item fuel old cbor_data n ptr = Some (Inr (Some (post_norm item, s')))"
    "payload s' = ptr + length (cbor_post_item item)"
proof -
  let ?s = "item_state 12 old cbor_data n ptr" let ?k = "cbor_post_key item" let ?v = "post_val item"
  have com: "coming ?s (0xBF # ?k @ cbor_of ?v @ [0xFF] @ cs)"
    using item_state_coming[OF assms(1,3,2)] by (simp add: cbor_post_item_def)
  have room: "length (backup_list ?s) < num_backups ?s" by simp
  obtain s1 where s1: "zcbor_map_start_decode ?s = (True, s1)" "opened ?s s1"
  proof (rule map_start_coming[of ?s])
    show "coming ?s [0xBF]" by (rule coming_appendD[of ?s "[0xBF]"]) (use com in simp)
  qed (use that in simp_all)
  have com1: "coming s1 (?k @ cbor_of ?v @ [0xFF] @ cs)" by (rule coming_opened[OF com s1(2)])
  have st: "elem_count s1 = ZCBOR_LARGE_ELEM_COUNT" "\<not> enforce_canonical s1" "length (backup_list s1) < num_backups s1"
      "indefinite_length_array s1" "length (backup_list s1) = 1" "num_backups s1 = 10"
    using s1(2) by (auto simp: opened_def)
  obtain s2 where s2: "decode_post_key s1 = Inr (Some (post_iid_type item, post_sid item, post_str_key (post_norm item)), s2)"
      "consumed (length ?k) 1 s1 s2" "\<not> zcbor_array_at_end s1"
    by (rule decode_post_key_coming[OF com1 ok st(1-4)])
  note f2 = consumedD[OF s2(2)]
  have com2: "coming s2 (cbor_of ?v @ [0xFF] @ cs)" by (rule coming_consumed[OF com1 s2(2)])
  have wf: "wire_ok ?v" "nest ?v \<le> 9" using ok by (simp_all add: post_item_ok_def)
  have "length (cbor_of ?v) \<le> n"
    using com2 f2(2) s1(2) assms(2) by (simp add: coming_def opened_def)
  then have d: "elem_count s2 \<noteq> 0" "\<not> enforce_canonical s2" "length (backup_list s2) + nest ?v \<le> num_backups s2"
      "0 + nest ?v \<le> CORECONF_MAX_DEPTH" "length (cbor_of ?v) \<le> fuel"
    using f2 st wf(2) fuel by (simp_all add: CORECONF_MAX_DEPTH_def)
  obtain s3 where s3: "cborToCoreconfValue fuel s2 0 = Some (Some (norm ?v), s3)" "consumed (length (cbor_of ?v)) 1 s2 s3"
    by (rule decodesE[OF decodes_all wf(1) coming_appendD[OF com2] d])
  have c: "consumed (length ?k + length (cbor_of ?v)) (1 + 1) s1 s3" by (rule consumed_trans[OF s2(2) s3(2)])
  have com3: "coming s3 [0xFF]" by (rule coming_appendD[OF coming_consumed[OF com2 s3(2)]])
  have at_end: "zcbor_array_at_end s3" using consumedD(7)[OF c] st(4) by (intro array_at_end_break com3) simp
  obtain s4 where s4: "list_map_end_decode s3 = (True, s4)" "consumed (length ?k + length (cbor_of ?v) + 2) 1 ?s s4"
    by (rule list_map_end_coming[OF s1(2) c com3 room])
  have "parse_post_item fuel old cbor_data n ptr = Some (Inr (Some (post_norm item, s4)))"
    using s1(1) s2(1,3) s3(1) at_end s4(1) by (simp add: parse_post_item_def zcbor_map_end_decode_def post_norm_def)
  then show ?thesis using that consumedD(1)[OF s4(2)] by (simp add: cbor_post_item_def)
qed

lemma parse_post_loop_coming:
  assumes "n \<le> length cbor_data" and "ptr \<le> n"
    and "take (n - ptr) (drop ptr cbor_data) = concat (map cbor_post_item items)"
    and "\<And>item. item \<in> set items \<Longrightarrow> post_item_ok item" and fuel: "n \<le> fuel"
  shows "parse_post_loop fuel old cbor_data n ptr done =
    Some (Inr (if done @ items = [] then None else Some (done @ map post_norm items)))"
  using assms(2-4)
proof (induction items arbitrary: ptr old "done")
  case Nil
  then have "n = ptr" using assms(1) by auto
  then show ?case by (subst parse_post_loop.simps) simp
next
  case (Cons item items)
  let ?cs = "concat (map cbor_post_item items)"
  have t: "take (n - ptr) (drop ptr cbor_data) = cbor_post_item item @ ?cs" using Cons.prems by simp
  have ok: "post_item_ok item" using Cons.prems(3) by simp
  have "length (cbor_post_item item) + length ?cs = n - ptr" using arg_cong[OF t, of length] assms(1) by simp
  then have le: "ptr + length (cbor_post_item item) \<le> n" "ptr < n" "cbor_post_item item \<noteq> []"
    using Cons.prems(1) by (simp_all add: cbor_post_item_def)
  obtain s' where s': "parse_post_item fuel old cbor_data n ptr = Some (Inr (Some (post_norm item, s')))"
      "payload s' = ptr + length (cbor_post_item item)"
    by (rule parse_post_item_coming[OF assms(1) Cons.prems(1) t ok fuel])
  show ?case
    using Cons.IH[OF le(1) item_rest[OF t], of "zcbor_state.truncate s'" "done @ [post_norm item]"] Cons.prems(3) s'
    by (subst parse_post_loop.simps) (simp add: le(2,3))
qed

text \<open>
  C19. POST: given room, a list of items is written as a CBOR sequence of one-entry maps and the parser
  reads the same items back, keys as C strings and values as the decoder gives them (null for an
  item without a value), for values of at most nine nested containers.
\<close>

theorem post_items_roundtrip:
  assumes "items \<noteq> []" and "\<And>item. item \<in> set items \<Longrightarrow> post_item_ok item"
    and "length (concat (map cbor_post_item items)) \<le> buffer_size" and "buffer_size \<le> length buf"
    and "create_post_items old (Some buf) buffer_size (Some items) = (n, Some buf')" and "n \<le> fuel"
  shows "take n buf' = concat (map cbor_post_item items) \<and>
    parse_post_items fuel old' (Some buf') n = Some (Inr (Some (map post_norm items)))"
proof -
  let ?bs = "concat (map cbor_post_item items)"
  obtain b where "encode_seq 12 put_post_item old buf buffer_size items 0 = (length ?bs, b)"
      "length b = length buf" "take (length ?bs) b = ?bs"
    using encode_seq_writes[of items put_post_item cbor_post_item 0 buffer_size buf 12 old] assms(2,3,4) writes_post_item
      post_item_ok_key
    by auto
  then have n: "n = length ?bs" "take n buf' = ?bs" "length buf' = length buf"
    using assms(1,5) by (auto simp: create_post_items_def)
  have "parse_post_loop fuel old' buf' n 0 [] = Some (Inr (Some (map post_norm items)))"
    using parse_post_loop_coming[of n buf' 0 items fuel old' "[]"] n assms(1,2,3,4,6) by simp
  moreover have "n \<noteq> 0" using n assms(1) by (cases items) (simp_all add: cbor_post_item_def)
  ultimately show ?thesis using n by (simp add: parse_post_items_def)
qed

theorem post_items_roundtrip_witness:
  "\<exists>n buf'. create_post_request_action_str any_state (Some (replicate 8 0)) 8 5 (Some [0x61]) None = (n, Some buf') \<and>
     take n buf' = [0xBF, 0x9F, 5, 0x61, 0x61, 0xFF, 0xF6, 0xFF] \<and>
     parse_post_items n any_state (Some buf') n = Some (Inr (Some
       [\<lparr>post_iid_type = POST_IID_SID_STR_KEY, post_sid = 5, post_str_key = Some [0x61],
         post_value = Some CORECONF_NULL\<rparr>]))"
proof -
  let ?item = "\<lparr>post_iid_type = POST_IID_SID_STR_KEY, post_sid = 5, post_str_key = Some [0x61], post_value = None\<rparr>"
  have r: "create_post_items any_state (Some (replicate 8 0)) 8 (Some [?item])
      = (8, Some [0xBF, 0x9F, 5, 0x61, 0x61, 0xFF, 0xF6, 0xFF])" by code_simp
  have b: "concat (map cbor_post_item [?item]) = [0xBF, 0x9F, 5, 0x61, 0x61, 0xFF, 0xF6, 0xFF]" by code_simp
  have ok: "post_item_ok item" if "item \<in> set [?item]" for item
    using that by (simp add: post_item_ok_def post_val_def)
  have n: "map post_norm [?item] = [?item\<lparr>post_value := Some CORECONF_NULL\<rparr>]"
    by (simp add: post_norm_def post_val_def c_string_def)
  have "parse_post_items 8 any_state (Some [0xBF, 0x9F, 5, 0x61, 0x61, 0xFF, 0xF6, 0xFF]) 8
      = Some (Inr (Some (map post_norm [?item])))"
    by (rule conjunct2[OF post_items_roundtrip[OF _ ok _ _ r]]) (simp_all only: b, simp_all)
  then show ?thesis
    using r unfolding n by (simp add: create_post_request_action_str_def)
qed

text \<open>
  Like the raw iPATCH, the POST parser looks at the first byte of a key before it knows that there is one:
  a payload that ends behind the header of an indefinite-length map makes it read behind the buffer.
\<close>

lemma parse_post_items_overread:
  "parse_post_items fuel any_state (Some [0xBF]) 1 = Some (Inl OutOfBoundsRead)"
  by code_simp

end
