(* ===== verification/Event_Stream.thy ===== *)
theory Event_Stream
  imports Post
begin

text \<open>
  The event stream of \<open>src/iot_containers/iot_apps/coreconf_server.c\<close> (resource \<open>/s\<close>): a queue of at most
  16 notifications, newest first, the wrapping of a change into a notification, and the encoding
  of the queue, filtered by SIDs or not. The queue is the list of the events' bytes. A function that fills a
  buffer returns the bytes it writes, the empty list where the code returns 0. Reads of \<open>*st[0].payload\<close> and
  copies behind the end of the received data are \<open>OutOfBoundsRead\<close>. All loops are total.
\<close>

section \<open>Skipping, without fuel\<close>

text \<open>\<open>zcbor_any_skip\<close> with the fuel that suffices for the bytes left.\<close>

definition any_skip :: "zcbor \<Rightarrow> bool \<times> zcbor" where
  "any_skip s = (case zcbor_any_skip (2 * (payload_end s - payload s) + 1) s of Some r \<Rightarrow> r | None \<Rightarrow> (False, s))"

lemma any_skip_fuel: "2 * (payload_end s - payload s) < fuel \<Longrightarrow> zcbor_any_skip fuel s = Some (any_skip s)"
proof -
  assume fuel: "2 * (payload_end s - payload s) < fuel"
  obtain r where r: "zcbor_any_skip (2 * (payload_end s - payload s) + 1) s = Some r"
    using any_skip_returns[of "2 * (payload_end s - payload s) + 1"] by fastforce
  then have "zcbor_any_skip fuel s = Some r" by (rule any_skip_mono) (use fuel in simp)
  then show ?thesis using r by (simp add: any_skip_def)
qed

lemma any_skip_progress:
  assumes "any_skip s = (True, s')"
  shows "payload s < payload s'" "payload_end s' = payload_end s" "payload s < payload_end s"
proof -
  let ?f = "2 * (payload_end s - payload s) + 1"
  have r: "zcbor_any_skip ?f s = Some (True, s')" using any_skip_fuel[of s ?f] assms by simp
  show "payload s < payload s'" "payload_end s' = payload_end s"
    using skip_forward[of ?f] r unfolding skip_forward_def by blast+
  show "payload s < payload_end s"
    using r any_skip_start[of "2 * (payload_end s - payload s)" s True s'] by simp
qed

section \<open>Notifications\<close>

definition STREAM_MAX_EVENTS :: nat where
  "STREAM_MAX_EVENTS = 16"

definition BUFFER_SIZE :: nat where
  "BUFFER_SIZE = 4096"

definition cbor_encode_uint :: "nat \<Rightarrow> u64 \<Rightarrow> bytes" where
  "cbor_encode_uint out_sz val =
     (if out_sz = 0 then []
      else if val < 24 then (if out_sz < 1 then [] else [ucast val])
      else if val \<le> 0xFF then (if out_sz < 2 then [] else [0x18, ucast val])
      else if val \<le> 0xFFFF then (if out_sz < 3 then [] else [0x19, ucast (drop_bit 8 val), ucast val])
      else if val \<le> 0xFFFFFFFF
      then (if out_sz < 5 then []
            else [0x1A, ucast (drop_bit 24 val), ucast (drop_bit 16 val), ucast (drop_bit 8 val), ucast val])
      else if out_sz < 9 then []
      else [0x1B, ucast (drop_bit 56 val), ucast (drop_bit 48 val), ucast (drop_bit 40 val), ucast (drop_bit 32 val),
            ucast (drop_bit 24 val), ucast (drop_bit 16 val), ucast (drop_bit 8 val), ucast val])"

text \<open>
  A map inside the received data is given as the data with an offset and a length, like the pointer
  and length the code passes.
\<close>

definition stream_wrap_notification_instance :: "nat \<Rightarrow> u64 \<Rightarrow> bytes \<Rightarrow> nat \<Rightarrow> nat \<Rightarrow> c_fault + bytes" where
  "stream_wrap_notification_instance out_sz notif_sid cbor_data start payload_map_len =
     (if out_sz < 2 \<or> payload_map_len = 0 then Inr []
      else let key = cbor_encode_uint (out_sz - 1) notif_sid in
        if length key = 0 then Inr []
        else if 1 + length key + payload_map_len > out_sz then Inr []
        else if start + payload_map_len > length cbor_data then Inl OutOfBoundsRead
        else Inr (0xA1 # key @ take payload_map_len (drop start cbor_data)))"

definition stream_extract_first_sid_from_map ::
  "zcbor_state \<Rightarrow> bytes \<Rightarrow> nat \<Rightarrow> nat \<Rightarrow> u64 \<Rightarrow> c_fault + u64" where
  "stream_extract_first_sid_from_map old cbor_data start map_len fallback_sid =
     (if map_len = 0 then Inr fallback_sid
      else case zcbor_map_start_decode (zcbor_new_decode_state old 8 cbor_data start map_len 1) of
          (False, st) \<Rightarrow> Inr fallback_sid
        | (True, st) \<Rightarrow>
            if zcbor_array_at_end st then Inr fallback_sid
            else case read_header st of
                Inl f \<Rightarrow> Inl f
              | Inr b \<Rightarrow> Inr (
                  if ZCBOR_MAJOR_TYPE b = ZCBOR_MAJOR_TYPE_PINT
                  then (case zcbor_uint64_decode st of (Some sid, st) \<Rightarrow> sid | (None, st) \<Rightarrow> fallback_sid)
                  else if ZCBOR_MAJOR_TYPE b = ZCBOR_MAJOR_TYPE_LIST
                  then (case zcbor_list_start_decode st of
                          (False, st) \<Rightarrow> fallback_sid
                        | (True, st) \<Rightarrow>
                            (case zcbor_uint64_decode st of
                               (None, st) \<Rightarrow> fallback_sid
                             | (Some sid, st) \<Rightarrow>
                                 (let (skipped, st) = any_skip st; (ended, st) = zcbor_list_end_decode st
                                  in if skipped \<and> ended then sid else fallback_sid)))
                  else fallback_sid))"

definition stream_push_event :: "bytes list \<Rightarrow> bytes \<Rightarrow> bytes list" where
  "stream_push_event events ev =
     (if length ev = 0 then events
      else let events = (if length events = STREAM_MAX_EVENTS then butlast events else events) in ev # events)"

definition stream_push_notification_map ::
  "zcbor_state \<Rightarrow> u64 \<Rightarrow> bytes list \<Rightarrow> bytes \<Rightarrow> nat \<Rightarrow> nat \<Rightarrow> c_fault + bytes list" where
  "stream_push_notification_map old module_sid events cbor_data start map_len =
     (if map_len = 0 then Inr events
      else case stream_extract_first_sid_from_map old cbor_data start map_len module_sid of
          Inl f \<Rightarrow> Inl f
        | Inr notif_sid \<Rightarrow>
            (case stream_wrap_notification_instance BUFFER_SIZE notif_sid cbor_data start map_len of
               Inl f \<Rightarrow> Inl f
             | Inr wrapped \<Rightarrow> Inr (if length wrapped > 0 then stream_push_event events wrapped else events)))"

function skip_pairs :: "zcbor \<Rightarrow> zcbor" where
  "skip_pairs st =
     (if zcbor_array_at_end st then st
      else case any_skip st of
          (False, st) \<Rightarrow> st
        | (True, st) \<Rightarrow> (case any_skip st of (False, st) \<Rightarrow> st | (True, st) \<Rightarrow> skip_pairs st))"
  by pat_completeness auto
termination
proof (relation "measure (\<lambda>st. payload_end st - payload st)", simp, goal_cases)
  case (1 st r st1 r' st2)
  then show ?case
    using any_skip_progress[of st st1] any_skip_progress[of st1 st2] by simp
qed

declare skip_pairs.simps [simp del]

function push_sequence_loop ::
  "zcbor_state \<Rightarrow> u64 \<Rightarrow> bytes \<Rightarrow> nat \<Rightarrow> nat \<Rightarrow> bytes list \<Rightarrow> c_fault + bytes list" where
  "push_sequence_loop old module_sid cbor_data len ptr events =
     (if ptr < len
      then case zcbor_map_start_decode (zcbor_new_decode_state old 8 cbor_data ptr (len - ptr) 1) of
          (False, st) \<Rightarrow> Inr events
        | (True, st) \<Rightarrow>
            (case zcbor_map_end_decode (skip_pairs st) of
               (False, st) \<Rightarrow> Inr events
             | (True, st) \<Rightarrow>
                 let map_len = payload st - ptr in
                 if map_len = 0 then Inr events
                 else case stream_push_notification_map (zcbor_state.truncate st) module_sid events cbor_data ptr map_len of
                     Inl f \<Rightarrow> Inl f
                   | Inr events \<Rightarrow>
                       push_sequence_loop (zcbor_state.truncate st) module_sid cbor_data len (payload st) events)
      else Inr events)"
  by pat_completeness auto
termination
  by (relation "measure (\<lambda>(old, module_sid, cbor_data, len, ptr, events). len - ptr)") auto

declare push_sequence_loop.simps [simp del]

definition stream_push_notification_sequence ::
  "zcbor_state \<Rightarrow> u64 \<Rightarrow> bytes list \<Rightarrow> bytes \<Rightarrow> nat \<Rightarrow> c_fault + bytes list" where
  "stream_push_notification_sequence old module_sid events seq_data seq_len =
     (if seq_len = 0 then Inr events else push_sequence_loop old module_sid seq_data seq_len 0 events)"

section \<open>Filters\<close>

function collect_loop :: "zcbor_state \<Rightarrow> bytes \<Rightarrow> nat \<Rightarrow> nat \<Rightarrow> nat \<Rightarrow> u64 list \<Rightarrow> u64 list" where
  "collect_loop old cbor_data len out_cap ptr sids =
     (if ptr < len \<and> length sids < out_cap
      then let st = zcbor_new_decode_state old 8 cbor_data ptr (len - ptr) 1;
               mt = ZCBOR_MAJOR_TYPE (cbor_data ! ptr) in
        if mt = ZCBOR_MAJOR_TYPE_PINT
        then (case zcbor_uint64_decode st of
                (None, st) \<Rightarrow> sids
              | (Some sid, st) \<Rightarrow>
                  collect_loop (zcbor_state.truncate st) cbor_data len out_cap (payload st) (sids @ [sid]))
        else if mt = ZCBOR_MAJOR_TYPE_LIST
        then (case zcbor_list_start_decode st of
                (False, st) \<Rightarrow> sids
              | (True, st) \<Rightarrow>
              (case zcbor_uint64_decode st of
                 (None, st) \<Rightarrow> sids
               | (Some sid, st) \<Rightarrow>
              (case any_skip st of
                 (False, st) \<Rightarrow> sids
               | (True, st) \<Rightarrow>
              (case zcbor_list_end_decode st of
                 (False, st) \<Rightarrow> sids
               | (True, st) \<Rightarrow>
                   collect_loop (zcbor_state.truncate st) cbor_data len out_cap (payload st) (sids @ [sid])))))
        else sids
      else sids)"
  by pat_completeness auto
termination
  by (relation "measure (\<lambda>(old, cbor_data, len, out_cap, ptr, sids). out_cap - length sids)") auto

declare collect_loop.simps [simp del]

definition stream_collect_filter_sids :: "zcbor_state \<Rightarrow> bytes \<Rightarrow> nat \<Rightarrow> nat \<Rightarrow> u64 list option" where
  "stream_collect_filter_sids old cbor_data len out_cap =
     (if len = 0 \<or> out_cap = 0 then None
      else let sids = collect_loop old cbor_data len out_cap 0 [] in
        if length sids > 0 then Some sids else None)"

definition stream_sid_in_filter :: "u64 \<Rightarrow> u64 list \<Rightarrow> bool" where
  "stream_sid_in_filter sid filter_sids = list_ex (\<lambda>f. f = sid) filter_sids"

text \<open>
  The key at the front of the entries loop: the state behind it and its SID, or \<open>Inl\<close> the state with
  which the code leaves the loop.
\<close>

definition match_key :: "u8 \<Rightarrow> zcbor \<Rightarrow> zcbor + u64 \<times> zcbor" where
  "match_key b st =
     (if ZCBOR_MAJOR_TYPE b = ZCBOR_MAJOR_TYPE_PINT
      then (case zcbor_uint64_decode st of (None, st) \<Rightarrow> Inl st | (Some sid, st) \<Rightarrow> Inr (sid, st))
      else if ZCBOR_MAJOR_TYPE b = ZCBOR_MAJOR_TYPE_LIST
      then (case zcbor_list_start_decode st of
              (False, st) \<Rightarrow> Inl st
            | (True, st) \<Rightarrow>
            (case zcbor_uint64_decode st of
               (None, st) \<Rightarrow> Inl (snd (zcbor_list_end_decode st))
             | (Some sid, st) \<Rightarrow>
            (case any_skip st of
               (False, st) \<Rightarrow> Inl (snd (zcbor_list_end_decode st))
             | (True, st) \<Rightarrow>
            (case zcbor_list_end_decode st of
               (False, st) \<Rightarrow> Inl st
             | (True, st) \<Rightarrow> Inr (sid, st)))))
      else Inl st)"

text \<open>
  What a skip leaves alone. A failing overflow check restores the payload pointer of the state as it was before the
  previous item, not before the skipped one.
\<close>

lemma any_skip_frame:
  "mem (snd (any_skip s)) = mem s" "backup_list (snd (any_skip s)) = backup_list s"
  "num_backups (snd (any_skip s)) = num_backups s"
  "\<not> fst (any_skip s) \<Longrightarrow> payload (snd (any_skip s)) = payload s \<or> payload (snd (any_skip s)) = payload_bak s"
proof -
  have "mem s' = mem s \<and> backup_list s' = backup_list s \<and> num_backups s' = num_backups s \<and>
      (\<not> b \<longrightarrow> payload s' = payload s \<or> payload s' = payload_bak s)"
    if "zcbor_any_skip (Suc fuel) s = Some (b, s')" for fuel b s'
    using that
    by (auto simp: initial_checks_def share_error_def skip_commit_def str_overflow_check_def err_restore_def
        Let_def zcbor_error_def split: if_splits prod.splits bool.splits option.splits)
  then have "mem (snd (any_skip s)) = mem s \<and> backup_list (snd (any_skip s)) = backup_list s \<and>
      num_backups (snd (any_skip s)) = num_backups s \<and>
      (\<not> fst (any_skip s) \<longrightarrow> payload (snd (any_skip s)) = payload s \<or> payload (snd (any_skip s)) = payload_bak s)"
    using any_skip_fuel[of s "Suc (2 * (payload_end s - payload s))"] by (cases "any_skip s") simp
  then show "mem (snd (any_skip s)) = mem s" "backup_list (snd (any_skip s)) = backup_list s"
    "num_backups (snd (any_skip s)) = num_backups s"
    "\<not> fst (any_skip s) \<Longrightarrow> payload (snd (any_skip s)) = payload s \<or> payload (snd (any_skip s)) = payload_bak s"
    by blast+
qed

lemma list_start_frame:
  assumes "zcbor_list_start_decode s = (True, s')"
  shows "\<exists>b. backup_list s' = backup_list s @ [b] \<and> payload_bak b = payload s"
proof (cases rule: type_check_cases[of s ZCBOR_MAJOR_TYPE_LIST])
  case (fail err)
  then show ?thesis using assms by (simp add: zcbor_list_start_decode_def list_map_start_decode_def)
next
  case tc: ok
  show ?thesis
  proof (cases rule: value_extract_cases[of s 8 True])
    case (fail err)
    then show ?thesis using assms tc by (simp add: zcbor_list_start_decode_def list_map_start_decode_def)
  next
    case (ok v i k)
    then show ?thesis
      using assms tc
      by (auto simp: zcbor_list_start_decode_def list_map_start_decode_def zcbor_new_backup_def exit_map_def
          zcbor_state.defs Let_def split: if_splits)
  qed
qed

lemma list_start_fail: "zcbor_list_start_decode s = (False, s') \<Longrightarrow> payload s' = payload s"
  by (cases rule: type_check_cases[of s ZCBOR_MAJOR_TYPE_LIST]; cases rule: value_extract_cases[of s 8 True])
    (auto simp: zcbor_list_start_decode_def list_map_start_decode_def zcbor_new_backup_def fail_restore_def
      exit_map_def zcbor_error_def Let_def split: if_splits)

lemma list_end_mem: "mem (snd (zcbor_list_end_decode s)) = mem s"
  by (auto simp: zcbor_list_end_decode_def list_map_end_decode_def zcbor_process_backup_def
      zcbor_process_backup_num_def array_end_expect_def initial_checks_def Let_def
      split: prod.splits bool.splits if_splits)

lemma list_end_bak:
  "zcbor_list_end_decode s = (True, s') \<Longrightarrow> backup_list s = bs @ [b] \<Longrightarrow> payload_bak s' = payload_bak b"
  by (auto simp: zcbor_list_end_decode_def list_map_end_decode_def zcbor_process_backup_def
      zcbor_process_backup_num_def array_end_expect_def initial_checks_def Let_def nth_append
      split: prod.splits bool.splits if_splits)

lemma uint64_decode_frame:
  assumes "zcbor_uint64_decode s = (r, s')"
  shows "mem s' = mem s" "backup_list s' = backup_list s" "payload s \<le> payload s'"
    "r \<noteq> None \<Longrightarrow> payload s < payload s' \<and> payload_bak s' = payload s"
  using assms by (cases rule: uint64_decode_cases[of s]; auto)+

lemma match_key_progress:
  assumes "match_key b st = Inr (sid, st')"
  shows "payload st < payload st'" "mem st' = mem st" "payload_bak st' = payload st"
proof -
  have "payload st < payload st' \<and> mem st' = mem st \<and> payload_bak st' = payload st"
  proof (cases "ZCBOR_MAJOR_TYPE b = ZCBOR_MAJOR_TYPE_PINT")
    case True
    then have "zcbor_uint64_decode st = (Some sid, st')"
      using assms by (auto simp: match_key_def split: prod.splits option.splits)
    then show ?thesis using uint64_decode_frame[of st "Some sid" st'] by simp
  next
    case False
    then obtain s1 s2 s3 where s: "zcbor_list_start_decode st = (True, s1)" "zcbor_uint64_decode s1 = (Some sid, s2)"
        "any_skip s2 = (True, s3)" "zcbor_list_end_decode s3 = (True, st')"
      using assms by (auto simp: match_key_def split: if_splits prod.splits option.splits bool.splits)
    obtain b where b: "backup_list s1 = backup_list st @ [b]" "payload_bak b = payload st"
      using list_start_frame[OF s(1)] by blast
    have "backup_list s3 = backup_list st @ [b]"
      using b uint64_decode_frame(2)[OF s(2)] any_skip_frame(2)[of s2] s(3) by simp
    from list_end_bak[OF s(4) this] show ?thesis
      using list_start_progress[OF s(1)] uint64_decode_frame[OF s(2)] any_skip_progress[OF s(3)] list_end_progress[of s3]
        any_skip_frame(1)[of s2] list_end_mem[of s3] s b by simp
  qed
  then show "payload st < payload st'" "mem st' = mem st" "payload_bak st' = payload st" by blast+
qed

lemma match_key_leaves:
  assumes leave: "match_key b st = Inl st'"
  shows "payload st \<le> payload st'"
proof (cases "ZCBOR_MAJOR_TYPE b = ZCBOR_MAJOR_TYPE_LIST")
  case False
  then show ?thesis
    using leave uint64_decode_frame(3)[of st] by (auto simp: match_key_def split: if_splits prod.splits option.splits)
next
  case True
  obtain ok1 s1 where s1: "zcbor_list_start_decode st = (ok1, s1)" by (cases "zcbor_list_start_decode st")
  obtain r s2 where s2: "zcbor_uint64_decode s1 = (r, s2)" by (cases "zcbor_uint64_decode s1")
  obtain ok3 s3 where s3: "any_skip s2 = (ok3, s3)" by (cases "any_skip s2")
  consider "\<not> ok1" "st' = s1" | "ok1" "r = None" "st' = snd (zcbor_list_end_decode s2)"
    | "ok1" "r \<noteq> None" "st' = snd (zcbor_list_end_decode s3)"
    using leave True s1 s2 s3 by (cases ok1; cases r; cases ok3) (auto simp: match_key_def split: prod.splits bool.splits)
  then show ?thesis
  proof cases
    case 1
    then show ?thesis using list_start_fail[of st s1] s1 by simp
  next
    case 2
    then show ?thesis
      using list_start_progress(1)[of st s1] s1 uint64_decode_frame(3)[OF s2] list_end_progress[of s2] by simp
  next
    case 3
    have "payload s2 \<le> payload s3 \<or> payload_bak s2 \<le> payload s3"
      using any_skip_frame(4)[of s2] any_skip_progress(1)[of s2 s3] s3 by (cases ok3) auto
    then show ?thesis
      using 3 list_start_progress(1)[of st s1] s1 uint64_decode_frame(3,4)[OF s2] list_end_progress[of s3] by auto
  qed
qed

text \<open>
  The entries of one map of an event. Every round reads a byte of the event and moves the payload
  pointer, so the loop ends.
\<close>

function match_entries :: "u64 list \<Rightarrow> zcbor \<Rightarrow> c_fault + bool \<times> zcbor" where
  "match_entries filter_sids st =
     (if zcbor_array_at_end st then Inr (False, st)
      else case read_header st of
          Inl f \<Rightarrow> Inl f
        | Inr b \<Rightarrow>
            (case match_key b st of
               Inl st \<Rightarrow> Inr (False, st)
             | Inr (sid, st) \<Rightarrow>
                 if stream_sid_in_filter sid filter_sids then Inr (True, st)
                 else case any_skip st of
                     (False, st) \<Rightarrow> Inr (False, st)
                   | (True, st) \<Rightarrow> match_entries filter_sids st))"
  by pat_completeness auto
termination
proof (relation "measure (\<lambda>(filter_sids, st). length (mem st) - payload st)", simp, goal_cases)
  case (1 filter_sids st b r sid st1 ok st2)
  then have k: "match_key b st = Inr (sid, st1)" and sk: "any_skip st1 = (True, st2)" by simp_all
  have "payload st < length (mem st)" using 1 by (auto simp: read_header_def split: if_splits)
  then show ?case
    using match_key_progress[OF k] any_skip_progress(1)[OF sk] any_skip_frame(1)[of st1] sk by simp
qed

declare match_entries.simps [simp del]

lemma match_entries_progress: "match_entries filter_sids st = Inr (b, st') \<Longrightarrow> payload st \<le> payload st'"
proof (induction filter_sids st rule: match_entries.induct)
  case (1 filter_sids st)
  show ?case
  proof (cases "zcbor_array_at_end st")
    case True
    then show ?thesis using "1.prems" by (subst (asm) match_entries.simps) simp
  next
    case False
    then obtain h where h: "read_header st = Inr h"
      using "1.prems" by (subst (asm) match_entries.simps) (auto split: sum.splits)
    show ?thesis
    proof (cases "match_key h st")
      case (Inl s)
      then show ?thesis
        using "1.prems" False h match_key_leaves[OF Inl] by (subst (asm) match_entries.simps) simp
    next
      case (Inr r)
      obtain sid s ok s2 where r: "match_key h st = Inr (sid, s)" and sk: "any_skip s = (ok, s2)"
        using Inr by (cases r; cases "any_skip (snd r)") auto
      note p = match_key_progress[OF r]
      show ?thesis
      proof (cases "stream_sid_in_filter sid filter_sids \<or> \<not> ok")
        case True
        then show ?thesis
          using "1.prems" False h r sk p any_skip_frame(4)[of s]
          by (subst (asm) match_entries.simps) (auto split: if_splits)
      next
        case go: False
        then have "match_entries filter_sids s2 = Inr (b, st')"
          using "1.prems" False h r sk by (subst (asm) match_entries.simps) simp
        then show ?thesis
          using "1.IH"[OF False h r refl _ sk[symmetric]] go p any_skip_progress(1)[of s s2] sk by simp
      qed
    qed
  qed
qed

function match_loop :: "zcbor_state \<Rightarrow> bytes \<Rightarrow> nat \<Rightarrow> nat \<Rightarrow> u64 list \<Rightarrow> c_fault + bool" where
  "match_loop old ev len ptr filter_sids =
     (if ptr < len
      then case zcbor_map_start_decode (zcbor_new_decode_state old 16 ev ptr (len - ptr) 1) of
          (False, st) \<Rightarrow> Inr False
        | (True, st) \<Rightarrow>
            (case match_entries filter_sids st of
               Inl f \<Rightarrow> Inl f
             | Inr (True, st) \<Rightarrow> Inr True
             | Inr (False, st) \<Rightarrow>
                 let st = snd (zcbor_map_end_decode st)
                 in match_loop (zcbor_state.truncate st) ev len (payload st) filter_sids)
      else Inr False)"
  by pat_completeness auto
termination
proof (relation "measure (\<lambda>(old, ev, len, ptr, filter_sids). len - ptr)", simp, goal_cases)
  case (1 old ev len ptr filter_sids ok st r b st1 st2)
  have "ptr < payload st"
    using map_start_progress(1)[of "zcbor_new_decode_state old 16 ev ptr (len - ptr) 1" st] 1
    by (simp add: zcbor_new_decode_state_def)
  moreover have "payload st \<le> payload st1"
    by (rule match_entries_progress[of filter_sids st b]) (use 1 in auto)
  ultimately show ?case using 1 map_end_progress[of st1] by simp
qed

declare match_loop.simps [simp del]

definition stream_event_matches_filter :: "zcbor_state \<Rightarrow> bytes \<Rightarrow> u64 list \<Rightarrow> c_fault + bool" where
  "stream_event_matches_filter old ev filter_sids =
     (if length ev = 0 \<or> length filter_sids = 0 then Inr False
      else match_loop old ev (length ev) 0 filter_sids)"

section \<open>Encoding the queue\<close>

fun encode_events :: "nat \<Rightarrow> nat \<Rightarrow> bytes list \<Rightarrow> bytes" where
  "encode_events out_sz used [] = []"
| "encode_events out_sz used (ev # events) =
     (if length ev = 0 then encode_events out_sz used events
      else if used + length ev > out_sz then []
      else ev @ encode_events out_sz (used + length ev) events)"

definition stream_encode_sequence :: "nat \<Rightarrow> nat \<Rightarrow> bytes list \<Rightarrow> bytes" where
  "stream_encode_sequence out_sz max_items events =
     (if out_sz = 0 \<or> length events = 0 then []
      else let max_items = (if max_items = 0 \<or> max_items > length events then length events else max_items)
        in encode_events out_sz 0 (take max_items events))"

fun encode_filtered ::
  "zcbor_state \<Rightarrow> u64 list \<Rightarrow> nat \<Rightarrow> nat \<Rightarrow> nat \<Rightarrow> nat \<Rightarrow> bytes list \<Rightarrow> c_fault + bytes" where
  "encode_filtered old filter_sids out_sz max_items used written [] = Inr []"
| "encode_filtered old filter_sids out_sz max_items used written (ev # events) =
     (if written < max_items
      then case stream_event_matches_filter old ev filter_sids of
          Inl f \<Rightarrow> Inl f
        | Inr False \<Rightarrow> encode_filtered old filter_sids out_sz max_items used written events
        | Inr True \<Rightarrow>
            if length ev = 0 then encode_filtered old filter_sids out_sz max_items used written events
            else if used + length ev > out_sz then Inr []
            else map_sum id (\<lambda>bs. ev @ bs)
                   (encode_filtered old filter_sids out_sz max_items (used + length ev) (written + 1) events)
      else Inr [])"

definition stream_encode_sequence_filtered ::
  "zcbor_state \<Rightarrow> nat \<Rightarrow> nat \<Rightarrow> u64 list \<Rightarrow> bytes list \<Rightarrow> c_fault + bytes" where
  "stream_encode_sequence_filtered old out_sz max_items filter_sids events =
     (if out_sz = 0 \<or> length events = 0 then Inr []
      else if length filter_sids = 0 then Inr (stream_encode_sequence out_sz max_items events)
      else let max_items = (if max_items = 0 \<or> max_items > length events then length events else max_items)
        in encode_filtered old filter_sids out_sz max_items 0 0 events)"

section \<open>Properties\<close>

lemma be_bytes_unfold:
  "be_bytes 1 v = [ucast v]" "be_bytes 2 v = [ucast (drop_bit 8 v), ucast v]"
  "be_bytes 4 v = [ucast (drop_bit 24 v), ucast (drop_bit 16 v), ucast (drop_bit 8 v), ucast v]"
  "be_bytes 8 v = [ucast (drop_bit 56 v), ucast (drop_bit 48 v), ucast (drop_bit 40 v), ucast (drop_bit 32 v),
     ucast (drop_bit 24 v), ucast (drop_bit 16 v), ucast (drop_bit 8 v), ucast v]"
  by (simp_all add: numeral_eq_Suc)

text \<open>
  The server's own encoder of unsigned integers is the one of zcbor: for every value it writes the same
  bytes, the shortest encoding, and it writes nothing exactly when they do not fit.
\<close>

lemma cbor_encode_uint_eq_zcbor:
  "cbor_encode_uint n v =
     (if length (cbor_head ZCBOR_MAJOR_TYPE_PINT v) \<le> n then cbor_head ZCBOR_MAJOR_TYPE_PINT v else []) \<and>
   (n \<le> length buf \<longrightarrow>
     (\<exists>s. zcbor_uint64_put (zcbor_new_encode_state old k buf 0 n e) v = (cbor_encode_uint n v \<noteq> [], s) \<and>
          take (payload s) (mem s) = cbor_encode_uint n v))"
proof -
  let ?h = "cbor_head ZCBOR_MAJOR_TYPE_PINT v"
  have h: "header_byte ZCBOR_MAJOR_TYPE_PINT a = a" for a by (simp add: header_byte_def)
  have le: "v \<le> 0xFF \<longleftrightarrow> v < 2 ^ 8" "v \<le> 0xFFFF \<longleftrightarrow> v < 2 ^ 16" "v \<le> 0xFFFFFFFF \<longleftrightarrow> v < 2 ^ 32"
    by (simp_all add: word_le_nat_alt word_less_nat_alt less_eq_Suc_le)
  have 1: "cbor_encode_uint n v = (if length ?h \<le> n then ?h else [])"
    unfolding cbor_encode_uint_def cbor_head_def le h be_bytes_unfold by simp
  moreover have "\<exists>s. zcbor_uint64_put (zcbor_new_encode_state old k buf 0 n e) v = (cbor_encode_uint n v \<noteq> [], s) \<and>
      take (payload s) (mem s) = cbor_encode_uint n v"
    if n: "n \<le> length buf"
  proof -
    have ok: "enc_ok (zcbor_new_encode_state old k buf 0 n e)"
      using n by (simp add: enc_ok_def zcbor_new_encode_state_def)
    have ne: "?h \<noteq> []" by (rule cbor_head_form[of ZCBOR_MAJOR_TYPE_PINT v]) simp
    show ?thesis
      using n ne 1 unfolding uint64_put_spec[OF ok] enc_all_def
      by (auto simp: fits_def emit_def zcbor_new_encode_state_def)
  qed
  ultimately show ?thesis by blast
qed

lemma cbor_encode_uint_eq_zcbor_witness:
  "\<exists>s. zcbor_uint64_put (zcbor_new_encode_state any_state 1 [0, 0, 0] 0 3 1) 500 = (True, s) \<and>
     take (payload s) (mem s) = [0x19, 0x01, 0xF4]"
proof -
  have c: "cbor_encode_uint 3 500 = [0x19, 0x01, 0xF4]" by code_simp
  have "3 \<le> length [0, 0, 0 :: u8]" by simp
  from cbor_encode_uint_eq_zcbor[THEN conjunct2, rule_format, OF this, of any_state 1 1 500]
  show ?thesis unfolding c by simp
qed

definition stream_ok :: "bytes list \<Rightarrow> bool" where
  "stream_ok events \<longleftrightarrow>
     length events \<le> STREAM_MAX_EVENTS \<and> (\<forall>ev \<in> set events. ev \<noteq> [] \<and> length ev \<le> BUFFER_SIZE)"

lemma stream_ok_push:
  assumes "stream_ok events" and "length ev \<le> BUFFER_SIZE"
  shows "stream_ok (stream_push_event events ev)"
  using assms by (auto simp: stream_ok_def stream_push_event_def Let_def STREAM_MAX_EVENTS_def dest: in_set_butlastD)

lemma stream_ok_push_map:
  assumes "stream_ok events" and "stream_push_notification_map old m events cbor_data start n = Inr events'"
  shows "stream_ok events'"
  using assms stream_ok_push
  by (auto simp: stream_push_notification_map_def stream_wrap_notification_instance_def Let_def
      split: if_splits sum.splits)

lemma stream_ok_push_sequence_loop:
  "push_sequence_loop old m cbor_data len ptr events = Inr events' \<Longrightarrow> stream_ok events \<Longrightarrow> stream_ok events'"
proof (induction old m cbor_data len ptr events rule: push_sequence_loop.induct)
  case (1 old m cbor_data len ptr events)
  show ?case
    using "1.prems" "1.IH" stream_ok_push_map
    by (subst (asm) push_sequence_loop.simps)
      (fastforce simp: Let_def split: if_splits prod.splits bool.splits sum.splits)
qed

lemma encode_events_spec:
  assumes "\<forall>ev \<in> set events. ev \<noteq> []"
  shows "\<exists>k \<le> length events. encode_events out_sz used events = concat (take k events) \<and>
     (used \<le> out_sz \<longrightarrow> used + length (concat (take k events)) \<le> out_sz) \<and>
     (k < length events \<longrightarrow> out_sz < used + length (concat (take (Suc k) events)))"
  using assms
proof (induction events arbitrary: used)
  case Nil
  then show ?case by simp
next
  case (Cons ev events)
  show ?case
  proof (cases "used + length ev > out_sz")
    case True
    then show ?thesis using Cons.prems by (intro exI[of _ 0]) auto
  next
    case False
    obtain k where k: "k \<le> length events" "encode_events out_sz (used + length ev) events = concat (take k events)"
        "used + length ev \<le> out_sz \<longrightarrow> used + length ev + length (concat (take k events)) \<le> out_sz"
        "k < length events \<longrightarrow> out_sz < used + length ev + length (concat (take (Suc k) events))"
      using Cons.IH[of "used + length ev"] Cons.prems by auto
    then show ?thesis
      using False Cons.prems by (intro exI[of _ "Suc k"]) auto
  qed
qed

text \<open>
  C33. What \<open>GET /s\<close> sends of a well-formed queue is a run of whole events from the newest one on, at most
  eight, within the buffer; it is cut short only by an event that would not fit any more.
\<close>

theorem stream_encode_sequence_spec:
  assumes "stream_ok events"
  shows "\<exists>k \<le> min 8 (length events). stream_encode_sequence BUFFER_SIZE 8 events = concat (take k events) \<and>
    length (concat (take k events)) \<le> BUFFER_SIZE \<and>
    (k < min 8 (length events) \<longrightarrow> BUFFER_SIZE < length (concat (take (Suc k) events)))"
proof (cases "events = []")
  case True
  then show ?thesis by (simp add: stream_encode_sequence_def)
next
  case False
  let ?m = "min 8 (length events)" let ?evs = "take ?m events"
  have ne: "\<forall>ev \<in> set ?evs. ev \<noteq> []" using assms by (auto simp: stream_ok_def dest: in_set_takeD)
  have len: "length ?evs = ?m" by simp
  obtain k where k: "k \<le> ?m"
      "encode_events BUFFER_SIZE 0 ?evs = concat (take k ?evs)" "length (concat (take k ?evs)) \<le> BUFFER_SIZE"
      "k < ?m \<longrightarrow> BUFFER_SIZE < length (concat (take (Suc k) ?evs))"
    using encode_events_spec[OF ne, of BUFFER_SIZE 0] le0[of BUFFER_SIZE] unfolding len add_0 by blast
  have "stream_encode_sequence BUFFER_SIZE 8 events = encode_events BUFFER_SIZE 0 ?evs"
    using False by (simp add: stream_encode_sequence_def BUFFER_SIZE_def min_def)
  moreover have "take k ?evs = take k events" "k < ?m \<Longrightarrow> take (Suc k) ?evs = take (Suc k) events"
    using k(1) by (simp_all add: min_def)
  ultimately show ?thesis using k by metis
qed

theorem stream_encode_sequence_spec_witness:
  "\<exists>k \<le> min 8 (length [[0xA1, 1, 2], [0xA0 :: u8]]).
     stream_encode_sequence BUFFER_SIZE 8 [[0xA1, 1, 2], [0xA0]] = concat (take k [[0xA1, 1, 2], [0xA0]])"
proof -
  have "stream_ok [[0xA1, 1, 2], [0xA0]]" by (simp add: stream_ok_def STREAM_MAX_EVENTS_def BUFFER_SIZE_def)
  from stream_encode_sequence_spec[OF this] show ?thesis by blast
qed

text \<open>
  The copy of an iPATCH payload into the stream reads behind the payload: a map whose last string
  announces one byte more than there is passes \<open>zcbor_any_skip\<close>, and its length is then five of four bytes.
\<close>

lemma push_sequence_overread:
  "stream_push_notification_sequence any_state 1700 events [0xA1, 0x01, 0x62, 0x41] 4 = Inl OutOfBoundsRead"
  by code_simp

end
