(* ===== verification/Delete.thy ===== *)
theory Delete
  imports Coreconf_Types
begin

text \<open>
  \<open>src/src/delete.c\<close>: the query string \<open>k=10&k=20\<close> of a DELETE and the removal of the SIDs it names.
  The cursor \<open>tok\<close> into the copied query is the list of the bytes from it to the end; the code's
  temporary NUL at the end of a value only delimits what \<open>strtoull\<close> reads.
\<close>

section \<open>Decimal numbers\<close>

definition is_space :: "u8 \<Rightarrow> bool" where
  "is_space b \<longleftrightarrow> b = 0x20 \<or> (0x09 \<le> b \<and> b \<le> 0x0D)"

definition is_digit :: "u8 \<Rightarrow> bool" where
  "is_digit b \<longleftrightarrow> 0x30 \<le> b \<and> b \<le> 0x39"

definition digits_value :: "bytes \<Rightarrow> nat" where
  "digits_value bs = foldl (\<lambda>n b. 10 * n + unat (b - 0x30)) 0 bs"

text \<open>
  \<open>strtoull (str, &endptr, 10)\<close> of the C library: white space, a sign, digits; the value saturates
  at \<open>ULLONG_MAX\<close>, and a minus sign negates it in the unsigned type. \<open>None\<close> when there are no
  digits, in which case \<open>endptr\<close> is \<open>str\<close>.
\<close>

definition strtoull10 :: "bytes \<Rightarrow> u64 option" where
  "strtoull10 str =
     (let t = dropWhile is_space (c_string str);
          neg = (t \<noteq> [] \<and> hd t = 0x2D);
          u = (if t \<noteq> [] \<and> (hd t = 0x2D \<or> hd t = 0x2B) then tl t else t);
          ds = takeWhile is_digit u; n = digits_value ds
      in if ds = [] then None
         else if n \<ge> 2 ^ 64 then Some (- 1)
         else Some (if neg then - of_nat n else of_nat n))"

section \<open>Operations\<close>

text \<open>
  The loop over the parameters: \<open>n\<close> SIDs are already in \<open>sids_out\<close>. The rest of a token list is the
  part behind the next ampersand, which is empty when there is none.
\<close>

definition after_amp :: "bytes \<Rightarrow> bytes" where
  "after_amp bs = tl (dropWhile (\<lambda>b. b \<noteq> 0x26) bs)"

lemma length_after_amp_less: "bs \<noteq> [] \<Longrightarrow> length (after_amp bs) < length bs"
  unfolding after_amp_def by (rule length_tl_dropWhile)

lemma length_after_amp: "length (after_amp bs) \<le> length bs"
  using length_after_amp_less[of bs] by (cases "bs = []") (auto simp: after_amp_def)

function parse_delete_params :: "bytes \<Rightarrow> nat \<Rightarrow> nat \<Rightarrow> u64 list" where
  "parse_delete_params tok n max_sids =
     (if tok = [] \<or> n \<ge> max_sids then []
      else if 0x3D \<notin> set tok then []
      else if takeWhile (\<lambda>b. b \<noteq> 0x3D) tok = [0x6B]
      then let val_start = tl (dropWhile (\<lambda>b. b \<noteq> 0x3D) tok);
               val = takeWhile (\<lambda>b. b \<noteq> 0x26) val_start in
           (case strtoull10 val of
              Some sid \<Rightarrow> sid # parse_delete_params (after_amp val_start) (n + 1) max_sids
            | None \<Rightarrow> parse_delete_params (after_amp val_start) n max_sids)
      else parse_delete_params (after_amp tok) n max_sids)"
  by pat_completeness auto
termination
proof (relation "measure (\<lambda>(tok, _, _). length tok)", goal_cases)
  case 1
  show ?case by simp
next
  have less: "length (after_amp (tl (dropWhile (\<lambda>b. b \<noteq> 0x3D) tok))) < length tok"
    if "tok \<noteq> []" for tok :: bytes
    using length_tl_dropWhile[OF that] length_after_amp le_less_trans by blast
  {
    case 2
    then show ?case using less by auto
  next
    case 3
    then show ?case using less by auto
  next
    case 4
    then show ?case using length_after_amp_less by auto
  }
qed

declare parse_delete_params.simps [simp del]

text \<open>At most 511 bytes of the query are looked at. \<open>sids_out\<close> is the list of what is written to it.\<close>

definition parse_delete_query :: "bytes option \<Rightarrow> nat \<Rightarrow> int \<Rightarrow> u64 list" where
  "parse_delete_query query qlen max_sids =
     (case query of
        None \<Rightarrow> []
      | Some q \<Rightarrow>
          if qlen = 0 \<or> max_sids \<le> 0 then []
          else parse_delete_params (take (if qlen < 511 then qlen else 511) q) 0 (nat max_sids))"

fun delete_loop :: "'v CoreconfHashMap \<Rightarrow> u64 list \<Rightarrow> int \<times> 'v CoreconfHashMap" where
  "delete_loop hm [] = (0, hm)"
| "delete_loop hm (sid # sids) =
     (let (r, hm) = deleteFromCoreconfHashMap hm sid; (deleted, hm) = delete_loop hm sids
      in (if r = 0 then deleted + 1 else deleted, hm))"

definition apply_delete ::
  "'v CoreconfHashMap option \<Rightarrow> u64 list option \<Rightarrow> int \<Rightarrow> int \<times> 'v CoreconfHashMap option" where
  "apply_delete hm sids n_sids =
     (case (hm, sids) of
        (Some m, Some ss) \<Rightarrow>
          if n_sids \<le> 0 then (0, hm)
          else (case delete_loop m (take (nat n_sids) ss) of (deleted, m') \<Rightarrow> (deleted, Some m'))
      | _ \<Rightarrow> (0, hm))"

section \<open>Deleting SIDs\<close>

lemma delete_loop_del_all: "delete_loop hm sids = apfst int (hm.del_all hm sids)"
  by (induction sids arbitrary: hm) (simp_all add: split_beta Let_def)

text \<open>
  C28. DELETE of a list of SIDs: afterwards exactly the SIDs of the list are gone and every other
  lookup is as before, the map is still well formed, and the result counts the SIDs that were
  there (a SID named twice counts once).
\<close>

theorem apply_delete_spec:
  assumes "hm_wf hm" and "0 < n_sids" and "apply_delete (Some hm) (Some sids) n_sids = (deleted, Some hm')"
  shows "hm_wf hm' \<and>
    getCoreconfHashMap hm' = getCoreconfHashMap hm |` (- set (take (nat n_sids) sids)) \<and>
    deleted = int (card (set (take (nat n_sids) sids) \<inter> dom (getCoreconfHashMap hm)))"
proof -
  let ?ks = "take (nat n_sids) sids"
  have "hm' = snd (hm.del_all hm ?ks)" and "deleted = int (fst (hm.del_all hm ?ks))"
    using assms(2,3) by (auto simp: apply_delete_def delete_loop_del_all split_beta)
  then show ?thesis using hm.del_all_spec[OF assms(1), of ?ks] by simp
qed

theorem apply_delete_spec_witness:
  "\<exists>hm'. apply_delete (Some (snd (insertCoreconfHashMap empty_hashmap 7 (1 :: nat)))) (Some [7, 8, 7]) 3 = (1, Some hm') \<and>
     getCoreconfHashMap hm' 7 = None"
proof -
  let ?hm = "snd (insertCoreconfHashMap empty_hashmap 7 (1 :: nat))"
  obtain d hm' where r: "apply_delete (Some ?hm) (Some [7, 8, 7]) 3 = (d, Some hm')"
    by (simp add: apply_delete_def split_beta)
  have dom: "dom (getCoreconfHashMap ?hm) = {7}"
    using hm.lkp_ins_room[OF hm.inv_emp, of 7 "1 :: nat"] by (simp add: hm.lkp_emp)
  have "set (take (nat 3) [7, 8, 7 :: u64]) \<inter> dom (getCoreconfHashMap ?hm) = {7}"
    unfolding dom by auto
  then show ?thesis
    using apply_delete_spec[OF hm_wf_insert[OF hm_wf_empty] _ r] r by (auto simp: restrict_map_def)
qed

section \<open>Reading a query back\<close>

text \<open>Decimal notation, and the query a client writes for a list of SIDs.\<close>

fun decimal :: "nat \<Rightarrow> bytes" where
  "decimal n = (if n < 10 then [0x30 + of_nat n] else decimal (n div 10) @ [0x30 + of_nat (n mod 10)])"

declare decimal.simps [simp del]

fun delete_query :: "u64 list \<Rightarrow> bytes" where
  "delete_query [] = []"
| "delete_query [sid] = [0x6B, 0x3D] @ decimal (unat sid)"
| "delete_query (sid # sids) = [0x6B, 0x3D] @ decimal (unat sid) @ [0x26] @ delete_query sids"

lemma digit_byte:
  assumes "d < 10"
  shows "unat (0x30 + of_nat d :: u8) = 48 + d" and "unat (of_nat d :: u8) = d"
  using assms by (simp_all add: unat_word_ariths unat_of_nat take_bit_nat_eq_self)

lemma is_digit_decimal: "b \<in> set (decimal n) \<Longrightarrow> is_digit b"
proof (induction n rule: decimal.induct)
  case (1 n)
  have "is_digit (0x30 + of_nat d)" if "d < 10" for d
    using digit_byte[OF that] that by (simp add: is_digit_def word_le_nat_alt)
  then show ?case using 1 by (subst (asm) (2) decimal.simps) (auto split: if_splits)
qed

lemma decimal_ne: "decimal n \<noteq> []"
  by (subst decimal.simps) simp

lemma digits_value_snoc: "digits_value (bs @ [b]) = 10 * digits_value bs + unat (b - 0x30)"
  by (simp add: digits_value_def)

lemma digits_value_decimal: "digits_value (decimal n) = n"
proof (induction n rule: decimal.induct)
  case (1 n)
  show ?case
  proof (cases "n < 10")
    case True
    then show ?thesis
      by (subst decimal.simps) (simp add: digits_value_def digit_byte(2))
  next
    case False
    have "unat (0x30 + of_nat (n mod 10) - 0x30 :: u8) = n mod 10"
      using digit_byte(2)[of "n mod 10"] by simp
    then show ?thesis
      using False 1 by (subst decimal.simps) (simp add: digits_value_snoc)
  qed
qed

lemma digit_not: "is_digit b \<Longrightarrow> b \<noteq> 0 \<and> b \<noteq> 0x26 \<and> b \<noteq> 0x2D \<and> b \<noteq> 0x2B \<and> \<not> is_space b"
  by (auto simp: is_digit_def is_space_def word_le_nat_alt)

lemma strtoull10_decimal: "strtoull10 (decimal (unat sid)) = Some sid"
proof -
  let ?d = "decimal (unat sid)"
  note dg = is_digit_decimal[of _ "unat sid"]
  have "c_string ?d = ?d"
    unfolding c_string_def using dg digit_not by (auto simp: takeWhile_eq_all_conv)
  moreover obtain b bs where b: "?d = b # bs" using decimal_ne by (cases ?d) auto
  then have "dropWhile is_space ?d = ?d" "b \<noteq> 0x2D" "b \<noteq> 0x2B"
    using dg[of b] digit_not[of b] by auto
  moreover have "takeWhile is_digit ?d = ?d" using dg by (auto simp: takeWhile_eq_all_conv)
  moreover have "digits_value ?d = unat sid" by (rule digits_value_decimal)
  moreover have "unat sid < 2 ^ 64" using unsigned_less[where 'a = nat, of sid] by simp
  ultimately show ?thesis using b by (simp add: strtoull10_def Let_def)
qed

lemma parse_delete_params_query:
  "parse_delete_params (delete_query sids) n max_sids = take (max_sids - n) sids"
proof (induction sids arbitrary: n rule: delete_query.induct)
  case 1
  then show ?case by (simp add: parse_delete_params.simps)
next
  case (2 sid)
  have no: "\<forall>b \<in> set (decimal (unat sid)). b \<noteq> 0x26" using is_digit_decimal digit_not by blast
  then have "dropWhile (\<lambda>b. b \<noteq> 0x26) (decimal (unat sid)) = []"
    by (simp only: dropWhile_eq_Nil_conv)
  then have amp: "after_amp (decimal (unat sid)) = []" by (simp only: after_amp_def list.sel)
  have "takeWhile (\<lambda>b. b \<noteq> 0x26) (decimal (unat sid)) = decimal (unat sid)"
    using no by (simp only: takeWhile_eq_all_conv)
  then have val: "strtoull10 (takeWhile (\<lambda>b. b \<noteq> 0x26) (decimal (unat sid))) = Some sid"
    by (simp only: strtoull10_decimal)
  show ?case
    by (subst parse_delete_params.simps)
      (simp add: amp val Let_def parse_delete_params.simps[of "[]"] take_Cons')
next
  case (3 sid sid' sids)
  let ?d = "decimal (unat sid)" let ?q = "delete_query (sid' # sids)"
  have no: "\<And>b. b \<in> set ?d \<Longrightarrow> b \<noteq> 0x26" using is_digit_decimal digit_not by blast
  then have "takeWhile (\<lambda>b. b \<noteq> 0x26) (?d @ [0x26] @ ?q) = ?d"
      "after_amp (?d @ [0x26] @ ?q) = ?q"
    by (simp_all add: takeWhile_append2 dropWhile_append2 after_amp_def)
  moreover have "parse_delete_params ?q (n + 1) max_sids = take (max_sids - (n + 1)) (sid' # sids)"
    by (rule 3)
  ultimately show ?case
    by (subst parse_delete_params.simps) (simp add: strtoull10_decimal Let_def take_Cons')
qed

text \<open>
  A query written for a list of SIDs is read back as that list, for every 64-bit SID, as long
  as it has at most 511 bytes; SIDs beyond \<open>max_sids\<close> are dropped from the end.
\<close>

lemma parse_delete_query_roundtrip:
  assumes "length (delete_query sids) \<le> 511" and "0 < max_sids"
  shows "parse_delete_query (Some (delete_query sids)) (length (delete_query sids)) max_sids
    = take (nat max_sids) sids"
  using assms parse_delete_params_query[of sids 0 "nat max_sids"]
  by (cases sids rule: delete_query.cases) (auto simp: parse_delete_query_def)

lemma parse_delete_query_roundtrip_witness:
  "parse_delete_query (Some (delete_query [10, 1700])) 11 32 = [10, 1700]"
proof -
  have "length (delete_query [10, 1700]) = 11" by (simp add: decimal.simps)
  then show ?thesis
    using parse_delete_query_roundtrip[of "[10, 1700]" 32] by simp
qed

end
