(* ===== verification/Server_Sids.thy ===== *)
theory Server_Sids
  imports Event_Stream Delete "HOL-Library.Sublist"
begin

text \<open>
  The start-up data of \<open>src/iot_containers/iot_apps/coreconf_server.c\<close>: the SIDs that the server reads from its
  \<open>.sid\<close> files, their fingerprint, and the example datastore built from them. The text of a file is an argument
  of the loaders, \<open>None\<close> when none of the candidate paths can be opened; the search for the file itself is
  the operating system's.
\<close>

section \<open>Text\<close>

definition ascii :: "string \<Rightarrow> bytes" where
  "ascii str = map of_char str"

text \<open>\<open>strstr\<close> and \<open>strchr\<close> return the string from the first match on.\<close>

fun strstr :: "'a list \<Rightarrow> 'a list \<Rightarrow> 'a list option" where
  "strstr [] needle = (if needle = [] then Some [] else None)"
| "strstr (b # bs) needle = (if prefix needle (b # bs) then Some (b # bs) else strstr bs needle)"

fun strchr :: "'a list \<Rightarrow> 'a \<Rightarrow> 'a list option" where
  "strchr [] c = None"
| "strchr (b # bs) c = (if b = c then Some (b # bs) else strchr bs c)"

definition parse_sid_after_identifier :: "bytes \<Rightarrow> bytes \<Rightarrow> u64 option" where
  "parse_sid_after_identifier txt identifier =
     (case strstr (c_string txt) identifier of
        None \<Rightarrow> None
      | Some id_pos \<Rightarrow>
          (case strstr id_pos (ascii ''\"sid\"'') of
             None \<Rightarrow> None
           | Some sid_key \<Rightarrow>
               (case strchr sid_key 0x3A of
                  None \<Rightarrow> None
                | Some colon \<Rightarrow>
                    strtoull10 (dropWhile (\<lambda>b. b = 0x20 \<or> b = 0x09 \<or> b = 0x22) (tl colon)))))"

section \<open>The SIDs\<close>

record RuntimeSystemSids =
  sys_module :: u64
  clock :: u64
  clock_boot :: u64
  clock_current :: u64
  ntp_enabled :: u64
  ntp_server :: u64
  ntp_server_name :: u64
  ntp_server_prefer :: u64
  ntp_server_udp :: u64
  ntp_server_udp_address :: u64
  sys_loaded :: bool

record RuntimeInterfacesSids =
  if_module :: u64
  iface :: u64
  iface_description :: u64
  iface_enabled :: u64
  iface_name :: u64
  iface_type :: u64
  iface_oper_status :: u64
  identity_ethernet_csmacd :: u64
  if_loaded :: bool

record RuntimeOperationSids =
  reboot_rpc_sid :: u64
  reboot_input_delay :: u64
  reset_action_sid :: u64
  reset_input_reset_at :: u64
  reset_output_finished_at :: u64
  ops_loaded :: bool

text \<open>
  A loader assigns the SIDs it finds and keeps the old value of the others; the flag \<open>loaded\<close> is set, and 0 returned,
  only when it found all of them.
\<close>

definition set_sid :: "bytes \<Rightarrow> string \<Rightarrow> (u64 \<Rightarrow> 'a \<Rightarrow> 'a) \<Rightarrow> bool \<times> 'a \<Rightarrow> bool \<times> 'a" where
  "set_sid txt identifier upd r =
     (case parse_sid_after_identifier txt (ascii identifier) of
        None \<Rightarrow> (False, snd r)
      | Some sid \<Rightarrow> (fst r, upd sid (snd r)))"

definition load_runtime_system_sids :: "bytes option \<Rightarrow> RuntimeSystemSids \<Rightarrow> int \<times> RuntimeSystemSids" where
  "load_runtime_system_sids file out =
     (case file of
        None \<Rightarrow> (-1, out)
      | Some txt \<Rightarrow>
          let r = (True, out);
              r = set_sid txt ''\"identifier\": \"ietf-system\"'' (\<lambda>v s. s\<lparr>sys_module := v\<rparr>) r;
              r = set_sid txt ''/ietf-system:system-state/clock\"'' (\<lambda>v s. s\<lparr>clock := v\<rparr>) r;
              r = set_sid txt ''/ietf-system:system-state/clock/boot-datetime\"'' (\<lambda>v s. s\<lparr>clock_boot := v\<rparr>) r;
              r = set_sid txt ''/ietf-system:system-state/clock/current-datetime\"'' (\<lambda>v s. s\<lparr>clock_current := v\<rparr>) r;
              r = set_sid txt ''/ietf-system:system/ntp/enabled\"'' (\<lambda>v s. s\<lparr>ntp_enabled := v\<rparr>) r;
              r = set_sid txt ''/ietf-system:system/ntp/server\"'' (\<lambda>v s. s\<lparr>ntp_server := v\<rparr>) r;
              r = set_sid txt ''/ietf-system:system/ntp/server/name\"'' (\<lambda>v s. s\<lparr>ntp_server_name := v\<rparr>) r;
              r = set_sid txt ''/ietf-system:system/ntp/server/prefer\"'' (\<lambda>v s. s\<lparr>ntp_server_prefer := v\<rparr>) r;
              r = set_sid txt ''/ietf-system:system/ntp/server/udp\"'' (\<lambda>v s. s\<lparr>ntp_server_udp := v\<rparr>) r;
              r = set_sid txt ''/ietf-system:system/ntp/server/udp/address\"'' (\<lambda>v s. s\<lparr>ntp_server_udp_address := v\<rparr>) r
          in if fst r then (0, (snd r)\<lparr>sys_loaded := True\<rparr>) else (-1, snd r))"

definition load_runtime_interfaces_sids :: "bytes option \<Rightarrow> RuntimeInterfacesSids \<Rightarrow> int \<times> RuntimeInterfacesSids" where
  "load_runtime_interfaces_sids file out =
     (case file of
        None \<Rightarrow> (-1, out)
      | Some txt \<Rightarrow>
          let r = (True, out);
              r = set_sid txt ''\"identifier\": \"ietf-interfaces\"'' (\<lambda>v s. s\<lparr>if_module := v\<rparr>) r;
              r = set_sid txt ''/ietf-interfaces:interfaces/interface\"'' (\<lambda>v s. s\<lparr>iface := v\<rparr>) r;
              r = set_sid txt ''/ietf-interfaces:interfaces/interface/description\"'' (\<lambda>v s. s\<lparr>iface_description := v\<rparr>) r;
              r = set_sid txt ''/ietf-interfaces:interfaces/interface/enabled\"'' (\<lambda>v s. s\<lparr>iface_enabled := v\<rparr>) r;
              r = set_sid txt ''/ietf-interfaces:interfaces/interface/name\"'' (\<lambda>v s. s\<lparr>iface_name := v\<rparr>) r;
              r = set_sid txt ''/ietf-interfaces:interfaces/interface/type\"'' (\<lambda>v s. s\<lparr>iface_type := v\<rparr>) r;
              r = set_sid txt ''/ietf-interfaces:interfaces/interface/oper-status\"'' (\<lambda>v s. s\<lparr>iface_oper_status := v\<rparr>) r;
              r = set_sid txt ''\"identifier\": \"ethernetCsmacd\"'' (\<lambda>v s. s\<lparr>identity_ethernet_csmacd := v\<rparr>) r
          in if fst r then (0, (snd r)\<lparr>if_loaded := True\<rparr>) else (-1, snd r))"

definition load_runtime_operation_sids :: "bytes option \<Rightarrow> RuntimeOperationSids \<Rightarrow> int \<times> RuntimeOperationSids" where
  "load_runtime_operation_sids file out =
     (case file of
        None \<Rightarrow> (0, \<lparr>reboot_rpc_sid = 61000, reboot_input_delay = 1, reset_action_sid = 60002,
                    reset_input_reset_at = 1, reset_output_finished_at = 2, ops_loaded = True\<rparr>)
      | Some txt \<Rightarrow>
          let r = (True, out);
              r = set_sid txt ''/ietf-coreconf-actions:reboot\"'' (\<lambda>v s. s\<lparr>reboot_rpc_sid := v\<rparr>) r;
              r = set_sid txt ''/ietf-coreconf-actions:reboot/input/delay\"'' (\<lambda>v s. s\<lparr>reboot_input_delay := v\<rparr>) r;
              r = set_sid txt ''/ietf-coreconf-actions:reset\"'' (\<lambda>v s. s\<lparr>reset_action_sid := v\<rparr>) r;
              r = set_sid txt ''/ietf-coreconf-actions:reset/input/reset-at\"'' (\<lambda>v s. s\<lparr>reset_input_reset_at := v\<rparr>) r;
              r = set_sid txt ''/ietf-coreconf-actions:reset/output/reset-finished-at\"''
                    (\<lambda>v s. s\<lparr>reset_output_finished_at := v\<rparr>) r
          in if fst r then (0, (snd r)\<lparr>ops_loaded := True\<rparr>) else (-1, snd r))"

definition load_notification_sid :: "bytes option \<Rightarrow> u64 option" where
  "load_notification_sid file =
     (case file of
        None \<Rightarrow> None
      | Some txt \<Rightarrow> parse_sid_after_identifier txt (ascii ''/ietf-comi-notification:notification''))"

definition sid_hash_mix_u64 :: "u64 \<Rightarrow> u64 \<Rightarrow> u64" where
  "sid_hash_mix_u64 hash v = (hash XOR v) * 1099511628211"

definition fingerprint_sids ::
  "RuntimeSystemSids \<Rightarrow> RuntimeInterfacesSids \<Rightarrow> RuntimeOperationSids \<Rightarrow> u64 list" where
  "fingerprint_sids sys ifs ops =
     [sys_module sys, clock sys, clock_boot sys, clock_current sys, ntp_enabled sys, ntp_server sys,
      ntp_server_name sys, ntp_server_prefer sys, ntp_server_udp sys, ntp_server_udp_address sys,
      if_module ifs, iface ifs, iface_description ifs, iface_enabled ifs, iface_name ifs, iface_type ifs,
      iface_oper_status ifs, identity_ethernet_csmacd ifs,
      reboot_rpc_sid ops, reboot_input_delay ops, reset_action_sid ops, reset_input_reset_at ops,
      reset_output_finished_at ops]"

definition compute_sid_fingerprint ::
  "RuntimeSystemSids \<Rightarrow> RuntimeInterfacesSids \<Rightarrow> RuntimeOperationSids \<Rightarrow> u64" where
  "compute_sid_fingerprint sys ifs ops =
     fold (\<lambda>v h. sid_hash_mix_u64 h v) (fingerprint_sids sys ifs ops) 1469598103934665603"

section \<open>The example datastore\<close>

definition put_all :: "CoreconfValue CoreconfHashMap \<Rightarrow> CoreconfValue CoreconfObject list \<Rightarrow> CoreconfValue CoreconfHashMap" where
  "put_all hm objs = fold (\<lambda>(k, v) hm. snd (insertCoreconfHashMap hm k v)) objs hm"

definition init_ietf_example_datastore ::
  "RuntimeSystemSids \<Rightarrow> RuntimeInterfacesSids \<Rightarrow> CoreconfValue option \<Rightarrow> CoreconfValue option" where
  "init_ietf_example_datastore sys ifs old =
     (if \<not> sys_loaded sys \<or> \<not> if_loaded ifs then old
      else let
        clock_c = put_all empty_hashmap
          [(clock_boot sys - clock sys, createCoreconfString (ascii ''2014-10-05T09:00:00Z'')),
           (clock_current sys - clock sys, createCoreconfString (ascii ''2016-10-26T12:16:31Z''))];
        ifc = put_all empty_hashmap
          [(iface_name ifs - iface ifs, createCoreconfString (ascii ''eth0'')),
           (iface_description ifs - iface ifs, createCoreconfString (ascii ''Ethernet adaptor'')),
           (iface_type ifs - iface ifs, createCoreconfUint64 (identity_ethernet_csmacd ifs)),
           (iface_enabled ifs - iface ifs, createCoreconfBoolean True),
           (iface_oper_status ifs - iface ifs, createCoreconfUint64 3)];
        udp = put_all empty_hashmap
          [(ntp_server_udp_address sys - ntp_server_udp sys, createCoreconfString (ascii ''128.100.49.105''))];
        srv = put_all empty_hashmap
          [(ntp_server_name sys - ntp_server sys, createCoreconfString (ascii ''tac.nrc.ca'')),
           (ntp_server_prefer sys - ntp_server sys, createCoreconfBoolean False),
           (ntp_server_udp sys - ntp_server sys, CORECONF_HASHMAP udp)];
        ds = put_all empty_hashmap
          [(clock sys, CORECONF_HASHMAP clock_c),
           (iface ifs, projr (addToCoreconfArray createCoreconfArray (CORECONF_HASHMAP ifc))),
           (ntp_enabled sys, createCoreconfBoolean False),
           (ntp_server sys, projr (addToCoreconfArray createCoreconfArray (CORECONF_HASHMAP srv)))]
      in Some (CORECONF_HASHMAP ds))"

section \<open>Finding a SID in the text\<close>

lemma of_char_u8_inj: "inj (of_char :: char \<Rightarrow> u8)"
proof (rule injI)
  fix c d :: char
  assume eq: "(of_char c :: u8) = of_char d"
  have "unat (of_char e :: u8) = of_char e" for e :: char
    by (simp add: of_nat_of_char[symmetric, where ?'a = u8] unat_of_nat del: of_nat_of_char)
  then have "(of_char c :: nat) = of_char d" using eq by metis
  then show "c = d" by simp
qed

lemma prefix_map_inj: "inj f \<Longrightarrow> prefix (map f xs) (map f ys) \<longleftrightarrow> prefix xs ys"
  by (metis map_mono_prefix inj_map_eq_map map_append prefix_def prefix_map_rightE)

lemma strstr_map: "inj f \<Longrightarrow> strstr (map f xs) (map f needle) = map_option (map f) (strstr xs needle)"
  by (induction xs) (simp_all add: prefix_map_inj[of f, symmetric])

lemma strchr_map: "inj f \<Longrightarrow> strchr (map f xs) (f c) = map_option (map f) (strchr xs c)"
  by (induction xs) (simp_all add: inj_eq)

lemma strstr_ascii: "strstr (ascii xs) (ascii needle) = map_option ascii (strstr xs needle)"
  unfolding ascii_def by (rule strstr_map[OF of_char_u8_inj])

lemma strstr_first:
  "\<forall>k < length p. \<not> prefix needle (drop k (p @ needle @ r)) \<Longrightarrow> strstr (p @ needle @ r) needle = Some (needle @ r)"
proof (induction p)
  case Nil
  have "prefix needle (needle @ r)" by simp
  then show ?case by (cases "needle @ r") auto
next
  case (Cons b p)
  have "\<not> prefix needle (b # p @ needle @ r)" using Cons.prems by (metis append_Cons drop0 length_greater_0_conv list.distinct(1))
  moreover have "\<forall>k < length p. \<not> prefix needle (drop k (p @ needle @ r))"
    using Cons.prems by (metis Suc_less_eq append_Cons drop_Suc_Cons length_Cons)
  ultimately show ?case using Cons.IH by simp
qed

lemma strchr_first: "c \<notin> set p \<Longrightarrow> strchr (p @ c # r) c = Some (c # r)"
  by (induction p) auto

lemma c_string_no_nul: "0 \<notin> set bs \<Longrightarrow> c_string (bs @ rest) = bs @ c_string rest"
  unfolding c_string_def by (induction bs) auto

lemma strtoull10_decimal_rest:
  assumes "rest = [] \<or> \<not> is_digit (hd rest)"
  shows "strtoull10 (decimal (unat sid) @ rest) = Some sid"
proof -
  let ?d = "decimal (unat sid)"
  note dg = is_digit_decimal[of _ "unat sid"]
  have "c_string (?d @ rest) = ?d @ c_string rest" using dg digit_not by (intro c_string_no_nul) blast
  moreover obtain b bs where b: "?d = b # bs" using decimal_ne by (cases ?d) auto
  then have "dropWhile is_space (?d @ r) = ?d @ r" "b \<noteq> 0x2D" "b \<noteq> 0x2B" for r
    using dg[of b] digit_not[of b] by auto
  moreover have "takeWhile is_digit (?d @ c_string rest) = ?d"
    using dg assms by (cases rest) (auto simp: c_string_def)
  moreover have "digits_value ?d = unat sid" by (rule digits_value_decimal)
  moreover have "unat sid < 2 ^ 64" using unsigned_less[where 'a = nat, of sid] by simp
  ultimately show ?thesis using b by (simp add: strtoull10_def Let_def)
qed

text \<open>
  C35. Reading a SID: when the text has the identifier, behind it the key \<open>"sid"\<close>, a colon and the number, each
  searched for at its first place, then the number is what the reader returns, whatever follows it.
\<close>

theorem parse_sid_after_identifier_spec:
  assumes "txt = p @ identifier @ q @ ascii ''\"sid\"'' @ w @ [0x3A] @ blanks @ decimal (unat sid) @ rest" and "0 \<notin> set txt"
    and "\<forall>k < length p. \<not> prefix identifier (drop k txt)"
    and "\<forall>k < length (identifier @ q). \<not> prefix (ascii ''\"sid\"'') (drop (length p + k) txt)"
    and "0x3A \<notin> set w" and "set blanks \<subseteq> {0x20, 0x09, 0x22}" and "rest = [] \<or> \<not> is_digit (hd rest)"
  shows "parse_sid_after_identifier txt identifier = Some sid"
proof -
  let ?tail = "w @ [0x3A] @ blanks @ decimal (unat sid) @ rest"
  have c: "c_string txt = txt" using c_string_no_nul[of "txt" "[]"] assms(2) by (simp add: c_string_def)
  have 1: "strstr txt identifier = Some (identifier @ q @ ascii ''\"sid\"'' @ ?tail)"
    using strstr_first[of p "identifier"] assms(1,3) by simp
  have "drop (length p + k) txt = drop k ((identifier @ q) @ ascii ''\"sid\"'' @ ?tail)" for k
    using assms(1) by (simp add: drop_drop[symmetric] add.commute)
  then have 2: "strstr ((identifier @ q) @ ascii ''\"sid\"'' @ ?tail) (ascii ''\"sid\"'') = Some (ascii ''\"sid\"'' @ ?tail)"
    using assms(4) by (intro strstr_first) simp
  have "(0x3A :: u8) \<notin> set (ascii ''\"sid\"'' @ w)" using assms(5) by (simp add: ascii_def)
  then have 3: "strchr (ascii ''\"sid\"'' @ ?tail) 0x3A = Some (0x3A # blanks @ decimal (unat sid) @ rest)"
    using strchr_first[of "0x3A :: u8" "ascii ''\"sid\"'' @ w"] by simp
  have "\<not> (b = 0x20 \<or> b = 0x09 \<or> b = 0x22)" if "is_digit b" for b
    using that by (auto simp: is_digit_def word_le_nat_alt)
  then have "dropWhile (\<lambda>b. b = 0x20 \<or> b = 0x09 \<or> b = 0x22) (blanks @ decimal (unat sid) @ rest) = decimal (unat sid) @ rest"
    using assms(6) decimal_ne[of "unat sid"] is_digit_decimal[of _ "unat sid"]
    by (cases "decimal (unat sid)") (auto simp: dropWhile_append3 subset_iff)
  then show ?thesis
    using 1 2 3 strtoull10_decimal_rest[OF assms(7)] by (simp add: parse_sid_after_identifier_def c)
qed

theorem parse_sid_after_identifier_spec_witness:
  "parse_sid_after_identifier (ascii ''{\"m\" \"sid\": 25}'') (ascii ''\"m\"'') = Some 25"
proof (rule parse_sid_after_identifier_spec[where p = "ascii ''{''" and q = "ascii '' ''" and w = "[]"
      and blanks = "[0x20]" and rest = "ascii ''}''"])
  have "decimal (unat (25 :: u64)) = [0x32, 0x35]" by code_simp
  then show "ascii ''{\"m\" \"sid\": 25}'' = ascii ''{'' @ ascii ''\"m\"'' @ ascii '' '' @
      ascii ''\"sid\"'' @ [] @ [0x3A] @ [0x20] @ decimal (unat (25 :: u64)) @ ascii ''}''"
    by (simp add: ascii_def)
qed (simp_all add: ascii_def is_digit_def All_less_Suc)

lemma sid_hash_mix_inj: "sid_hash_mix_u64 h v = sid_hash_mix_u64 h' v' \<longleftrightarrow> h XOR v = h' XOR v'"
proof
  have inv: "(1099511628211 :: u64) * 14886173955864302971 = 1" by simp
  assume "sid_hash_mix_u64 h v = sid_hash_mix_u64 h' v'"
  then have "(h XOR v) * 1099511628211 * 14886173955864302971 = (h' XOR v') * 1099511628211 * 14886173955864302971"
    by (simp only: sid_hash_mix_u64_def)
  then show "h XOR v = h' XOR v'" by (simp only: mult.assoc inv mult_1_right)
qed (simp only: sid_hash_mix_u64_def)

lemma xor_cancel: "a XOR v = b XOR v \<longleftrightarrow> a = b" "v XOR a = v XOR b \<longleftrightarrow> a = b" for a b v :: u64
  by (auto simp: bit_eq_iff bit_xor_iff)

lemma fold_mix_inj:
  "fold (\<lambda>v h. sid_hash_mix_u64 h v) vs h = fold (\<lambda>v h. sid_hash_mix_u64 h v) vs h' \<longleftrightarrow> h = h'"
  by (induction vs arbitrary: h h') (auto simp: sid_hash_mix_inj xor_cancel)

text \<open>
  The fingerprint tells two sets of SIDs apart that differ in exactly one SID: the mixing steps are bijections
  of the 64-bit words, because the multiplier is odd.
\<close>

lemma fingerprint_detects_change:
  assumes "fingerprint_sids sys ifs ops = us @ v # vs" and "fingerprint_sids sys' ifs' ops' = us @ v' # vs" and "v \<noteq> v'"
  shows "compute_sid_fingerprint sys ifs ops \<noteq> compute_sid_fingerprint sys' ifs' ops'"
  unfolding compute_sid_fingerprint_def assms(1,2) using assms(3)
  by (simp add: fold_mix_inj sid_hash_mix_inj xor_cancel)

lemma fingerprint_detects_change_witness:
  "\<forall>sys ifs. compute_sid_fingerprint sys ifs \<lparr>reboot_rpc_sid = 61000, reboot_input_delay = 1, reset_action_sid = 60002,
       reset_input_reset_at = 1, reset_output_finished_at = 2, ops_loaded = True\<rparr>
   \<noteq> compute_sid_fingerprint sys ifs \<lparr>reboot_rpc_sid = 61000, reboot_input_delay = 1, reset_action_sid = 60002,
       reset_input_reset_at = 1, reset_output_finished_at = 3, ops_loaded = True\<rparr>"
proof (intro allI, rule fingerprint_detects_change)
  fix sys :: RuntimeSystemSids and ifs :: RuntimeInterfacesSids
  let ?us = "[sys_module sys, clock sys, clock_boot sys, clock_current sys, ntp_enabled sys, ntp_server sys,
      ntp_server_name sys, ntp_server_prefer sys, ntp_server_udp sys, ntp_server_udp_address sys,
      if_module ifs, iface ifs, iface_description ifs, iface_enabled ifs, iface_name ifs, iface_type ifs,
      iface_oper_status ifs, identity_ethernet_csmacd ifs, 61000, 1, 60002, 1]"
  show "fingerprint_sids sys ifs \<lparr>reboot_rpc_sid = 61000, reboot_input_delay = 1, reset_action_sid = 60002,
      reset_input_reset_at = 1, reset_output_finished_at = 2, ops_loaded = True\<rparr> = ?us @ 2 # []"
    "fingerprint_sids sys ifs \<lparr>reboot_rpc_sid = 61000, reboot_input_delay = 1, reset_action_sid = 60002,
      reset_input_reset_at = 1, reset_output_finished_at = 3, ops_loaded = True\<rparr> = ?us @ 3 # []"
    by (simp_all add: fingerprint_sids_def)
qed simp

end
