(* ===== verification/Timestamp.thy ===== *)
theory Timestamp
  imports Delete
begin

text \<open>
  \<open>parse_utc_timestamp\<close> and \<open>format_utc_timestamp\<close> of \<open>src/iot_containers/iot_apps/coreconf_server.c\<close> with what
  they use of the C library: \<open>sscanf\<close> with the conversions \<open>%4d\<close>, \<open>%2d\<close> and \<open>%c\<close>, \<open>timegm\<close>, \<open>gmtime_r\<close> and
  \<open>strftime\<close>. Times are seconds since 1970 in the proleptic Gregorian calendar, without leap seconds.
\<close>

section \<open>The calendar\<close>

text \<open>Days of a date; the year begins in March here, so that the leap day is its last day.\<close>

definition days_from_civil :: "int \<Rightarrow> int \<Rightarrow> int \<Rightarrow> int" where
  "days_from_civil y m d =
     (let y = (if m \<le> 2 then y - 1 else y); era = y div 400; yoe = y mod 400;
          doy = (153 * ((m + 9) mod 12) + 2) div 5 + d - 1;
          doe = yoe * 365 + yoe div 4 - yoe div 100 + doy
      in era * 146097 + doe - 719468)"

text \<open>The way back, by the number of whole centuries, four-year periods and years.\<close>

definition civil_from_days :: "int \<Rightarrow> int \<times> int \<times> int" where
  "civil_from_days z =
     (let z = z + 719468; era = z div 146097; doe = z mod 146097;
          c = min 3 (doe div 36524); doc = doe - c * 36524;
          q = min 24 (doc div 1461); doq = doc - q * 1461;
          r = min 3 (doq div 365); doy = doq - r * 365;
          mp = (5 * doy + 2) div 153; d = doy - (153 * mp + 2) div 5 + 1;
          m = (if mp < 10 then mp + 3 else mp - 9);
          y = 100 * c + 4 * q + r + era * 400
      in (if m \<le> 2 then y + 1 else y, m, d))"

text \<open>\<open>timegm\<close> on the calendar month and year; a month outside 1 to 12 carries into the year.\<close>

definition timegm :: "int \<Rightarrow> int \<Rightarrow> int \<Rightarrow> int \<Rightarrow> int \<Rightarrow> int \<Rightarrow> int" where
  "timegm year month day hour minute second =
     (let mon = month - 1; y = year + mon div 12; m = mon mod 12
      in (days_from_civil y (m + 1) 1 + day - 1) * 86400 + hour * 3600 + minute * 60 + second)"

section \<open>Reading\<close>

definition scan_int :: "nat \<Rightarrow> bytes \<Rightarrow> (int \<times> bytes) option" where
  "scan_int width str =
     (let t = dropWhile is_space str;
          sgn = (t \<noteq> [] \<and> (hd t = 0x2D \<or> hd t = 0x2B));
          u = (if sgn then tl t else t); w = (if sgn then width - 1 else width);
          ds = takeWhile is_digit (take w u)
      in if ds = [] then None
         else Some ((if sgn \<and> hd t = 0x2D then - 1 else 1) * int (digits_value ds), drop (length ds) u))"

definition scan_char :: "u8 \<Rightarrow> bytes \<Rightarrow> bytes option" where
  "scan_char c str = (if str \<noteq> [] \<and> hd str = c then Some (tl str) else None)"

definition parse_utc_timestamp :: "bytes \<Rightarrow> int option" where
  "parse_utc_timestamp str =
     (case scan_int 4 (c_string str) of None \<Rightarrow> None | Some (year, s) \<Rightarrow>
     (case scan_char 0x2D s of None \<Rightarrow> None | Some s \<Rightarrow>
     (case scan_int 2 s of None \<Rightarrow> None | Some (month, s) \<Rightarrow>
     (case scan_char 0x2D s of None \<Rightarrow> None | Some s \<Rightarrow>
     (case scan_int 2 s of None \<Rightarrow> None | Some (day, s) \<Rightarrow>
     (case scan_char 0x54 s of None \<Rightarrow> None | Some s \<Rightarrow>
     (case scan_int 2 s of None \<Rightarrow> None | Some (hour, s) \<Rightarrow>
     (case scan_char 0x3A s of None \<Rightarrow> None | Some s \<Rightarrow>
     (case scan_int 2 s of None \<Rightarrow> None | Some (minute, s) \<Rightarrow>
     (case scan_char 0x3A s of None \<Rightarrow> None | Some s \<Rightarrow>
     (case scan_int 2 s of None \<Rightarrow> None | Some (second, s) \<Rightarrow>
      if s \<noteq> [] \<and> hd s = 0x5A then Some (timegm year month day hour minute second) else None)))))))))))"

section \<open>Writing\<close>

definition two_digits :: "int \<Rightarrow> bytes" where
  "two_digits n = [0x30 + of_int (n div 10), 0x30 + of_int (n mod 10)]"

definition year_digits :: "int \<Rightarrow> bytes" where
  "year_digits y = (if y < 0 then 0x2D # decimal (nat (- y)) else decimal (nat y))"

definition format_utc_timestamp :: "nat \<Rightarrow> int \<Rightarrow> bytes option" where
  "format_utc_timestamp out_sz when =
     (let (y, m, d) = civil_from_days (when div 86400); s = when mod 86400;
          out = year_digits y @ [0x2D] @ two_digits m @ [0x2D] @ two_digits d @ [0x54] @
                two_digits (s div 3600) @ [0x3A] @ two_digits (s div 60 mod 60) @ [0x3A] @ two_digits (s mod 60) @ [0x5A]
      in if length out < out_sz then Some out else None)"

section \<open>Reading back what was written\<close>

lemma cycle_bounds:
  fixes n k m e :: int
  assumes "0 \<le> n" "n < k * (m + 1) + e" "0 < k" "0 \<le> m" "0 \<le> e"
  shows "0 \<le> min m (n div k)" "min m (n div k) \<le> m" "0 \<le> n - min m (n div k) * k" "n - min m (n div k) * k < k + e"
proof -
  have d: "k * (n div k) + n mod k = n" "0 \<le> n mod k" "n mod k < k" using assms by simp_all
  have p: "0 \<le> n div k" using assms by (simp add: pos_imp_zdiv_nonneg_iff)
  show "0 \<le> min m (n div k)" "min m (n div k) \<le> m" using p assms by simp_all
  have "min m (n div k) * k \<le> k * (n div k)"
    using assms(3) by (subst mult.commute, intro mult_left_mono) simp_all
  then show "0 \<le> n - min m (n div k) * k" using d by linarith
  show "n - min m (n div k) * k < k + e"
  proof (cases "n div k \<le> m")
    case True
    then have "min m (n div k) * k = k * (n div k)" by (simp add: min_def mult.commute)
    then show ?thesis using d assms(5) by linarith
  next
    case False
    then have "min m (n div k) = m" by simp
    then show ?thesis using assms(2) by (simp add: algebra_simps)
  qed
qed

lemma month_bounds:
  fixes doy :: int
  assumes "0 \<le> doy" "doy \<le> 365"
  shows "0 \<le> (5 * doy + 2) div 153" "(5 * doy + 2) div 153 \<le> 11"
    "0 \<le> doy - (153 * ((5 * doy + 2) div 153) + 2) div 5" "doy - (153 * ((5 * doy + 2) div 153) + 2) div 5 \<le> 30"
proof -
  define q t where "q = (5 * doy + 2) div 153" and "t = (153 * q + 2) div 5"
  have q: "153 * q \<le> 5 * doy + 2" "5 * doy + 2 < 153 * q + 153" unfolding q_def by linarith+
  have t: "5 * t \<le> 153 * q + 2" "153 * q + 2 < 5 * t + 5" unfolding t_def by linarith+
  show "0 \<le> (5 * doy + 2) div 153" "(5 * doy + 2) div 153 \<le> 11" using q assms unfolding q_def[symmetric] by linarith+
  show "0 \<le> doy - (153 * ((5 * doy + 2) div 153) + 2) div 5" "doy - (153 * ((5 * doy + 2) div 153) + 2) div 5 \<le> 30"
    using q t unfolding q_def[symmetric] t_def[symmetric] by linarith+
qed

lemma days_from_civil_day: "days_from_civil y m d = days_from_civil y m 1 + (d - 1)"
proof -
  have "e + (u + (x + d - 1)) - k = e + (u + (x + 1 - 1)) - k + (d - 1)" for e u x k :: int by simp
  then show ?thesis unfolding days_from_civil_def Let_def .
qed

lemma days_civil_inverse:
  assumes "civil_from_days z = (y, m, d)"
  shows "days_from_civil y m d = z" "1 \<le> m" "m \<le> 12" "1 \<le> d" "d \<le> 31"
proof -
  define era doe where "era = (z + 719468) div 146097" and "doe = (z + 719468) mod 146097"
  define c where "c = min 3 (doe div 36524)" define doc where "doc = doe - c * 36524"
  define q where "q = min 24 (doc div 1461)" define doq where "doq = doc - q * 1461"
  define r where "r = min 3 (doq div 365)" define doy where "doy = doq - r * 365"
  define mp where "mp = (5 * doy + 2) div 153"
  have doe: "0 \<le> doe" "doe < 146097" "z + 719468 = era * 146097 + doe"
    by (simp_all add: doe_def era_def mult.commute)
  have c: "0 \<le> c" "c \<le> 3" "0 \<le> doc" "doc < 36525"
    using cycle_bounds[of doe 36524 3 1] doe by (simp_all add: c_def doc_def)
  have q: "0 \<le> q" "q \<le> 24" "0 \<le> doq" "doq < 1461"
    using cycle_bounds[of doc 1461 24 0] c by (simp_all add: q_def doq_def)
  have r: "0 \<le> r" "r \<le> 3" "0 \<le> doy" "doy < 366"
    using cycle_bounds[of doq 365 3 1] q by (simp_all add: r_def doy_def)
  note mb = month_bounds[of doy, folded mp_def]
  have mp: "0 \<le> mp" "mp \<le> 11" "0 \<le> doy - (153 * mp + 2) div 5" "doy - (153 * mp + 2) div 5 \<le> 30"
    using mb r by simp_all
  have ymd: "m = (if mp < 10 then mp + 3 else mp - 9)" "d = doy - (153 * mp + 2) div 5 + 1"
      "y = (if m \<le> 2 then 100 * c + 4 * q + r + era * 400 + 1 else 100 * c + 4 * q + r + era * 400)"
    using assms unfolding civil_from_days_def Let_def
    unfolding era_def[symmetric] doe_def[symmetric] c_def[symmetric] doc_def[symmetric] q_def[symmetric]
      doq_def[symmetric] r_def[symmetric] doy_def[symmetric] mp_def[symmetric]
    by auto
  show "1 \<le> m" "m \<le> 12" "1 \<le> d" "d \<le> 31" using ymd mp by (auto split: if_splits)
  let ?yoe = "100 * c + 4 * q + r"
  have y': "(if m \<le> 2 then y - 1 else y) = ?yoe + era * 400" using ymd(3) by auto
  have mp': "(m + 9) mod 12 = mp"
    using ymd(1) mp by (cases "mp < 10") (simp_all add: mod_pos_pos_trivial)
  have y400: "(?yoe + era * 400) div 400 = era" "(?yoe + era * 400) mod 400 = ?yoe"
    using c q r by (simp_all add: div_pos_pos_trivial mod_pos_pos_trivial)
  have yd: "?yoe div 4 = 25 * c + q" "?yoe div 100 = c" using c q r by linarith+
  have "days_from_civil y m d = era * 146097 + (?yoe * 365 + ?yoe div 4 - ?yoe div 100 + doy) - 719468"
    unfolding days_from_civil_def Let_def y' mp' y400 using ymd(2) by simp
  also have "\<dots> = era * 146097 + doe - 719468" unfolding yd by (simp add: doy_def doq_def doc_def)
  finally show "days_from_civil y m d = z" using doe(3) by simp
qed

lemma scan_int_digits:
  assumes "ds \<noteq> []" and "\<forall>b \<in> set ds. is_digit b"
  shows "scan_int (length ds) (ds @ rest) = Some (int (digits_value ds), rest)"
proof -
  obtain b bs where b: "ds = b # bs" using assms(1) by (cases ds) auto
  then have nb: "\<not> is_space b" "b \<noteq> 0x2D" "b \<noteq> 0x2B" using assms(2) digit_not by auto
  then have d: "dropWhile is_space (ds @ rest) = ds @ rest" using b by simp
  have "takeWhile is_digit ds = ds" using assms(2) by (simp add: takeWhile_eq_all_conv)
  then show ?thesis
    using b nb assms(1) unfolding scan_int_def d by (simp add: Let_def)
qed

lemma digit_int:
  assumes "0 \<le> n" "n < 10"
  shows "is_digit (0x30 + of_int n)" "unat (of_int n :: u8) = nat n"
proof -
  have e: "(of_int n :: u8) = of_nat (nat n)" using assms by simp
  show "unat (of_int n :: u8) = nat n"
    using assms digit_byte(2)[of "nat n"] unfolding e by simp
  show "is_digit (0x30 + of_int n)"
    using assms digit_byte(1)[of "nat n"] unfolding e is_digit_def word_le_nat_alt by simp
qed

lemma scan_two_digits:
  assumes "0 \<le> n" "n < 100"
  shows "scan_int 2 (two_digits n @ rest) = Some (n, rest)"
proof -
  have n: "0 \<le> n div 10" "n div 10 < 10" "0 \<le> n mod 10" "n mod 10 < 10" using assms by simp_all
  have v: "int (digits_value (two_digits n)) = n"
    using digit_int(2)[OF n(1,2)] digit_int(2)[OF n(3,4)] n(1,3)
    by (simp add: two_digits_def digits_value_def)
  have "\<forall>b \<in> set (two_digits n). is_digit b"
    using digit_int(1)[OF n(1,2)] digit_int(1)[OF n(3,4)] by (simp add: two_digits_def)
  from scan_int_digits[OF _ this, of rest] v show ?thesis by (simp add: two_digits_def numeral_2_eq_2)
qed

lemma two_digits_digits: "0 \<le> n \<Longrightarrow> n < 100 \<Longrightarrow> b \<in> set (two_digits n) \<Longrightarrow> is_digit b"
  using digit_int(1)[of "n div 10"] digit_int(1)[of "n mod 10"] by (auto simp: two_digits_def)

lemma time_of_day:
  fixes u :: int
  assumes "0 \<le> u" "u < 86400"
  shows "0 \<le> u div 3600" "u div 3600 < 100" "0 \<le> u div 60 mod 60" "u div 60 mod 60 < 100" "0 \<le> u mod 60" "u mod 60 < 100"
    "u div 3600 * 3600 + u div 60 mod 60 * 60 + u mod 60 = u"
proof -
  have "u div 3600 = u div 60 div 60" using zdiv_zmult2_eq[of 60 u 60] by simp
  then show "u div 3600 * 3600 + u div 60 mod 60 * 60 + u mod 60 = u"
    using div_mult_mod_eq[of u 60] div_mult_mod_eq[of "u div 60" 60] by linarith
  show "0 \<le> u div 3600" "u div 3600 < 100" "0 \<le> u div 60 mod 60" "u div 60 mod 60 < 100" "0 \<le> u mod 60" "u mod 60 < 100"
    using assms by linarith+
qed

lemma length_decimal_4: "1000 \<le> n \<Longrightarrow> n < 10000 \<Longrightarrow> length (decimal n) = 4"
proof -
  assume n: "1000 \<le> n" "n < 10000"
  then have "\<not> n < 10" "\<not> n div 10 < 10" "\<not> n div 10 div 10 < 10" "n div 10 div 10 div 10 < 10"
    by linarith+
  then show ?thesis
    by (simp add: decimal.simps[of n] decimal.simps[of "n div 10"] decimal.simps[of "n div 10 div 10"]
        decimal.simps[of "n div 10 div 10 div 10"])
qed

lemma scan_year:
  assumes "1000 \<le> y" "y \<le> 9999"
  shows "scan_int 4 (year_digits y @ rest) = Some (y, rest)" "length (year_digits y) = 4"
proof -
  have l: "length (decimal (nat y)) = 4" using assms by (intro length_decimal_4) simp_all
  show "scan_int 4 (year_digits y @ rest) = Some (y, rest)"
    using scan_int_digits[OF decimal_ne, of "nat y" rest] is_digit_decimal l assms
    by (simp add: year_digits_def digits_value_decimal)
  show "length (year_digits y) = 4" using l assms by (simp add: year_digits_def)
qed

text \<open>
  C34. Timestamps: a time whose year has four digits is written in the format \<open>YYYY-MM-DDTHH:MM:SSZ\<close>, which fits
  the 32-byte array of the caller, and reading that text gives the same time back.
\<close>

theorem timestamp_roundtrip:
  assumes "1000 \<le> fst (civil_from_days (t div 86400))" and "fst (civil_from_days (t div 86400)) \<le> 9999"
  shows "\<exists>out. format_utc_timestamp 32 t = Some out \<and> length out = 20 \<and> parse_utc_timestamp out = Some t"
proof -
  obtain y m d where ymd: "civil_from_days (t div 86400) = (y, m, d)" by (cases "civil_from_days (t div 86400)")
  note inv = days_civil_inverse[OF ymd]
  have y: "1000 \<le> y" "y \<le> 9999" using assms ymd by simp_all
  define u h mi se where "u = t mod 86400" and "h = u div 3600" and "mi = u div 60 mod 60" and "se = u mod 60"
  have b: "0 \<le> h" "h < 100" "0 \<le> mi" "mi < 100" "0 \<le> se" "se < 100" and tod: "h * 3600 + mi * 60 + se = u"
    using time_of_day[of u, folded h_def mi_def se_def] by (simp_all add: u_def)
  have md: "0 \<le> m" "m < 100" "0 \<le> d" "d < 100" using inv by linarith+
  define out where "out = year_digits y @ [0x2D] @ two_digits m @ [0x2D] @ two_digits d @ [0x54] @
     two_digits h @ [0x3A] @ two_digits mi @ [0x3A] @ two_digits se @ [0x5A]"
  have len: "length out = 20" using scan_year(2)[OF y] by (simp add: out_def two_digits_def)
  then have f: "format_utc_timestamp 32 t = Some out"
    unfolding format_utc_timestamp_def ymd Let_def prod.case u_def[symmetric]
    unfolding h_def[symmetric] mi_def[symmetric] se_def[symmetric] out_def[symmetric] by simp
  have nz: "b \<noteq> 0" if "b \<in> set out" for b
  proof -
    have "b \<in> set (decimal (nat y)) \<or> b \<in> set (two_digits m) \<or> b \<in> set (two_digits d) \<or> b \<in> set (two_digits h) \<or>
        b \<in> set (two_digits mi) \<or> b \<in> set (two_digits se) \<or> b \<in> {0x2D, 0x54, 0x3A, 0x5A}"
      using that y by (simp add: out_def year_digits_def) blast
    then have "is_digit b \<or> b \<in> {0x2D, 0x54, 0x3A, 0x5A}"
      using is_digit_decimal two_digits_digits b md by blast
    then show ?thesis using digit_not by auto
  qed
  then have c: "c_string out = out" by (auto simp: c_string_def takeWhile_eq_all_conv)
  have "days_from_civil y m 1 + d - 1 = t div 86400"
    using inv(1) days_from_civil_day[of y m d] by linarith
  moreover have "(m - 1) div 12 = 0" "(m - 1) mod 12 = m - 1" using inv(2,3) by simp_all
  ultimately have "timegm y m d h mi se = t div 86400 * 86400 + (h * 3600 + mi * 60 + se)"
    by (simp add: timegm_def Let_def)
  also have "\<dots> = t" unfolding tod u_def by simp
  finally have tg: "timegm y m d h mi se = t" .
  have "parse_utc_timestamp out = Some (timegm y m d h mi se)"
    unfolding parse_utc_timestamp_def c unfolding out_def
    by (simp add: scan_year(1)[OF y] scan_two_digits b md scan_char_def)
  then show ?thesis using f len tg by simp
qed

theorem timestamp_roundtrip_witness:
  "\<exists>out. format_utc_timestamp 32 1477484194 = Some out \<and> length out = 20 \<and> parse_utc_timestamp out = Some 1477484194"
proof (rule timestamp_roundtrip)
  have "fst (civil_from_days (1477484194 div 86400)) = 2016" by code_simp
  then show "1000 \<le> fst (civil_from_days (1477484194 div 86400))" "fst (civil_from_days (1477484194 div 86400)) \<le> 9999"
    by simp_all
qed

end
