(* ===== verification/Server.thy ===== *)
theory Server
  imports Server_Sids Timestamp
begin

text \<open>
  The request handlers of \<open>src/iot_containers/iot_apps/coreconf_server.c\<close> over the global state of the server:
  the datastore with its existence flag, the event queue and the SIDs. libcoap is an interface: a request is
  what the handlers read of it (content format and payload), a response is what they put into it
  (code, content format, data), and calls that act on the outside, \<open>coap_resource_notify_observers\<close> and \<open>system\<close>, are
  listed as effects in their order. A handler may fault (a dereference or read that C leaves undefined) or, because
  of the decoder, not return within the fuel. Log output is left out.
\<close>

section \<open>State, requests and responses\<close>

record server =
  g_datastore :: "CoreconfValue option"
  g_ds_exists :: bool
  g_stream_events :: "bytes list"
  g_sys_sids :: RuntimeSystemSids
  g_if_sids :: RuntimeInterfacesSids
  g_ops_sids :: RuntimeOperationSids
  g_sid_fingerprint :: u64

datatype coap_code =
    CONTENT | CREATED | CHANGED | DELETED
  | BAD_REQUEST | NOT_FOUND | CONFLICT | UNSUPPORTED_CONTENT_FORMAT | INTERNAL_ERROR

record request =
  req_cf :: "u32 option"
  req_data :: "bytes option"

record response =
  resp_code :: coap_code
  resp_cf :: "u16 option"
  resp_data :: bytes

datatype effect = NotifyObservers string | System bytes

text \<open>
  What a call finds besides the state: fuel for the decoder, the old contents of the stack under the zcbor
  states and under the 4096-byte buffer, and the time.
\<close>

record call_env =
  env_fuel :: nat
  env_stack :: zcbor_state
  env_buf :: bytes
  env_now :: int

type_synonym outcome = "(c_fault + server \<times> response \<times> effect list) option"

definition CF_YANG_DATA_CBOR :: u16 where "CF_YANG_DATA_CBOR = 140"
definition CF_YANG_IDENTIFIERS :: u16 where "CF_YANG_IDENTIFIERS = 141"
definition CF_YANG_INSTANCES :: u16 where "CF_YANG_INSTANCES = 142"
definition CF_TEXT_PLAIN :: u16 where "CF_TEXT_PLAIN = 0"

definition get_content_format :: "request \<Rightarrow> u16" where
  "get_content_format req = (case req_cf req of None \<Rightarrow> 0xFFFF | Some v \<Rightarrow> ucast v)"

text \<open>\<open>coap_get_data\<close> with the test for an empty payload that every caller adds.\<close>

definition get_payload :: "request \<Rightarrow> bytes option" where
  "get_payload req = (case req_data req of Some bs \<Rightarrow> if length bs = 0 then None else Some bs | None \<Rightarrow> None)"

section \<open>Errors\<close>

definition encode_error :: "nat \<Rightarrow> u64 \<Rightarrow> bytes \<Rightarrow> bytes" where
  "encode_error sz esid msg =
     (let ml = length msg in
      if sz < 16 + ml then []
      else [0xA1, 0x19, 0x04, 0x00, 0xA2, 0x04] @
        (if esid < 24 then [ucast esid]
         else if esid < 256 then [0x18, ucast esid]
         else [0x19, ucast (drop_bit 8 esid), ucast (esid AND 0xFF)]) @
        [0x03] @
        (if ml < 24 then [0x60 OR of_nat ml] else [0x78, of_nat ml]) @ msg)"

definition send_error :: "coap_code \<Rightarrow> u64 \<Rightarrow> bytes \<Rightarrow> response" where
  "send_error code esid msg =
     (let bs = encode_error 512 esid msg in
      if length bs > 0 then \<lparr>resp_code = code, resp_cf = Some CF_YANG_DATA_CBOR, resp_data = bs\<rparr>
      else \<lparr>resp_code = code, resp_cf = None, resp_data = []\<rparr>)"

definition refuse :: "server \<Rightarrow> coap_code \<Rightarrow> u64 \<Rightarrow> bytes \<Rightarrow> outcome" where
  "refuse sv code esid msg = Some (Inr (sv, send_error code esid msg, []))"

definition dash :: bytes where
  "dash = [0xE2, 0x80, 0x94]"

section \<open>The simple handlers\<close>

definition handle_sid_info :: "server \<Rightarrow> outcome" where
  "handle_sid_info sv =
     Some (Inr (sv, \<lparr>resp_code = CONTENT, resp_cf = Some CF_TEXT_PLAIN,
       resp_data = take 95 (ascii ''sid-fingerprint='' @ decimal (unat (g_sid_fingerprint sv)) @ [0x0A])\<rparr>, []))"

definition handle_stream_get :: "server \<Rightarrow> outcome" where
  "handle_stream_get sv =
     Some (Inr (sv, \<lparr>resp_code = CONTENT, resp_cf = Some CF_YANG_INSTANCES,
       resp_data = stream_encode_sequence BUFFER_SIZE 8 (g_stream_events sv)\<rparr>, []))"

definition handle_stream_fetch :: "call_env \<Rightarrow> server \<Rightarrow> request \<Rightarrow> outcome" where
  "handle_stream_fetch env sv req =
     (let respond = (\<lambda>filter_sids.
            Some (map_sum id (\<lambda>bs. (sv, \<lparr>resp_code = CONTENT, resp_cf = Some CF_YANG_INSTANCES, resp_data = bs\<rparr>, []))
              (stream_encode_sequence_filtered (env_stack env) BUFFER_SIZE 8 filter_sids (g_stream_events sv))))
      in case get_payload req of
          None \<Rightarrow> respond []
        | Some qdata \<Rightarrow>
            if get_content_format req \<noteq> CF_YANG_IDENTIFIERS
            then refuse sv UNSUPPORTED_CONTENT_FORMAT 1012 (ascii ''FETCH /s with payload requires CF=141'')
            else case stream_collect_filter_sids (env_stack env) qdata (length qdata) 64 of
                None \<Rightarrow> refuse sv BAD_REQUEST 1012 (ascii ''FETCH /s filter payload has no valid IIDs'')
              | Some filter_sids \<Rightarrow> respond filter_sids)"

text \<open>The map of the datastore, as \<open>g_datastore->data.map_value\<close> reads it.\<close>

definition map_value :: "server \<Rightarrow> c_fault + CoreconfValue CoreconfHashMap" where
  "map_value sv =
     (case g_datastore sv of
        None \<Rightarrow> Inl NullDereference
      | Some (CORECONF_HASHMAP hm) \<Rightarrow> Inr hm
      | Some _ \<Rightarrow> Inl WrongUnionMember)"

definition handle_get :: "call_env \<Rightarrow> server \<Rightarrow> outcome" where
  "handle_get env sv =
     (let empty = refuse sv NOT_FOUND 1013 (ascii ''datastore empty '' @ dash @ ascii '' use PUT /c first'') in
      if g_datastore sv = None \<or> \<not> g_ds_exists sv then empty
      else case map_value sv of
          Inl f \<Rightarrow> Some (Inl f)
        | Inr hm \<Rightarrow>
            if hm_size hm = 0 then empty
            else case create_get_response (env_stack env) (Some (env_buf env)) BUFFER_SIZE (g_datastore sv) of
                (len, buf) \<Rightarrow>
                  if len = 0 then refuse sv INTERNAL_ERROR 1013 (ascii ''serialize error'')
                  else Some (Inr (sv, \<lparr>resp_code = CONTENT, resp_cf = Some CF_YANG_DATA_CBOR,
                                       resp_data = take len (the buf)\<rparr>, [])))"

definition handle_delete :: "call_env \<Rightarrow> server \<Rightarrow> outcome" where
  "handle_delete env sv =
     (if g_datastore sv = None \<or> \<not> g_ds_exists sv
      then refuse sv NOT_FOUND 1013 (ascii ''datastore not found'')
      else case map_value sv of
          Inl f \<Rightarrow> Some (Inl f)
        | Inr hm \<Rightarrow>
            (case stream_push_notification_map (env_stack env) (sys_module (g_sys_sids sv)) (g_stream_events sv) [0xA0] 0 1 of
               Inl f \<Rightarrow> Some (Inl f)
             | Inr events \<Rightarrow>
                 Some (Inr (sv\<lparr>g_datastore := None, g_ds_exists := False, g_stream_events := events\<rparr>,
                            \<lparr>resp_code = DELETED, resp_cf = None, resp_data = []\<rparr>, [NotifyObservers ''delete'']))))"

section \<open>iPATCH and PUT\<close>

definition handle_ipatch :: "call_env \<Rightarrow> server \<Rightarrow> request \<Rightarrow> outcome" where
  "handle_ipatch env sv req =
     (if get_content_format req \<noteq> CF_YANG_INSTANCES
      then refuse sv UNSUPPORTED_CONTENT_FORMAT 1012 (ascii ''iPATCH requires CF=142 (yang-instances+cbor-seq)'')
      else case get_payload req of
          None \<Rightarrow> refuse sv BAD_REQUEST 1012 (ascii ''missing payload'')
        | Some bs \<Rightarrow>
            if g_datastore sv = None \<or> \<not> g_ds_exists sv
            then refuse sv NOT_FOUND 1019 (ascii ''no datastore '' @ dash @ ascii '' use PUT /c first'')
            else case apply_ipatch_raw (env_fuel env) (env_stack env) (g_datastore sv) (Some bs) (length bs) of
                None \<Rightarrow> None
              | Some (Inl f) \<Rightarrow> Some (Inl f)
              | Some (Inr (n, ds)) \<Rightarrow>
                  let sv = sv\<lparr>g_datastore := ds\<rparr> in
                  (case map_value sv of
                     Inl f \<Rightarrow> Some (Inl f)
                   | Inr hm \<Rightarrow>
                       let resp = \<lparr>resp_code = CHANGED, resp_cf = None, resp_data = []\<rparr> in
                       if n \<ge> 0
                       then (case stream_push_notification_sequence (env_stack env) (sys_module (g_sys_sids sv))
                                    (g_stream_events sv) bs (length bs) of
                               Inl f \<Rightarrow> Some (Inl f)
                             | Inr events \<Rightarrow>
                                 Some (Inr (sv\<lparr>g_stream_events := events\<rparr>, resp, [NotifyObservers ''ipatch''])))
                       else Some (Inr (sv, resp, []))))"

definition SID_PASSWORD :: u64 where
  "SID_PASSWORD = 1735"

text \<open>The shell command for a new password, cut to the 511 characters that \<open>snprintf\<close> leaves in the array.\<close>

definition password_command :: "bytes \<Rightarrow> bytes" where
  "password_command pw =
     take 511 (ascii ''/usr/local/bin/rotate_password.sh iotadmin '' @ [0x27] @ c_string pw @ [0x27])"

definition handle_put :: "call_env \<Rightarrow> server \<Rightarrow> request \<Rightarrow> outcome" where
  "handle_put env sv req =
     (if get_content_format req \<noteq> CF_YANG_DATA_CBOR
      then refuse sv UNSUPPORTED_CONTENT_FORMAT 1012 (ascii ''PUT requires CF=140 (yang-data+cbor;id=sid)'')
      else case get_payload req of
          None \<Rightarrow> refuse sv BAD_REQUEST 1012 (ascii ''missing payload'')
        | Some bs \<Rightarrow>
            (case parse_put_request (env_fuel env) (env_stack env) (Some bs) (length bs) of
               None \<Rightarrow> None
             | Some (Some (CORECONF_HASHMAP hm)) \<Rightarrow>
                 let rotate = (case getCoreconfHashMap hm SID_PASSWORD of
                                 Some (CORECONF_STRING pw) \<Rightarrow> [System (password_command pw)]
                               | _ \<Rightarrow> []) in
                 (case stream_push_notification_map (env_stack env) (sys_module (g_sys_sids sv)) (g_stream_events sv)
                         bs 0 (length bs) of
                    Inl f \<Rightarrow> Some (Inl f)
                  | Inr events \<Rightarrow>
                      Some (Inr (sv\<lparr>g_datastore := Some (CORECONF_HASHMAP hm), g_ds_exists := True,
                                    g_stream_events := events\<rparr>,
                                 \<lparr>resp_code = CHANGED, resp_cf = None, resp_data = []\<rparr>,
                                 rotate @ [NotifyObservers ''put''])))
             | Some _ \<Rightarrow> refuse sv BAD_REQUEST 1012 (ascii ''bad CBOR datastore'')))"

section \<open>POST\<close>

text \<open>
  One RPC or action: the response item, or the error that ends the request. The delay of a reboot is only
  printed, but it is converted first: a real of \<open>2 ^ 64\<close> or more makes that conversion undefined.
\<close>

definition post_one :: "call_env \<Rightarrow> server \<Rightarrow> PostItem \<Rightarrow> c_fault + response + PostItem" where
  "post_one env sv inp =
     (let ops = g_ops_sids sv;
          out_item = \<lparr>post_iid_type = post_iid_type inp, post_sid = post_sid inp,
                      post_str_key = (if post_iid_type inp = POST_IID_SID_STR_KEY
                                      then Some (case post_str_key inp of Some key \<Rightarrow> c_string key | None \<Rightarrow> [])
                                      else None),
                      post_value = None\<rparr>
      in
      if post_iid_type inp = POST_IID_SID \<and> post_sid inp = reboot_rpc_sid ops
      then (case post_value inp of
              None \<Rightarrow> Inl NullDereference
            | Some (CORECONF_HASHMAP hm) \<Rightarrow>
                (case getCoreconfHashMap hm (reboot_input_delay ops) of
                   None \<Rightarrow> Inr (Inr (out_item\<lparr>post_value := Some CORECONF_NULL\<rparr>))
                 | Some delay_value \<Rightarrow>
                     (case getCoreconfValueAsUint64 delay_value of
                        None \<Rightarrow> Inl ConversionOverflow
                      | Some delay \<Rightarrow> Inr (Inr (out_item\<lparr>post_value := Some CORECONF_NULL\<rparr>))))
            | Some CORECONF_NULL \<Rightarrow> Inr (Inr (out_item\<lparr>post_value := Some CORECONF_NULL\<rparr>))
            | Some _ \<Rightarrow> Inr (Inl (send_error BAD_REQUEST 1012 (ascii ''reboot RPC input must be map or null''))))
      else if post_iid_type inp = POST_IID_SID_STR_KEY \<and> post_sid inp = reset_action_sid ops
      then (case post_value inp of
              None \<Rightarrow> Inl NullDereference
            | Some (CORECONF_HASHMAP hm) \<Rightarrow>
                (case getCoreconfHashMap hm (reset_input_reset_at ops) of
                   Some (CORECONF_STRING reset_at) \<Rightarrow>
                     let reset_base = (case parse_utc_timestamp reset_at of Some t \<Rightarrow> t | None \<Rightarrow> env_now env) in
                     (case format_utc_timestamp 32 (reset_base + 3) of
                        None \<Rightarrow> Inr (Inl (send_error INTERNAL_ERROR 1013
                                  (ascii ''failed to format reset completion timestamp'')))
                      | Some reset_finished_at \<Rightarrow>
                          (case insertCoreconfHashMap empty_hashmap (reset_output_finished_at ops)
                                  (createCoreconfString reset_finished_at) of
                             (r, m) \<Rightarrow>
                               if r \<noteq> 0
                               then Inr (Inl (send_error INTERNAL_ERROR 1013 (ascii ''failed to build reset action response'')))
                               else Inr (Inr (out_item\<lparr>post_value := Some (CORECONF_HASHMAP m)\<rparr>))))
                 | _ \<Rightarrow> Inr (Inl (send_error BAD_REQUEST 1012
                           (ascii ''reset action requires key 1 as string (reset-at)''))))
            | Some _ \<Rightarrow> Inr (Inl (send_error BAD_REQUEST 1012 (ascii ''reset action input must be a map''))))
      else Inr (Inl (send_error NOT_FOUND 1012 (ascii ''unsupported RPC/action IID''))))"

fun post_each :: "call_env \<Rightarrow> server \<Rightarrow> PostItem list \<Rightarrow> PostItem list \<Rightarrow> c_fault + response + PostItem list" where
  "post_each env sv [] responses = Inr (Inr responses)"
| "post_each env sv (inp # requests) responses =
     (case post_one env sv inp of
        Inl f \<Rightarrow> Inl f
      | Inr (Inl resp) \<Rightarrow> Inr (Inl resp)
      | Inr (Inr item) \<Rightarrow> post_each env sv requests (responses @ [item]))"

definition post_create :: "call_env \<Rightarrow> server \<Rightarrow> request \<Rightarrow> outcome" where
  "post_create env sv req =
     (case get_payload req of
        None \<Rightarrow> refuse sv BAD_REQUEST 1012 (ascii ''missing payload'')
      | Some bs \<Rightarrow>
          if g_datastore sv \<noteq> None \<and> g_ds_exists sv
          then refuse sv CONFLICT 1012 (ascii ''datastore already exists - use PUT /c to replace'')
          else case parse_put_request (env_fuel env) (env_stack env) (Some bs) (length bs) of
              None \<Rightarrow> None
            | Some (Some (CORECONF_HASHMAP hm)) \<Rightarrow>
                (case stream_push_notification_map (env_stack env) (sys_module (g_sys_sids sv)) (g_stream_events sv)
                        bs 0 (length bs) of
                   Inl f \<Rightarrow> Some (Inl f)
                 | Inr events \<Rightarrow>
                     Some (Inr (sv\<lparr>g_datastore := Some (CORECONF_HASHMAP hm), g_ds_exists := True,
                                   g_stream_events := events\<rparr>,
                                \<lparr>resp_code = CREATED, resp_cf = None, resp_data = []\<rparr>, [NotifyObservers ''post-create''])))
            | Some _ \<Rightarrow> refuse sv BAD_REQUEST 1012 (ascii ''POST requires CBOR datastore map''))"

definition post_invoke :: "call_env \<Rightarrow> server \<Rightarrow> request \<Rightarrow> outcome" where
  "post_invoke env sv req =
     (case get_payload req of
        None \<Rightarrow> refuse sv BAD_REQUEST 1012 (ascii ''missing payload'')
      | Some bs \<Rightarrow>
          (case parse_post_items (env_fuel env) (env_stack env) (Some bs) (length bs) of
             None \<Rightarrow> None
           | Some (Inl f) \<Rightarrow> Some (Inl f)
           | Some (Inr None) \<Rightarrow>
               refuse sv BAD_REQUEST 1012 (ascii ''POST payload must be cbor-seq of single-pair maps'')
           | Some (Inr (Some requests)) \<Rightarrow>
               (case post_each env sv requests [] of
                  Inl f \<Rightarrow> Some (Inl f)
                | Inr (Inl resp) \<Rightarrow> Some (Inr (sv, resp, []))
                | Inr (Inr responses) \<Rightarrow>
                    (case create_post_items (env_stack env) (Some (env_buf env)) BUFFER_SIZE (Some responses) of
                       (out_len, out) \<Rightarrow>
                         if out_len = 0
                         then refuse sv INTERNAL_ERROR 1013 (ascii ''failed to encode POST response'')
                         else Some (Inr (sv, \<lparr>resp_code = CHANGED, resp_cf = Some CF_YANG_INSTANCES,
                                              resp_data = take out_len (the out)\<rparr>, []))))))"

definition handle_post :: "call_env \<Rightarrow> server \<Rightarrow> request \<Rightarrow> outcome" where
  "handle_post env sv req =
     (if get_content_format req = CF_YANG_DATA_CBOR then post_create env sv req
      else if get_content_format req \<noteq> CF_YANG_INSTANCES
      then refuse sv UNSUPPORTED_CONTENT_FORMAT 1012
             (ascii ''POST requires CF=140 (yang-data+cbor) or CF=142 (yang-instances+cbor-seq)'')
      else post_invoke env sv req)"

section \<open>FETCH\<close>

datatype FetchIid = IID_SCALAR u64 | IID_LIST u64 bytes

function fetch_iids :: "zcbor_state \<Rightarrow> bytes \<Rightarrow> nat \<Rightarrow> nat \<Rightarrow> FetchIid list \<Rightarrow> FetchIid list" where
  "fetch_iids old cbor_data len ptr iids =
     (if ptr < len \<and> length iids < 64
      then let st = zcbor_new_decode_state old 8 cbor_data ptr (len - ptr) 1;
               mt = ZCBOR_MAJOR_TYPE (cbor_data ! ptr) in
        if mt = ZCBOR_MAJOR_TYPE_PINT
        then (case zcbor_uint64_decode st of
                (None, st) \<Rightarrow> iids
              | (Some sid, st) \<Rightarrow>
                  fetch_iids (zcbor_state.truncate st) cbor_data len (payload st) (iids @ [IID_SCALAR sid]))
        else if mt = ZCBOR_MAJOR_TYPE_LIST
        then (case zcbor_list_start_decode st of
                (False, st) \<Rightarrow> iids
              | (True, st) \<Rightarrow>
              (case zcbor_uint64_decode st of
                 (None, st) \<Rightarrow> iids
               | (Some sid, st) \<Rightarrow>
              (case zcbor_tstr_decode st of
                 (None, st) \<Rightarrow> iids
               | (Some zs, st) \<Rightarrow>
              (case zcbor_list_end_decode st of
                 (False, st) \<Rightarrow> iids
               | (True, st) \<Rightarrow>
                   let kl = (if unat (snd zs) < 127 then unat (snd zs) else 127);
                       key = c_string (take kl (drop (fst zs) (mem st)))
                   in fetch_iids (zcbor_state.truncate st) cbor_data len (payload st) (iids @ [IID_LIST sid key])))))
        else iids
      else iids)"
  by pat_completeness auto
termination
  by (relation "measure (\<lambda>(old, cbor_data, len, ptr, iids). 64 - length iids)") auto

declare fetch_iids.simps [simp del]

definition fetch_find_list_entry :: "CoreconfValue option \<Rightarrow> bytes \<Rightarrow> int" where
  "fetch_find_list_entry arr key_str =
     (case arr of Some (CORECONF_ARRAY elements) \<Rightarrow> find_entry_from 0 key_str elements | _ \<Rightarrow> -1)"

text \<open>The search below the top level: the first container whose base SID is not above the SID and which has the difference.\<close>

fun find_leaf :: "u64 \<Rightarrow> CoreconfValue CoreconfObject list \<Rightarrow> CoreconfValue option" where
  "find_leaf sid [] = None"
| "find_leaf sid (obj # objs) =
     (case (if fst obj \<le> sid
            then (case snd obj of CORECONF_HASHMAP m \<Rightarrow> getCoreconfHashMap m (sid - fst obj) | _ \<Rightarrow> None)
            else None) of
        Some leaf \<Rightarrow> Some leaf
      | None \<Rightarrow> find_leaf sid objs)"

text \<open>One identifier of the response; the results of the encoder calls are not looked at.\<close>

definition fetch_put :: "CoreconfValue CoreconfHashMap \<Rightarrow> FetchIid \<Rightarrow> zcbor \<Rightarrow> zcbor" where
  "fetch_put hm iid enc =
     (case iid of
        IID_SCALAR sid \<Rightarrow>
          (case getCoreconfHashMap hm sid of
             Some val \<Rightarrow> snd (coreconfToCBOR val (snd (zcbor_uint64_put enc sid)))
           | None \<Rightarrow>
               (case find_leaf sid (hm_objects hm) of
                  Some leaf \<Rightarrow> snd (coreconfToCBOR leaf (snd (zcbor_uint64_put enc sid)))
                | None \<Rightarrow> enc))
      | IID_LIST sid key \<Rightarrow>
          (case getCoreconfHashMap hm sid of
             Some (CORECONF_ARRAY elements) \<Rightarrow>
               let idx = fetch_find_list_entry (Some (CORECONF_ARRAY elements)) key in
               if idx \<ge> 0
               then snd (zcbor_list_end_encode
                      (snd (coreconfToCBOR (elements ! nat idx)
                        (snd (zcbor_list_start_encode (snd (zcbor_uint64_put enc sid)) 1)))) 1)
               else enc
           | _ \<Rightarrow> enc))"

definition handle_fetch :: "call_env \<Rightarrow> server \<Rightarrow> request \<Rightarrow> outcome" where
  "handle_fetch env sv req =
     (if get_content_format req \<noteq> CF_YANG_IDENTIFIERS
      then refuse sv UNSUPPORTED_CONTENT_FORMAT 1012 (ascii ''FETCH requires CF=141 (yang-identifiers+cbor-seq)'')
      else case get_payload req of
          None \<Rightarrow> refuse sv BAD_REQUEST 1012 (ascii ''missing IID list'')
        | Some bs \<Rightarrow>
            if g_datastore sv = None \<or> \<not> g_ds_exists sv
            then refuse sv NOT_FOUND 1019 (ascii ''datastore empty '' @ dash @ ascii '' use PUT /c first'')
            else let iids = fetch_iids (env_stack env) bs (length bs) 0 []; n = length iids in
              if n = 0 then refuse sv BAD_REQUEST 1012 (ascii ''no IIDs in request'')
              else case map_value sv of
                  Inl f \<Rightarrow> Some (Inl f)
                | Inr hm \<Rightarrow>
                    let enc = zcbor_new_encode_state (env_stack env) 8 (env_buf env) 0 BUFFER_SIZE 1;
                        enc = snd (zcbor_map_start_encode enc (of_nat n));
                        enc = fold (fetch_put hm) iids enc;
                        enc = snd (zcbor_map_end_encode enc (of_nat n))
                    in Some (Inr (sv, \<lparr>resp_code = CONTENT, resp_cf = Some CF_YANG_INSTANCES,
                                      resp_data = take (payload enc) (mem enc)\<rparr>, [])))"

section \<open>Start and dispatch\<close>

text \<open>
  \<open>zcbor_tstr_put_lit\<close> takes the length from \<open>sizeof\<close>. Its callers here pass a \<open>char *\<close>, so it is 7 on a 64-bit
  machine, whatever the string. The string argument is the object with its terminating NUL.
\<close>

definition zcbor_tstr_put_lit :: "zcbor \<Rightarrow> bytes \<Rightarrow> c_fault + bool \<times> zcbor" where
  "zcbor_tstr_put_lit s str = zcbor_tstr_encode_ptr s (str @ [0]) 7"

definition publish_example_port_fault ::
  "zcbor_state \<Rightarrow> bytes \<Rightarrow> bytes list \<Rightarrow> bytes \<Rightarrow> bytes \<Rightarrow> c_fault + bytes list" where
  "publish_example_port_fault old buf events port_name port_fault =
     (let enc = zcbor_new_encode_state old 4 buf 0 256 1;
          enc = snd (zcbor_map_start_encode enc 2);
          enc = snd (zcbor_uint64_put enc 1) in
      case zcbor_tstr_put_lit enc port_name of
        Inl f \<Rightarrow> Inl f
      | Inr (_, enc) \<Rightarrow>
        (case zcbor_tstr_put_lit (snd (zcbor_uint64_put enc 2)) port_fault of
           Inl f \<Rightarrow> Inl f
         | Inr (_, enc) \<Rightarrow>
             let enc = snd (zcbor_map_end_encode enc 2) in
             (case stream_wrap_notification_instance 300 60010 (mem enc) 0 (payload enc) of
                Inl f \<Rightarrow> Inl f
              | Inr wrapped \<Rightarrow> Inr (stream_push_event events wrapped))))"

record sid_files =
  system_file :: "bytes option"
  interfaces_file :: "bytes option"
  operations_file :: "bytes option"

text \<open>The part of \<open>main\<close> before the loop; \<open>None\<close> is an exit with an error.\<close>

definition no_system_sids :: RuntimeSystemSids where
  "no_system_sids = \<lparr>sys_module = 0, clock = 0, clock_boot = 0, clock_current = 0, ntp_enabled = 0, ntp_server = 0,
     ntp_server_name = 0, ntp_server_prefer = 0, ntp_server_udp = 0, ntp_server_udp_address = 0, sys_loaded = False\<rparr>"

definition no_interfaces_sids :: RuntimeInterfacesSids where
  "no_interfaces_sids = \<lparr>if_module = 0, iface = 0, iface_description = 0, iface_enabled = 0, iface_name = 0,
     iface_type = 0, iface_oper_status = 0, identity_ethernet_csmacd = 0, if_loaded = False\<rparr>"

definition no_operation_sids :: RuntimeOperationSids where
  "no_operation_sids = \<lparr>reboot_rpc_sid = 0, reboot_input_delay = 0, reset_action_sid = 0, reset_input_reset_at = 0,
     reset_output_finished_at = 0, ops_loaded = False\<rparr>"

definition server_start :: "zcbor_state \<Rightarrow> bytes \<Rightarrow> sid_files \<Rightarrow> c_fault + server option" where
  "server_start old buf files =
     (case publish_example_port_fault old buf [] (ascii ''0/4/21'') (ascii ''Open pin 2'') of
        Inl f \<Rightarrow> Inl f
      | Inr events \<Rightarrow>
        (case publish_example_port_fault old buf events (ascii ''1/4/21'') (ascii ''Open pin 5'') of
           Inl f \<Rightarrow> Inl f
         | Inr events \<Rightarrow>
           (case load_runtime_system_sids (system_file files) no_system_sids of (r1, sys) \<Rightarrow>
            if r1 \<noteq> 0 then Inr None
            else case load_runtime_interfaces_sids (interfaces_file files) no_interfaces_sids of (r2, ifs) \<Rightarrow>
            if r2 \<noteq> 0 then Inr None
            else case load_runtime_operation_sids (operations_file files) no_operation_sids of (r3, ops) \<Rightarrow>
            if r3 \<noteq> 0 then Inr None
            else let ds = init_ietf_example_datastore sys ifs None in
              Inr (Some \<lparr>g_datastore = ds, g_ds_exists = (ds \<noteq> None), g_stream_events = events,
                         g_sys_sids = sys, g_if_sids = ifs, g_ops_sids = ops,
                         g_sid_fingerprint = compute_sid_fingerprint sys ifs ops\<rparr>))))"

datatype coap_resource = RES_C | RES_S | RES_SID
datatype coap_method = COAP_GET | COAP_FETCH | COAP_IPATCH | COAP_PUT | COAP_POST | COAP_DELETE

text \<open>The handlers that \<open>main\<close> registers; libcoap answers the other requests without calling the server.\<close>

fun dispatch :: "call_env \<Rightarrow> server \<Rightarrow> coap_resource \<Rightarrow> coap_method \<Rightarrow> request \<Rightarrow> outcome option" where
  "dispatch env sv RES_C COAP_POST req = Some (handle_post env sv req)"
| "dispatch env sv RES_C COAP_FETCH req = Some (handle_fetch env sv req)"
| "dispatch env sv RES_C COAP_GET req = Some (handle_get env sv)"
| "dispatch env sv RES_C COAP_IPATCH req = Some (handle_ipatch env sv req)"
| "dispatch env sv RES_C COAP_PUT req = Some (handle_put env sv req)"
| "dispatch env sv RES_C COAP_DELETE req = Some (handle_delete env sv)"
| "dispatch env sv RES_S COAP_GET req = Some (handle_stream_get sv)"
| "dispatch env sv RES_S COAP_FETCH req = Some (handle_stream_fetch env sv req)"
| "dispatch env sv RES_SID COAP_GET req = Some (handle_sid_info sv)"
| "dispatch env sv _ _ req = None"

inductive serves :: "server \<Rightarrow> coap_resource \<times> coap_method \<times> request \<Rightarrow> response \<times> effect list \<Rightarrow> server \<Rightarrow> bool" where
  "length (env_buf env) = BUFFER_SIZE \<Longrightarrow>
   dispatch env sv res meth req = Some (Some (Inr (sv', resp, effs))) \<Longrightarrow>
   serves sv (res, meth, req) (resp, effs) sv'"

inductive_cases servesE: "serves sv (res, meth, req) (resp, effs) sv'"

inductive reachable :: "server \<Rightarrow> bool" where
  start: "length buf = 256 \<Longrightarrow> server_start old buf files = Inr (Some sv) \<Longrightarrow> reachable sv"
| step: "reachable sv \<Longrightarrow> serves sv rq out sv' \<Longrightarrow> reachable sv'"

end
