(* ===== verification/Server_Invariant.thy ===== *)
theory Server_Invariant
  imports Server
begin

text \<open>
  The server as a state machine: the invariant of its global state on every reachable state, which
  faults a handler can run into (never a missing datastore or one of another type), what errors and reads leave
  alone, and what sequences of requests do to the datastore.
\<close>

section \<open>Decoded maps are well formed\<close>

lemma parse_map_loop_wf:
  "parse_map_loop dec fuel s hm indent n = Some (b, hm', s') \<Longrightarrow> hm_wf hm \<Longrightarrow> hm_wf hm'"
  by (induction dec fuel s hm indent n rule: parse_map_loop.induct)
    (auto simp: hm_wf_insert split: if_splits prod.splits option.splits)

lemma parse_map_wf: "parse_map dec fuel s hm indent = Some (b, hm', s') \<Longrightarrow> hm_wf hm \<Longrightarrow> hm_wf hm'"
  by (auto simp: parse_map_def dest: parse_map_loop_wf split: prod.splits option.splits bool.splits)

lemma parse_array_is_array:
  "parse_array dec fuel s arr indent = Some (b, v, s') \<Longrightarrow> \<exists>xs. arr = CORECONF_ARRAY xs \<Longrightarrow> \<exists>xs. v = CORECONF_ARRAY xs"
proof -
  have "\<exists>xs. v = CORECONF_ARRAY xs"
    if "parse_array_loop dec fuel s arr indent = Some (v, s')" "\<exists>xs. arr = CORECONF_ARRAY xs" for fuel s arr v s'
    using that
    by (induction dec fuel s arr indent rule: parse_array_loop.induct)
      (auto simp: addToCoreconfArray_def split: if_splits prod.splits option.splits)
  then show "parse_array dec fuel s arr indent = Some (b, v, s') \<Longrightarrow> \<exists>xs. arr = CORECONF_ARRAY xs \<Longrightarrow> \<exists>xs. v = CORECONF_ARRAY xs"
    by (auto simp: parse_array_def split: prod.splits option.splits bool.splits)
qed

lemma decoded_map_wf:
  assumes "cborToCoreconfValue fuel s indent = Some (Some (CORECONF_HASHMAP hm), s')"
  shows "hm_wf hm"
proof (cases fuel)
  case 0
  then show ?thesis using assms by simp
next
  case (Suc f)
  show ?thesis
  proof (cases "ZCBOR_MAJOR_TYPE (header_at s)")
    case ZCBOR_MAJOR_TYPE_MAP
    then show ?thesis
      using assms Suc parse_map_wf[OF _ hm_wf_empty] by (auto split: if_splits)
  next
    case ZCBOR_MAJOR_TYPE_LIST
    then show ?thesis
      using assms Suc parse_array_is_array[of "cborToCoreconfValue f" f s createCoreconfArray indent]
      by (fastforce simp: createCoreconfArray_def split: if_splits)
  qed (use assms Suc in \<open>auto simp: createCoreconfUint64_def createCoreconfInt64_def createCoreconfString_def
      cbor_simple_value_def createCoreconfReal_def createCoreconfBoolean_def apfst_def map_prod_def
      split: if_splits prod.splits option.splits bool.splits\<close>)
qed

lemma parsed_put_wf:
  "parse_put_request fuel old bs n = Some (Some (CORECONF_HASHMAP hm)) \<Longrightarrow> hm_wf hm"
  by (auto simp: parse_put_request_def dest: decoded_map_wf split: option.splits if_splits)

section \<open>The invariant\<close>

definition ds_ok :: "CoreconfValue option \<Rightarrow> bool \<Rightarrow> bool" where
  "ds_ok ds ex \<longleftrightarrow> (ds = None \<longleftrightarrow> \<not> ex) \<and> (\<forall>v. ds = Some v \<longrightarrow> (\<exists>hm. v = CORECONF_HASHMAP hm \<and> hm_wf hm))"

definition server_ok :: "server \<Rightarrow> bool" where
  "server_ok sv \<longleftrightarrow> ds_ok (g_datastore sv) (g_ds_exists sv) \<and> stream_ok (g_stream_events sv)"

lemma ds_ok_map: "ds_ok (Some (CORECONF_HASHMAP hm)) True \<longleftrightarrow> hm_wf hm"
  by (simp add: ds_ok_def)

lemma ds_ok_none: "ds_ok None False"
  by (simp add: ds_ok_def)

lemma put_all_wf: "hm_wf hm \<Longrightarrow> hm_wf (put_all hm objs)"
  unfolding put_all_def by (induction objs arbitrary: hm) (auto simp: hm_wf_insert)

lemma ds_ok_init: "ds_ok (init_ietf_example_datastore sys ifs None) (init_ietf_example_datastore sys ifs None \<noteq> None)"
  by (simp add: init_ietf_example_datastore_def Let_def ds_ok_def put_all_wf hm_wf_empty)

lemma wrapped_length:
  "stream_wrap_notification_instance n sid d start len = Inr w \<Longrightarrow> length w \<le> n"
  by (auto simp: stream_wrap_notification_instance_def Let_def split: if_splits)

lemma publish_stream_ok:
  assumes "publish_example_port_fault old buf events a b = Inr events'" and "stream_ok events"
  shows "stream_ok events'"
proof -
  obtain sid d n w where "stream_wrap_notification_instance 300 sid d 0 n = Inr w" "events' = stream_push_event events w"
    using assms(1) by (auto simp: publish_example_port_fault_def Let_def split: sum.splits prod.splits)
  then show ?thesis using stream_ok_push[OF assms(2), of w] wrapped_length by (fastforce simp: BUFFER_SIZE_def)
qed

lemma server_start_ok:
  assumes "server_start old buf files = Inr (Some sv)"
  shows "server_ok sv"
proof -
  obtain e1 e2 where e: "publish_example_port_fault old buf [] (ascii ''0/4/21'') (ascii ''Open pin 2'') = Inr e1"
      "publish_example_port_fault old buf e1 (ascii ''1/4/21'') (ascii ''Open pin 5'') = Inr e2"
    using assms unfolding server_start_def by (auto split: sum.splits)
  have "stream_ok []" by (simp add: stream_ok_def)
  then have ok: "stream_ok e2" using publish_stream_ok e by blast
  obtain sys ifs where "g_stream_events sv = e2" "g_datastore sv = init_ietf_example_datastore sys ifs None"
      "g_ds_exists sv \<longleftrightarrow> init_ietf_example_datastore sys ifs None \<noteq> None"
    using assms unfolding server_start_def e sum.case Let_def by (auto split: prod.splits if_splits)
  then show ?thesis using ok ds_ok_init by (simp add: server_ok_def)
qed

section \<open>Faults\<close>

lemma map_sum_Inl [simp]: "map_sum id g x = Inl f \<longleftrightarrow> x = Inl f"
  by (cases x) auto

lemma read_header_fault: "read_header s = Inl f \<Longrightarrow> f = OutOfBoundsRead"
  by (simp add: read_header_def split: if_splits)

lemma raw_list_value_fault: "raw_list_value fuel rp s sid key \<noteq> Some (Inl f)"
  by (cases "getCoreconfHashMap (rp_map rp) sid")
    (auto simp: raw_list_value_def next_map_def split: option.split prod.split CoreconfValue.split)

lemma raw_list_entry_fault: "raw_list_entry fuel rp = Some (Inl f) \<Longrightarrow> f = OutOfBoundsRead"
  by (auto simp: raw_list_entry_def next_map_def Let_def raw_list_value_fault dest: read_header_fault
      split: prod.splits option.splits bool.splits sum.splits if_splits)

lemma raw_entries_fault: "raw_entries fuel rounds rp = Some (Inl f) \<Longrightarrow> f = OutOfBoundsRead"
  by (induction fuel rounds rp rule: raw_entries.induct)
    (auto simp: raw_sid_entry_def next_map_def dest: read_header_fault raw_list_entry_fault
      split: prod.splits option.splits bool.splits sum.splits if_splits)

lemma raw_maps_fault: "raw_maps old data e fuel rounds ptr hm n = Some (Inl f) \<Longrightarrow> f = OutOfBoundsRead"
  by (induction old data e fuel rounds ptr hm n rule: raw_maps.induct)
    (auto dest: raw_entries_fault split: prod.splits option.splits bool.splits sum.splits if_splits)

lemma apply_ipatch_raw_fault:
  assumes "apply_ipatch_raw fuel old (Some (CORECONF_HASHMAP hm)) data len = Some (Inl f)"
  shows "f = OutOfBoundsRead"
proof -
  obtain buf z where "raw_maps old buf len fuel fuel 0 hm 0 = Some z"
      "map_sum id (\<lambda>(count, hm). (int count, Some (CORECONF_HASHMAP hm))) z = Inl f"
    using assms by (auto simp: apply_ipatch_raw_def split: option.splits if_splits)
  then show ?thesis using raw_maps_fault by (cases z) auto
qed

lemma parse_post_loop_fault:
  "parse_post_loop fuel old bs len ptr items = Some (Inl f) \<Longrightarrow> f = OutOfBoundsRead"
proof (induction fuel old bs len ptr items rule: parse_post_loop.induct)
  case (1 fuel old bs len ptr items)
  have one: "parse_post_item fuel old bs len ptr = Some (Inl g) \<Longrightarrow> g = OutOfBoundsRead" for g
    by (auto simp: parse_post_item_def decode_post_key_def dest: read_header_fault
        split: prod.splits option.splits bool.splits sum.splits if_splits)
  show ?case
    using "1.prems" "1.IH" one
    by (subst (asm) parse_post_loop.simps) (fastforce split: if_splits prod.splits option.splits sum.splits)
qed

lemma parse_post_loop_values:
  "parse_post_loop fuel old bs len ptr items = Some (Inr (Some items')) \<Longrightarrow>
   \<forall>it \<in> set items. post_value it \<noteq> None \<Longrightarrow> \<forall>it \<in> set items'. post_value it \<noteq> None"
proof (induction fuel old bs len ptr items rule: parse_post_loop.induct)
  case (1 fuel old bs len ptr items)
  have one: "parse_post_item fuel old bs len ptr = Some (Inr (Some (it, s))) \<Longrightarrow> post_value it \<noteq> None" for it s
    by (auto simp: parse_post_item_def split: prod.splits option.splits bool.splits sum.splits if_splits)
  show ?case
    using "1.prems" "1.IH" one
    by (subst (asm) parse_post_loop.simps) (fastforce split: if_splits prod.splits option.splits sum.splits)
qed

lemma parse_post_items_fault: "parse_post_items fuel old data len = Some (Inl f) \<Longrightarrow> f = OutOfBoundsRead"
  by (auto simp: parse_post_items_def dest: parse_post_loop_fault split: option.splits if_splits)

lemma parse_post_items_values:
  "parse_post_items fuel old data len = Some (Inr (Some items)) \<Longrightarrow> \<forall>it \<in> set items. post_value it \<noteq> None"
  by (auto simp: parse_post_items_def dest: parse_post_loop_values split: option.splits if_splits)

lemma push_map_fault:
  "stream_push_notification_map old m events bs start len = Inl f \<Longrightarrow> f = OutOfBoundsRead"
  by (auto simp: stream_push_notification_map_def stream_extract_first_sid_from_map_def
      stream_wrap_notification_instance_def Let_def dest: read_header_fault split: sum.splits prod.splits bool.splits if_splits)

lemma push_sequence_fault:
  "stream_push_notification_sequence old m events bs len = Inl f \<Longrightarrow> f = OutOfBoundsRead"
proof -
  have "push_sequence_loop old m bs len ptr events = Inl f \<Longrightarrow> f = OutOfBoundsRead" for old ptr events
  proof (induction old m bs len ptr events rule: push_sequence_loop.induct)
    case (1 old m bs len ptr events)
    show ?case
      using "1.prems" "1.IH" push_map_fault
      by (subst (asm) push_sequence_loop.simps)
        (fastforce simp: Let_def split: if_splits prod.splits bool.splits sum.splits)
  qed
  then show "stream_push_notification_sequence old m events bs len = Inl f \<Longrightarrow> f = OutOfBoundsRead"
    by (auto simp: stream_push_notification_sequence_def split: if_splits)
qed

lemma match_entries_fault: "match_entries filter_sids st = Inl f \<Longrightarrow> f = OutOfBoundsRead"
proof (induction filter_sids st rule: match_entries.induct)
  case (1 filter_sids st)
  show ?case
    using "1.prems" "1.IH" read_header_fault
    by (subst (asm) match_entries.simps) (fastforce split: if_splits prod.splits bool.splits sum.splits)
qed

lemma match_loop_fault: "match_loop old ev len ptr filter_sids = Inl f \<Longrightarrow> f = OutOfBoundsRead"
proof (induction old ev len ptr filter_sids rule: match_loop.induct)
  case (1 old ev len ptr filter_sids)
  show ?case
    using "1.prems" "1.IH" match_entries_fault
    by (subst (asm) match_loop.simps) (fastforce simp: Let_def split: if_splits prod.splits bool.splits sum.splits)
qed

lemma encode_filtered_fault:
  "encode_filtered old fs n k used written events = Inl f \<Longrightarrow> f = OutOfBoundsRead"
proof (induction events arbitrary: used written)
  case (Cons ev events)
  have "f = OutOfBoundsRead" if "map_sum id g (encode_filtered old fs n k u w events) = Inl f" for g u w
    using that Cons.IH[of u w] by (cases "encode_filtered old fs n k u w events") auto
  then show ?case
    using Cons match_loop_fault
    by (auto simp: stream_event_matches_filter_def split: if_splits sum.splits bool.splits)
qed simp

lemma encode_sequence_filtered_fault:
  "stream_encode_sequence_filtered old n k fs events = Inl f \<Longrightarrow> f = OutOfBoundsRead"
  by (auto simp: stream_encode_sequence_filtered_def Let_def dest: encode_filtered_fault split: if_splits)

section \<open>The contract of a handler\<close>

definition is_error :: "coap_code \<Rightarrow> bool" where
  "is_error code \<longleftrightarrow>
     code \<in> {BAD_REQUEST, NOT_FOUND, CONFLICT, UNSUPPORTED_CONTENT_FORMAT, INTERNAL_ERROR}"

text \<open>
  What libcoap's request loop relies on: a handler keeps the invariant, an error answer means that nothing was
  done, and on a state with the invariant its faults are among those given: none of them is a dereference of a missing
  datastore, a value read as one of another type, or a write behind a buffer. The SIDs are constants of the run.
\<close>

locale handler =
  fixes handle :: "call_env \<Rightarrow> server \<Rightarrow> request \<Rightarrow> outcome" and possible :: "c_fault set"
  assumes keeps: "server_ok sv \<Longrightarrow> handle env sv req = Some (Inr (sv', resp, effs)) \<Longrightarrow> server_ok sv'"
    and error: "handle env sv req = Some (Inr (sv', resp, effs)) \<Longrightarrow> is_error (resp_code resp) \<Longrightarrow> sv' = sv \<and> effs = []"
    and faults: "server_ok sv \<Longrightarrow> handle env sv req = Some (Inl f) \<Longrightarrow> f \<in> possible"
    and sids: "handle env sv req = Some (Inr (sv', resp, effs)) \<Longrightarrow>
       g_sys_sids sv' = g_sys_sids sv \<and> g_if_sids sv' = g_if_sids sv \<and> g_ops_sids sv' = g_ops_sids sv \<and>
       g_sid_fingerprint sv' = g_sid_fingerprint sv"

text \<open>A handler of a safe method also leaves the state alone.\<close>

locale reader =
  fixes handle :: "call_env \<Rightarrow> server \<Rightarrow> request \<Rightarrow> outcome" and possible :: "c_fault set"
  assumes reads: "handle env sv req = Some (Inr (sv', resp, effs)) \<Longrightarrow> sv' = sv \<and> effs = []"
    and read_faults: "server_ok sv \<Longrightarrow> handle env sv req = Some (Inl f) \<Longrightarrow> f \<in> possible"

sublocale reader \<subseteq> handler
  by unfold_locales (use reads read_faults in blast)+

lemma map_value_ok:
  assumes "server_ok sv" and "g_datastore sv \<noteq> None"
  obtains hm where "map_value sv = Inr hm" "g_datastore sv = Some (CORECONF_HASHMAP hm)" "hm_wf hm"
  using assms by (auto simp: server_ok_def ds_ok_def map_value_def)

lemma refuse_is: "refuse sv code esid msg = Some (Inr (sv', resp, effs)) \<longleftrightarrow>
    sv' = sv \<and> resp = send_error code esid msg \<and> effs = []"
  "refuse sv code esid msg \<noteq> Some (Inl f)"
  by (auto simp: refuse_def)

interpretation h_sid: reader "\<lambda>env sv req. handle_sid_info sv" "{OutOfBoundsRead}"
  by unfold_locales (auto simp: handle_sid_info_def)

interpretation h_sget: reader "\<lambda>env sv req. handle_stream_get sv" "{OutOfBoundsRead}"
  by unfold_locales (auto simp: handle_stream_get_def)

interpretation h_get: reader "\<lambda>env sv req. handle_get env sv" "{OutOfBoundsRead}"
proof
  show "handle_get env sv = Some (Inr (sv', resp, effs)) \<Longrightarrow> sv' = sv \<and> effs = []" for env sv sv' resp effs
    by (auto simp: handle_get_def refuse_is Let_def split: if_splits sum.splits prod.splits)
  show "f \<in> {OutOfBoundsRead}" if "server_ok sv" "handle_get env sv = Some (Inl f)" for env sv f
    using that map_value_ok[OF that(1)]
    by (auto simp: handle_get_def refuse_is Let_def split: if_splits sum.splits prod.splits)
qed

interpretation h_fetch: reader handle_fetch "{OutOfBoundsRead}"
proof
  show "handle_fetch env sv req = Some (Inr (sv', resp, effs)) \<Longrightarrow> sv' = sv \<and> effs = []" for env sv req sv' resp effs
    by (auto simp: handle_fetch_def refuse_is Let_def split: if_splits sum.splits option.splits)
  show "f \<in> {OutOfBoundsRead}" if "server_ok sv" "handle_fetch env sv req = Some (Inl f)" for env sv req f
    using that map_value_ok[OF that(1)]
    by (auto simp: handle_fetch_def refuse_is Let_def split: if_splits sum.splits option.splits)
qed

interpretation h_sfetch: reader handle_stream_fetch "{OutOfBoundsRead}"
proof
  show "handle_stream_fetch env sv req = Some (Inr (sv', resp, effs)) \<Longrightarrow> sv' = sv \<and> effs = []"
    for env sv req sv' resp effs
    by (auto simp: handle_stream_fetch_def refuse_is Let_def map_sum_def split: if_splits sum.splits option.splits)
  show "f \<in> {OutOfBoundsRead}" if "server_ok sv" "handle_stream_fetch env sv req = Some (Inl f)" for env sv req f
    using that
    by (auto simp: handle_stream_fetch_def refuse_is Let_def dest: encode_sequence_filtered_fault
        split: if_splits sum.splits option.splits)
qed

interpretation h_delete: handler "\<lambda>env sv req. handle_delete env sv" "{OutOfBoundsRead}"
proof
  show "server_ok sv'" if "server_ok sv" "handle_delete env sv = Some (Inr (sv', resp, effs))" for env sv sv' resp effs
    using that stream_ok_push_map
    by (auto simp: handle_delete_def refuse_is server_ok_def ds_ok_none split: if_splits sum.splits)
  show "sv' = sv \<and> effs = []"
    if "handle_delete env sv = Some (Inr (sv', resp, effs))" "is_error (resp_code resp)" for env sv sv' resp effs
    using that by (auto simp: handle_delete_def refuse_is is_error_def split: if_splits sum.splits)
  show "f \<in> {OutOfBoundsRead}" if "server_ok sv" "handle_delete env sv = Some (Inl f)" for env sv f
    using that map_value_ok[OF that(1)] push_map_fault
    by (auto simp: handle_delete_def refuse_is split: if_splits sum.splits)
qed (auto simp: handle_delete_def refuse_is split: if_splits sum.splits)

interpretation h_ipatch: handler handle_ipatch "{OutOfBoundsRead}"
proof
  show "server_ok sv'" if ok: "server_ok sv" and h: "handle_ipatch env sv req = Some (Inr (sv', resp, effs))"
    for env sv req sv' resp effs
  proof (cases "g_datastore sv")
    case None
    then show ?thesis using that by (auto simp: handle_ipatch_def refuse_is split: if_splits option.splits)
  next
    case (Some v)
    then obtain hm where hm: "g_datastore sv = Some (CORECONF_HASHMAP hm)" "hm_wf hm"
      using map_value_ok[OF ok] by auto
    have ds: "ds_ok ds (g_ds_exists sv)"
      if "apply_ipatch_raw fuel old (g_datastore sv) d n = Some (Inr (r, ds))" for fuel old d n r ds
      using apply_ipatch_raw_keeps_wf[OF hm(2)] that ok unfolding hm(1) server_ok_def ds_ok_def by fastforce
    have "stream_ok events'"
      if "stream_push_notification_sequence old m (g_stream_events sv) bs n = Inr events'" for old m bs n events'
      using that ok stream_ok_push_sequence_loop
      by (auto simp: stream_push_notification_sequence_def server_ok_def split: if_splits)
    then show ?thesis
      using h ds ok
      by (auto simp: handle_ipatch_def refuse_is server_ok_def Let_def split: if_splits option.splits sum.splits prod.splits)
  qed
  show "sv' = sv \<and> effs = []"
    if "handle_ipatch env sv req = Some (Inr (sv', resp, effs))" "is_error (resp_code resp)" for env sv req sv' resp effs
    using that
    by (auto simp: handle_ipatch_def refuse_is is_error_def Let_def split: if_splits option.splits sum.splits prod.splits)
  show "f \<in> {OutOfBoundsRead}" if ok: "server_ok sv" and h: "handle_ipatch env sv req = Some (Inl f)" for env sv req f
  proof (cases "g_datastore sv")
    case None
    then show ?thesis using that by (auto simp: handle_ipatch_def refuse_is split: if_splits option.splits)
  next
    case (Some v)
    then obtain hm where hm: "g_datastore sv = Some (CORECONF_HASHMAP hm)" "hm_wf hm"
      using map_value_ok[OF ok] by auto
    have mv: "\<exists>hm'. map_value (sv\<lparr>g_datastore := ds\<rparr>) = Inr hm'"
      if "apply_ipatch_raw fuel old (g_datastore sv) d n = Some (Inr (r, ds))" for fuel old d n r ds
      using apply_ipatch_raw_keeps_wf[OF hm(2)] that unfolding hm(1) map_value_def by fastforce
    show ?thesis
      using h mv push_sequence_fault apply_ipatch_raw_fault[of _ _ hm] unfolding hm(1)
      by (fastforce simp: handle_ipatch_def refuse_is hm(1) Let_def split: if_splits option.splits sum.splits prod.splits)
  qed
qed (auto simp: handle_ipatch_def refuse_is Let_def split: if_splits option.splits sum.splits prod.splits)

interpretation h_put: handler handle_put "{OutOfBoundsRead}"
proof
  show "server_ok sv'" if "server_ok sv" "handle_put env sv req = Some (Inr (sv', resp, effs))" for env sv req sv' resp effs
    using that stream_ok_push_map parsed_put_wf
    by (auto simp: handle_put_def refuse_is server_ok_def ds_ok_map Let_def
        split: if_splits option.splits sum.splits CoreconfValue.splits)
  show "sv' = sv \<and> effs = []"
    if "handle_put env sv req = Some (Inr (sv', resp, effs))" "is_error (resp_code resp)" for env sv req sv' resp effs
    using that
    by (auto simp: handle_put_def refuse_is is_error_def Let_def
        split: if_splits option.splits sum.splits CoreconfValue.splits)
  show "f \<in> {OutOfBoundsRead}" if "server_ok sv" "handle_put env sv req = Some (Inl f)" for env sv req f
    using that push_map_fault
    by (auto simp: handle_put_def refuse_is Let_def split: if_splits option.splits sum.splits CoreconfValue.splits)
qed (auto simp: handle_put_def refuse_is Let_def split: if_splits option.splits sum.splits CoreconfValue.splits)

interpretation h_create: handler post_create "{OutOfBoundsRead}"
proof
  show "server_ok sv'" if "server_ok sv" "post_create env sv req = Some (Inr (sv', resp, effs))" for env sv req sv' resp effs
    using that stream_ok_push_map parsed_put_wf
    by (auto simp: post_create_def refuse_is server_ok_def ds_ok_map
        split: if_splits option.splits sum.splits CoreconfValue.splits)
  show "sv' = sv \<and> effs = []"
    if "post_create env sv req = Some (Inr (sv', resp, effs))" "is_error (resp_code resp)" for env sv req sv' resp effs
    using that
    by (auto simp: post_create_def refuse_is is_error_def split: if_splits option.splits sum.splits CoreconfValue.splits)
  show "f \<in> {OutOfBoundsRead}" if "server_ok sv" "post_create env sv req = Some (Inl f)" for env sv req f
    using that push_map_fault
    by (auto simp: post_create_def refuse_is split: if_splits option.splits sum.splits CoreconfValue.splits)
qed (auto simp: post_create_def refuse_is split: if_splits option.splits sum.splits CoreconfValue.splits)

lemma post_one_faults: "post_one env sv inp = Inl f \<Longrightarrow> post_value inp \<noteq> None \<Longrightarrow> f = ConversionOverflow"
  by (auto simp: post_one_def Let_def split: if_splits option.splits CoreconfValue.splits prod.splits)

lemma post_each_faults:
  "post_each env sv items acc = Inl f \<Longrightarrow> \<forall>it \<in> set items. post_value it \<noteq> None \<Longrightarrow> f = ConversionOverflow"
  by (induction env sv items acc rule: post_each.induct) (auto dest: post_one_faults split: sum.splits)

text \<open>The conversion fault is real: any reboot request whose delay is such a real.\<close>

lemma reboot_conversion_fault:
  assumes "post_iid_type inp = POST_IID_SID" and "post_sid inp = reboot_rpc_sid (g_ops_sids sv)"
    and "post_value inp = Some (CORECONF_HASHMAP hm)"
    and "getCoreconfHashMap hm (reboot_input_delay (g_ops_sids sv)) = Some (CORECONF_REAL 0x43F0000000000000)"
  shows "post_one env sv inp = Inl ConversionOverflow"
proof -
  have "getCoreconfValueAsUint64 (CORECONF_REAL 0x43F0000000000000) = None"
    by (simp add: double_ge_zero_def double_to_u64_def double_expo_def double_mantissa_def double_trunc_def Let_def)
  then show ?thesis using assms by (simp add: post_one_def del: getCoreconfValueAsUint64.simps)
qed

interpretation h_invoke: reader post_invoke "{OutOfBoundsRead, ConversionOverflow}"
proof
  show "post_invoke env sv req = Some (Inr (sv', resp, effs)) \<Longrightarrow> sv' = sv \<and> effs = []" for env sv req sv' resp effs
    by (auto simp: post_invoke_def refuse_is split: if_splits option.splits sum.splits prod.splits)
  show "f \<in> {OutOfBoundsRead, ConversionOverflow}" if "server_ok sv" and h: "post_invoke env sv req = Some (Inl f)" for env sv req f
  proof -
    obtain bs where "parse_post_items (env_fuel env) (env_stack env) (Some bs) (length bs) = Some (Inl f) \<or>
        (\<exists>items. parse_post_items (env_fuel env) (env_stack env) (Some bs) (length bs) = Some (Inr (Some items)) \<and>
           post_each env sv items [] = Inl f)"
      using h by (auto simp: post_invoke_def refuse_is split: if_splits option.splits sum.splits prod.splits)
    then show ?thesis
      by (elim disjE exE conjE) (drule parse_post_items_fault, simp, drule parse_post_items_values, drule (1) post_each_faults, simp)
  qed
qed

interpretation h_refuse: reader "\<lambda>env sv req. refuse sv code esid msg" possible
  by unfold_locales (auto simp: refuse_is)

lemma handler_cond:
  assumes "handler h1 F1" and "handler h2 F2"
  shows "handler (\<lambda>env sv req. if P req then h1 env sv req else h2 env sv req) (F1 \<union> F2)"
proof (rule handler.intro, goal_cases)
  case (1 sv env req sv' resp effs)
  then show ?case using assms[THEN handler.keeps, of sv env req sv' resp effs] by (simp split: if_splits)
next
  case (2 env sv req sv' resp effs)
  then show ?case using assms[THEN handler.error, of env sv req sv' resp effs] by (simp split: if_splits)
next
  case (3 sv env req f)
  then show ?case using assms[THEN handler.faults, of sv env req f] by (auto split: if_splits)
next
  case (4 env sv req sv' resp effs)
  then show ?case using assms[THEN handler.sids, of env sv req sv' resp effs] by (simp split: if_splits)
qed

interpretation h_post: handler handle_post "{OutOfBoundsRead, ConversionOverflow}"
proof -
  let ?msg = "ascii ''POST requires CF=140 (yang-data+cbor) or CF=142 (yang-instances+cbor-seq)''"
  note rest = handler_cond[OF h_refuse.handler_axioms[of UNSUPPORTED_CONTENT_FORMAT 1012 ?msg "{}"] h_invoke.handler_axioms,
      of "\<lambda>req. get_content_format req \<noteq> CF_YANG_INSTANCES"]
  note both = handler_cond[OF h_create.handler_axioms rest, of "\<lambda>req. get_content_format req = CF_YANG_DATA_CBOR"]
  have "handle_post = (\<lambda>env sv req. if get_content_format req = CF_YANG_DATA_CBOR then post_create env sv req
      else (if get_content_format req \<noteq> CF_YANG_INSTANCES then refuse sv UNSUPPORTED_CONTENT_FORMAT 1012 ?msg
        else post_invoke env sv req))"
    by (intro ext) (simp add: handle_post_def)
  moreover have "{OutOfBoundsRead} \<union> ({} \<union> {OutOfBoundsRead, ConversionOverflow}) = {OutOfBoundsRead, ConversionOverflow}" by blast
  ultimately show "handler handle_post {OutOfBoundsRead, ConversionOverflow}" using both by (simp only:)
qed

section \<open>Every request\<close>

definition request_fault_set :: "coap_resource \<Rightarrow> coap_method \<Rightarrow> c_fault set" where
  "request_fault_set res meth =
     {OutOfBoundsRead} \<union> (if res = RES_C \<and> meth = COAP_POST then {ConversionOverflow} else {})"

lemma request_fault_set_simps [simp]:
  "request_fault_set RES_C COAP_POST = {OutOfBoundsRead, ConversionOverflow}"
  "res \<noteq> RES_C \<or> meth \<noteq> COAP_POST \<Longrightarrow> request_fault_set res meth = {OutOfBoundsRead}"
  by (auto simp: request_fault_set_def)

lemma dispatch_handler:
  assumes "dispatch env sv res meth req = Some out"
  obtains h where "handler h (request_fault_set res meth)" "h env sv req = out"
proof -
  have "\<exists>h. handler h (request_fault_set res meth) \<and> h env sv req = out"
    using assms
    by (cases "(env, sv, res, meth, req)" rule: dispatch.cases)
      (auto intro: h_post.handler_axioms h_fetch.handler_axioms h_get.handler_axioms h_ipatch.handler_axioms
        h_put.handler_axioms h_delete.handler_axioms h_sget.handler_axioms h_sfetch.handler_axioms h_sid.handler_axioms)
  then show ?thesis using that by blast
qed

lemma reachable_ok: "reachable sv \<Longrightarrow> server_ok sv"
proof (induction rule: reachable.induct)
  case (start buf old files sv)
  then show ?case by (intro server_start_ok)
next
  case (step sv rq out sv')
  then show ?case by (elim serves.cases) (auto elim!: dispatch_handler intro: handler.keeps)
qed

end
