(* ===== verification/Server_Start.thy ===== *)
theory Server_Start
  imports Server_Invariant
begin

text \<open>
  The start of the server: the two example notifications, and a complete run of \<open>server_start\<close> on SID files of
  our own, which gives the state from which the instances of the properties of the server begin.
\<close>

section \<open>The example notifications\<close>

text \<open>The events that \<open>main\<close> pushes, for strings of at least six characters.\<close>

definition port_fault_event :: "bytes \<Rightarrow> bytes \<Rightarrow> bytes" where
  "port_fault_event a b =
     [0xA1, 0x19, 0xEA, 0x6A, 0xBF, 0x01, 0x67] @ take 7 (a @ [0]) @ [0x02, 0x67] @ take 7 (b @ [0]) @ [0xFF]"

lemma length_port_fault_event: "6 \<le> length a \<Longrightarrow> 6 \<le> length b \<Longrightarrow> length (port_fault_event a b) = 24"
  by (simp add: port_fault_event_def)

lemma writes_port_fault:
  "writes (\<lambda>s. (True, snd (zcbor_map_end_encode
      (snd (zcbor_tstr_encode (snd (zcbor_uint64_put
        (snd (zcbor_tstr_encode (snd (zcbor_uint64_put (snd (zcbor_map_start_encode s 2)) 1)) x)) 2)) y)) 2)))
    ([0xBF] @ cbor_head ZCBOR_MAJOR_TYPE_PINT 1 @ cbor_str ZCBOR_MAJOR_TYPE_TSTR x @
     cbor_head ZCBOR_MAJOR_TYPE_PINT 2 @ cbor_str ZCBOR_MAJOR_TYPE_TSTR y @ [0xFF])"
  (is "writes ?f ?bs")
proof -
  have 1: "writes (\<lambda>s. zcbor_tstr_encode s z) (cbor_str ZCBOR_MAJOR_TYPE_TSTR z)" for z by (intro writes_intros)
  note w = writes_then[OF writes_primitive(1)[of 2] writes_then[OF 1[of y] writes_delimiters(4)[of 2]]]
  note w = writes_then[OF writes_primitive(1)[of 1] writes_then[OF 1[of x] w]]
  show ?thesis using writes_then[OF writes_delimiters(2)[of 2] w] by (simp add: split_beta)
qed

lemma publish_event:
  assumes a: "6 \<le> length a" and b: "6 \<le> length b" and buf: "256 \<le> length buf"
  shows "publish_example_port_fault old buf events a b = Inr (stream_push_event events (port_fault_event a b))"
proof -
  let ?x = "take 7 (a @ [0])" and ?y = "take 7 (b @ [0])" let ?s = "zcbor_new_encode_state old 4 buf 0 256 1"
  obtain t where t: "snd (zcbor_map_end_encode
      (snd (zcbor_tstr_encode (snd (zcbor_uint64_put
        (snd (zcbor_tstr_encode (snd (zcbor_uint64_put (snd (zcbor_map_start_encode ?s 2)) 1)) ?x)) 2)) ?y)) 2) = t" by simp
  have str: "cbor_str ZCBOR_MAJOR_TYPE_TSTR z = 0x67 # z" if "length z = 7" for z
    using that by (simp add: cbor_str_def cbor_head_def header_byte_def)
  have xy: "length ?x = 7" "length ?y = 7" using a b by simp_all
  have ints: "cbor_head ZCBOR_MAJOR_TYPE_PINT 1 = [0x01]" "cbor_head ZCBOR_MAJOR_TYPE_PINT 2 = [0x02]" by code_simp+
  let ?bs = "[0xBF, 0x01, 0x67] @ ?x @ [0x02, 0x67] @ ?y @ [0xFF]"
  have w: "writes (\<lambda>s. (True, snd (zcbor_map_end_encode
      (snd (zcbor_tstr_encode (snd (zcbor_uint64_put
        (snd (zcbor_tstr_encode (snd (zcbor_uint64_put (snd (zcbor_map_start_encode s 2)) 1)) ?x)) 2)) ?y)) 2))) ?bs"
    using writes_port_fault[of ?x ?y] unfolding str[OF xy(1)] str[OF xy(2)] ints by simp
  have n: "length ?bs = 20" unfolding length_append xy by simp
  have fit: "0 + 256 \<le> length buf" using buf by simp
  have short: "length ?bs \<le> 256" unfolding n by simp
  note m = writes_fresh[OF w fit short, of old 4 1 True t, unfolded n]
  have m: "payload t = 20" "length (mem t) = length buf" "take 20 (mem t) = ?bs" using m t by simp_all
  have key: "cbor_encode_uint 299 60010 = [0x19, 0xEA, 0x6A]" by code_simp
  have "stream_wrap_notification_instance 300 60010 (mem t) 0 20 = Inr (port_fault_event a b)"
    using m(2,3) buf by (simp add: stream_wrap_notification_instance_def key port_fault_event_def)
  then show ?thesis
    using a b t m(1)
    by (simp add: publish_example_port_fault_def zcbor_tstr_put_lit_def zcbor_tstr_encode_ptr_def Let_def split_beta)
qed

text \<open>
  \<open>zcbor_tstr_put_lit\<close> takes the size of a pointer for the length of the string: the first notification holds
  the port name with its terminating NUL, and \<open>Open pi\<close> of \<open>Open pin 2\<close>.
\<close>

lemma port_fault_truncated:
  "publish_example_port_fault old (replicate 256 0) [] (ascii ''0/4/21'') (ascii ''Open pin 2'') =
     Inr [[0xA1, 0x19, 0xEA, 0x6A, 0xBF, 0x01, 0x67] @ ascii ''0/4/21'' @ [0, 0x02, 0x67] @ ascii ''Open pi'' @ [0xFF]]"
proof -
  have len: "6 \<le> length (ascii ''0/4/21'')" "6 \<le> length (ascii ''Open pin 2'')" "256 \<le> length (replicate 256 (0 :: u8))"
    by (simp_all add: ascii_def)
  show ?thesis unfolding publish_event[OF len]
    by (simp add: stream_push_event_def port_fault_event_def STREAM_MAX_EVENTS_def ascii_def)
qed

section \<open>A start\<close>

lemma parse_sid_ascii:
  assumes "CHR 0x00 \<notin> set s" and "strstr s i = Some a" and "strstr a ''\"sid\"'' = Some b" and "strchr b CHR '':'' = Some c"
  shows "parse_sid_after_identifier (ascii s) (ascii i) =
    strtoull10 (dropWhile (\<lambda>b. b = 0x20 \<or> b = 0x09 \<or> b = 0x22) (ascii (tl c)))"
proof -
  have "0 \<noteq> (of_char d :: u8)" if "d \<in> set s" for d
    using injD[OF of_char_u8_inj, of "CHR 0x00" d] that assms(1) by auto
  then have c: "c_string (ascii s) = ascii s"
    using c_string_no_nul[of "ascii s" "[]"] by (auto simp: ascii_def c_string_def)
  have 1: "strstr (ascii s) (ascii i) = Some (ascii a)" "strstr (ascii a) (ascii ''\"sid\"'') = Some (ascii b)"
    using assms(2,3) by (simp_all only: strstr_ascii option.map)
  have 2: "strchr (ascii b) 0x3A = Some (ascii c)"
    using strchr_map[OF of_char_u8_inj, of b "CHR '':''"] assms(4) by (simp add: ascii_def)
  show ?thesis unfolding parse_sid_after_identifier_def c 1 2 option.case by (simp add: ascii_def map_tl)
qed
text \<open>Two files in which every identifier is followed by the same SID, 7; there is no file with the operations.\<close>

definition sample_system :: string where
  "sample_system =
     ''\"identifier\": \"ietf-system\" '' @
     ''/ietf-system:system-state/clock\" '' @
     ''/ietf-system:system-state/clock/boot-datetime\" '' @
     ''/ietf-system:system-state/clock/current-datetime\" '' @
     ''/ietf-system:system/ntp/enabled\" '' @
     ''/ietf-system:system/ntp/server\" '' @
     ''/ietf-system:system/ntp/server/name\" '' @
     ''/ietf-system:system/ntp/server/prefer\" '' @
     ''/ietf-system:system/ntp/server/udp\" '' @
     ''/ietf-system:system/ntp/server/udp/address\" '' @ ''\"sid\":7''"

definition sample_interfaces :: string where
  "sample_interfaces =
     ''\"identifier\": \"ietf-interfaces\" '' @
     ''/ietf-interfaces:interfaces/interface\" '' @
     ''/ietf-interfaces:interfaces/interface/description\" '' @
     ''/ietf-interfaces:interfaces/interface/enabled\" '' @
     ''/ietf-interfaces:interfaces/interface/name\" '' @
     ''/ietf-interfaces:interfaces/interface/type\" '' @
     ''/ietf-interfaces:interfaces/interface/oper-status\" '' @
     ''\"identifier\": \"ethernetCsmacd\" '' @ ''\"sid\":7''"

definition found :: "string \<Rightarrow> string \<Rightarrow> bool" where
  "found s i \<longleftrightarrow> CHR 0x00 \<notin> set s \<and>
     (case strstr s i of None \<Rightarrow> False | Some a \<Rightarrow> strstr a ''\"sid\"'' = Some ''\"sid\":7'')"

lemma found_sid:
  assumes "found s i"
  shows "parse_sid_after_identifier (ascii s) (ascii i) = Some 7"
proof -
  obtain a where a: "strstr s i = Some a" "strstr a ''\"sid\"'' = Some ''\"sid\":7''" "CHR 0x00 \<notin> set s"
    using assms unfolding found_def by (cases "strstr s i") simp_all
  have "decimal (unat (7 :: u64)) = [0x37]" by code_simp
  then have "strtoull10 [0x37] = Some 7" using strtoull10_decimal[of 7] by simp
  moreover have "ascii ''7'' = [0x37]" by (simp add: ascii_def)
  moreover have "strchr ''\"sid\":7'' CHR '':'' = Some '':7''" by simp
  ultimately show ?thesis using parse_sid_ascii[OF a(3,1,2), of "'':7''"] by simp
qed

lemma set_sid_found: "found s i \<Longrightarrow> set_sid (ascii s) i upd (True, x) = (True, upd 7 x)"
  by (simp add: set_sid_def found_sid)

lemma system_found:
  "found sample_system ''\"identifier\": \"ietf-system\"''"
  "found sample_system ''/ietf-system:system-state/clock\"''"
  "found sample_system ''/ietf-system:system-state/clock/boot-datetime\"''"
  "found sample_system ''/ietf-system:system-state/clock/current-datetime\"''"
  "found sample_system ''/ietf-system:system/ntp/enabled\"''"
  "found sample_system ''/ietf-system:system/ntp/server\"''"
  "found sample_system ''/ietf-system:system/ntp/server/name\"''"
  "found sample_system ''/ietf-system:system/ntp/server/prefer\"''"
  "found sample_system ''/ietf-system:system/ntp/server/udp\"''"
  "found sample_system ''/ietf-system:system/ntp/server/udp/address\"''"
  by code_simp+

lemma interfaces_found:
  "found sample_interfaces ''\"identifier\": \"ietf-interfaces\"''"
  "found sample_interfaces ''/ietf-interfaces:interfaces/interface\"''"
  "found sample_interfaces ''/ietf-interfaces:interfaces/interface/description\"''"
  "found sample_interfaces ''/ietf-interfaces:interfaces/interface/enabled\"''"
  "found sample_interfaces ''/ietf-interfaces:interfaces/interface/name\"''"
  "found sample_interfaces ''/ietf-interfaces:interfaces/interface/type\"''"
  "found sample_interfaces ''/ietf-interfaces:interfaces/interface/oper-status\"''"
  "found sample_interfaces ''\"identifier\": \"ethernetCsmacd\"''"
  by code_simp+

lemma sample_system_loads:
  "\<exists>sys. load_runtime_system_sids (Some (ascii sample_system)) no_system_sids = (0, sys) \<and> sys_loaded sys"
  unfolding load_runtime_system_sids_def option.case
  by (simp only: system_found[THEN set_sid_found] Let_def) simp

lemma sample_interfaces_loads:
  "\<exists>ifs. load_runtime_interfaces_sids (Some (ascii sample_interfaces)) no_interfaces_sids = (0, ifs) \<and> if_loaded ifs"
  unfolding load_runtime_interfaces_sids_def option.case
  by (simp only: interfaces_found[THEN set_sid_found] Let_def) simp

definition sample_files :: sid_files where
  "sample_files = \<lparr>system_file = Some (ascii sample_system), interfaces_file = Some (ascii sample_interfaces),
     operations_file = None\<rparr>"

lemma sample_start:
  obtains sv where "server_start any_state (replicate 256 0) sample_files = Inr (Some sv)" "g_ds_exists sv"
    "g_datastore sv \<noteq> None"
proof -
  obtain sys where sys: "load_runtime_system_sids (Some (ascii sample_system)) no_system_sids = (0, sys)" "sys_loaded sys"
    using sample_system_loads by blast
  obtain ifs where ifs: "load_runtime_interfaces_sids (Some (ascii sample_interfaces)) no_interfaces_sids = (0, ifs)"
      "if_loaded ifs"
    using sample_interfaces_loads by blast
  have len: "6 \<le> length (ascii ''0/4/21'')" "6 \<le> length (ascii ''1/4/21'')" "6 \<le> length (ascii ''Open pin 2'')"
      "6 \<le> length (ascii ''Open pin 5'')" "256 \<le> length (replicate 256 (0 :: u8))"
    by (simp_all add: ascii_def)
  note pub = publish_event[OF len(1,3,5)] publish_event[OF len(2,4,5)]
  have ds: "init_ietf_example_datastore sys ifs None \<noteq> None"
    using sys(2) ifs(2) by (simp add: init_ietf_example_datastore_def Let_def)
  show ?thesis
    using ds by (intro that[of "the (projr (server_start any_state (replicate 256 0) sample_files))"])
      (simp_all add: server_start_def pub sample_files_def sys(1) ifs(1) load_runtime_operation_sids_def Let_def)
qed

lemma sample_reachable: "\<exists>sv. reachable sv \<and> g_ds_exists sv"
  using sample_start reachable.start[of "replicate 256 0" any_state sample_files] by (metis length_replicate)

end
