(* ===== verification/Server_Session.thy ===== *)
theory Server_Session
  imports Server_Start
begin

text \<open>
  What a client sees of the server: the content of the answers to GET and FETCH for what a client wrote
  with PUT, and the lemmas about encoded requests that these need.
\<close>

section \<open>Notifications of encoded maps\<close>

lemma push_encoded_map:
  assumes "bs \<noteq> []"
  shows "\<exists>events'. stream_push_notification_map old m events (0xBF # bs) 0 (Suc (length bs)) = Inr events'"
proof -
  let ?n = "Suc (length bs)" let ?s = "zcbor_new_decode_state old 8 (0xBF # bs) 0 ?n 1"
  have com: "coming ?s [0xBF]" by (simp add: coming_def zcbor_new_decode_state_def)
  obtain s1 where s1: "zcbor_map_start_decode ?s = (True, s1)" "opened ?s s1"
    by (rule map_start_coming[OF com]) (simp_all add: zcbor_new_decode_state_def)
  have "payload s1 < length (mem s1)" using s1(2) assms by (simp add: opened_def zcbor_new_decode_state_def)
  then obtain b where "read_header s1 = Inr b" by (simp add: read_header_def)
  then obtain sid where "stream_extract_first_sid_from_map old (0xBF # bs) 0 ?n m = Inr sid"
    using s1(1) that by (cases "zcbor_array_at_end s1") (simp_all add: stream_extract_first_sid_from_map_def)
  moreover have "\<exists>w. stream_wrap_notification_instance BUFFER_SIZE sid (0xBF # bs) 0 ?n = Inr w"
    by (auto simp: stream_wrap_notification_instance_def Let_def)
  ultimately show ?thesis by (auto simp: stream_push_notification_map_def)
qed

lemma cbor_of_map: "cbor_of (CORECONF_HASHMAP hm) = 0xBF # concat (map cbor_object (hm_objects hm)) @ [0xFF]"
  by simp

lemma push_datastore:
  "\<exists>events'. stream_push_notification_map old m events (cbor_of (CORECONF_HASHMAP hm)) 0
     (length (cbor_of (CORECONF_HASHMAP hm))) = Inr events'"
  using push_encoded_map[of "concat (map cbor_object (hm_objects hm)) @ [0xFF]" old m events] by simp

lemma norm_map_nonempty:
  assumes "hm_wf hm" and "length (hm_objects hm) \<le> 52" and "hm_objects hm \<noteq> []"
  obtains hm' where "norm (CORECONF_HASHMAP hm) = CORECONF_HASHMAP hm'" "hm_wf hm'" "hm_size hm' \<noteq> 0"
proof -
  obtain hm' where hm': "norm (CORECONF_HASHMAP hm) = CORECONF_HASHMAP hm'" "hm_wf hm'"
      "getCoreconfHashMap hm' = (\<lambda>k. map_option norm (getCoreconfHashMap hm k))"
    using norm_map_lookups[OF assms(1,2)] by blast
  obtain k v objs where "hm_objects hm = (k, v) # objs" using assms(3) by (metis list.exhaust prod.exhaust)
  then have "getCoreconfHashMap hm' k \<noteq> None" using hm'(3) map_of_hm_objects[OF assms(1), symmetric] by simp
  then have "hm_objects hm' \<noteq> []" using map_of_hm_objects[OF hm'(2)] by (metis map_of.simps(1))
  then show ?thesis using that hm' hm_size_0 by blast
qed

section \<open>PUT and then GET\<close>

definition rotation :: "CoreconfValue CoreconfHashMap \<Rightarrow> effect list" where
  "rotation hm =
     (case getCoreconfHashMap hm SID_PASSWORD of Some (CORECONF_STRING pw) \<Rightarrow> [System (password_command pw)] | _ \<Rightarrow> [])"

lemma put_encoded:
  assumes "wire_ok (CORECONF_HASHMAP hm)" and "nest (CORECONF_HASHMAP hm) \<le> 6"
    and "norm (CORECONF_HASHMAP hm) = CORECONF_HASHMAP hm'"
    and "get_content_format req = 140" and "get_payload req = Some (cbor_of (CORECONF_HASHMAP hm))"
    and "length (cbor_of (CORECONF_HASHMAP hm)) \<le> env_fuel env"
  obtains events where "handle_put env sv req =
    Some (Inr (sv\<lparr>g_datastore := Some (CORECONF_HASHMAP hm'), g_ds_exists := True, g_stream_events := events\<rparr>,
      \<lparr>resp_code = CHANGED, resp_cf = None, resp_data = []\<rparr>, rotation hm' @ [NotifyObservers ''put'']))"
proof -
  let ?v = "CORECONF_HASHMAP hm" let ?bs = "cbor_of ?v"
  have ne: "?bs \<noteq> []" by simp
  have parse: "parse_put_request (env_fuel env) (env_stack env) (Some ?bs) (length ?bs) = Some (Some (CORECONF_HASHMAP hm'))"
    using parse_put_bytes[OF assms(1) ne assms(2) _ refl assms(6), of ?bs "env_stack env"] assms(3) by simp
  obtain events where "stream_push_notification_map (env_stack env) (sys_module (g_sys_sids sv)) (g_stream_events sv) ?bs 0
      (length ?bs) = Inr events"
    using push_datastore by blast
  then show ?thesis
    using that[of events] assms(4,5) parse
    by (simp add: handle_put_def rotation_def CF_YANG_DATA_CBOR_def Let_def del: cbor_of.simps)
qed

lemma get_reply:
  assumes "g_datastore sv = Some (CORECONF_HASHMAP hm)" and "g_ds_exists sv" and "hm_wf hm" and "hm_size hm \<noteq> 0"
    and "length (cbor_of (CORECONF_HASHMAP hm)) \<le> 4096" and "length (env_buf env) = 4096"
  shows "handle_get env sv =
    Some (Inr (sv, \<lparr>resp_code = CONTENT, resp_cf = Some 140, resp_data = cbor_of (CORECONF_HASHMAP hm)\<rparr>, []))"
proof -
  obtain buf' where get: "create_get_response (env_stack env) (Some (env_buf env)) BUFFER_SIZE (Some (CORECONF_HASHMAP hm)) =
      (length (cbor_of (CORECONF_HASHMAP hm)), Some buf')"
      "take (length (cbor_of (CORECONF_HASHMAP hm))) buf' = cbor_of (CORECONF_HASHMAP hm)"
    by (rule get_response_bytes[OF assms(3), of BUFFER_SIZE "env_buf env" "env_stack env"])
      (use assms(5,6) in \<open>simp_all add: BUFFER_SIZE_def del: cbor_of.simps\<close>)
  show ?thesis
    using get assms(1,2,4) by (simp add: handle_get_def map_value_def CF_YANG_DATA_CBOR_def del: cbor_of.simps) (simp add: cbor_of_map)
qed

text \<open>
  C4. What PUT writes, GET reads: after a PUT of the encoding of a datastore (not empty, at most 51 entries per
  level, nesting at most six) the server holds its decoded form, tells the observers, and answers a GET with the encoding of
  what it holds, if that fits into 4096 bytes.
\<close>

theorem put_then_get:
  assumes "hm_wf hm" and "wire_ok (CORECONF_HASHMAP hm)" and "nest (CORECONF_HASHMAP hm) \<le> 6" and "hm_objects hm \<noteq> []"
    and "get_content_format req = 140" and "get_payload req = Some (cbor_of (CORECONF_HASHMAP hm))"
    and "length (cbor_of (CORECONF_HASHMAP hm)) \<le> env_fuel env"
    and "length (cbor_of (norm (CORECONF_HASHMAP hm))) \<le> 4096" and "length (env_buf env') = 4096"
  shows "\<exists>sv' effs. handle_put env sv req =
        Some (Inr (sv', \<lparr>resp_code = CHANGED, resp_cf = None, resp_data = []\<rparr>, effs @ [NotifyObservers ''put''])) \<and>
      g_datastore sv' = Some (norm (CORECONF_HASHMAP hm)) \<and>
      handle_get env' sv' =
        Some (Inr (sv', \<lparr>resp_code = CONTENT, resp_cf = Some 140, resp_data = cbor_of (norm (CORECONF_HASHMAP hm))\<rparr>, []))"
proof -
  let ?v = "CORECONF_HASHMAP hm" let ?bs = "cbor_of ?v"
  have "length (hm_objects hm) \<le> 52" using assms(2) by (simp add: CORECONF_MAX_LOOP_def)
  then obtain hm' where hm': "norm ?v = CORECONF_HASHMAP hm'" "hm_wf hm'" "hm_size hm' \<noteq> 0"
    using norm_map_nonempty[OF assms(1) _ assms(4)] by blast
  obtain events where put: "handle_put env sv req =
    Some (Inr (sv\<lparr>g_datastore := Some (CORECONF_HASHMAP hm'), g_ds_exists := True, g_stream_events := events\<rparr>,
      \<lparr>resp_code = CHANGED, resp_cf = None, resp_data = []\<rparr>, rotation hm' @ [NotifyObservers ''put'']))"
    by (rule put_encoded[OF assms(2,3) hm'(1) assms(5-7)])
  let ?sv = "sv\<lparr>g_datastore := Some (CORECONF_HASHMAP hm'), g_ds_exists := True, g_stream_events := events\<rparr>"
  have "handle_get env' ?sv =
      Some (Inr (?sv, \<lparr>resp_code = CONTENT, resp_cf = Some 140, resp_data = cbor_of (CORECONF_HASHMAP hm')\<rparr>, []))"
    using assms(8,9) hm'(1) by (intro get_reply hm'(2,3)) (simp_all del: cbor_of.simps norm.simps)
  then show ?thesis using put hm'(1) by (intro exI[of _ ?sv] exI[of _ "rotation hm'"]) (simp del: cbor_of.simps norm.simps)
qed

definition sample_put :: request where
  "sample_put = \<lparr>req_cf = Some 140, req_data = Some [0xBF, 0x14, 0x05, 0xFF]\<rparr>"

theorem put_then_get_witness:
  "\<forall>sv. \<exists>sv' effs. handle_put \<lparr>env_fuel = 9, env_stack = any_state, env_buf = replicate 4096 0, env_now = 0\<rparr> sv sample_put =
        Some (Inr (sv', \<lparr>resp_code = CHANGED, resp_cf = None, resp_data = []\<rparr>, effs @ [NotifyObservers ''put'']))"
proof
  fix sv
  let ?env = "\<lparr>env_fuel = 9, env_stack = any_state, env_buf = replicate 4096 0, env_now = 0\<rparr>"
  have n: "length (cbor_of (norm (CORECONF_HASHMAP sample_map))) \<le> 4096" "hm_objects sample_map \<noteq> []" by code_simp+
  show "\<exists>sv' effs. handle_put ?env sv sample_put =
      Some (Inr (sv', \<lparr>resp_code = CHANGED, resp_cf = None, resp_data = []\<rparr>, effs @ [NotifyObservers ''put'']))"
    using put_then_get[OF sample_map_wf sample_map_facts(2) _ n(2) _ _ _ n(1), of "sample_put" ?env ?env sv] sample_map_facts
    by (simp add: sample_put_def get_content_format_def get_payload_def del: cbor_of.simps) blast
qed

section \<open>What an identifier of FETCH finds\<close>

text \<open>
  The relation between an identifier and the value that the datastore has for it, said without the searches of the
  handler. A container that is stored under the SID \<open>base\<close> holds a leaf under \<open>base + delta\<close> if its map has the leaf
  under \<open>delta\<close>. A SID names the value at the top level or else the leaf of the first container that has it; a list
  entry, the list of the first entry with that key.
\<close>

inductive holds_leaf :: "u64 \<Rightarrow> CoreconfValue CoreconfObject \<Rightarrow> CoreconfValue \<Rightarrow> bool" where
  "getCoreconfHashMap m delta = Some v \<Longrightarrow> unat sid = unat base + unat delta \<Longrightarrow>
     holds_leaf sid (base, CORECONF_HASHMAP m) v"

inductive located :: "CoreconfValue CoreconfHashMap \<Rightarrow> FetchIid \<Rightarrow> CoreconfValue \<Rightarrow> bool" where
  top: "getCoreconfHashMap hm sid = Some v \<Longrightarrow> located hm (IID_SCALAR sid) v"
| below: "getCoreconfHashMap hm sid = None \<Longrightarrow> hm_objects hm = before @ obj # behind \<Longrightarrow> holds_leaf sid obj v \<Longrightarrow>
    (\<And>x w. x \<in> set before \<Longrightarrow> \<not> holds_leaf sid x w) \<Longrightarrow> located hm (IID_SCALAR sid) v"
| entry: "getCoreconfHashMap hm sid = Some (CORECONF_ARRAY es) \<Longrightarrow> first_named key es e \<Longrightarrow>
    located hm (IID_LIST sid key) (CORECONF_ARRAY [e])"

inductive_simps located_simps: "located hm (IID_SCALAR sid) v" "located hm (IID_LIST sid key) v"

definition leaf_of :: "u64 \<Rightarrow> CoreconfValue CoreconfObject \<Rightarrow> CoreconfValue option" where
  "leaf_of sid obj =
     (if fst obj \<le> sid
      then (case snd obj of CORECONF_HASHMAP m \<Rightarrow> getCoreconfHashMap m (sid - fst obj) | _ \<Rightarrow> None)
      else None)"

lemma find_leaf_Cons:
  "find_leaf sid (obj # objs) = (case leaf_of sid obj of Some leaf \<Rightarrow> Some leaf | None \<Rightarrow> find_leaf sid objs)"
  by (simp add: leaf_of_def)

lemma delta_unique: "unat (sid :: u64) = unat base + unat delta \<longleftrightarrow> base \<le> sid \<and> delta = sid - base"
proof
  assume u: "unat sid = unat base + unat delta"
  then have "base \<le> sid" by (simp add: word_le_nat_alt)
  then have "unat delta = unat (sid - base)" using u by (simp add: unat_sub)
  with \<open>base \<le> sid\<close> show "base \<le> sid \<and> delta = sid - base" by (simp add: word_unat_eq_iff)
next
  assume "base \<le> sid \<and> delta = sid - base"
  then show "unat sid = unat base + unat delta" using unat_mono[of base sid]
    by (auto simp: unat_sub word_le_nat_alt)
qed

lemma holds_leaf_of: "holds_leaf sid obj v \<longleftrightarrow> leaf_of sid obj = Some v"
  by (cases obj) (auto simp: holds_leaf.simps leaf_of_def delta_unique split: if_splits CoreconfValue.splits)

lemma find_leaf_first:
  "find_leaf sid objs = Some v \<longleftrightarrow>
     (\<exists>before obj behind. objs = before @ obj # behind \<and> holds_leaf sid obj v \<and>
        (\<forall>x \<in> set before. \<forall>w. \<not> holds_leaf sid x w))"
proof (induction objs)
  case Nil
  then show ?case by simp
next
  case (Cons obj objs)
  show ?case
  proof (cases "leaf_of sid obj")
    case None
    then have no: "\<not> holds_leaf sid obj w" for w by (simp add: holds_leaf_of)
    have "(\<exists>before x behind. obj # objs = before @ x # behind \<and> holds_leaf sid x v \<and>
          (\<forall>x \<in> set before. \<forall>w. \<not> holds_leaf sid x w)) \<longleftrightarrow>
        (\<exists>before x behind. objs = before @ x # behind \<and> holds_leaf sid x v \<and>
          (\<forall>x \<in> set before. \<forall>w. \<not> holds_leaf sid x w))" (is "?l \<longleftrightarrow> ?r")
    proof
      assume ?l
      then obtain before x behind where l: "obj # objs = before @ x # behind" "holds_leaf sid x v"
          "\<forall>x \<in> set before. \<forall>w. \<not> holds_leaf sid x w" by blast
      then obtain before' where "before = obj # before'" using no by (cases before) auto
      then have "objs = before' @ x # behind" "\<forall>x \<in> set before'. \<forall>w. \<not> holds_leaf sid x w" using l by simp_all
      then show ?r using l(2) by blast
    next
      assume ?r
      then obtain before x behind where "objs = before @ x # behind" "holds_leaf sid x v"
          "\<forall>x \<in> set before. \<forall>w. \<not> holds_leaf sid x w" by blast
      then show ?l using no by (intro exI[of _ "obj # before"] exI[of _ x] exI[of _ behind]) simp
    qed
    then show ?thesis using Cons None by (simp add: find_leaf_Cons del: find_leaf.simps)
  next
    case (Some leaf)
    then have l: "holds_leaf sid obj w \<longleftrightarrow> w = leaf" for w by (auto simp: holds_leaf_of)
    show ?thesis
    proof
      assume "find_leaf sid (obj # objs) = Some v"
      then have "holds_leaf sid obj v" using Some l by (simp add: find_leaf_Cons del: find_leaf.simps)
      then show "\<exists>before x behind. obj # objs = before @ x # behind \<and> holds_leaf sid x v \<and>
          (\<forall>x \<in> set before. \<forall>w. \<not> holds_leaf sid x w)"
        by (intro exI[of _ "[]"] exI[of _ obj] exI[of _ objs]) simp
    next
      assume "\<exists>before x behind. obj # objs = before @ x # behind \<and> holds_leaf sid x v \<and>
          (\<forall>x \<in> set before. \<forall>w. \<not> holds_leaf sid x w)"
      then obtain before x behind where x: "obj # objs = before @ x # behind" "holds_leaf sid x v"
          "\<forall>x \<in> set before. \<forall>w. \<not> holds_leaf sid x w" by blast
      then have "before = []" using l by (cases before) auto
      then have "v = leaf" using x l by simp
      then show "find_leaf sid (obj # objs) = Some v" using Some by (simp add: find_leaf_Cons del: find_leaf.simps)
    qed
  qed
qed

text \<open>The value of an identifier as the handler looks for it, and the map of one entry that it writes.\<close>

fun fetch_sid :: "FetchIid \<Rightarrow> u64" where
  "fetch_sid (IID_SCALAR sid) = sid"
| "fetch_sid (IID_LIST sid key) = sid"

fun find_value :: "CoreconfValue CoreconfHashMap \<Rightarrow> FetchIid \<Rightarrow> CoreconfValue option" where
  "find_value hm (IID_SCALAR sid) =
     (case getCoreconfHashMap hm sid of Some v \<Rightarrow> Some v | None \<Rightarrow> find_leaf sid (hm_objects hm))"
| "find_value hm (IID_LIST sid key) =
     (case getCoreconfHashMap hm sid of
        Some (CORECONF_ARRAY es) \<Rightarrow>
          (let idx = fetch_find_list_entry (Some (CORECONF_ARRAY es)) key in
           if idx \<ge> 0 then Some (CORECONF_ARRAY [es ! nat idx]) else None)
      | _ \<Rightarrow> None)"

lemma located_find_value: "located hm iid v \<longleftrightarrow> find_value hm iid = Some v"
proof (cases iid)
  case (IID_SCALAR sid)
  show ?thesis
  proof (cases "getCoreconfHashMap hm sid")
    case None
    have "located hm (IID_SCALAR sid) v \<longleftrightarrow> find_leaf sid (hm_objects hm) = Some v"
      unfolding find_leaf_first
    proof
      assume "located hm (IID_SCALAR sid) v"
      then show "\<exists>before obj behind. hm_objects hm = before @ obj # behind \<and> holds_leaf sid obj v \<and>
          (\<forall>x \<in> set before. \<forall>w. \<not> holds_leaf sid x w)"
        using None by (cases rule: located.cases) (simp, blast)
    next
      assume "\<exists>before obj behind. hm_objects hm = before @ obj # behind \<and> holds_leaf sid obj v \<and>
          (\<forall>x \<in> set before. \<forall>w. \<not> holds_leaf sid x w)"
      then show "located hm (IID_SCALAR sid) v" using None located.below by blast
    qed
    then show ?thesis using IID_SCALAR None by simp
  next
    case (Some w)
    then show ?thesis unfolding IID_SCALAR located_simps by auto
  qed
next
  case (IID_LIST sid key)
  have "(find_value hm (IID_LIST sid key) = Some v) \<longleftrightarrow>
      (\<exists>es e. getCoreconfHashMap hm sid = Some (CORECONF_ARRAY es) \<and> first_named key es e \<and> v = CORECONF_ARRAY [e])"
    by (auto simp: fetch_find_list_entry_def Let_def simp flip: find_entry_from_named(1)
        split: option.splits CoreconfValue.splits if_splits)
  then show ?thesis unfolding IID_LIST located_simps by blast
qed

lemma located_values:
  "list_all2 (\<lambda>iid w. \<forall>v. w = Some v \<longleftrightarrow> located hm iid v) iids ws \<longleftrightarrow> ws = map (find_value hm) iids"
proof -
  have "(\<forall>v. w = Some v \<longleftrightarrow> located hm iid v) \<longleftrightarrow> w = find_value hm iid" for iid w
    by (auto simp: located_find_value) (metis option.exhaust)
  then show ?thesis by (induction iids arbitrary: ws) (auto simp: list_all2_Cons1)
qed

definition found_objects :: "FetchIid list \<Rightarrow> CoreconfValue option list \<Rightarrow> CoreconfValue CoreconfObject list" where
  "found_objects iids ws =
     concat (map2 (\<lambda>iid w. case w of None \<Rightarrow> [] | Some v \<Rightarrow> [(fetch_sid iid, v)]) iids ws)"

lemma found_objects_simps [simp]:
  "found_objects [] [] = []"
  "found_objects (iid # iids) (w # ws) = (case w of None \<Rightarrow> [] | Some v \<Rightarrow> [(fetch_sid iid, v)]) @ found_objects iids ws"
  by (simp_all add: found_objects_def)

section \<open>FETCH\<close>

text \<open>The bytes of an identifier in a request, and what the answer holds for it.\<close>

fun cbor_fetch_iid :: "FetchIid \<Rightarrow> bytes" where
  "cbor_fetch_iid (IID_SCALAR sid) = cbor_head ZCBOR_MAJOR_TYPE_PINT sid"
| "cbor_fetch_iid (IID_LIST sid key) = cbor_keyed sid key"

fun key_fits :: "FetchIid \<Rightarrow> bool" where
  "key_fits (IID_SCALAR sid) \<longleftrightarrow> True"
| "key_fits (IID_LIST sid key) \<longleftrightarrow> length key < 128 \<and> 0 \<notin> set key"

definition fetch_answer :: "CoreconfValue CoreconfHashMap \<Rightarrow> FetchIid \<Rightarrow> bytes" where
  "fetch_answer hm iid = (case find_value hm iid of None \<Rightarrow> [] | Some v \<Rightarrow> cbor_object (fetch_sid iid, v))"

lemma fetch_answers_found:
  "concat (map (fetch_answer hm) iids) = concat (map cbor_object (found_objects iids (map (find_value hm) iids)))"
  by (induction iids) (simp_all add: fetch_answer_def split: option.split)

lemma writes_object_of: "writes (\<lambda>s. (True, snd (coreconfToCBOR v (snd (zcbor_uint64_put s sid))))) (cbor_object (sid, v))"
  using writes_then[OF writes_primitive(1)[of sid] encodes_all[of v]] by simp

lemma writes_skip: "writes (\<lambda>s. (True, s)) []"
  by (rule writes_Nil)

lemma writes_keyed_answer:
  "writes (\<lambda>s. (True, snd (zcbor_list_end_encode
      (snd (coreconfToCBOR v (snd (zcbor_list_start_encode (snd (zcbor_uint64_put s sid)) 1)))) 1)))
    (cbor_head ZCBOR_MAJOR_TYPE_PINT sid @ [0x9F] @ cbor_of v @ [0xFF])"
  using writes_then[OF writes_primitive(1)[of sid] writes_then[OF writes_delimiters(1)[of 1]
      writes_then[OF encodes_all[of v] writes_delimiters(3)[of 1]]]]
  by simp

lemma writes_fetch_put: "writes (\<lambda>s. (True, fetch_put hm iid s)) (fetch_answer hm iid)"
proof (cases iid)
  case (IID_SCALAR sid)
  show ?thesis
  proof (cases "getCoreconfHashMap hm sid")
    case (Some v)
    then show ?thesis using IID_SCALAR writes_object_of by (simp add: fetch_put_def fetch_answer_def)
  next
    case None
    then show ?thesis using IID_SCALAR writes_object_of writes_skip
      by (cases "find_leaf sid (hm_objects hm)") (simp_all add: fetch_put_def fetch_answer_def)
  qed
next
  case (IID_LIST sid key)
  show ?thesis
  proof (cases "\<exists>elements. getCoreconfHashMap hm sid = Some (CORECONF_ARRAY elements)")
    case True
    then show ?thesis using IID_LIST writes_keyed_answer writes_skip by (auto simp: fetch_put_def fetch_answer_def Let_def)
  next
    case False
    then show ?thesis using IID_LIST writes_skip
      by (auto simp: fetch_put_def fetch_answer_def split: option.split CoreconfValue.split)
  qed
qed

lemma fetch_iids_coming:
  assumes "length data = n" and "offset \<le> n"
    and "take (n - offset) (drop offset data) = concat (map cbor_fetch_iid iids)"
    and "\<forall>iid \<in> set iids. key_fits iid" and "length acc + length iids \<le> 64"
  shows "fetch_iids old data n offset acc = acc @ iids"
  using assms(2-5)
proof (induction iids arbitrary: offset old acc)
  case Nil
  then have "n = offset" using assms(1) by auto
  then show ?case by (subst fetch_iids.simps) simp
next
  case (Cons iid iids)
  let ?s = "item_state 8 old data n offset" let ?bs = "cbor_fetch_iid iid"
  have t: "take (n - offset) (drop offset data) = ?bs @ concat (map cbor_fetch_iid iids)"
    using Cons.prems by simp
  have com: "coming ?s (?bs @ concat (map cbor_fetch_iid iids))"
    by (rule item_state_coming[OF _ t Cons.prems(1)]) (simp add: assms(1))
  have pos: "0 < length ?bs" by (cases iid) (auto simp: length_cbor_head zcbor_header_len_def)
  have "n - offset = length ?bs + length (concat (map cbor_fetch_iid iids))"
    using arg_cong[OF t, of length] assms(1) by simp
  then have len: "offset + length ?bs \<le> n" "offset < n" using pos by linarith+
  have hd: "data ! offset = header_at ?s" by (simp add: header_at_def)
  have next_items: "fetch_iids old' data n (offset + length ?bs) (acc @ [iid]) = acc @ iid # iids" for old'
    using Cons.IH[OF len(1) item_rest[OF t], of "acc @ [iid]" old'] Cons.prems(3,4) by simp
  show ?case
  proof (cases iid)
    case (IID_SCALAR sid)
    let ?h = "cbor_head ZCBOR_MAJOR_TYPE_PINT sid"
    have c: "coming ?s ?h" using coming_appendD[OF com] IID_SCALAR by simp
    have dec: "zcbor_uint64_decode ?s = (Some sid, advance ?s (length ?h))"
      by (rule uint64_decode_head[OF c]) simp_all
    have "ZCBOR_MAJOR_TYPE (data ! offset) = ZCBOR_MAJOR_TYPE_PINT" using head_major[OF c] hd by simp
    then show ?thesis
      using len(2) Cons.prems(4) dec next_items IID_SCALAR
      by (subst fetch_iids.simps) (simp add: item_state_def[symmetric] Let_def)
  next
    case (IID_LIST sid key)
    have key: "length key < 128" "0 \<notin> set key" using Cons.prems(3) IID_LIST by simp_all
    have c: "coming ?s (cbor_keyed sid key @ concat (map cbor_fetch_iid iids))" using com IID_LIST by simp
    have s: "elem_count ?s \<noteq> 0" "\<not> enforce_canonical ?s" "length (backup_list ?s) < num_backups ?s"
        "length key < 2 ^ 64" using key by simp_all
    obtain s1 s2 zs s3 s4 where d: "zcbor_list_start_decode ?s = (True, s1)" "zcbor_uint64_decode s1 = (Some sid, s2)"
        "zcbor_tstr_decode s2 = (Some zs, s3)" "zcbor_list_end_decode s3 = (True, s4)" "mem s3 = mem ?s"
        "unat (snd zs) = length key" "take (length key) (drop (fst zs) (mem ?s)) = key"
        "consumed (length (cbor_keyed sid key)) 1 ?s s4"
      by (rule keyed_list_coming[OF c s])
    have p: "payload s4 = offset + length ?bs" using consumedD(1)[OF d(8)] IID_LIST by simp
    have "coming ?s (0x9F # cbor_head ZCBOR_MAJOR_TYPE_PINT sid @ cbor_str ZCBOR_MAJOR_TYPE_TSTR key @ [0xFF] @
        concat (map cbor_fetch_iid iids))" using c by simp
    then have "data ! offset = 0x9F" using coming_hd hd by simp
    then have mt: "ZCBOR_MAJOR_TYPE (data ! offset) = ZCBOR_MAJOR_TYPE_LIST" by simp code_simp
    have "c_string key = key" using c_string_no_nul[of key "[]"] key(2) by (simp add: c_string_def)
    moreover have "mem s4 = mem ?s" by (rule consumedD(3)[OF d(8)])
    moreover have "length key < 127 \<or> length key = 127" using key(1) by linarith
    ultimately show ?thesis
      using len(2) Cons.prems(4) d(1-4,6,7) mt next_items IID_LIST p
      by (elim disjE; subst fetch_iids.simps) (simp_all add: item_state_def[symmetric] Let_def)
  qed
qed

lemma fetch_reply:
  assumes "g_datastore sv = Some (CORECONF_HASHMAP hm)" and "g_ds_exists sv"
    and "get_content_format req = 141" and "get_payload req = Some (concat (map cbor_fetch_iid iids))"
    and "iids \<noteq> []" and "length iids \<le> 64" and "\<forall>iid \<in> set iids. key_fits iid"
    and "length (concat (map (fetch_answer hm) iids)) + 2 \<le> 4096" and "length (env_buf env) = 4096"
  shows "handle_fetch env sv req =
    Some (Inr (sv, \<lparr>resp_code = CONTENT, resp_cf = Some 142,
                     resp_data = [0xBF] @ concat (map (fetch_answer hm) iids) @ [0xFF]\<rparr>, []))"
proof -
  let ?data = "concat (map cbor_fetch_iid iids)" let ?n = "of_nat (length iids) :: u64"
  let ?s = "zcbor_new_encode_state (env_stack env) 8 (env_buf env) 0 BUFFER_SIZE 1"
  have iids: "fetch_iids (env_stack env) ?data (length ?data) 0 [] = iids"
    using fetch_iids_coming[of ?data "length ?data" 0 iids "[]"] assms(6,7) by simp
  let ?f = "\<lambda>s. (True, snd (zcbor_map_end_encode (fold (fetch_put hm) iids (snd (zcbor_map_start_encode s ?n))) ?n))"
  let ?bs = "[0xBF] @ concat (map (fetch_answer hm) iids) @ [0xFF]"
  have "writes (\<lambda>s. (True, fold (fetch_put hm) iids s)) (concat (map (fetch_answer hm) iids))"
    by (rule writes_fold) (rule writes_fetch_put)
  from writes_then[OF writes_delimiters(2)[of ?n] writes_then[OF this writes_delimiters(4)[of ?n]]]
  have w: "writes ?f ?bs" by simp
  obtain t where t: "?f ?s = (True, t)" by simp
  have fit: "0 + BUFFER_SIZE \<le> length (env_buf env)" "length ?bs \<le> BUFFER_SIZE"
    using assms(8,9) by (simp_all add: BUFFER_SIZE_def)
  note m = writes_fresh[OF w fit t]
  have "take (payload t) (mem t) = ?bs" using m(2,4) by simp
  then show ?thesis
    using assms(1-5) t iids
    by (simp add: handle_fetch_def map_value_def CF_YANG_IDENTIFIERS_def CF_YANG_INSTANCES_def Let_def)
qed

text \<open>
  C11. FETCH: for at most 64 identifiers, SIDs or list entries with keys below 128 bytes, the server answers with the map that
  holds, in the order of the request, each identifier for which the datastore has a value, with this value: what is stored under the
  SID, else the leaf of the first container \<open>base\<close> that has one under \<open>SID - base\<close>; for a list entry, the list of the first entry with
  that key. What is not there is left out. The answer has to fit into 4096 bytes.
\<close>

theorem fetch_answers:
  assumes "g_datastore sv = Some (CORECONF_HASHMAP hm)" and "g_ds_exists sv"
    and "get_content_format req = 141" and "get_payload req = Some (concat (map cbor_fetch_iid iids))"
    and "iids \<noteq> []" and "length iids \<le> 64" and "\<forall>iid \<in> set iids. key_fits iid" and "length (env_buf env) = 4096"
  shows "\<exists>ws. list_all2 (\<lambda>iid w. \<forall>v. w = Some v \<longleftrightarrow> located hm iid v) iids ws \<and>
    (let answer = [0xBF] @ concat (map cbor_object (found_objects iids ws)) @ [0xFF] in
     length answer \<le> 4096 \<longrightarrow>
       handle_fetch env sv req = Some (Inr (sv, \<lparr>resp_code = CONTENT, resp_cf = Some 142, resp_data = answer\<rparr>, [])))"
proof (intro exI conjI)
  let ?ws = "map (find_value hm) iids"
  show "list_all2 (\<lambda>iid w. \<forall>v. w = Some v \<longleftrightarrow> located hm iid v) iids ?ws" by (simp only: located_values)
  show "let answer = [0xBF] @ concat (map cbor_object (found_objects iids ?ws)) @ [0xFF] in
     length answer \<le> 4096 \<longrightarrow>
       handle_fetch env sv req = Some (Inr (sv, \<lparr>resp_code = CONTENT, resp_cf = Some 142, resp_data = answer\<rparr>, []))"
    using fetch_reply[OF assms(1-7) _ assms(8)] by (simp add: fetch_answers_found Let_def)
qed

definition sample_server :: server where
  "sample_server = \<lparr>g_datastore = Some (CORECONF_HASHMAP sample_map), g_ds_exists = True, g_stream_events = [],
     g_sys_sids = no_system_sids, g_if_sids = no_interfaces_sids, g_ops_sids = no_operation_sids, g_sid_fingerprint = 0\<rparr>"

text \<open>The list of \<open>sample_list\<close> and a container under SID 100 with a leaf under 103, which stands in it under 3.\<close>

definition sample_tree :: "CoreconfValue CoreconfHashMap" where
  "sample_tree = snd (insertCoreconfHashMap sample_list 100
     (CORECONF_HASHMAP (snd (insertCoreconfHashMap empty_hashmap 3 (CORECONF_INT_8 9)))))"

theorem fetch_answers_witness:
  "handle_fetch \<lparr>env_fuel = 9, env_stack = any_state, env_buf = replicate 4096 0, env_now = 0\<rparr>
     (sample_server\<lparr>g_datastore := Some (CORECONF_HASHMAP sample_tree)\<rparr>)
     \<lparr>req_cf = Some 141, req_data = Some [0x18, 0x67, 0x9F, 7, 0x61, 0x62, 0xFF, 1]\<rparr> =
   Some (Inr (sample_server\<lparr>g_datastore := Some (CORECONF_HASHMAP sample_tree)\<rparr>,
     \<lparr>resp_code = CONTENT, resp_cf = Some 142,
      resp_data = [0xBF, 0x18, 0x67, 9, 7, 0x9F, 0xBF, 1, 0x61, 0x62, 0xFF, 0xFF, 0xFF]\<rparr>, []))"
proof -
  let ?iids = "[IID_SCALAR 103, IID_LIST 7 [0x62], IID_SCALAR 1]" let ?ws = "map (find_value sample_tree) ?iids"
  let ?env = "\<lparr>env_fuel = 9, env_stack = any_state, env_buf = replicate 4096 0, env_now = 0\<rparr>"
  let ?sv = "sample_server\<lparr>g_datastore := Some (CORECONF_HASHMAP sample_tree)\<rparr>"
  let ?req = "\<lparr>req_cf = Some 141, req_data = Some [0x18, 0x67, 0x9F, 7, 0x61, 0x62, 0xFF, 1 :: u8]\<rparr>"
  have c: "concat (map cbor_fetch_iid ?iids) = [0x18, 0x67, 0x9F, 7, 0x61, 0x62, 0xFF, 1]"
    "[0xBF] @ concat (map cbor_object (found_objects ?iids ?ws)) @ [0xFF] =
       [0xBF, 0x18, 0x67, 9, 7, 0x9F, 0xBF, 1, 0x61, 0x62, 0xFF, 0xFF, 0xFF]" by code_simp+
  have req: "g_datastore ?sv = Some (CORECONF_HASHMAP sample_tree)" "g_ds_exists ?sv" "get_content_format ?req = 141"
      "get_payload ?req = Some (concat (map cbor_fetch_iid ?iids))"
    unfolding c by (simp_all add: sample_server_def get_content_format_def get_payload_def)
  obtain ws where ws: "list_all2 (\<lambda>iid w. \<forall>v. w = Some v \<longleftrightarrow> located sample_tree iid v) ?iids ws"
      "let answer = [0xBF] @ concat (map cbor_object (found_objects ?iids ws)) @ [0xFF] in
       length answer \<le> 4096 \<longrightarrow>
         handle_fetch ?env ?sv ?req = Some (Inr (?sv, \<lparr>resp_code = CONTENT, resp_cf = Some 142, resp_data = answer\<rparr>, []))"
    using fetch_answers[OF req, of ?env] by (simp del: found_objects_simps) blast
  have "ws = ?ws" using ws(1) by (simp only: located_values)
  note answer = ws(2)[unfolded this Let_def c(2)]
  show ?thesis by (rule answer[THEN mp]) simp
qed

text \<open>
  C36. Command injection: a PUT of a datastore with a string under SID 1735 runs a shell command in which this string,
  chosen by the client, stands unescaped between single quotes.
\<close>

theorem put_runs_command:
  assumes "get_content_format req = 140" and "get_payload req = Some bs"
    and "parse_put_request (env_fuel env) (env_stack env) (Some bs) (length bs) = Some (Some (CORECONF_HASHMAP hm))"
    and "getCoreconfHashMap hm 1735 = Some (CORECONF_STRING pw)" and "length pw \<le> 400"
    and "handle_put env sv req = Some (Inr (sv', resp, effs))"
  shows "System (ascii ''/usr/local/bin/rotate_password.sh iotadmin '' @ [0x27] @ c_string pw @ [0x27]) \<in> set effs"
proof -
  have "length (c_string pw) \<le> 400"
    using assms(5) unfolding c_string_def by (rule order_trans[OF length_takeWhile_le])
  then have "password_command pw = ascii ''/usr/local/bin/rotate_password.sh iotadmin '' @ [0x27] @ c_string pw @ [0x27]"
    by (simp add: password_command_def ascii_def)
  then show ?thesis
    using assms by (auto simp: handle_put_def CF_YANG_DATA_CBOR_def SID_PASSWORD_def Let_def split: sum.splits)
qed

text \<open>A password that closes the quote and appends a command of its own.\<close>

definition sample_password :: "CoreconfValue CoreconfHashMap" where
  "sample_password = snd (insertCoreconfHashMap empty_hashmap 1735 (CORECONF_STRING [0x27, 0x3B, 0x69, 0x64]))"

theorem put_runs_command_witness:
  "\<exists>sv' resp effs. handle_put \<lparr>env_fuel = 20, env_stack = any_state, env_buf = [], env_now = 0\<rparr> sample_server
       \<lparr>req_cf = Some 140, req_data = Some [0xBF, 0x19, 0x06, 0xC7, 0x64, 0x27, 0x3B, 0x69, 0x64, 0xFF]\<rparr> = Some (Inr (sv', resp, effs)) \<and>
     System (ascii ''/usr/local/bin/rotate_password.sh iotadmin '' @ [0x27, 0x27, 0x3B, 0x69, 0x64, 0x27]) \<in> set effs"
proof -
  let ?v = "CORECONF_HASHMAP sample_password"
  let ?env = "\<lparr>env_fuel = 20, env_stack = any_state, env_buf = [], env_now = 0\<rparr>"
  let ?req = "\<lparr>req_cf = Some 140, req_data = Some [0xBF, 0x19, 0x06, 0xC7, 0x64, 0x27, 0x3B, 0x69, 0x64, 0xFF :: u8]\<rparr>"
  have objs: "hm_objects sample_password = [(1735, CORECONF_STRING [0x27, 0x3B, 0x69, 0x64])]" by code_simp
  then have ok: "wire_ok ?v" by (simp add: CORECONF_MAX_LOOP_def)
  have c: "cbor_of ?v = [0xBF, 0x19, 0x06, 0xC7, 0x64, 0x27, 0x3B, 0x69, 0x64, 0xFF]" "nest ?v \<le> 6"
    "norm ?v = ?v" "getCoreconfHashMap sample_password 1735 = Some (CORECONF_STRING [0x27, 0x3B, 0x69, 0x64])"
    "c_string [0x27, 0x3B, 0x69, 0x64] = [0x27, 0x3B, 0x69, 0x64 :: u8]" by code_simp+
  have req: "get_content_format ?req = 140" "get_payload ?req = Some (cbor_of ?v)" "length (cbor_of ?v) \<le> env_fuel ?env"
    unfolding c by (simp_all add: get_content_format_def get_payload_def)
  obtain sv' resp effs where put: "handle_put ?env sample_server ?req = Some (Inr (sv', resp, effs))"
    by (rule put_encoded[OF ok c(2,3) req, of sample_server]) blast
  have "parse_put_request (env_fuel ?env) (env_stack ?env) (Some (cbor_of ?v)) (length (cbor_of ?v)) = Some (Some ?v)"
    using parse_put_bytes[OF ok _ c(2) _ refl req(3), of "cbor_of ?v" any_state] c(3) by simp
  from put_runs_command[OF req(1,2) this c(4) _ put] put show ?thesis unfolding c by auto
qed

end
