(* ===== verification/Hash_Functions.thy ===== *)
theory Hash_Functions
  imports Prelude
begin

text \<open>
  The hash functions of \<open>src/src/hashmap.c\<close>: SipHash-2-4 (\<open>SIP64\<close>) for identifiers, and the
  128-bit MurmurHash3 for x86 (\<open>MM86128\<close>) for SIDs, of which 64 bits are used, and \<open>xxh3\<close>, which the
  library offers as a third choice. The machine is little-endian; the data is the list of its bytes.
\<close>

definition le_word :: "bytes \<Rightarrow> u64" where
  "le_word bs = foldr (\<lambda>b w. w * 256 + ucast b) bs 0"

definition le_bytes :: "nat \<Rightarrow> u64 \<Rightarrow> bytes" where
  "le_bytes n w = rev (be_bytes n w)"

section \<open>SipHash\<close>

definition rotl64 :: "u64 \<Rightarrow> nat \<Rightarrow> u64" where
  "rotl64 x b = push_bit b x OR drop_bit (64 - b) x"

type_synonym sip = "u64 \<times> u64 \<times> u64 \<times> u64"

text \<open>The macro \<open>SIPROUND\<close> on \<open>v0\<close>, \<open>v1\<close>, \<open>v2\<close>, \<open>v3\<close>.\<close>

definition sipround :: "sip \<Rightarrow> sip" where
  "sipround s = (case s of (v0, v1, v2, v3) \<Rightarrow>
     let v0 = v0 + v1; v1 = rotl64 v1 13; v1 = v1 XOR v0; v0 = rotl64 v0 32;
         v2 = v2 + v3; v3 = rotl64 v3 16; v3 = v3 XOR v2;
         v0 = v0 + v3; v3 = rotl64 v3 21; v3 = v3 XOR v0;
         v2 = v2 + v1; v1 = rotl64 v1 17; v1 = v1 XOR v2; v2 = rotl64 v2 32
     in (v0, v1, v2, v3))"

definition sip_word :: "u64 \<Rightarrow> sip \<Rightarrow> sip" where
  "sip_word m s = (case s of (v0, v1, v2, v3) \<Rightarrow>
     case sipround (sipround (v0, v1, v2, v3 XOR m)) of
       (v0, v1, v2, v3) \<Rightarrow> (v0 XOR m, v1, v2, v3))"

text \<open>The loop over whole words; it ends with fewer than eight bytes left.\<close>

fun sip_words :: "bytes \<Rightarrow> sip \<Rightarrow> sip \<times> bytes" where
  "sip_words (b0 # b1 # b2 # b3 # b4 # b5 # b6 # b7 # bs) s =
     sip_words bs (sip_word (le_word [b0, b1, b2, b3, b4, b5, b6, b7]) s)"
| "sip_words bs s = (s, bs)"

definition SIP64 :: "bytes \<Rightarrow> u64 \<Rightarrow> u64 \<Rightarrow> u64" where
  "SIP64 data seed0 seed1 =
     (let v3 = 0x7465646279746573 XOR seed1;
          v2 = 0x6c7967656e657261 XOR seed0;
          v1 = 0x646f72616e646f6d XOR seed1;
          v0 = 0x736f6d6570736575 XOR seed0
      in case sip_words data (v0, v1, v2, v3) of
           (s, rest) \<Rightarrow>
             (let b = push_bit 56 (of_nat (length data)) OR le_word rest
              in case sip_word b s of
                   (v0, v1, v2, v3) \<Rightarrow>
                     (case sipround (sipround (sipround (sipround (v0, v1, v2 XOR 0xff, v3)))) of
                        (v0, v1, v2, v3) \<Rightarrow> v0 XOR v1 XOR v2 XOR v3)))"

section \<open>MurmurHash\<close>

definition rotl32 :: "u32 \<Rightarrow> nat \<Rightarrow> u32" where
  "rotl32 x r = push_bit r x OR drop_bit (32 - r) x"

definition fmix32 :: "u32 \<Rightarrow> u32" where
  "fmix32 h =
     (let h = h XOR drop_bit 16 h; h = h * 0x85ebca6b; h = h XOR drop_bit 13 h;
          h = h * 0xc2b2ae35
      in h XOR drop_bit 16 h)"

definition mm_c1 :: u32 where "mm_c1 = 0x239b961b"
definition mm_c2 :: u32 where "mm_c2 = 0xab0e9789"
definition mm_c3 :: u32 where "mm_c3 = 0x38b34ae5"
definition mm_c4 :: u32 where "mm_c4 = 0xa1e38b93"

type_synonym mm = "u32 \<times> u32 \<times> u32 \<times> u32"

definition mm_k1 :: "u32 \<Rightarrow> u32" where "mm_k1 k = rotl32 (k * mm_c1) 15 * mm_c2"
definition mm_k2 :: "u32 \<Rightarrow> u32" where "mm_k2 k = rotl32 (k * mm_c2) 16 * mm_c3"
definition mm_k3 :: "u32 \<Rightarrow> u32" where "mm_k3 k = rotl32 (k * mm_c3) 17 * mm_c4"
definition mm_k4 :: "u32 \<Rightarrow> u32" where "mm_k4 k = rotl32 (k * mm_c4) 18 * mm_c1"

text \<open>\<open>blocks[j]\<close>: a little-endian word.\<close>

definition mm_word :: "bytes \<Rightarrow> nat \<Rightarrow> u32" where
  "mm_word bs j = ucast (le_word (take 4 (drop (4 * j) bs)))"

text \<open>One round of the loop over blocks of sixteen bytes.\<close>

definition mm_block :: "bytes \<Rightarrow> mm \<Rightarrow> mm" where
  "mm_block bs s = (case s of (h1, h2, h3, h4) \<Rightarrow>
     let h1 = h1 XOR mm_k1 (mm_word bs 0); h1 = rotl32 h1 19; h1 = h1 + h2; h1 = h1 * 5 + 0x561ccd1b;
         h2 = h2 XOR mm_k2 (mm_word bs 1); h2 = rotl32 h2 17; h2 = h2 + h3; h2 = h2 * 5 + 0x0bcaa747;
         h3 = h3 XOR mm_k3 (mm_word bs 2); h3 = rotl32 h3 15; h3 = h3 + h4; h3 = h3 * 5 + 0x96cd1c35;
         h4 = h4 XOR mm_k4 (mm_word bs 3); h4 = rotl32 h4 13; h4 = h4 + h1; h4 = h4 * 5 + 0x32ac3b17
     in (h1, h2, h3, h4))"

function mm_blocks :: "bytes \<Rightarrow> mm \<Rightarrow> mm \<times> bytes" where
  "mm_blocks bs s = (if length bs < 16 then (s, bs) else mm_blocks (drop 16 bs) (mm_block (take 16 bs) s))"
  by auto
termination by (relation "measure (\<lambda>(bs, s). length bs)") auto

declare mm_blocks.simps [simp del]

text \<open>The switch on the length of the tail, whose cases fall through: the bytes that are there are
  put into \<open>k4\<close>, \<open>k3\<close>, \<open>k2\<close> and \<open>k1\<close>, and each that has a byte is mixed in.\<close>

definition mm_tail :: "bytes \<Rightarrow> mm \<Rightarrow> mm" where
  "mm_tail t s = (case s of (h1, h2, h3, h4) \<Rightarrow>
     ((if length t \<ge> 1 then h1 XOR mm_k1 (mm_word t 0) else h1),
      (if length t \<ge> 5 then h2 XOR mm_k2 (mm_word t 1) else h2),
      (if length t \<ge> 9 then h3 XOR mm_k3 (mm_word t 2) else h3),
      (if length t \<ge> 13 then h4 XOR mm_k4 (mm_word t 3) else h4)))"

definition mm_spread :: "mm \<Rightarrow> mm" where
  "mm_spread s = (case s of (h1, h2, h3, h4) \<Rightarrow>
     let h1 = h1 + h2 + h3 + h4 in (h1, h2 + h1, h3 + h1, h4 + h1))"

definition MM86128 :: "bytes \<Rightarrow> u32 \<Rightarrow> u64" where
  "MM86128 data seed =
     (case mm_blocks data (seed, seed, seed, seed) of
        (s, tail) \<Rightarrow>
          (case mm_tail tail s of
             (h1, h2, h3, h4) \<Rightarrow>
               (let n = of_nat (length data) in
                case mm_spread (h1 XOR n, h2 XOR n, h3 XOR n, h4 XOR n) of
                  (h1, h2, h3, h4) \<Rightarrow>
                    (case mm_spread (fmix32 h1, fmix32 h2, fmix32 h3, fmix32 h4) of
                       (h1, h2, _, _) \<Rightarrow> push_bit 32 (ucast h2) OR ucast h1))))"

definition hashmap_sip :: "bytes \<Rightarrow> u64 \<Rightarrow> u64 \<Rightarrow> u64" where
  "hashmap_sip data seed0 seed1 = SIP64 data seed0 seed1"

text \<open>The 64-bit seed is cut to the 32 bits of the parameter of \<open>MM86128\<close>; \<open>seed1\<close> is unused.\<close>

definition hashmap_murmur :: "bytes \<Rightarrow> u64 \<Rightarrow> u64 \<Rightarrow> u64" where
  "hashmap_murmur data seed0 seed1 = MM86128 data (ucast seed0)"

section \<open>XXHash\<close>

definition XXH_PRIME_1 :: u64 where "XXH_PRIME_1 = 11400714785074694791"
definition XXH_PRIME_2 :: u64 where "XXH_PRIME_2 = 14029467366897019727"
definition XXH_PRIME_3 :: u64 where "XXH_PRIME_3 = 1609587929392839161"
definition XXH_PRIME_4 :: u64 where "XXH_PRIME_4 = 9650029242287828579"
definition XXH_PRIME_5 :: u64 where "XXH_PRIME_5 = 2870177450012600261"

definition XXH_read64 :: "bytes \<Rightarrow> u64" where
  "XXH_read64 p = le_word (take 8 p)"

definition XXH_read32 :: "bytes \<Rightarrow> u32" where
  "XXH_read32 p = ucast (le_word (take 4 p))"

definition XXH_rotl64 :: "u64 \<Rightarrow> nat \<Rightarrow> u64" where
  "XXH_rotl64 x r = push_bit r x OR drop_bit (64 - r) x"

text \<open>A word mixed into one of the four lanes, and the loop over stripes of 32 bytes.\<close>

definition xxh_round :: "u64 \<Rightarrow> u64 \<Rightarrow> u64" where
  "xxh_round v k = XXH_rotl64 (v + k * XXH_PRIME_2) 31 * XXH_PRIME_1"

function xxh_stripes :: "bytes \<Rightarrow> sip \<Rightarrow> sip \<times> bytes" where
  "xxh_stripes p s =
     (if length p < 32 then (s, p)
      else case s of (v1, v2, v3, v4) \<Rightarrow>
        xxh_stripes (drop 32 p)
          (xxh_round v1 (XXH_read64 p), xxh_round v2 (XXH_read64 (drop 8 p)),
           xxh_round v3 (XXH_read64 (drop 16 p)), xxh_round v4 (XXH_read64 (drop 24 p))))"
  by auto
termination by (relation "measure (\<lambda>(p, s). length p)") auto

declare xxh_stripes.simps [simp del]

definition xxh_merge :: "u64 \<Rightarrow> u64 \<Rightarrow> u64" where
  "xxh_merge h64 v = (h64 XOR xxh_round 0 v) * XXH_PRIME_1 + XXH_PRIME_4"

definition xxh_lanes :: "sip \<Rightarrow> u64" where
  "xxh_lanes s = (case s of (v1, v2, v3, v4) \<Rightarrow>
     xxh_merge (xxh_merge (xxh_merge (xxh_merge
       (XXH_rotl64 v1 1 + XXH_rotl64 v2 7 + XXH_rotl64 v3 12 + XXH_rotl64 v4 18) v1) v2) v3) v4)"

text \<open>The loops over the rest: words of eight bytes, one of four, single bytes.\<close>

fun xxh_words :: "bytes \<Rightarrow> u64 \<Rightarrow> u64 \<times> bytes" where
  "xxh_words (b0 # b1 # b2 # b3 # b4 # b5 # b6 # b7 # p) h64 =
     xxh_words p
       (XXH_rotl64 (h64 XOR XXH_rotl64 (XXH_read64 [b0, b1, b2, b3, b4, b5, b6, b7] * XXH_PRIME_2) 31 * XXH_PRIME_1) 27
         * XXH_PRIME_1 + XXH_PRIME_4)"
| "xxh_words p h64 = (h64, p)"

definition xxh_half :: "bytes \<Rightarrow> u64 \<Rightarrow> u64 \<times> bytes" where
  "xxh_half p h64 =
     (if 4 \<le> length p
      then (XXH_rotl64 (h64 XOR ucast (XXH_read32 p) * XXH_PRIME_1) 23 * XXH_PRIME_2 + XXH_PRIME_3, drop 4 p)
      else (h64, p))"

fun xxh_tail :: "bytes \<Rightarrow> u64 \<Rightarrow> u64" where
  "xxh_tail [] h64 = h64"
| "xxh_tail (b # p) h64 = xxh_tail p (XXH_rotl64 (h64 XOR ucast b * XXH_PRIME_5) 11 * XXH_PRIME_1)"

definition xxh_avalanche :: "u64 \<Rightarrow> u64" where
  "xxh_avalanche h64 =
     (let h64 = (h64 XOR drop_bit 33 h64) * XXH_PRIME_2; h64 = (h64 XOR drop_bit 29 h64) * XXH_PRIME_3
      in h64 XOR drop_bit 32 h64)"

definition xxh3 :: "bytes \<Rightarrow> u64 \<Rightarrow> u64" where
  "xxh3 data seed =
     (let (h64, p) =
        (if 32 \<le> length data
         then map_prod xxh_lanes id
                (xxh_stripes data (seed + XXH_PRIME_1 + XXH_PRIME_2, seed + XXH_PRIME_2, seed, seed - XXH_PRIME_1))
         else (seed + XXH_PRIME_5, data));
        (h64, p) = xxh_words p (h64 + of_nat (length data));
        (h64, p) = xxh_half p h64
      in xxh_avalanche (xxh_tail p h64))"

definition hashmap_xxhash3 :: "bytes \<Rightarrow> u64 \<Rightarrow> u64 \<Rightarrow> u64" where
  "hashmap_xxhash3 data seed0 seed1 = xxh3 data seed0"

end
