(* ===== verification/Sid_Lists.thy ===== *)
theory Sid_Lists
  imports Delete Hash_Functions "HOL-Library.Multiset"
begin

text \<open>
  \<open>src/src/sid.c\<close>: the dynamic lists of SIDs, the items of the SID dictionaries with their
  comparison and hash callbacks, and the string helpers. A dynamic list is the list of its elements,
  longs as 64-bit words; a pointer to one is an option where the code tests it for NULL. The
  standard \<open>qsort\<close> is an argument of the functions that use it, since the order in which it leaves
  elements that compare equal is open.
\<close>

type_synonym DynamicLongList = "u64 list"

section \<open>Lists\<close>

definition createDynamicLongList :: DynamicLongList where
  "createDynamicLongList = []"

definition initializeDynamicLongList :: DynamicLongList where
  "initializeDynamicLongList = []"

text \<open>The comparison reads the longs as ints, their low 32 bits on this machine. The difference is
  the mathematical one; outside the range of int the C subtraction is undefined.\<close>

definition int_of_long :: "u64 \<Rightarrow> int" where
  "int_of_long x = sint (ucast x :: u32)"

definition compareLong :: "u64 \<Rightarrow> u64 \<Rightarrow> int" where
  "compareLong a b = int_of_long a - int_of_long b"

type_synonym qsort_fun = "(u64 \<Rightarrow> u64 \<Rightarrow> int) \<Rightarrow> u64 list \<Rightarrow> u64 list"

definition sortDynamicLongList :: "qsort_fun \<Rightarrow> DynamicLongList \<Rightarrow> u64 list" where
  "sortDynamicLongList qs l = qs compareLong l"

definition compareDynamicLongList :: "qsort_fun \<Rightarrow> DynamicLongList \<Rightarrow> DynamicLongList \<Rightarrow> bool" where
  "compareDynamicLongList qs l1 l2 =
     (if length l1 = 0 \<or> length l2 = 0 then False
      else if length l1 \<noteq> length l2 then False
      else list_all2 (=) (sortDynamicLongList qs l1) (sortDynamicLongList qs l2))"

text \<open>The NULL test of \<open>addLong\<close> only chooses the size; the pointer is followed all the same.\<close>

definition addLong :: "DynamicLongList option \<Rightarrow> u64 \<Rightarrow> c_fault + DynamicLongList" where
  "addLong l v = (case l of None \<Rightarrow> Inl NullDereference | Some xs \<Rightarrow> Inr (xs @ [v]))"

definition popLong :: "DynamicLongList option \<Rightarrow> u64 \<times> DynamicLongList option" where
  "popLong l =
     (case l of
        None \<Rightarrow> (0, None)
      | Some xs \<Rightarrow> if xs = [] then (0, Some xs) else (last xs, Some (butlast xs)))"

text \<open>The clone of NULL or of an empty list leaves the target as it was, which is then the
  uninitialised memory (\<open>None\<close>) of a caller that has just allocated it.\<close>

definition cloneDynamicLongList :: "DynamicLongList option \<Rightarrow> DynamicLongList option \<Rightarrow> DynamicLongList option" where
  "cloneDynamicLongList original cloned =
     (case original of
        None \<Rightarrow> cloned
      | Some xs \<Rightarrow> if xs = [] then cloned else Some (initializeDynamicLongList @ xs))"

definition addUniqueLong :: "DynamicLongList \<Rightarrow> u64 \<Rightarrow> DynamicLongList" where
  "addUniqueLong xs v = (if v \<in> set xs then xs else xs @ [v])"

section \<open>The items of the dictionaries\<close>

record KeyMapping =
  km_key :: u64
  km_list :: DynamicLongList

record IdentifierSID =
  is_identifier :: bytes
  is_sid :: u64

record SIDIdentifier =
  si_sid :: u64
  si_identifier :: bytes

datatype SchemaIdentifierType =
    STRING | UINT_8 | UINT_16 | UINT_32 | UINT_64 | RCS_ALGORITHM | DECIMAL64 | BOOLEAN | IDENTITY_REF

record IdentifierType =
  it_identifier :: bytes
  it_type :: SchemaIdentifierType

text \<open>The callbacks; a comparison says whether the C function returns 0.\<close>

definition keyMappingCompare :: "KeyMapping \<Rightarrow> KeyMapping \<Rightarrow> bool" where
  "keyMappingCompare a b = (km_key a = km_key b)"

definition keyMappingHash :: "KeyMapping \<Rightarrow> u64 \<Rightarrow> u64 \<Rightarrow> u64" where
  "keyMappingHash a s0 s1 = hashmap_murmur (le_bytes 8 (km_key a)) s0 s1"

definition identifierSIDCompare :: "IdentifierSID \<Rightarrow> IdentifierSID \<Rightarrow> bool" where
  "identifierSIDCompare a b = (c_string (is_identifier a) = c_string (is_identifier b))"

definition identifierSIDHash :: "IdentifierSID \<Rightarrow> u64 \<Rightarrow> u64 \<Rightarrow> u64" where
  "identifierSIDHash a s0 s1 = hashmap_sip (c_string (is_identifier a)) s0 s1"

definition sidIdentifierCompare :: "SIDIdentifier \<Rightarrow> SIDIdentifier \<Rightarrow> bool" where
  "sidIdentifierCompare a b = (si_sid a = si_sid b)"

definition sidIdentifierHash :: "SIDIdentifier \<Rightarrow> u64 \<Rightarrow> u64 \<Rightarrow> u64" where
  "sidIdentifierHash a s0 s1 = hashmap_murmur (le_bytes 8 (si_sid a)) s0 s1"

definition identifierTypeCompare :: "IdentifierType \<Rightarrow> IdentifierType \<Rightarrow> bool" where
  "identifierTypeCompare a b = (c_string (it_identifier a) = c_string (it_identifier b))"

definition identifierTypeHash :: "IdentifierType \<Rightarrow> u64 \<Rightarrow> u64 \<Rightarrow> u64" where
  "identifierTypeHash a s0 s1 = hashmap_sip (c_string (it_identifier a)) s0 s1"

section \<open>Strings\<close>

text \<open>
  \<open>strtoimax\<close> in base 10: blanks, a sign, digits; without digits 0. The result is clamped to 64 bits,
  and then \<open>errno\<close> becomes \<open>ERANGE\<close> (the second component).
\<close>

definition strtoimax10 :: "bytes \<Rightarrow> int \<times> bool" where
  "strtoimax10 str =
     (let t = dropWhile is_space (c_string str);
          neg = (t \<noteq> [] \<and> hd t = 0x2D);
          u = (if t \<noteq> [] \<and> (hd t = 0x2D \<or> hd t = 0x2B) then tl t else t);
          n = int (digits_value (takeWhile is_digit u)); v = (if neg then - n else n)
      in if v > 2 ^ 63 - 1 then (2 ^ 63 - 1, True)
         else if v < - (2 ^ 63) then (- (2 ^ 63), True)
         else (v, False))"

text \<open>\<open>char2int64\<close>: the flag is \<open>errno == ERANGE\<close>, before the call and after; the function never
  clears it.\<close>

definition char2int64 :: "bool \<Rightarrow> bytes \<Rightarrow> int \<times> bool" where
  "char2int64 erange keyString =
     (case strtoimax10 keyString of
        (v, e) \<Rightarrow>
          (let erange' = (erange \<or> e) in
           if v = - (2 ^ 63) \<or> v = 2 ^ 63 - 1 then (- (2 ^ 63), erange')
           else if erange' then (- (2 ^ 63), erange')
           else (v, erange')))"

text \<open>\<open>int2str\<close> prints the low 32 bits as an int, and a space.\<close>

definition signed_decimal :: "int \<Rightarrow> bytes" where
  "signed_decimal v = (if v < 0 then 0x2D # decimal (nat (- v)) else decimal (nat v))"

definition int2str :: "u64 \<Rightarrow> bytes" where
  "int2str keyInt64 = signed_decimal (int_of_long keyInt64) @ [0x20]"

text \<open>On an empty path the byte in front of it is read.\<close>

definition removeTrailingSlashFromPath :: "bytes \<Rightarrow> c_fault + bytes" where
  "removeTrailingSlashFromPath path =
     (let p = c_string path in
      if p = [] then Inl OutOfBoundsRead
      else if last p = 0x2F then Inr (butlast p)
      else Inr p)"

definition getSubstringAfterLastColon :: "bytes \<Rightarrow> bytes" where
  "getSubstringAfterLastColon input =
     (let s = c_string input in
      if 0x3A \<in> set s then rev (takeWhile (\<lambda>b. b \<noteq> 0x3A) (rev s)) else s)"

section \<open>Comparing lists\<close>

text \<open>What the C standard says of \<open>qsort\<close>: the result has the same elements, and it is ordered if
  the comparison is consistent on them (its results are ints, it orders any two elements, one way or
  the other, and it is transitive).\<close>

definition consistent :: "('a \<Rightarrow> 'a \<Rightarrow> int) \<Rightarrow> 'a set \<Rightarrow> bool" where
  "consistent cmp S \<longleftrightarrow> (\<forall>a\<in>S. \<forall>b\<in>S. - (2 ^ 31) \<le> cmp a b \<and> cmp a b < 2 ^ 31 \<and> sgn (cmp a b) = - sgn (cmp b a))
     \<and> (\<forall>a\<in>S. \<forall>b\<in>S. \<forall>c\<in>S. cmp a b \<le> 0 \<longrightarrow> cmp b c \<le> 0 \<longrightarrow> cmp a c \<le> 0)"

definition qsort_contract :: "qsort_fun \<Rightarrow> bool" where
  "qsort_contract qs \<longleftrightarrow> (\<forall>cmp xs. mset (qs cmp xs) = mset xs
     \<and> (consistent cmp (set xs) \<longrightarrow> sorted_wrt (\<lambda>a b. cmp a b \<le> 0) (qs cmp xs)))"

text \<open>A sorting function with this contract: insertion sort.\<close>

fun insert_by :: "('a \<Rightarrow> 'a \<Rightarrow> int) \<Rightarrow> 'a \<Rightarrow> 'a list \<Rightarrow> 'a list" where
  "insert_by cmp x [] = [x]"
| "insert_by cmp x (y # ys) = (if cmp x y \<le> 0 then x # y # ys else y # insert_by cmp x ys)"

definition insertion_qsort :: qsort_fun where
  "insertion_qsort cmp xs = foldr (insert_by cmp) xs []"

lemma mset_insert_by: "mset (insert_by cmp x ys) = add_mset x (mset ys)"
  by (induction ys) auto

lemma set_insert_by: "set (insert_by cmp x ys) = insert x (set ys)"
  using arg_cong[OF mset_insert_by, of set_mset] by simp

lemma consistent_total:
  assumes "consistent cmp S" and "a \<in> S" and "b \<in> S" and "\<not> cmp a b \<le> 0"
  shows "cmp b a \<le> 0"
proof -
  have "sgn (cmp a b) = - sgn (cmp b a)" using assms(1-3) unfolding consistent_def by blast
  then show ?thesis using assms(4) by (auto simp: sgn_if split: if_splits)
qed

lemma consistent_mono: "consistent cmp S \<Longrightarrow> T \<subseteq> S \<Longrightarrow> consistent cmp T"
  unfolding consistent_def by blast

lemma sorted_insert_by:
  assumes c: "consistent cmp (insert x (set ys))" and s: "sorted_wrt (\<lambda>a b. cmp a b \<le> 0) ys"
  shows "sorted_wrt (\<lambda>a b. cmp a b \<le> 0) (insert_by cmp x ys)"
  using s c
proof (induction ys)
  case (Cons y ys)
  have tr: "\<And>a b d. a \<in> insert x (set (y # ys)) \<Longrightarrow> b \<in> insert x (set (y # ys)) \<Longrightarrow> d \<in> insert x (set (y # ys))
      \<Longrightarrow> cmp a b \<le> 0 \<Longrightarrow> cmp b d \<le> 0 \<Longrightarrow> cmp a d \<le> 0"
    using Cons.prems(2) unfolding consistent_def by blast
  show ?case
  proof (cases "cmp x y \<le> 0")
    case True
    have "cmp x z \<le> 0" if "z \<in> set ys" for z
      using tr[of x y z] Cons.prems(1) that True by simp
    then show ?thesis using True Cons.prems(1) by simp
  next
    case False
    then have "cmp y x \<le> 0" using consistent_total[OF Cons.prems(2), of x y] by simp
    moreover have "sorted_wrt (\<lambda>a b. cmp a b \<le> 0) (insert_by cmp x ys)"
      using Cons.IH Cons.prems(1) consistent_mono[OF Cons.prems(2), of "insert x (set ys)"] by auto
    ultimately show ?thesis using False Cons.prems(1) by (simp add: set_insert_by)
  qed
qed simp

lemma insertion_qsort_contract: "qsort_contract insertion_qsort"
  unfolding qsort_contract_def
proof (intro allI conjI impI)
  fix cmp :: "u64 \<Rightarrow> u64 \<Rightarrow> int" and xs
  show m: "mset (insertion_qsort cmp xs) = mset xs" for xs
    unfolding insertion_qsort_def by (induction xs) (auto simp: mset_insert_by)
  assume "consistent cmp (set xs)"
  then show "sorted_wrt (\<lambda>a b. cmp a b \<le> 0) (insertion_qsort cmp xs)"
  proof (induction xs)
    case Nil
    then show ?case by (simp add: insertion_qsort_def)
  next
    case (Cons x xs)
    have s: "set (insertion_qsort cmp xs) = set xs" using m[of xs] by (rule mset_eq_setD)
    have "consistent cmp (set xs)" by (rule consistent_mono[OF Cons.prems]) auto
    then have "sorted_wrt (\<lambda>a b. cmp a b \<le> 0) (insertion_qsort cmp xs)" by (rule Cons.IH)
    moreover have "insertion_qsort cmp (x # xs) = insert_by cmp x (insertion_qsort cmp xs)"
      by (simp add: insertion_qsort_def)
    ultimately show ?case
      using sorted_insert_by[of cmp x "insertion_qsort cmp xs"] s Cons.prems by simp
  qed
qed

lemma int_of_long_small: "unat x < 2 ^ 31 \<Longrightarrow> int_of_long x = int (unat x)"
proof -
  assume x: "unat x < 2 ^ 31"
  then have "unat (ucast x :: u32) = unat x"
    by (simp add: unsigned_ucast_eq take_bit_nat_eq_self)
  then have "uint (ucast x :: u32) = int (unat x)" by (metis uint_nat)
  moreover have "signed_take_bit 31 (int (unat x)) = int (unat x)"
  proof (rule signed_take_bit_int_eq_self)
    have "- (2 ^ 31) \<le> (0 :: int)" by simp
    then show "- (2 ^ 31) \<le> int (unat x)" using of_nat_0_le_iff by (rule order_trans)
    show "int (unat x) < 2 ^ 31" using x by (metis of_nat_less_iff of_nat_numeral of_nat_power)
  qed
  ultimately show ?thesis unfolding int_of_long_def sint_uint by simp
qed

lemma compareLong_small: "unat a < 2 ^ 31 \<Longrightarrow> unat b < 2 ^ 31 \<Longrightarrow> compareLong a b = int (unat a) - int (unat b)"
  unfolding compareLong_def by (simp only: int_of_long_small)

lemma compareLong_consistent:
  assumes "\<forall>x\<in>S. unat x < 2 ^ 31"
  shows "consistent compareLong S"
proof -
  have c: "compareLong a b = int (unat a) - int (unat b)" if "a \<in> S" "b \<in> S" for a b
    by (rule compareLong_small) (use that assms in auto)
  have small: "int (unat a) < 2 ^ 31" if "a \<in> S" for a
    using assms that by (metis of_nat_less_iff of_nat_numeral of_nat_power)
  have pos: "0 \<le> int (unat a)" for a :: u64 by (rule of_nat_0_le_iff)
  show ?thesis
    unfolding consistent_def
  proof (intro conjI ballI impI)
    fix a b assume ab: "a \<in> S" "b \<in> S"
    show "- (2 ^ 31) \<le> compareLong a b"
      unfolding c[OF ab] using small[OF ab(2)] pos[of a] by linarith
    show "compareLong a b < 2 ^ 31"
      unfolding c[OF ab] using small[OF ab(1)] pos[of b] by linarith
    show "sgn (compareLong a b) = - sgn (compareLong b a)"
      unfolding c[OF ab] c[OF ab(2,1)] by (auto simp: sgn_if)
  next
    fix a b d assume abd: "a \<in> S" "b \<in> S" "d \<in> S" "compareLong a b \<le> 0" "compareLong b d \<le> 0"
    show "compareLong a d \<le> 0"
      using abd(4,5) unfolding c[OF abd(1,2)] c[OF abd(2,3)] c[OF abd(1,3)] by linarith
  qed
qed

lemma sorted_unique:
  assumes "mset xs = mset ys" and "\<forall>x\<in>set xs. unat (x::u64) < 2 ^ 31"
    and "sorted_wrt (\<lambda>a b. compareLong a b \<le> 0) xs" and "sorted_wrt (\<lambda>a b. compareLong a b \<le> 0) ys"
  shows "xs = ys"
proof -
  have s: "set ys = set xs" using mset_eq_setD[OF assms(1)] by simp
  have srt: "sorted (map unat zs)" if z: "set zs \<subseteq> set xs" "sorted_wrt (\<lambda>a b. compareLong a b \<le> 0) zs" for zs
    unfolding sorted_map
  proof (rule sorted_wrt_mono_rel[OF _ z(2)])
    fix a b assume ab: "a \<in> set zs" "b \<in> set zs" "compareLong a b \<le> 0"
    have "unat a < 2 ^ 31" "unat b < 2 ^ 31" using assms(2) z(1) ab(1,2) by auto
    from compareLong_small[OF this] show "unat a \<le> unat b" using ab(3) by linarith
  qed
  have "mset (map unat xs) = mset (map unat ys)" using assms(1) by simp
  moreover have "sorted (map unat xs)" "sorted (map unat ys)"
    using srt[OF _ assms(3)] srt[OF _ assms(4)] s by simp_all
  ultimately have "map unat xs = map unat ys"
    using properties_for_sort[of "map unat xs" "map unat ys"] properties_for_sort[of "map unat ys" "map unat ys"]
    by metis
  then show ?thesis by (rule map_injective) (simp add: inj_def word_unat_eq_iff)
qed

text \<open>The comparison of two lists on any \<open>qsort\<close>.\<close>

lemma compareDynamicLongList_mset:
  assumes "qsort_contract qs" and "\<forall>x\<in>set l1 \<union> set l2. unat x < 2 ^ 31"
  shows "compareDynamicLongList qs l1 l2 \<longleftrightarrow> l1 \<noteq> [] \<and> mset l1 = mset l2"
proof -
  have q: "mset (qs compareLong l) = mset l" for l
    using assms(1) unfolding qsort_contract_def by blast
  have srt: "sorted_wrt (\<lambda>a b. compareLong a b \<le> 0) (qs compareLong l)" if "set l \<subseteq> set l1 \<union> set l2" for l
  proof -
    have "consistent compareLong (set l)" by (rule compareLong_consistent) (use assms(2) that in auto)
    then show ?thesis using assms(1) unfolding qsort_contract_def by blast
  qed
  have "qs compareLong l1 = qs compareLong l2 \<longleftrightarrow> mset l1 = mset l2"
  proof
    assume "qs compareLong l1 = qs compareLong l2"
    then show "mset l1 = mset l2" using q[of l1] q[of l2] by simp
  next
    assume m: "mset l1 = mset l2"
    have "set (qs compareLong l1) = set l1" using q[of l1] by (rule mset_eq_setD)
    then show "qs compareLong l1 = qs compareLong l2"
      using m q assms(2) srt[of l1] srt[of l2] by (intro sorted_unique) auto
  qed
  moreover have "length l1 = length l2" if "mset l1 = mset l2" using that by (metis size_mset)
  ultimately show ?thesis
    by (auto simp: compareDynamicLongList_def sortDynamicLongList_def list.rel_eq)
qed

text \<open>With longs beyond 32 bits the comparison sees equal elements, and equal sets may differ.\<close>

lemma compareDynamicLongList_wide:
  "\<not> compareDynamicLongList insertion_qsort [2 ^ 32 + 1, 1] [1, 2 ^ 32 + 1]"
  by (simp add: compareDynamicLongList_def sortDynamicLongList_def insertion_qsort_def
      compareLong_def int_of_long_def)

section \<open>Numbers and paths\<close>

lemma decimal_no_nul: "0 \<notin> set (decimal n)"
  using is_digit_decimal digit_not by blast

lemma takeWhile_decimal: "takeWhile is_digit (decimal n @ [0x20]) = decimal n"
  using is_digit_decimal[of _ n] by (subst takeWhile_append2) (auto simp: is_digit_def)

lemma c_string_decimal: "c_string (decimal n @ [0x20]) = decimal n @ [0x20]"
  using decimal_no_nul[of n] by (auto simp: c_string_def takeWhile_eq_all_conv)

lemma strtoimax10_signed:
  assumes "- (2 ^ 63) < v" and "v < 2 ^ 63"
  shows "strtoimax10 (signed_decimal v @ [0x20]) = (v, False)"
proof (cases "v < 0")
  case True
  have "\<not> is_space 0x2D" by (simp add: is_space_def word_le_nat_alt)
  moreover have "c_string (0x2D # decimal n @ [0x20]) = 0x2D # decimal n @ [0x20]" for n
    using c_string_decimal[of n] by (simp add: c_string_def)
  ultimately show ?thesis
    using True assms
    by (simp add: strtoimax10_def signed_decimal_def Let_def takeWhile_decimal digits_value_decimal)
next
  case False
  obtain b bs where b: "decimal (nat v) = b # bs" using decimal_ne by (cases "decimal (nat v)") auto
  then have "is_digit b" using is_digit_decimal[of b "nat v"] by simp
  then have "dropWhile is_space (decimal (nat v) @ [0x20]) = decimal (nat v) @ [0x20]" "b \<noteq> 0x2D" "b \<noteq> 0x2B"
    using b digit_not[of b] by auto
  then show ?thesis
    using False assms b takeWhile_decimal[of "nat v"] digits_value_decimal[of "nat v"]
      c_string_decimal[of "nat v"]
    by (simp add: strtoimax10_def signed_decimal_def Let_def)
qed

lemma int_of_long_range: "- (2 ^ 31) \<le> int_of_long k \<and> int_of_long k < 2 ^ 31"
  using sint_greater_eq[of "ucast k :: u32"] sint_less[of "ucast k :: u32"] by (simp add: int_of_long_def)

lemma char2int64_int2str_lemma:
  "char2int64 False (int2str k) = (int_of_long k, False)"
  using strtoimax10_signed[of "int_of_long k"] int_of_long_range[of k]
  by (auto simp: char2int64_def int2str_def Let_def)

section \<open>Properties\<close>

text \<open>
  The comparison of two SID lists sorts copies of both and compares the elements: on SIDs below \<open>2 ^ 31\<close> it says
  whether the lists are not empty and have the same elements, however often, in any order, whatever \<open>qsort\<close> the library has.
\<close>

lemma compareDynamicLongList_spec:
  assumes "qsort_contract qs" and "\<forall>x\<in>set l1 \<union> set l2. unat x < 2 ^ 31"
  shows "compareDynamicLongList qs l1 l2 \<longleftrightarrow> l1 \<noteq> [] \<and> mset l1 = mset l2"
  by (rule compareDynamicLongList_mset[OF assms])

lemma compareDynamicLongList_spec_witness:
  "compareDynamicLongList insertion_qsort [1003, 1001, 1003] [1003, 1003, 1001]"
  using compareDynamicLongList_spec[OF insertion_qsort_contract, of "[1003, 1001, 1003]" "[1003, 1003, 1001]"] by simp

text \<open>
  A key written with \<open>int2str\<close> and read with \<open>char2int64\<close> comes back as the int of its low 32 bits; but once some
  library call has left \<open>ERANGE\<close> in \<open>errno\<close>, no key is ever read any more, since the reader does not clear it.
\<close>

lemma char2int64_int2str:
  "char2int64 erange (int2str k) = (if erange then (- (2 ^ 63), True) else (int_of_long k, False))"
proof (cases erange)
  case True
  then show ?thesis by (simp add: char2int64_def Let_def split: prod.splits)
next
  case False
  then show ?thesis by (simp add: char2int64_int2str_lemma)
qed

end
