(* ===== verification/Keyed_Table.thy ===== *)
theory Keyed_Table
  imports Prelude
begin

text \<open>
  The interface of a table of items that carry their own key, as \<open>hashmap.h\<close> offers it: the map
  decides when two items have the same key, insertion replaces and returns the old item, deletion
  returns the deleted one. An operation may fail to return (\<open>None\<close>); the laws say that it does
  return as long as there is room. The client lemmas here are about histories of operations;
  \<open>Robin_Hood\<close> interprets the locale on the table of the code.
\<close>

datatype 'a table_op = TSet 'a | TGet 'a | TDelete 'a

text \<open>The specification: a total function from items to the stored item of the same key.\<close>

fun table_spec :: "('a \<Rightarrow> 'a \<Rightarrow> bool) \<Rightarrow> 'a table_op list \<Rightarrow> ('a \<Rightarrow> 'a option) \<Rightarrow> 'a option list" where
  "table_spec eq [] f = []"
| "table_spec eq (TSet x # ops) f = f x # table_spec eq ops (\<lambda>k. if eq k x then Some x else f k)"
| "table_spec eq (TGet x # ops) f = f x # table_spec eq ops f"
| "table_spec eq (TDelete x # ops) f = f x # table_spec eq ops (\<lambda>k. if eq k x then None else f k)"

text \<open>The same history on a table: the results, or \<open>None\<close> if an operation does not return.\<close>

fun table_run ::
  "('m \<Rightarrow> 'a \<Rightarrow> ('a option \<times> 'm) option) \<Rightarrow> ('m \<Rightarrow> 'a \<Rightarrow> 'a option option)
    \<Rightarrow> ('m \<Rightarrow> 'a \<Rightarrow> ('a option \<times> 'm) option) \<Rightarrow> 'a table_op list \<Rightarrow> 'm \<Rightarrow> ('a option list \<times> 'm) option" where
  "table_run put get del [] m = Some ([], m)"
| "table_run put get del (TSet x # ops) m =
     (case put m x of None \<Rightarrow> None
      | Some (r, m') \<Rightarrow> map_option (\<lambda>(rs, m''). (r # rs, m'')) (table_run put get del ops m'))"
| "table_run put get del (TGet x # ops) m =
     (case get m x of None \<Rightarrow> None
      | Some r \<Rightarrow> map_option (\<lambda>(rs, m''). (r # rs, m'')) (table_run put get del ops m))"
| "table_run put get del (TDelete x # ops) m =
     (case del m x of None \<Rightarrow> None
      | Some (r, m') \<Rightarrow> map_option (\<lambda>(rs, m''). (r # rs, m'')) (table_run put get del ops m'))"

locale keyed_table =
  fixes ok :: "'m \<Rightarrow> bool"
    and roomy :: "'m \<Rightarrow> nat \<Rightarrow> bool"
    and keq :: "'m \<Rightarrow> 'a \<Rightarrow> 'a \<Rightarrow> bool"
    and lkp :: "'m \<Rightarrow> 'a \<Rightarrow> 'a option"
    and put :: "'m \<Rightarrow> 'a \<Rightarrow> ('a option \<times> 'm) option"
    and get :: "'m \<Rightarrow> 'a \<Rightarrow> 'a option option"
    and del :: "'m \<Rightarrow> 'a \<Rightarrow> ('a option \<times> 'm) option"
  assumes put_law: "ok m \<Longrightarrow> roomy m (Suc n) \<Longrightarrow> \<exists>m'. put m x = Some (lkp m x, m') \<and> ok m' \<and> roomy m' n
      \<and> keq m' = keq m \<and> (\<forall>k. lkp m' k = (if keq m k x then Some x else lkp m k))"
    and get_law: "ok m \<Longrightarrow> get m x = Some (lkp m x)"
    and del_law: "ok m \<Longrightarrow> \<exists>m'. del m x = Some (lkp m x, m') \<and> ok m' \<and> (\<forall>n. roomy m n \<longrightarrow> roomy m' n)
      \<and> keq m' = keq m \<and> (\<forall>k. lkp m' k = (if keq m k x then None else lkp m k))"
    and keq_equiv: "ok m \<Longrightarrow> equivp (keq m)"
    and lkp_keq: "ok m \<Longrightarrow> keq m x y \<Longrightarrow> lkp m x = lkp m y"
    and roomy_less: "roomy m (Suc n) \<Longrightarrow> roomy m n"
begin

lemma put_get:
  assumes "ok m" and "roomy m (Suc n)" and "put m x = Some (r, m')"
  shows "get m' k = Some (if keq m k x then Some x else lkp m k)"
  using put_law[OF assms(1,2), of x] assms(3) get_law[of m' k] by auto

lemma del_get: "ok m \<Longrightarrow> del m x = Some (r, m') \<Longrightarrow> get m' x = Some None"
  using del_law[of m x] get_law[of m' x] equivp_reflp[OF keq_equiv] by auto

text \<open>Every history that fits the room returns, with the results of the specification.\<close>

lemma run_spec:
  "ok m \<Longrightarrow> roomy m (length ops) \<Longrightarrow> lkp m = f \<Longrightarrow> keq m = eq
    \<Longrightarrow> \<exists>m'. table_run put get del ops m = Some (table_spec eq ops f, m') \<and> ok m'"
proof (induction ops arbitrary: m f)
  case Nil
  then show ?case by simp
next
  case (Cons op ops)
  show ?case
  proof (cases op)
    case (TSet x)
    obtain m1 where m1: "put m x = Some (lkp m x, m1)" "ok m1" "roomy m1 (length ops)" "keq m1 = keq m"
      "\<forall>k. lkp m1 k = (if keq m k x then Some x else lkp m k)"
      using put_law[of m "length ops" x] Cons.prems by auto
    have "lkp m1 = (\<lambda>k. if eq k x then Some x else f k)"
      using m1(5) Cons.prems(3,4) by auto
    then show ?thesis using Cons.IH[OF m1(2,3)] m1 Cons.prems TSet by fastforce
  next
    case (TGet x)
    have "roomy m (length ops)" using Cons.prems(2) roomy_less by simp
    then show ?thesis using Cons.IH[OF Cons.prems(1)] Cons.prems TGet get_law[of m x] by fastforce
  next
    case (TDelete x)
    obtain m1 where m1: "del m x = Some (lkp m x, m1)" "ok m1" "\<forall>n. roomy m n \<longrightarrow> roomy m1 n" "keq m1 = keq m"
      "\<forall>k. lkp m1 k = (if keq m k x then None else lkp m k)"
      using del_law[of m x] Cons.prems by auto
    have "roomy m1 (length ops)" using Cons.prems(2) roomy_less m1(3) by simp
    moreover have "lkp m1 = (\<lambda>k. if eq k x then None else f k)"
      using m1(5) Cons.prems(3,4) by auto
    ultimately show ?thesis using Cons.IH[OF m1(2)] m1 Cons.prems TDelete by fastforce
  qed
qed

end

end
