(* ===== verification/Robin_Hood.thy ===== *)
theory Robin_Hood
  imports Prelude Keyed_Table "HOL-Library.Multiset"
begin

text \<open>
  The Robin Hood hash table of \<open>src/src/hashmap.c\<close>, which holds the SID dictionaries
  (\<open>sid.c\<close>) and the parent table of \<open>coreconfManipulation.c\<close>: allocation, growth and shrinking,
  insertion with displacement, lookup, deletion with backward shift, clearing and iteration.
  An item is stored by value, so a bucket holds it; the callbacks \<open>hash\<close> and \<open>compare\<close> are fields
  of the map as in the code (\<open>compare\<close> is a predicate that says whether the callback returns 0,
  and \<open>None\<close> for the NULL pointer). Whether an allocation of some size succeeds is the field
  \<open>malloc\<close>. The loops that C writes \<open>while (1)\<close> are partial functions: \<open>None\<close> means that the loop
  does not end, which happens on a full table.

  The lemmas here are about the buckets: the Robin Hood invariant and what placing, searching and
  shifting do to it. \<open>Robin_Hood_Map\<close> lifts them to the map.
\<close>

section \<open>Data\<close>

text \<open>\<open>struct bucket\<close>: a 48-bit hash, the distance to the home bucket plus one in 16 bits (0 when
  the bucket is empty), and the item behind it.\<close>

record 'a bucket =
  bhash :: u64
  dib :: nat
  bitem :: 'a

text \<open>\<open>struct hashmap\<close> without the scratch areas \<open>spare\<close> and \<open>edata\<close>; \<open>elzero\<close> is the item of
  \<open>elsize\<close> zero bytes that \<open>memset\<close> leaves in the buckets.\<close>

record 'a hashmap =
  malloc :: "nat \<Rightarrow> bool"
  elsize :: nat
  elzero :: 'a
  cap :: nat
  seed0 :: u64
  seed1 :: u64
  hash :: "'a \<Rightarrow> u64 \<Rightarrow> u64 \<Rightarrow> u64"
  compare :: "('a \<Rightarrow> 'a \<Rightarrow> bool) option"
  bucketsz :: nat
  nbuckets :: nat
  count :: nat
  mask :: u64
  growat :: nat
  shrinkat :: nat
  growpower :: nat
  oom :: bool
  buckets :: "'a bucket list"

definition hashmap_set_grow_by_power :: "'a hashmap \<Rightarrow> nat \<Rightarrow> 'a hashmap" where
  "hashmap_set_grow_by_power m p =
     m\<lparr>growpower := (if p < 1 then 1 else if p > 16 then 16 else p)\<rparr>"

definition clip_hash :: "u64 \<Rightarrow> u64" where
  "clip_hash h = h AND 0xFFFFFFFFFFFF"

definition get_hash :: "'a hashmap \<Rightarrow> 'a \<Rightarrow> u64" where
  "get_hash m key = clip_hash (hash m key (seed0 m) (seed1 m))"

section \<open>Allocation\<close>

text \<open>The rounding of the capacity to a power of two, from \<open>ncap\<close> upwards.\<close>

function round_cap :: "nat \<Rightarrow> nat \<Rightarrow> nat" where
  "round_cap ncap c = (if 0 < ncap \<and> ncap < c then round_cap (ncap * 2) c else ncap)"
  by auto
termination by (relation "measure (\<lambda>(ncap, c). c - ncap)") auto

declare round_cap.simps [simp del]

text \<open>The bucket size: the 8 bytes of \<open>struct bucket\<close> and the item, rounded up to 8.\<close>

definition bucket_size :: "nat \<Rightarrow> nat" where
  "bucket_size el = (8 + el + 7) div 8 * 8"

text \<open>\<open>nbuckets * 0.60\<close> and \<open>nbuckets * 0.10\<close>, truncated, on the powers of two that occur.\<close>

definition grow_at :: "nat \<Rightarrow> nat" where "grow_at n = n * 3 div 5"
definition shrink_at :: "nat \<Rightarrow> nat" where "shrink_at n = n div 10"

definition zero_bucket :: "'a \<Rightarrow> 'a bucket" where
  "zero_bucket z = \<lparr>bhash = 0, dib = 0, bitem = z\<rparr>"

definition sizeof_hashmap :: nat where "sizeof_hashmap = 168"

definition hashmap_new_with_allocator ::
  "(nat \<Rightarrow> bool) \<Rightarrow> nat \<Rightarrow> 'a \<Rightarrow> nat \<Rightarrow> u64 \<Rightarrow> u64 \<Rightarrow> ('a \<Rightarrow> u64 \<Rightarrow> u64 \<Rightarrow> u64)
    \<Rightarrow> ('a \<Rightarrow> 'a \<Rightarrow> bool) option \<Rightarrow> 'a hashmap option" where
  "hashmap_new_with_allocator alloc el z c s0 s1 hf cmp =
     (let c' = (if c < 16 then 16 else round_cap 16 c);
          bsz = bucket_size el
      in if \<not> alloc (sizeof_hashmap + bsz * 2) \<or> \<not> alloc (bsz * c') then None
         else Some \<lparr>malloc = alloc, elsize = el, elzero = z, cap = c', seed0 = s0, seed1 = s1,
                    hash = hf, compare = cmp, bucketsz = bsz, nbuckets = c', count = 0,
                    mask = of_nat c' - 1, growat = grow_at c', shrinkat = shrink_at c',
                    growpower = 1, oom = False, buckets = replicate c' (zero_bucket z)\<rparr>)"

definition hashmap_new ::
  "(nat \<Rightarrow> bool) \<Rightarrow> nat \<Rightarrow> 'a \<Rightarrow> nat \<Rightarrow> u64 \<Rightarrow> u64 \<Rightarrow> ('a \<Rightarrow> u64 \<Rightarrow> u64 \<Rightarrow> u64)
    \<Rightarrow> ('a \<Rightarrow> 'a \<Rightarrow> bool) option \<Rightarrow> 'a hashmap option" where
  "hashmap_new alloc el z c s0 s1 hf cmp = hashmap_new_with_allocator alloc el z c s0 s1 hf cmp"

text \<open>\<open>hashmap_clear\<close> with \<open>elfree\<close> NULL. The growth limit it sets is 0.75, not 0.60.\<close>

definition hashmap_clear :: "'a hashmap \<Rightarrow> bool \<Rightarrow> 'a hashmap" where
  "hashmap_clear m update_cap =
     (let m1 = m\<lparr>count := 0\<rparr>;
          m2 = (if update_cap then m1\<lparr>cap := nbuckets m1\<rparr> else m1\<lparr>nbuckets := cap m1\<rparr>)
      in m2\<lparr>buckets := replicate (nbuckets m2) (zero_bucket (elzero m2)),
            mask := of_nat (nbuckets m2) - 1,
            growat := nbuckets m2 * 3 div 4,
            shrinkat := nbuckets m2 div 10\<rparr>)"

section \<open>Buckets\<close>

definition home_index :: "u64 \<Rightarrow> u64 \<Rightarrow> nat" where
  "home_index msk h = unat (h AND msk)"

definition next_index :: "u64 \<Rightarrow> nat \<Rightarrow> nat" where
  "next_index msk i = unat ((of_nat i + 1) AND msk)"

text \<open>\<open>entry->dib += 1\<close> on the 16-bit field.\<close>

definition dib_inc :: "'a bucket \<Rightarrow> 'a bucket" where
  "dib_inc b = b\<lparr>dib := (dib b + 1) mod 65536\<rparr>"

text \<open>The test of insertion, lookup and deletion: equal hashes, and equal items unless there is
  no comparison callback.\<close>

definition matches :: "('a \<Rightarrow> 'a \<Rightarrow> bool) option \<Rightarrow> u64 \<Rightarrow> 'a \<Rightarrow> 'a bucket \<Rightarrow> bool" where
  "matches cmp h x b =
     (h = bhash b \<and> (case cmp of None \<Rightarrow> True | Some c \<Rightarrow> c x (bitem b)))"

section \<open>Growing and shrinking\<close>

text \<open>The inner loop of \<open>resize0\<close>: the entry takes the first empty bucket, and on its way swaps
  with every entry that is closer to its home.\<close>

partial_function (option) place_loop ::
  "u64 \<Rightarrow> 'a bucket list \<Rightarrow> 'a bucket \<Rightarrow> nat \<Rightarrow> 'a bucket list option" where
  "place_loop msk bs entry j =
     (let b = bs ! j in
      if dib b = 0 then Some (bs[j := entry])
      else if dib b < dib entry
      then place_loop msk (bs[j := entry]) (dib_inc b) (next_index msk j)
      else place_loop msk bs (dib_inc entry) (next_index msk j))"

text \<open>The outer loop, over the buckets of the old table.\<close>

fun rehash :: "u64 \<Rightarrow> 'a bucket list \<Rightarrow> 'a bucket list \<Rightarrow> 'a bucket list option" where
  "rehash msk [] bs2 = Some bs2"
| "rehash msk (e # es) bs2 =
     (if dib e = 0 then rehash msk es bs2
      else case place_loop msk bs2 (e\<lparr>dib := 1\<rparr>) (home_index msk (bhash e)) of
             None \<Rightarrow> None
           | Some bs3 \<Rightarrow> rehash msk es bs3)"

text \<open>\<open>resize0\<close>: \<open>False\<close> and the map as it was when there is no memory for the new table.\<close>

definition resize :: "'a hashmap \<Rightarrow> nat \<Rightarrow> (bool \<times> 'a hashmap) option" where
  "resize m new_cap =
     (case hashmap_new_with_allocator (malloc m) (elsize m) (elzero m) new_cap (seed0 m) (seed1 m)
             (hash m) (compare m) of
        None \<Rightarrow> Some (False, m)
      | Some m2 \<Rightarrow>
          (case rehash (mask m2) (buckets m) (buckets m2) of
             None \<Rightarrow> None
           | Some bs \<Rightarrow> Some (True, m\<lparr>buckets := bs, nbuckets := nbuckets m2, mask := mask m2,
                                   growat := growat m2, shrinkat := shrinkat m2\<rparr>)))"

section \<open>Insertion\<close>

text \<open>The loop of \<open>hashmap_set_with_hash\<close>: the item that was replaced, if any, and the buckets.\<close>

partial_function (option) set_loop ::
  "('a \<Rightarrow> 'a \<Rightarrow> bool) option \<Rightarrow> u64 \<Rightarrow> 'a bucket list \<Rightarrow> 'a bucket \<Rightarrow> nat
    \<Rightarrow> ('a option \<times> 'a bucket list) option" where
  "set_loop cmp msk bs entry i =
     (let b = bs ! i in
      if dib b = 0 then Some (None, bs[i := entry])
      else if matches cmp (bhash entry) (bitem entry) b
      then Some (Some (bitem b), bs[i := b\<lparr>bitem := bitem entry\<rparr>])
      else if dib b < dib entry
      then set_loop cmp msk (bs[i := entry]) (dib_inc b) (next_index msk i)
      else set_loop cmp msk bs (dib_inc entry) (next_index msk i))"

definition hashmap_set_with_hash ::
  "'a hashmap \<Rightarrow> 'a \<Rightarrow> u64 \<Rightarrow> ('a option \<times> 'a hashmap) option" where
  "hashmap_set_with_hash m item h0 =
     (let h = clip_hash h0;
          m1 = m\<lparr>oom := False\<rparr>
      in case (if count m1 = growat m1 then resize m1 (nbuckets m1 * 2 ^ growpower m1)
               else Some (True, m1)) of
           None \<Rightarrow> None
         | Some (False, m2) \<Rightarrow> Some (None, m2\<lparr>oom := True\<rparr>)
         | Some (True, m2) \<Rightarrow>
             (case set_loop (compare m2) (mask m2) (buckets m2)
                     \<lparr>bhash = h, dib = 1, bitem = item\<rparr> (home_index (mask m2) h) of
                None \<Rightarrow> None
              | Some (None, bs) \<Rightarrow> Some (None, m2\<lparr>buckets := bs, count := count m2 + 1\<rparr>)
              | Some (Some old, bs) \<Rightarrow> Some (Some old, m2\<lparr>buckets := bs\<rparr>)))"

definition hashmap_set :: "'a hashmap \<Rightarrow> 'a \<Rightarrow> ('a option \<times> 'a hashmap) option" where
  "hashmap_set m item =
     hashmap_set_with_hash m item (clip_hash (hash m item (seed0 m) (seed1 m)))"

section \<open>Lookup\<close>

partial_function (option) get_loop ::
  "('a \<Rightarrow> 'a \<Rightarrow> bool) option \<Rightarrow> u64 \<Rightarrow> 'a bucket list \<Rightarrow> u64 \<Rightarrow> 'a \<Rightarrow> nat \<Rightarrow> 'a option option" where
  "get_loop cmp msk bs h key i =
     (let b = bs ! i in
      if dib b = 0 then Some None
      else if matches cmp h key b then Some (Some (bitem b))
      else get_loop cmp msk bs h key (next_index msk i))"

definition hashmap_get_with_hash :: "'a hashmap \<Rightarrow> 'a \<Rightarrow> u64 \<Rightarrow> 'a option option" where
  "hashmap_get_with_hash m key h0 =
     (let h = clip_hash h0
      in get_loop (compare m) (mask m) (buckets m) h key (home_index (mask m) h))"

definition hashmap_get :: "'a hashmap \<Rightarrow> 'a \<Rightarrow> 'a option option" where
  "hashmap_get m key = hashmap_get_with_hash m key (get_hash m key)"

definition hashmap_probe :: "'a hashmap \<Rightarrow> u64 \<Rightarrow> 'a option" where
  "hashmap_probe m position =
     (let b = buckets m ! home_index (mask m) position
      in if dib b = 0 then None else Some (bitem b))"

section \<open>Deletion\<close>

text \<open>The search for the bucket to delete.\<close>

partial_function (option) find_loop ::
  "('a \<Rightarrow> 'a \<Rightarrow> bool) option \<Rightarrow> u64 \<Rightarrow> 'a bucket list \<Rightarrow> u64 \<Rightarrow> 'a \<Rightarrow> nat \<Rightarrow> nat option option" where
  "find_loop cmp msk bs h key i =
     (let b = bs ! i in
      if dib b = 0 then Some None
      else if matches cmp h key b then Some (Some i)
      else find_loop cmp msk bs h key (next_index msk i))"

text \<open>The backward shift: \<open>i\<close> is the index of \<open>prev\<close>.\<close>

partial_function (option) shift_loop :: "u64 \<Rightarrow> 'a bucket list \<Rightarrow> nat \<Rightarrow> 'a bucket list option" where
  "shift_loop msk bs i =
     (let j = next_index msk i; b = bs ! j in
      if dib b \<le> 1 then Some (bs[i := (bs ! i)\<lparr>dib := 0\<rparr>])
      else shift_loop msk (bs[i := b\<lparr>dib := dib b - 1\<rparr>]) j)"

definition hashmap_delete_with_hash ::
  "'a hashmap \<Rightarrow> 'a \<Rightarrow> u64 \<Rightarrow> ('a option \<times> 'a hashmap) option" where
  "hashmap_delete_with_hash m key h0 =
     (let h = clip_hash h0;
          m1 = m\<lparr>oom := False\<rparr>
      in case find_loop (compare m1) (mask m1) (buckets m1) h key (home_index (mask m1) h) of
           None \<Rightarrow> None
         | Some None \<Rightarrow> Some (None, m1)
         | Some (Some i) \<Rightarrow>
             (let b = buckets m1 ! i in
              case shift_loop (mask m1) ((buckets m1)[i := b\<lparr>dib := 0\<rparr>]) i of
                None \<Rightarrow> None
              | Some bs \<Rightarrow>
                  (let m2 = m1\<lparr>buckets := bs, count := count m1 - 1\<rparr>
                   in if nbuckets m2 > cap m2 \<and> count m2 \<le> shrinkat m2
                      then (case resize m2 (nbuckets m2 div 2) of
                              None \<Rightarrow> None
                            | Some (_, m3) \<Rightarrow> Some (Some (bitem b), m3))
                      else Some (Some (bitem b), m2))))"

definition hashmap_delete :: "'a hashmap \<Rightarrow> 'a \<Rightarrow> ('a option \<times> 'a hashmap) option" where
  "hashmap_delete m key = hashmap_delete_with_hash m key (get_hash m key)"

section \<open>Enumeration\<close>

definition hashmap_count :: "'a hashmap \<Rightarrow> nat" where
  "hashmap_count m = count m"

definition hashmap_oom :: "'a hashmap \<Rightarrow> bool" where
  "hashmap_oom m = oom m"

text \<open>\<open>hashmap_scan\<close> with a callback that threads a state: it stops at the first refusal.\<close>

fun scan_buckets :: "('a \<Rightarrow> 's \<Rightarrow> bool \<times> 's) \<Rightarrow> 'a bucket list \<Rightarrow> 's \<Rightarrow> bool \<times> 's" where
  "scan_buckets f [] s = (True, s)"
| "scan_buckets f (b # bs) s =
     (if dib b = 0 then scan_buckets f bs s
      else case f (bitem b) s of
             (False, s') \<Rightarrow> (False, s')
           | (True, s') \<Rightarrow> scan_buckets f bs s')"

definition hashmap_scan :: "'a hashmap \<Rightarrow> ('a \<Rightarrow> 's \<Rightarrow> bool \<times> 's) \<Rightarrow> 's \<Rightarrow> bool \<times> 's" where
  "hashmap_scan m f s = scan_buckets f (buckets m) s"

text \<open>\<open>hashmap_iter\<close>: the next item from index \<open>i\<close> on, and the index behind it.\<close>

function hashmap_iter :: "'a hashmap \<Rightarrow> nat \<Rightarrow> ('a \<times> nat) option" where
  "hashmap_iter m i =
     (if i \<ge> nbuckets m then None
      else let b = buckets m ! i in
           if dib b = 0 then hashmap_iter m (i + 1) else Some (bitem b, i + 1))"
  by auto
termination by (relation "measure (\<lambda>(m, i). nbuckets m - i)") auto

declare hashmap_iter.simps [simp del]

section \<open>Indices modulo the table size\<close>

text \<open>The table sizes are powers of two, so that masking is the remainder.\<close>

definition table_size :: "nat \<Rightarrow> bool" where
  "table_size n \<longleftrightarrow> (\<exists>k. n = 2 ^ k \<and> 4 \<le> k \<and> k \<le> 15)"

lemma table_size_bounds: "table_size n \<Longrightarrow> 16 \<le> n \<and> n \<le> 32768"
proof -
  assume "table_size n"
  then obtain k where k: "n = 2 ^ k" "4 \<le> k" "k \<le> 15" by (auto simp: table_size_def)
  have "(2::nat) ^ 4 \<le> 2 ^ k" "(2::nat) ^ k \<le> 2 ^ 15"
    using k(2,3) by (simp_all only: power_increasing one_le_numeral)
  then show ?thesis unfolding k(1) by simp
qed

lemma and_mask_table: "table_size n \<Longrightarrow> unat (w AND (of_nat n - 1 :: u64)) = unat w mod n"
proof -
  assume "table_size n"
  then obtain k where k: "n = 2 ^ k" "k \<le> 15" by (auto simp: table_size_def)
  have "w AND (of_nat n - 1 :: u64) = take_bit k w"
    unfolding k(1) take_bit_eq_mask mask_eq_exp_minus_1 by simp
  then have "unat (w AND (of_nat n - 1 :: u64)) = take_bit k (unat w)"
    by (simp add: unsigned_take_bit_eq)
  then show ?thesis by (simp add: k(1) take_bit_eq_mod)
qed

lemma home_index_mod: "table_size n \<Longrightarrow> home_index (of_nat n - 1) h = unat h mod n"
  by (simp add: home_index_def and_mask_table)

lemma next_index_mod:
  assumes "table_size n" and "i < n"
  shows "next_index (of_nat n - 1) i = (i + 1) mod n"
proof -
  have "i + 1 < 2 ^ 64" using table_size_bounds[OF assms(1)] assms(2) by simp
  then have "unat (of_nat (i + 1) :: u64) = i + 1"
    by (simp add: unat_of_nat take_bit_nat_eq_self del: of_nat_add of_nat_Suc)
  then show ?thesis by (simp add: next_index_def and_mask_table assms(1) add.commute)
qed

lemma mod_add_inj:
  fixes i :: nat
  assumes "(i + a) mod n = (i + b) mod n" and "a < n" and "b < n"
  shows "a = b"
proof -
  have "\<And>x y. x \<le> y \<Longrightarrow> (i + x) mod n = (i + y) mod n \<Longrightarrow> y < n \<Longrightarrow> x = y"
  proof -
    fix x y assume "x \<le> y" "(i + x) mod n = (i + y) mod n" "y < n"
    then have "n dvd (i + y) - (i + x)" using mod_eq_dvd_iff_nat[of "i + x" "i + y" n] by simp
    then have "n dvd y - x" by simp
    then show "x = y" using \<open>x \<le> y\<close> \<open>y < n\<close> by (cases "y - x = 0") (auto dest: dvd_imp_le)
  qed
  from this[of a b] this[of b a] show ?thesis using assms by (cases "a \<le> b") auto
qed

section \<open>The Robin Hood invariant\<close>

text \<open>
  The invariant of a table: the distance grows by at most one from a bucket to the next, and an
  entry sits at its home bucket plus its distance. The entries are a multiset of pairs of a hash
  and an item.
\<close>

definition robin :: "nat \<Rightarrow> 'a bucket list \<Rightarrow> bool" where
  "robin n bs \<longleftrightarrow> length bs = n
     \<and> (\<forall>i<n. dib (bs ! ((i + 1) mod n)) \<le> dib (bs ! i) + 1)
     \<and> (\<forall>i<n. dib (bs ! i) \<noteq> 0 \<longrightarrow> i = (unat (bhash (bs ! i)) + (dib (bs ! i) - 1)) mod n)"

definition slot :: "'a bucket \<Rightarrow> u64 \<times> 'a" where
  "slot b = (bhash b, bitem b)"

definition slots :: "'a bucket list \<Rightarrow> (u64 \<times> 'a) list" where
  "slots bs = map slot (filter (\<lambda>b. dib b \<noteq> 0) bs)"

definition slot1 :: "'a bucket \<Rightarrow> (u64 \<times> 'a) multiset" where
  "slot1 b = (if dib b = 0 then {#} else {#slot b#})"

lemma slots_Cons: "mset (slots (b # bs)) = slot1 b + mset (slots bs)"
  by (simp add: slots_def slot1_def)

lemma slots_update:
  "i < length bs \<Longrightarrow> mset (slots (bs[i := b])) + slot1 (bs ! i) = mset (slots bs) + slot1 b"
proof (induction bs arbitrary: i)
  case (Cons x xs)
  then show ?case by (cases i) (auto simp: slots_Cons add_ac)
qed simp

lemma slots_fill:
  assumes "i < length bs" and "dib (bs ! i) = 0" and "dib b \<noteq> 0"
  shows "mset (slots (bs[i := b])) = add_mset (slot b) (mset (slots bs))"
  using slots_update[OF assms(1), of b] assms(2,3) by (simp add: slot1_def)

lemma slots_swap:
  assumes "i < length bs" and "dib (bs ! i) \<noteq> 0" and "dib b \<noteq> 0"
  shows "add_mset (slot (bs ! i)) (mset (slots (bs[i := b]))) = add_mset (slot b) (mset (slots bs))"
  using slots_update[OF assms(1), of b] assms(2,3) by (simp add: slot1_def)

lemma slots_take:
  assumes "i < length bs" and "dib (bs ! i) \<noteq> 0" and "dib b = 0"
  shows "mset (slots bs) = add_mset (slot (bs ! i)) (mset (slots (bs[i := b])))"
  using slots_update[OF assms(1), of b] assms(2,3) by (simp add: slot1_def)

lemma slot_in_slots: "i < length bs \<Longrightarrow> dib (bs ! i) \<noteq> 0 \<Longrightarrow> slot (bs ! i) \<in> set (slots bs)"
  by (auto simp: slots_def)

lemma slots_nth:
  "p \<in> set (slots bs) \<Longrightarrow> \<exists>i<length bs. dib (bs ! i) \<noteq> 0 \<and> slot (bs ! i) = p"
  by (auto simp: slots_def in_set_conv_nth)

lemma length_slots_le: "length (slots bs) \<le> length bs"
  by (simp add: slots_def)

text \<open>A table with fewer entries than buckets has an empty bucket, at some distance from any index.\<close>

lemma empty_bucket:
  assumes "length (slots bs) < length bs"
  shows "\<exists>i<length bs. dib (bs ! i) = 0"
proof (rule ccontr)
  assume "\<not> ?thesis"
  then have "filter (\<lambda>b. dib b \<noteq> 0) bs = bs"
    by (auto simp: filter_id_conv in_set_conv_nth)
  then show False using assms by (simp add: slots_def)
qed

lemma index_distance:
  assumes "i < n" and "e < (n::nat)"
  shows "\<exists>k<n. (i + k) mod n = e"
proof (cases "i \<le> e")
  case True
  then show ?thesis using assms by (intro exI[of _ "e - i"]) auto
next
  case False
  then show ?thesis using assms by (intro exI[of _ "e + n - i"]) auto
qed

lemma empty_ahead:
  assumes "length (slots bs) < length bs" and "i < length bs"
  shows "\<exists>k<length bs. dib (bs ! ((i + k) mod length bs)) = 0"
  using empty_bucket[OF assms(1)] index_distance[OF assms(2)] by metis

lemma robin_walk:
  assumes "robin n bs" and "i < n"
  shows "dib (bs ! ((i + t) mod n)) \<le> dib (bs ! i) + t"
proof (induction t)
  case 0
  then show ?case using assms by simp
next
  case (Suc t)
  have "(i + t) mod n < n" using assms(2) by simp
  then have "dib (bs ! (((i + t) mod n + 1) mod n)) \<le> dib (bs ! ((i + t) mod n)) + 1"
    using assms(1) by (auto simp: robin_def)
  then show ?case using Suc by (simp add: mod_simps)
qed

lemma robin_dib_less:
  assumes "robin n bs" and "length (slots bs) < n" and "i < n"
  shows "dib (bs ! i) < n"
proof -
  have len: "length bs = n" using assms(1) by (simp add: robin_def)
  obtain e where e: "e < n" "dib (bs ! e) = 0"
    using empty_bucket[of bs] assms(2) len by auto
  obtain k where "k < n" "(e + k) mod n = i"
    using index_distance[OF e(1) assms(3)] by auto
  then show ?thesis using robin_walk[OF assms(1) e(1), of k] e(2) by simp
qed

section \<open>Placing an entry\<close>

text \<open>An entry under way: where it stands, and how far it may be from its home there.\<close>

definition may_stand :: "nat \<Rightarrow> 'a bucket list \<Rightarrow> 'a bucket \<Rightarrow> nat \<Rightarrow> bool" where
  "may_stand n bs e j \<longleftrightarrow> j < n \<and> dib e \<noteq> 0
     \<and> j = (unat (bhash e) + (dib e - 1)) mod n
     \<and> (\<forall>i<n. (i + 1) mod n = j \<longrightarrow> dib e \<le> dib (bs ! i) + 1)"

lemma succ_mod_neq: "2 \<le> n \<Longrightarrow> i < n \<Longrightarrow> (i + 1) mod n \<noteq> (i::nat)"
  by (cases "i + 1 = n") auto

lemma succ_mod_inj: "2 \<le> n \<Longrightarrow> i < n \<Longrightarrow> j < n \<Longrightarrow> (i + 1) mod n = (j + 1) mod n \<Longrightarrow> i = (j::nat)"
  by (cases "i + 1 = n"; cases "j + 1 = n") auto

lemma may_stand_home:
  "0 < n \<Longrightarrow> dib e = 1 \<Longrightarrow> j = unat (bhash e) mod n \<Longrightarrow> may_stand n bs e j"
  by (simp add: may_stand_def)

lemma robin_put:
  assumes "2 \<le> n" and "robin n bs" and "may_stand n bs e j" and "dib (bs ! j) \<le> dib e"
  shows "robin n (bs[j := e])"
proof -
  have len: "length bs = n" and j: "j < n" using assms(2,3) by (auto simp: robin_def may_stand_def)
  have "dib (bs[j := e] ! ((i + 1) mod n)) \<le> dib (bs[j := e] ! i) + 1" if i: "i < n" for i
  proof -
    have step: "dib (bs ! ((i + 1) mod n)) \<le> dib (bs ! i) + 1"
      using assms(2) i by (simp add: robin_def)
    have lt: "(i + 1) mod n < n" using i by simp
    consider "i = j" | "i \<noteq> j" "(i + 1) mod n = j" | "i \<noteq> j" "(i + 1) mod n \<noteq> j" by blast
    then show ?thesis
    proof cases
      case 1
      then show ?thesis using step succ_mod_neq[OF assms(1) i] assms(4) len lt j by simp
    next
      case 2
      then show ?thesis using assms(3) i len lt j by (simp add: may_stand_def)
    next
      case 3
      then show ?thesis using step by simp
    qed
  qed
  moreover have "i = (unat (bhash (bs[j := e] ! i)) + (dib (bs[j := e] ! i) - 1)) mod n"
    if "i < n" "dib (bs[j := e] ! i) \<noteq> 0" for i
    using that assms(2,3) by (cases "i = j") (auto simp: robin_def may_stand_def)
  ultimately show ?thesis using len by (simp add: robin_def)
qed

lemma may_stand_step:
  assumes "2 \<le> n" and "may_stand n bs e j" and "dib e + 1 < 65536" and "dib e \<le> dib (bs ! j)"
  shows "may_stand n bs (dib_inc e) ((j + 1) mod n)"
proof -
  have j: "j < n" "dib e \<noteq> 0" "j = (unat (bhash e) + (dib e - 1)) mod n"
    using assms(2) by (auto simp: may_stand_def)
  have "(j + 1) mod n = (unat (bhash e) + (dib e - 1) + 1) mod n"
    by (subst j(3)) (rule mod_add_left_eq)
  also have "unat (bhash e) + (dib e - 1) + 1 = unat (bhash e) + dib e" using j(2) by simp
  finally have "(j + 1) mod n = (unat (bhash e) + dib e) mod n" .
  moreover have "\<forall>i<n. (i + 1) mod n = (j + 1) mod n \<longrightarrow> dib e + 1 \<le> dib (bs ! i) + 1"
    using succ_mod_inj[OF assms(1) _ j(1)] assms(4) by auto
  moreover have "dib (dib_inc e) = dib e + 1" using assms(3) by (simp add: dib_inc_def)
  moreover have "bhash (dib_inc e) = bhash e" by (simp add: dib_inc_def)
  ultimately show ?thesis
    unfolding may_stand_def using j(1) by (simp only: add_diff_cancel_right') simp
qed

lemma may_stand_bound:
  assumes "robin n bs" and "length (slots bs) < n" and "may_stand n bs e j"
  shows "dib e \<le> n"
proof -
  have j: "j < n" using assms(3) by (simp add: may_stand_def)
  define i where "i = (j + (n - 1)) mod n"
  have i: "i < n" "(i + 1) mod n = j" using j by (auto simp: i_def mod_simps)
  then have "dib e \<le> dib (bs ! i) + 1" using assms(3) by (simp add: may_stand_def)
  also have "dib (bs ! i) < n" by (rule robin_dib_less[OF assms(1,2) i(1)])
  finally show ?thesis using \<open>dib (bs ! i) < n\<close> \<open>dib e \<le> dib (bs ! i) + 1\<close> by simp
qed

lemma length_slots_mset: "mset (slots a) = mset (slots b) \<Longrightarrow> length (slots a) = length (slots b)"
  by (metis size_mset)

lemma may_stand_own:
  assumes "2 \<le> n" and "robin n bs" and "may_stand n bs e j" and "dib (bs ! j) \<noteq> 0" and "dib (bs ! j) \<le> dib e"
  shows "may_stand n (bs[j := e]) (bs ! j) j"
proof -
  have "robin n bs" "j < n" using assms(2,3) by (auto simp: may_stand_def)
  then show ?thesis
    using assms(4) succ_mod_neq[OF assms(1)] by (fastforce simp: may_stand_def robin_def nth_list_update)
qed

text \<open>One step of the loop on a full bucket: swap or go on.\<close>

lemma place_step:
  assumes n: "table_size n" and r: "robin n bs" and l: "length (slots bs) < n"
    and st: "may_stand n bs e j" and d: "dib (bs ! j) \<noteq> 0"
    and b': "bs' = (if dib (bs ! j) < dib e then bs[j := e] else bs)"
    and e': "e' = (if dib (bs ! j) < dib e then bs ! j else e)"
  shows "robin n bs' \<and> length (slots bs') = length (slots bs)
    \<and> may_stand n bs' (dib_inc e') ((j + 1) mod n)
    \<and> add_mset (slot e') (mset (slots bs')) = add_mset (slot e) (mset (slots bs))"
proof -
  have n2: "2 \<le> n" "n \<le> 32768" using table_size_bounds[OF n] by auto
  have j: "j < n" "length bs = n" "dib e \<noteq> 0" using st r by (auto simp: may_stand_def robin_def)
  have de: "dib e \<le> n" by (rule may_stand_bound[OF r l st])
  show ?thesis
  proof (cases "dib (bs ! j) < dib e")
    case True
    have ms: "add_mset (slot (bs ! j)) (mset (slots (bs[j := e]))) = add_mset (slot e) (mset (slots bs))"
      by (rule slots_swap) (use j d in auto)
    have st': "may_stand n (bs[j := e]) (bs ! j) j"
      by (rule may_stand_own[OF n2(1) r st d]) (use True in simp)
    have "may_stand n (bs[j := e]) (dib_inc (bs ! j)) ((j + 1) mod n)"
      by (rule may_stand_step[OF n2(1) st']) (use True de n2 j in auto)
    moreover have "robin n (bs[j := e])" by (rule robin_put[OF n2(1) r st]) (use True in simp)
    moreover have "length (slots (bs[j := e])) = length (slots bs)"
      using arg_cong[OF ms, of size] by simp
    ultimately show ?thesis using True ms b' e' by simp
  next
    case False
    then show ?thesis using may_stand_step[OF n2(1) st] de n2 r b' e' by simp
  qed
qed

lemma slot_dib_inc [simp]: "slot (dib_inc b) = slot b"
  by (simp add: slot_def dib_inc_def)

lemma empty_step:
  assumes "dib (bs ! ((j + k) mod n)) = 0" and "k < n" and "j < n" and "dib (bs ! j) \<noteq> 0"
  obtains k' where "k = Suc k'" and "dib (bs ! (((j + 1) mod n + k') mod n)) = 0"
    and "dib (bs[j := e] ! (((j + 1) mod n + k') mod n)) = 0"
proof -
  obtain k' where k: "k = Suc k'" using assms by (cases k) auto
  have eq: "((j + 1) mod n + k') mod n = (j + k) mod n" by (simp add: k mod_simps)
  have "(j + k) mod n \<noteq> j" using assms(1,4) by auto
  then show ?thesis using that[OF k] assms(1) eq by (simp del: One_nat_def)
qed

lemma place_loop_ok:
  assumes n: "table_size n"
  shows "robin n bs \<Longrightarrow> length (slots bs) < n \<Longrightarrow> may_stand n bs e j \<Longrightarrow> k < n
    \<Longrightarrow> dib (bs ! ((j + k) mod n)) = 0
    \<Longrightarrow> \<exists>bs'. place_loop (of_nat n - 1) bs e j = Some bs' \<and> robin n bs'
          \<and> mset (slots bs') = add_mset (slot e) (mset (slots bs))"
proof (induction k arbitrary: bs e j rule: less_induct)
  case (less k)
  have n2: "2 \<le> n" using table_size_bounds[OF n] by auto
  have j: "j < n" "length bs = n" "dib e \<noteq> 0" using less.prems by (auto simp: may_stand_def robin_def)
  show ?case
  proof (cases "dib (bs ! j) = 0")
    case True
    then show ?thesis
      using robin_put[OF n2 less.prems(1,3)] slots_fill[of j bs e] j
      by (subst place_loop.simps) (simp add: Let_def)
  next
    case False
    define bs' where "bs' = (if dib (bs ! j) < dib e then bs[j := e] else bs)"
    define e' where "e' = (if dib (bs ! j) < dib e then bs ! j else e)"
    note ps = place_step[OF n less.prems(1,2,3) False bs'_def e'_def]
    obtain k' where k': "k = Suc k'" "dib (bs ! (((j + 1) mod n + k') mod n)) = 0"
      "dib (bs[j := e] ! (((j + 1) mod n + k') mod n)) = 0"
      by (rule empty_step[OF less.prems(5,4) j(1) False])
    have "place_loop (of_nat n - 1) bs e j = place_loop (of_nat n - 1) bs' (dib_inc e') ((j + 1) mod n)"
      using False by (subst place_loop.simps) (simp add: Let_def bs'_def e'_def next_index_mod[OF n j(1)])
    moreover have "\<exists>bs2. place_loop (of_nat n - 1) bs' (dib_inc e') ((j + 1) mod n) = Some bs2 \<and> robin n bs2
          \<and> mset (slots bs2) = add_mset (slot (dib_inc e')) (mset (slots bs'))"
      by (rule less.IH[of k']) (use k' ps less.prems in \<open>auto simp: bs'_def\<close>)
    ultimately show ?thesis using ps by simp
  qed
qed

section \<open>Keys\<close>

text \<open>Two slots have the same key if the hashes are equal and the comparison, if any, says so. A
  table has each key once.\<close>

definition same :: "('a \<Rightarrow> 'a \<Rightarrow> bool) option \<Rightarrow> u64 \<times> 'a \<Rightarrow> u64 \<times> 'a \<Rightarrow> bool" where
  "same cmp p q \<longleftrightarrow> fst p = fst q \<and> (case cmp of None \<Rightarrow> True | Some c \<Rightarrow> c (snd p) (snd q))"

definition cmp_ok :: "('a \<Rightarrow> 'a \<Rightarrow> bool) option \<Rightarrow> bool" where
  "cmp_ok cmp \<longleftrightarrow> (case cmp of None \<Rightarrow> True | Some c \<Rightarrow> equivp c)"

definition uniq :: "('a \<Rightarrow> 'a \<Rightarrow> bool) option \<Rightarrow> (u64 \<times> 'a) multiset \<Rightarrow> bool" where
  "uniq cmp M \<longleftrightarrow> (\<forall>p\<in>#M. \<forall>q\<in>#M - {#p#}. \<not> same cmp p q)"

lemma matches_same: "matches cmp h x b = same cmp (h, x) (slot b)"
  by (cases cmp) (auto simp: matches_def same_def slot_def)

lemma same_refl: "cmp_ok cmp \<Longrightarrow> same cmp p p"
  by (auto simp: cmp_ok_def same_def equivp_reflp split: option.splits)

lemma same_sym: "cmp_ok cmp \<Longrightarrow> same cmp p q \<Longrightarrow> same cmp q p"
  by (auto simp: cmp_ok_def same_def equivp_symp split: option.splits)

lemma same_trans: "cmp_ok cmp \<Longrightarrow> same cmp p q \<Longrightarrow> same cmp q r \<Longrightarrow> same cmp p r"
  by (auto simp: cmp_ok_def same_def split: option.splits intro: equivp_transp)

lemma uniq_empty [simp]: "uniq cmp {#}"
  by (simp add: uniq_def)

lemma uniq_add: "uniq cmp (add_mset p M) \<Longrightarrow> q \<in># M \<Longrightarrow> \<not> same cmp p q"
  unfolding uniq_def by (metis add_mset_remove_trivial union_single_eq_member)

lemma uniq_sub:
  assumes "uniq cmp (add_mset r M)"
  shows "uniq cmp M"
  unfolding uniq_def
proof (intro ballI)
  fix p q assume pq: "p \<in># M" "q \<in># M - {#p#}"
  have "q \<in># add_mset r M - {#p#}"
    using pq(2) by (simp add: in_diff_count)
  moreover have "p \<in># add_mset r M" using pq(1) by simp
  ultimately show "\<not> same cmp p q" using assms unfolding uniq_def by blast
qed

lemma uniq_addI:
  assumes "cmp_ok cmp" and "uniq cmp M" and "\<And>q. q \<in># M \<Longrightarrow> \<not> same cmp p q"
  shows "uniq cmp (add_mset p M)"
  unfolding uniq_def
proof (intro ballI)
  fix a b assume a: "a \<in># add_mset p M" and b: "b \<in># add_mset p M - {#a#}"
  show "\<not> same cmp a b"
  proof (cases "a = p")
    case True
    then show ?thesis using assms(3) b by simp
  next
    case False
    then have aM: "a \<in># M" and eq: "add_mset p M - {#a#} = add_mset p (M - {#a#})"
      using a by auto
    have "b = p \<or> b \<in># M - {#a#}" using b unfolding eq by simp
    then show ?thesis
    proof
      assume "b = p"
      then show ?thesis using assms(3)[OF aM] same_sym[OF assms(1)] by blast
    next
      assume "b \<in># M - {#a#}"
      then show ?thesis using assms(2) aM by (auto simp: uniq_def)
    qed
  qed
qed

lemma find_same:
  assumes "cmp_ok cmp" and "uniq cmp (mset L)"
  shows "find (same cmp k) L = Some p \<longleftrightarrow> p \<in> set L \<and> same cmp k p"
  using assms(2)
proof (induction L)
  case (Cons x xs)
  have u: "uniq cmp (mset xs)" using Cons.prems uniq_sub by simp
  show ?case
  proof (cases "same cmp k x")
    case True
    have "\<not> same cmp k p" if "p \<in> set xs"
    proof
      assume "same cmp k p"
      then have "same cmp x p" using same_trans[OF assms(1) same_sym[OF assms(1) True]] by simp
      then show False using uniq_add[of cmp x "mset xs" p] Cons.prems that by simp
    qed
    then show ?thesis using True by auto
  next
    case False
    then show ?thesis using Cons.IH[OF u] by auto
  qed
qed simp

lemma find_same_mset:
  assumes "cmp_ok cmp" and "uniq cmp (mset L)" and "mset L' = mset L"
  shows "find (same cmp k) L' = find (same cmp k) L"
proof -
  have "set L' = set L" using assms(3) by (rule mset_eq_setD)
  moreover have "uniq cmp (mset L')" using assms by simp
  ultimately show ?thesis
    using find_same[OF assms(1,2)] find_same[OF assms(1), of L']
    by (cases "find (same cmp k) L'"; cases "find (same cmp k) L") (metis, metis, metis, metis)
qed

lemma find_same_add:
  assumes "cmp_ok cmp" and "mset L' = add_mset p (mset L)" and "uniq cmp (mset L')"
  shows "find (same cmp k) L' = (if same cmp k p then Some p else find (same cmp k) L)"
proof -
  have "find (same cmp k) L' = find (same cmp k) (p # L)"
    by (rule find_same_mset) (use assms in auto)
  then show ?thesis by simp
qed

section \<open>The three search loops\<close>

text \<open>Insertion of a new key is placement.\<close>

lemma set_loop_place:
  assumes n: "table_size n"
  shows "robin n bs \<Longrightarrow> length (slots bs) < n \<Longrightarrow> may_stand n bs e j \<Longrightarrow> k < n
    \<Longrightarrow> dib (bs ! ((j + k) mod n)) = 0 \<Longrightarrow> uniq cmp (add_mset (slot e) (mset (slots bs)))
    \<Longrightarrow> set_loop cmp (of_nat n - 1) bs e j = map_option (Pair None) (place_loop (of_nat n - 1) bs e j)"
proof (induction k arbitrary: bs e j rule: less_induct)
  case (less k)
  have j: "j < n" "length bs = n" using less.prems by (auto simp: may_stand_def robin_def)
  show ?case
  proof (cases "dib (bs ! j) = 0")
    case True
    then show ?thesis by (subst set_loop.simps, subst place_loop.simps) (simp add: Let_def)
  next
    case False
    define bs' where "bs' = (if dib (bs ! j) < dib e then bs[j := e] else bs)"
    define e' where "e' = (if dib (bs ! j) < dib e then bs ! j else e)"
    note ps = place_step[OF n less.prems(1,2,3) False bs'_def e'_def]
    obtain k' where k': "k = Suc k'" "dib (bs ! (((j + 1) mod n + k') mod n)) = 0"
      "dib (bs[j := e] ! (((j + 1) mod n + k') mod n)) = 0"
      by (rule empty_step[OF less.prems(5,4) j(1) False])
    have "slot (bs ! j) \<in># mset (slots bs)" using slot_in_slots[of j bs] j False by simp
    then have nm: "\<not> matches cmp (bhash e) (bitem e) (bs ! j)"
      using uniq_add[OF less.prems(6)] by (simp add: matches_same flip: slot_def)
    have "place_loop (of_nat n - 1) bs e j = place_loop (of_nat n - 1) bs' (dib_inc e') ((j + 1) mod n)"
      using False by (subst place_loop.simps) (simp add: Let_def bs'_def e'_def next_index_mod[OF n j(1)])
    moreover have "set_loop cmp (of_nat n - 1) bs e j = set_loop cmp (of_nat n - 1) bs' (dib_inc e') ((j + 1) mod n)"
      using False nm by (subst set_loop.simps) (simp add: Let_def bs'_def e'_def next_index_mod[OF n j(1)])
    moreover have "set_loop cmp (of_nat n - 1) bs' (dib_inc e') ((j + 1) mod n)
       = map_option (Pair None) (place_loop (of_nat n - 1) bs' (dib_inc e') ((j + 1) mod n))"
      by (rule less.IH[of k']) (use k' ps less.prems in \<open>auto simp: bs'_def\<close>)
    ultimately show ?thesis by simp
  qed
qed

text \<open>The buckets from the home of a stored entry to its bucket are full, none of them is nearer to
  its home than the search, and none but the last has the key.\<close>

definition path :: "nat \<Rightarrow> u64 \<Rightarrow> nat \<Rightarrow> nat" where
  "path n h t = (unat h + t) mod n"

lemma path_less [simp]: "0 < n \<Longrightarrow> path n h t < n"
  by (simp add: path_def)

lemma path_next: "(path n h t + 1) mod n = path n h (t + 1)"
  by (simp add: path_def mod_simps)

lemma path_home: "table_size n \<Longrightarrow> home_index (of_nat n - 1) h = path n h 0"
  by (simp add: home_index_mod path_def)

lemma path_next_index: "table_size n \<Longrightarrow> next_index (of_nat n - 1) (path n h t) = path n h (t + 1)"
  using table_size_bounds[of n] by (simp add: next_index_mod path_next[simplified])

lemma path_end:
  assumes "robin n bs" and "q < n" and "dib (bs ! q) \<noteq> 0"
  shows "q = path n (bhash (bs ! q)) (dib (bs ! q) - 1)"
  using assms by (auto simp: robin_def path_def)

lemma path_full:
  assumes "robin n bs" and "q < n" and "dib (bs ! q) \<noteq> 0" and "t < dib (bs ! q)" and h: "h = bhash (bs ! q)"
  shows "t + 1 \<le> dib (bs ! path n h t)"
proof -
  have "q = (path n h t + (dib (bs ! q) - 1 - t)) mod n"
  proof -
    have "(path n h t + (dib (bs ! q) - 1 - t)) mod n = (unat h + t + (dib (bs ! q) - 1 - t)) mod n"
      unfolding path_def by (rule mod_add_left_eq)
    also have "unat h + t + (dib (bs ! q) - 1 - t) = unat h + (dib (bs ! q) - 1)"
      using assms(4) by simp
    also have "(unat h + (dib (bs ! q) - 1)) mod n = q"
      using path_end[OF assms(1-3)] unfolding path_def h by simp
    finally show ?thesis by simp
  qed
  then have "dib (bs ! q) \<le> dib (bs ! path n h t) + (dib (bs ! q) - 1 - t)"
    using robin_walk[OF assms(1), of "path n h t" "dib (bs ! q) - 1 - t"] assms(2) by (simp add: path_def)
  then show ?thesis using assms(4) by simp
qed

lemma path_other:
  assumes "robin n bs" and "length (slots bs) < n" and "q < n" and "dib (bs ! q) \<noteq> 0"
    and "t + 1 < dib (bs ! q)" and "h = bhash (bs ! q)"
  shows "path n h t \<noteq> q"
proof
  assume "path n h t = q"
  then have "path n h t = path n h (dib (bs ! q) - 1)" using path_end[OF assms(1,3,4)] assms(6) by simp
  then have "t = dib (bs ! q) - 1"
    using mod_add_inj[of "unat h" t n "dib (bs ! q) - 1"] robin_dib_less[OF assms(1,2,3)] assms(5)
    by (simp add: path_def)
  then show False using assms(5) by simp
qed

lemma uniq_index:
  assumes c: "cmp_ok cmp" and u: "uniq cmp (mset (slots bs))"
    and i: "i < length bs" "dib (bs ! i) \<noteq> 0" "same cmp p (slot (bs ! i))"
    and j: "j < length bs" "dib (bs ! j) \<noteq> 0" "same cmp p (slot (bs ! j))"
  shows "i = j"
proof (rule ccontr)
  assume ne: "i \<noteq> j"
  define z where "z = (bs ! i)\<lparr>dib := 0\<rparr>"
  have "mset (slots bs) = add_mset (slot (bs ! i)) (mset (slots (bs[i := z])))"
    by (rule slots_take) (use i in \<open>auto simp: z_def\<close>)
  moreover have "slot (bs ! j) \<in> set (slots (bs[i := z]))"
    using slot_in_slots[of j "bs[i := z]"] j ne by simp
  ultimately have "\<not> same cmp (slot (bs ! i)) (slot (bs ! j))"
    using u uniq_add by (metis set_mset_mset)
  then show False using same_trans[OF c same_sym[OF c i(3)] j(3)] by blast
qed

text \<open>A search for a key that is there walks its path and ends at its bucket.\<close>

lemma found_here:
  assumes r: "robin n bs" and l: "length (slots bs) < n" and c: "cmp_ok cmp"
    and u: "uniq cmp (mset (slots bs))" and q: "q < n" "dib (bs ! q) \<noteq> 0"
    and s: "same cmp (h, x) (slot (bs ! q))" and t: "t < dib (bs ! q)"
  shows "t + 1 \<le> dib (bs ! path n h t)
    \<and> (matches cmp h x (bs ! path n h t) \<longleftrightarrow> t + 1 = dib (bs ! q))
    \<and> (t + 1 = dib (bs ! q) \<longrightarrow> path n h t = q)"
proof -
  have h: "h = bhash (bs ! q)" using s by (simp add: same_def slot_def)
  have len: "length bs = n" using r by (simp add: robin_def)
  have n0: "0 < n" using q by simp
  have full: "t + 1 \<le> dib (bs ! path n h t)" by (rule path_full[OF r q t h])
  have at_end: "path n h t = q" if "t + 1 = dib (bs ! q)"
    using path_end[OF r q] h that by (metis add_diff_cancel_right')
  have hit: "path n h t = q" if "matches cmp h x (bs ! path n h t)"
    by (rule uniq_index[OF c u, of _ "(h, x)"]) (use that full len n0 q s in \<open>auto simp: matches_same\<close>)
  have before: "path n h t \<noteq> q" if "t + 1 < dib (bs ! q)" by (rule path_other[OF r l q that h])
  have "matches cmp h x (bs ! q)" using s by (simp add: matches_same)
  then have "matches cmp h x (bs ! path n h t) \<longleftrightarrow> t + 1 = dib (bs ! q)"
    using hit before at_end t by (metis Suc_eq_plus1 Suc_leI le_neq_implies_less)
  then show ?thesis using full at_end by blast
qed

lemma find_loop_found:
  assumes n: "table_size n" and r: "robin n bs" and l: "length (slots bs) < n" and c: "cmp_ok cmp"
    and u: "uniq cmp (mset (slots bs))" and q: "q < n" "dib (bs ! q) \<noteq> 0"
    and s: "same cmp (h, x) (slot (bs ! q))"
  shows "t < dib (bs ! q) \<Longrightarrow> find_loop cmp (of_nat n - 1) bs h x (path n h t) = Some (Some q)"
proof (induction "dib (bs ! q) - t" arbitrary: t rule: less_induct)
  case less
  note here = found_here[OF r l c u q s less.prems]
  show ?case
  proof (cases "t + 1 = dib (bs ! q)")
    case True
    then have "path n h t = q" "matches cmp h x (bs ! q)" using here by metis+
    then show ?thesis using q(2) True by (subst find_loop.simps) (simp add: Let_def)
  next
    case False
    have "find_loop cmp (of_nat n - 1) bs h x (path n h (t + 1)) = Some (Some q)"
      by (rule less.hyps) (use False less.prems in auto)
    then show ?thesis using here False
      by (subst find_loop.simps) (simp add: Let_def path_next_index[OF n] del: One_nat_def)
  qed
qed

lemma get_loop_found:
  assumes n: "table_size n" and r: "robin n bs" and l: "length (slots bs) < n" and c: "cmp_ok cmp"
    and u: "uniq cmp (mset (slots bs))" and q: "q < n" "dib (bs ! q) \<noteq> 0"
    and s: "same cmp (h, x) (slot (bs ! q))"
  shows "t < dib (bs ! q) \<Longrightarrow> get_loop cmp (of_nat n - 1) bs h x (path n h t) = Some (Some (bitem (bs ! q)))"
proof (induction "dib (bs ! q) - t" arbitrary: t rule: less_induct)
  case less
  note here = found_here[OF r l c u q s less.prems]
  show ?case
  proof (cases "t + 1 = dib (bs ! q)")
    case True
    then have "path n h t = q" "matches cmp h x (bs ! q)" using here by metis+
    then show ?thesis using q(2) True by (subst get_loop.simps) (simp add: Let_def)
  next
    case False
    have "get_loop cmp (of_nat n - 1) bs h x (path n h (t + 1)) = Some (Some (bitem (bs ! q)))"
      by (rule less.hyps) (use False less.prems in auto)
    then show ?thesis using here False
      by (subst get_loop.simps) (simp add: Let_def path_next_index[OF n] del: One_nat_def)
  qed
qed

lemma set_loop_found:
  assumes n: "table_size n" and r: "robin n bs" and l: "length (slots bs) < n" and c: "cmp_ok cmp"
    and u: "uniq cmp (mset (slots bs))" and q: "q < n" "dib (bs ! q) \<noteq> 0"
    and s: "same cmp (h, x) (slot (bs ! q))"
  shows "t < dib (bs ! q)
    \<Longrightarrow> set_loop cmp (of_nat n - 1) bs \<lparr>bhash = h, dib = t + 1, bitem = x\<rparr> (path n h t)
      = Some (Some (bitem (bs ! q)), bs[q := (bs ! q)\<lparr>bitem := x\<rparr>])"
proof (induction "dib (bs ! q) - t" arbitrary: t rule: less_induct)
  case less
  note here = found_here[OF r l c u q s less.prems]
  show ?case
  proof (cases "t + 1 = dib (bs ! q)")
    case True
    then have "path n h t = q" "matches cmp h x (bs ! q)" using here by metis+
    then show ?thesis using q(2) True by (subst set_loop.simps) (simp add: Let_def)
  next
    case False
    have "dib (bs ! q) < n" by (rule robin_dib_less[OF r l q(1)])
    then have inc: "dib_inc \<lparr>bhash = h, dib = t + 1, bitem = x\<rparr> = \<lparr>bhash = h, dib = t + 1 + 1, bitem = x\<rparr>"
      using less.prems table_size_bounds[OF n] by (simp add: dib_inc_def)
    have "set_loop cmp (of_nat n - 1) bs \<lparr>bhash = h, dib = t + 1 + 1, bitem = x\<rparr> (path n h (t + 1))
        = Some (Some (bitem (bs ! q)), bs[q := (bs ! q)\<lparr>bitem := x\<rparr>])"
      by (rule less.hyps) (use False less.prems in auto)
    then show ?thesis using here False inc
      by (subst set_loop.simps) (simp add: Let_def path_next_index[OF n] del: One_nat_def)
  qed
qed

text \<open>A search for a key that is not there ends at the next empty bucket.\<close>

lemma find_loop_absent:
  assumes n: "table_size n" and len: "length bs = n"
    and a: "\<And>i. i < n \<Longrightarrow> dib (bs ! i) \<noteq> 0 \<Longrightarrow> \<not> matches cmp h x (bs ! i)"
  shows "j < n \<Longrightarrow> k < n \<Longrightarrow> dib (bs ! ((j + k) mod n)) = 0
    \<Longrightarrow> find_loop cmp (of_nat n - 1) bs h x j = Some None
      \<and> get_loop cmp (of_nat n - 1) bs h x j = Some None"
proof (induction k arbitrary: j rule: less_induct)
  case (less k)
  show ?case
  proof (cases "dib (bs ! j) = 0")
    case True
    then show ?thesis
      by (subst find_loop.simps, subst get_loop.simps) (simp add: Let_def)
  next
    case False
    obtain k' where k': "k = Suc k'" "dib (bs ! (((j + 1) mod n + k') mod n)) = 0"
      by (rule empty_step[OF less.prems(3,2,1) False])
    have "find_loop cmp (of_nat n - 1) bs h x ((j + 1) mod n) = Some None
      \<and> get_loop cmp (of_nat n - 1) bs h x ((j + 1) mod n) = Some None"
      by (rule less.IH[of k']) (use k' less.prems in auto)
    then show ?thesis using False a[OF less.prems(1) False] next_index_mod[OF n less.prems(1)]
      by (subst find_loop.simps, subst get_loop.simps) (simp add: Let_def)
  qed
qed

section \<open>The backward shift\<close>

text \<open>A table with a hole at \<open>p\<close>, whose bucket holds a stale entry.\<close>

definition holed :: "nat \<Rightarrow> 'a bucket list \<Rightarrow> nat \<Rightarrow> bool" where
  "holed n bs p \<longleftrightarrow> length bs = n \<and> p < n
     \<and> (\<forall>i<n. i \<noteq> p \<longrightarrow> (i + 1) mod n \<noteq> p \<longrightarrow> dib (bs ! ((i + 1) mod n)) \<le> dib (bs ! i) + 1)
     \<and> (\<forall>i<n. (i + 1) mod n = p \<longrightarrow> dib (bs ! ((p + 1) mod n)) \<le> dib (bs ! i) + 2)
     \<and> (\<forall>i<n. i \<noteq> p \<longrightarrow> dib (bs ! i) \<noteq> 0
            \<longrightarrow> i = (unat (bhash (bs ! i)) + (dib (bs ! i) - 1)) mod n)"

abbreviation emptied :: "'a bucket list \<Rightarrow> nat \<Rightarrow> 'a bucket list" where
  "emptied bs i \<equiv> bs[i := (bs ! i)\<lparr>dib := 0\<rparr>]"

lemma robin_holed:
  assumes "robin n bs" and "p < n"
  shows "holed n (bs[p := b]) p"
proof -
  have step: "dib (bs ! ((i + 1) mod n)) \<le> dib (bs ! i) + 1" if "i < n" for i
    using assms(1) that by (simp add: robin_def)
  have two: "dib (bs ! ((p + 1) mod n)) \<le> dib (bs ! i) + 2" if "i < n" "(i + 1) mod n = p" for i
    using step[OF that(1)] step[OF assms(2)] unfolding that(2) by simp
  show ?thesis
    unfolding holed_def
  proof (intro conjI allI impI)
    fix i assume i: "i < n" "(i + 1) mod n = p"
    show "dib (bs[p := b] ! ((p + 1) mod n)) \<le> dib (bs[p := b] ! i) + 2"
      using two[OF i] i assms by (cases "n = 1") (auto simp: robin_def nth_list_update mod_Suc split: if_splits)
  qed (use assms step in \<open>auto simp: robin_def\<close>)
qed

lemma holed_close:
  assumes "2 \<le> n" and "holed n bs p" and "dib (bs ! ((p + 1) mod n)) \<le> 1"
  shows "robin n (emptied bs p)"
proof -
  have len: "length bs = n" "p < n" using assms(2) by (auto simp: holed_def)
  have "dib (emptied bs p ! ((i + 1) mod n)) \<le> dib (emptied bs p ! i) + 1" if i: "i < n" for i
  proof -
    consider "i = p" | "i \<noteq> p" "(i + 1) mod n = p" | "i \<noteq> p" "(i + 1) mod n \<noteq> p" by blast
    then show ?thesis
    proof cases
      case 1
      then show ?thesis using succ_mod_neq[OF assms(1) i] len assms(3) by simp
    next
      case 2
      then show ?thesis using len by simp
    next
      case 3
      then show ?thesis using assms(2) i by (simp add: holed_def)
    qed
  qed
  moreover have "i = (unat (bhash (emptied bs p ! i)) + (dib (emptied bs p ! i) - 1)) mod n"
    if "i < n" "dib (emptied bs p ! i) \<noteq> 0" for i
    using that assms(2) by (cases "i = p") (auto simp: holed_def)
  ultimately show ?thesis using len by (simp add: robin_def)
qed

lemma holed_step:
  assumes n: "3 \<le> n" and h: "holed n bs p" and j: "j = (p + 1) mod n" and d: "1 < dib (bs ! j)"
    and b1: "bs1 = bs[p := (bs ! j)\<lparr>dib := dib (bs ! j) - 1\<rparr>]"
  shows "holed n bs1 j \<and> mset (slots (emptied bs1 j)) = mset (slots (emptied bs p))"
proof -
  have n2: "2 \<le> n" using n by simp
  have len: "length bs = n" "p < n" using h by (auto simp: holed_def)
  have jn: "j < n" and jp: "j \<noteq> p" using j len succ_mod_neq[OF n2 len(2)] by auto
  have jj: "(j + 1) mod n \<noteq> p" using j n len by (auto simp: mod_Suc split: if_splits)
  have "dib (bs1 ! ((i + 1) mod n)) \<le> dib (bs1 ! i) + 1"
    if i: "i < n" "i \<noteq> j" "(i + 1) mod n \<noteq> j" for i
  proof (cases "(i + 1) mod n = p")
    case True
    then have "dib (bs ! j) \<le> dib (bs ! i) + 2" using h i(1) j by (simp add: holed_def)
    then show ?thesis using True i j len succ_mod_neq[OF n2 i(1)] by (auto simp: b1)
  next
    case False
    have "i \<noteq> p" using i j by auto
    moreover from this have "dib (bs ! ((i + 1) mod n)) \<le> dib (bs ! i) + 1"
      using h i(1) False by (simp add: holed_def)
    ultimately show ?thesis using False by (simp add: b1)
  qed
  moreover have "dib (bs1 ! ((j + 1) mod n)) \<le> dib (bs1 ! i) + 2" if i: "i < n" "(i + 1) mod n = j" for i
  proof -
    have "i = p" using succ_mod_inj[OF n2 i(1) len(2)] i(2) j by simp
    moreover have "dib (bs ! ((j + 1) mod n)) \<le> dib (bs ! j) + 1"
      using h jn jp jj by (simp add: holed_def)
    ultimately show ?thesis using len jj d by (simp add: b1)
  qed
  moreover have "i = (unat (bhash (bs1 ! i)) + (dib (bs1 ! i) - 1)) mod n"
    if i: "i < n" "i \<noteq> j" "dib (bs1 ! i) \<noteq> 0" for i
  proof (cases "i = p")
    case True
    define i' where "i' = (unat (bhash (bs ! j)) + (dib (bs ! j) - 2)) mod n"
    have "(i' + 1) mod n = (unat (bhash (bs ! j)) + (dib (bs ! j) - 2) + 1) mod n"
      unfolding i'_def by (rule mod_add_left_eq)
    also have "unat (bhash (bs ! j)) + (dib (bs ! j) - 2) + 1 = unat (bhash (bs ! j)) + (dib (bs ! j) - 1)"
      using d by simp
    also have "(unat (bhash (bs ! j)) + (dib (bs ! j) - 1)) mod n = j"
      using h jn jp d by (simp add: holed_def)
    finally have "(i' + 1) mod n = (p + 1) mod n" using j by simp
    then have "i' = p" using succ_mod_inj[OF n2 _ len(2)] len by (simp add: i'_def)
    then show ?thesis using True len d by (simp add: b1 i'_def numeral_2_eq_2)
  next
    case False
    then show ?thesis using i h by (simp add: b1 holed_def)
  qed
  ultimately have "holed n bs1 j" using len jn by (simp add: holed_def b1)
  moreover have "mset (slots (emptied bs1 j)) = mset (slots (emptied bs p))"
  proof -
    define w where "w = (emptied bs p)[j := (bs ! j)\<lparr>dib := 0\<rparr>]"
    have "mset (slots (emptied bs p)) = add_mset (slot (bs ! j)) (mset (slots w))"
      using slots_take[of j "emptied bs p" "(bs ! j)\<lparr>dib := 0\<rparr>"] len jn jp d by (simp add: w_def)
    moreover have "emptied bs1 j = w[p := (bs ! j)\<lparr>dib := dib (bs ! j) - 1\<rparr>]"
      using jp len jn by (simp add: b1 w_def list_update_swap[of p j])
    moreover have "mset (slots (w[p := (bs ! j)\<lparr>dib := dib (bs ! j) - 1\<rparr>]))
        = add_mset (slot (bs ! j)) (mset (slots w))"
      using slots_fill[of p w "(bs ! j)\<lparr>dib := dib (bs ! j) - 1\<rparr>"] len jp d
      by (simp add: w_def slot_def)
    ultimately show ?thesis by simp
  qed
  ultimately show ?thesis by blast
qed

lemma shift_loop_ok:
  assumes n: "table_size n"
  shows "holed n bs p \<Longrightarrow> 0 < k \<Longrightarrow> k < n \<Longrightarrow> dib (bs ! ((p + k) mod n)) \<le> 1
    \<Longrightarrow> \<exists>bs'. shift_loop (of_nat n - 1) bs p = Some bs' \<and> robin n bs'
          \<and> mset (slots bs') = mset (slots (emptied bs p))"
proof (induction k arbitrary: bs p rule: less_induct)
  case (less k)
  have n3: "3 \<le> n" "2 \<le> n" using table_size_bounds[OF n] by auto
  have p: "p < n" "length bs = n" using less.prems(1) by (auto simp: holed_def)
  define j where "j = (p + 1) mod n"
  have nx: "next_index (of_nat n - 1) p = j" by (simp add: next_index_mod[OF n p(1)] j_def)
  show ?case
  proof (cases "dib (bs ! j) \<le> 1")
    case True
    then show ?thesis using holed_close[OF n3(2) less.prems(1)] nx
      by (subst shift_loop.simps) (simp add: Let_def j_def)
  next
    case False
    define bs1 where "bs1 = bs[p := (bs ! j)\<lparr>dib := dib (bs ! j) - 1\<rparr>]"
    note hs = holed_step[OF n3(1) less.prems(1) j_def _ bs1_def]
    have k1: "k \<noteq> 1" using less.prems(4) False by (auto simp: j_def)
    have eq: "(j + (k - 1)) mod n = (p + k) mod n"
    proof -
      have "(j + (k - 1)) mod n = (p + 1 + (k - 1)) mod n" unfolding j_def by (rule mod_add_left_eq)
      then show ?thesis using less.prems(2) by simp
    qed
    have "(p + k) mod n \<noteq> p"
      using mod_add_inj[of p k n 0] less.prems p by auto
    then have "dib (bs1 ! ((j + (k - 1)) mod n)) \<le> 1"
      unfolding eq using less.prems(4) by (simp add: bs1_def)
    then have "\<exists>bs'. shift_loop (of_nat n - 1) bs1 j = Some bs' \<and> robin n bs'
          \<and> mset (slots bs') = mset (slots (emptied bs1 j))"
      by (intro less.IH[of "k - 1" bs1 j]) (use hs False less.prems k1 in auto)
    moreover have "shift_loop (of_nat n - 1) bs p = shift_loop (of_nat n - 1) bs1 j"
      using False nx by (subst shift_loop.simps) (simp add: Let_def bs1_def)
    ultimately show ?thesis using hs False by simp
  qed
qed

end
