(* ===== verification/Robin_Hood_Map.thy ===== *)
theory Robin_Hood_Map
  imports Robin_Hood
begin

text \<open>
  The table of \<open>Robin_Hood\<close> as a finite map: the invariant of the whole \<open>struct hashmap\<close>, what each
  operation of \<open>src/src/hashmap.c\<close> does to the map that the table stands for, growth and shrinking
  included, the enumeration of the items, and the interpretation of the interface \<open>keyed_table\<close>.
\<close>

section \<open>The map\<close>

text \<open>
  The invariant of a map (\<open>rh_ok\<close>), its abstract value (\<open>rh_lookup\<close>: the item stored for a key) and
  the room an insertion needs: a free place below the growth limit, or a table that may still grow
  (up to 32768 buckets, so that no distance reaches the 16 bits of \<open>dib\<close>) and the memory for it.
\<close>

definition rh_ok :: "'a hashmap \<Rightarrow> bool" where
  "rh_ok m \<longleftrightarrow> table_size (nbuckets m) \<and> table_size (cap m) \<and> cap m \<le> nbuckets m
     \<and> mask m = of_nat (nbuckets m) - 1
     \<and> robin (nbuckets m) (buckets m)
     \<and> Robin_Hood.count m = length (slots (buckets m))
     \<and> Robin_Hood.count m \<le> growat m \<and> growat m < nbuckets m \<and> shrinkat m = shrink_at (nbuckets m)
     \<and> 1 \<le> growpower m
     \<and> (\<forall>p\<in>set (slots (buckets m)). fst p = get_hash m (snd p))
     \<and> cmp_ok (compare m) \<and> uniq (compare m) (mset (slots (buckets m)))"

definition key_of :: "'a hashmap \<Rightarrow> 'a \<Rightarrow> u64 \<times> 'a" where
  "key_of m x = (get_hash m x, x)"

definition same_key :: "'a hashmap \<Rightarrow> 'a \<Rightarrow> 'a \<Rightarrow> bool" where
  "same_key m x y = same (compare m) (key_of m x) (key_of m y)"

definition rh_lookup :: "'a hashmap \<Rightarrow> 'a \<Rightarrow> 'a option" where
  "rh_lookup m x = map_option snd (find (same (compare m) (key_of m x)) (slots (buckets m)))"

definition rh_items :: "'a hashmap \<Rightarrow> 'a list" where
  "rh_items m = map snd (slots (buckets m))"

definition can_alloc :: "'a hashmap \<Rightarrow> nat \<Rightarrow> bool" where
  "can_alloc m n \<longleftrightarrow> malloc m (sizeof_hashmap + bucket_size (elsize m) * 2) \<and> malloc m (bucket_size (elsize m) * n)"

definition rh_room :: "'a hashmap \<Rightarrow> bool" where
  "rh_room m \<longleftrightarrow> Robin_Hood.count m < growat m
     \<or> (nbuckets m * 2 ^ growpower m \<le> 32768 \<and> can_alloc m (nbuckets m * 2 ^ growpower m))"

text \<open>The growth limit is not below the one a resize sets (it is above it after a clear).\<close>

definition slack :: "'a hashmap \<Rightarrow> bool" where
  "slack m \<longleftrightarrow> grow_at (nbuckets m) \<le> growat m"

text \<open>What no operation changes.\<close>

definition same_kind :: "'a hashmap \<Rightarrow> 'a hashmap \<Rightarrow> bool" where
  "same_kind m m' \<longleftrightarrow> malloc m' = malloc m \<and> elsize m' = elsize m \<and> elzero m' = elzero m \<and> cap m' = cap m
     \<and> seed0 m' = seed0 m \<and> seed1 m' = seed1 m \<and> hash m' = hash m \<and> compare m' = compare m
     \<and> growpower m' = growpower m"

lemma same_kind_key: "same_kind m m' \<Longrightarrow> key_of m' = key_of m \<and> same_key m' = same_key m"
  by (auto simp: same_kind_def key_of_def same_key_def get_hash_def fun_eq_iff)

lemma round_cap_id: "c \<le> nc \<Longrightarrow> round_cap nc c = nc"
  by (subst round_cap.simps) simp

lemma round_cap_pow: "a \<le> k \<Longrightarrow> round_cap (2 ^ a) (2 ^ k) = 2 ^ k"
proof (induction "k - a" arbitrary: a)
  case 0
  then show ?case by (simp add: round_cap_id)
next
  case (Suc d)
  then have "(2::nat) ^ a < 2 ^ k" by simp
  moreover have "round_cap (2 ^ Suc a) (2 ^ k) = 2 ^ k"
    by (rule Suc.hyps(1)) (use Suc.hyps(2) in auto)
  ultimately show ?case by (subst round_cap.simps) (simp add: mult.commute)
qed

lemma round_cap_table: "table_size n \<Longrightarrow> round_cap 16 n = n"
  using round_cap_pow[of 4] by (auto simp: table_size_def)

lemma round_cap_range: "16 \<le> c \<Longrightarrow> c \<le> 32768 \<Longrightarrow> table_size (round_cap 16 c)"
proof -
  have "a \<le> 15 \<Longrightarrow> 4 \<le> a \<Longrightarrow> c \<le> 2 ^ 15 \<Longrightarrow> table_size (round_cap (2 ^ a) c)" for a
  proof (induction "15 - a" arbitrary: a)
    case 0
    then have "a = 15" by simp
    then show ?case using 0 by (subst round_cap_id) (auto simp: table_size_def intro: exI[of _ 15])
  next
    case (Suc d)
    show ?case
    proof (cases "2 ^ a < c")
      case True
      have "table_size (round_cap (2 ^ Suc a) c)" by (rule Suc.hyps(1)) (use Suc in auto)
      then show ?thesis using True by (subst round_cap.simps) (simp add: mult.commute)
    next
      case False
      then show ?thesis using Suc.prems by (subst round_cap_id) (auto simp: table_size_def)
    qed
  qed
  from this[of 4] show "16 \<le> c \<Longrightarrow> c \<le> 32768 \<Longrightarrow> table_size (round_cap 16 c)" by simp
qed

text \<open>A fresh table.\<close>

lemma slots_replicate [simp]: "slots (replicate n (zero_bucket z)) = []"
  by (simp add: slots_def zero_bucket_def)

lemma robin_replicate: "robin n (replicate n (zero_bucket z))"
  by (simp add: robin_def zero_bucket_def)

lemma grow_at_less: "table_size n \<Longrightarrow> grow_at n < n"
  using table_size_bounds[of n] by (simp add: grow_at_def less_mult_imp_div_less)

lemma new_table:
  assumes "hashmap_new_with_allocator alloc el z c s0 s1 hf cmp = Some m" and "c \<le> 32768" and "cmp_ok cmp"
  shows "rh_ok m \<and> rh_items m = [] \<and> nbuckets m = (if c < 16 then 16 else round_cap 16 c)"
proof -
  define c' where "c' = (if c < 16 then 16 else round_cap 16 c)"
  have t: "table_size c'"
    using round_cap_range[of c] assms(2) by (auto simp: c'_def table_size_def intro: exI[of _ 4])
  show ?thesis
    using assms(1,3) t grow_at_less[OF t] robin_replicate[of c' z]
    by (auto simp: hashmap_new_with_allocator_def Let_def rh_ok_def rh_items_def c'_def[symmetric] split: if_splits)
qed

text \<open>Rehashing the entries of a table into an empty one.\<close>

lemma rehash_ok:
  assumes n: "table_size n"
  shows "robin n bs2 \<Longrightarrow> length (slots es) + length (slots bs2) < n
    \<Longrightarrow> \<exists>bs3. rehash (of_nat n - 1) es bs2 = Some bs3 \<and> robin n bs3
          \<and> mset (slots bs3) = mset (slots es) + mset (slots bs2)"
proof (induction es arbitrary: bs2)
  case Nil
  then show ?case by (simp add: slots_def)
next
  case (Cons e es)
  show ?case
  proof (cases "dib e = 0")
    case True
    then show ?thesis using Cons by (simp add: slots_def)
  next
    case False
    have n0: "0 < n" and len: "length bs2 = n"
      using table_size_bounds[OF n] Cons.prems by (auto simp: robin_def)
    define e1 where "e1 = e\<lparr>dib := 1\<rparr>"
    define j where "j = home_index (of_nat n - 1) (bhash e)"
    have st: "may_stand n bs2 e1 j"
      using n0 by (intro may_stand_home) (auto simp: e1_def j_def home_index_mod[OF n])
    then have jn: "j < n" by (simp add: may_stand_def)
    have lt: "length (slots bs2) < n" using Cons.prems by simp
    obtain k where k: "k < n" "dib (bs2 ! ((j + k) mod n)) = 0"
      using empty_ahead[of bs2 j] lt len jn by auto
    obtain bs where bs: "place_loop (of_nat n - 1) bs2 e1 j = Some bs" "robin n bs"
      "mset (slots bs) = add_mset (slot e1) (mset (slots bs2))"
      using place_loop_ok[OF n Cons.prems(1) lt st k] by blast
    have sl: "slot e1 = slot e" "slots (e # es) = slot e # slots es"
      using False by (auto simp: e1_def slot_def slots_def)
    have "length (slots bs) = Suc (length (slots bs2))"
      using arg_cong[OF bs(3), of size] by simp
    then obtain bs3 where "rehash (of_nat n - 1) es bs = Some bs3" "robin n bs3"
      "mset (slots bs3) = mset (slots es) + mset (slots bs)"
      using Cons.IH[OF bs(2)] Cons.prems(2) sl by auto
    then show ?thesis using False bs sl by (simp add: j_def e1_def)
  qed
qed

lemma resize_oom: "\<not> can_alloc m c \<Longrightarrow> table_size c \<Longrightarrow> resize m c = Some (False, m)"
  using table_size_bounds[of c] round_cap_table[of c]
  by (auto simp: resize_def hashmap_new_with_allocator_def can_alloc_def Let_def)

lemma resize_ok:
  assumes ok: "rh_ok m" and c: "table_size c" "cap m \<le> c" "Robin_Hood.count m \<le> grow_at c" and al: "can_alloc m c"
  shows "\<exists>m'. resize m c = Some (True, m') \<and> rh_ok m' \<and> same_kind m m'
    \<and> mset (slots (buckets m')) = mset (slots (buckets m)) \<and> growat m' = grow_at c
    \<and> Robin_Hood.count m' = Robin_Hood.count m \<and> nbuckets m' = c \<and> oom m' = oom m"
proof -
  have cl: "\<not> c < 16" "round_cap 16 c = c"
    using table_size_bounds[OF c(1)] round_cap_table[OF c(1)] by auto
  define bs0 where "bs0 = replicate c (zero_bucket (elzero m))"
  have cnt: "length (slots (buckets m)) < c"
    using ok c(3) grow_at_less[OF c(1)] by (simp add: rh_ok_def)
  have "length (slots (buckets m)) + length (slots bs0) < c" using cnt by (simp add: bs0_def)
  then obtain bs where bs: "rehash (of_nat c - 1) (buckets m) bs0 = Some bs" "robin c bs"
    "mset (slots bs) = mset (slots (buckets m))"
    using rehash_ok[OF c(1) robin_replicate[of c "elzero m"], of "buckets m"] by (auto simp: bs0_def)
  define m' where "m' = m\<lparr>buckets := bs, nbuckets := c, mask := of_nat c - 1, growat := grow_at c,
      shrinkat := shrink_at c\<rparr>"
  have r: "resize m c = Some (True, m')"
    using al cl bs(1)
    by (simp add: resize_def hashmap_new_with_allocator_def can_alloc_def Let_def m'_def bs0_def)
  have gh: "get_hash m' = get_hash m" by (simp add: m'_def get_hash_def fun_eq_iff)
  have "set (slots bs) = set (slots (buckets m))" using bs(3) by (rule mset_eq_setD)
  then have "rh_ok m'"
    using ok c bs grow_at_less[OF c(1)] length_slots_mset[OF bs(3)] gh
    by (simp add: rh_ok_def m'_def)
  then show ?thesis using r bs(3) by (simp add: m'_def same_kind_def)
qed

lemma rh_lookup_mset:
  assumes "rh_ok m" and "same_kind m m'" and "mset (slots (buckets m')) = mset (slots (buckets m))"
  shows "rh_lookup m' x = rh_lookup m x"
proof -
  have "compare m' = compare m" "key_of m' = key_of m"
    using assms(2) same_kind_key[OF assms(2)] by (auto simp: same_kind_def)
  moreover have "find (same (compare m) (key_of m x)) (slots (buckets m'))
      = find (same (compare m) (key_of m x)) (slots (buckets m))"
    by (rule find_same_mset) (use assms in \<open>auto simp: rh_ok_def\<close>)
  ultimately show ?thesis by (simp add: rh_lookup_def)
qed

lemma rh_lookup_Some:
  assumes "rh_ok m" and "rh_lookup m x = Some y"
  obtains q where "q < nbuckets m" and "dib (buckets m ! q) \<noteq> 0" and "bitem (buckets m ! q) = y"
    and "same (compare m) (key_of m x) (slot (buckets m ! q))"
proof -
  have len: "length (buckets m) = nbuckets m" using assms(1) by (simp add: rh_ok_def robin_def)
  obtain p where p: "find (same (compare m) (key_of m x)) (slots (buckets m)) = Some p" "snd p = y"
    using assms(2) by (auto simp: rh_lookup_def)
  then have "p \<in> set (slots (buckets m)) \<and> same (compare m) (key_of m x) p"
    using find_same[of "compare m" "slots (buckets m)" "key_of m x" p] assms(1) by (simp add: rh_ok_def)
  then have "p \<in> set (slots (buckets m))" "same (compare m) (key_of m x) p" by auto
  then obtain q where "q < length (buckets m)" "dib (buckets m ! q) \<noteq> 0" "slot (buckets m ! q) = p"
    using slots_nth by blast
  then show ?thesis using that[of q] p(2) \<open>same (compare m) (key_of m x) p\<close> len
    by (auto simp: slot_def)
qed

lemma rh_lookup_None:
  assumes "rh_ok m" and "rh_lookup m x = None" and "p \<in> set (slots (buckets m))"
  shows "\<not> same (compare m) (key_of m x) p"
  using assms(2,3) unfolding rh_lookup_def option.map_disc_iff find_None_iff by blast

lemma rh_ok_facts:
  assumes "rh_ok m"
  shows "table_size (nbuckets m)" and "mask m = of_nat (nbuckets m) - 1" and "robin (nbuckets m) (buckets m)"
    and "length (slots (buckets m)) < nbuckets m" and "length (buckets m) = nbuckets m"
    and "cmp_ok (compare m)" and "uniq (compare m) (mset (slots (buckets m)))"
    and "Robin_Hood.count m = length (slots (buckets m))" and "2 \<le> nbuckets m"
  using assms table_size_bounds[of "nbuckets m"] by (auto simp: rh_ok_def robin_def)

lemma get_hash_clip [simp]: "clip_hash (get_hash m x) = get_hash m x"
  by (rule bit_eqI) (auto simp: get_hash_def clip_hash_def bit_simps)

section \<open>Insertion, on the map\<close>

lemma set_loop_new:
  assumes ok: "rh_ok m" and no: "rh_lookup m x = None"
  shows "\<exists>bs. set_loop (compare m) (mask m) (buckets m) \<lparr>bhash = get_hash m x, dib = 1, bitem = x\<rparr>
           (home_index (mask m) (get_hash m x)) = Some (None, bs)
         \<and> robin (nbuckets m) bs \<and> mset (slots bs) = add_mset (key_of m x) (mset (slots (buckets m)))
         \<and> uniq (compare m) (mset (slots bs))"
proof -
  note f = rh_ok_facts[OF ok]
  define e where "e = \<lparr>bhash = get_hash m x, dib = 1, bitem = x\<rparr>"
  define j where "j = home_index (of_nat (nbuckets m) - 1) (get_hash m x)"
  have se: "slot e = key_of m x" by (simp add: e_def slot_def key_of_def)
  have st: "may_stand (nbuckets m) (buckets m) e j"
    using f(9) by (intro may_stand_home) (auto simp: e_def j_def home_index_mod[OF f(1)])
  then have jn: "j < nbuckets m" by (simp add: may_stand_def)
  obtain k where k: "k < nbuckets m" "dib (buckets m ! ((j + k) mod nbuckets m)) = 0"
    using empty_ahead[of "buckets m" j] f(4,5) jn by auto
  have u: "uniq (compare m) (add_mset (slot e) (mset (slots (buckets m))))"
    using uniq_addI[OF f(6,7)] rh_lookup_None[OF ok no] by (simp add: se)
  obtain bs where "place_loop (of_nat (nbuckets m) - 1) (buckets m) e j = Some bs" "robin (nbuckets m) bs"
      "mset (slots bs) = add_mset (slot e) (mset (slots (buckets m)))"
    using place_loop_ok[OF f(1,3,4) st k] by blast
  then show ?thesis
    using set_loop_place[OF f(1,3,4) st k u] u f(2)
    by (simp add: j_def se) (simp add: e_def)
qed

lemma set_loop_old:
  assumes ok: "rh_ok m" and y: "rh_lookup m x = Some y"
  shows "\<exists>bs p. set_loop (compare m) (mask m) (buckets m) \<lparr>bhash = get_hash m x, dib = 1, bitem = x\<rparr>
           (home_index (mask m) (get_hash m x)) = Some (Some y, bs)
         \<and> robin (nbuckets m) bs \<and> same (compare m) (key_of m x) p \<and> p \<in> set (slots (buckets m))
         \<and> add_mset p (mset (slots bs)) = add_mset (key_of m x) (mset (slots (buckets m)))"
proof -
  note f = rh_ok_facts[OF ok]
  obtain q where q: "q < nbuckets m" "dib (buckets m ! q) \<noteq> 0" "bitem (buckets m ! q) = y"
    "same (compare m) (get_hash m x, x) (slot (buckets m ! q))"
    by (rule rh_lookup_Some[OF ok y]) (simp add: key_of_def)
  define b where "b = (buckets m ! q)\<lparr>bitem := x\<rparr>"
  have sb: "slot b = key_of m x" "dib b = dib (buckets m ! q)" "bhash b = bhash (buckets m ! q)"
    using q(4) by (auto simp: b_def slot_def key_of_def same_def)
  have loop: "set_loop (compare m) (mask m) (buckets m) \<lparr>bhash = get_hash m x, dib = 1, bitem = x\<rparr>
           (home_index (mask m) (get_hash m x)) = Some (Some y, (buckets m)[q := b])"
    using set_loop_found[OF f(1,3,4,6,7) q(1,2,4), of 0] q(2,3)
    by (simp add: path_home[OF f(1)] f(2) b_def)
  have "robin (nbuckets m) ((buckets m)[q := b])"
  proof -
    have "dib ((buckets m)[q := b] ! i) = dib (buckets m ! i) \<and> bhash ((buckets m)[q := b] ! i) = bhash (buckets m ! i)"
      for i using sb f(5) q(1) by (cases "i = q") auto
    then show ?thesis using f(3) by (simp add: robin_def)
  qed
  moreover have "add_mset (slot (buckets m ! q)) (mset (slots ((buckets m)[q := b])))
      = add_mset (key_of m x) (mset (slots (buckets m)))"
    using slots_swap[of q "buckets m" b] q(1,2) f(5) sb by simp
  moreover have "slot (buckets m ! q) \<in> set (slots (buckets m))"
    using slot_in_slots[of q "buckets m"] q(1,2) f(5) by simp
  ultimately show ?thesis using loop q(4) unfolding key_of_def by blast
qed

lemma table_size_grow:
  assumes "table_size n" and "n * 2 ^ p \<le> 32768"
  shows "table_size (n * 2 ^ p)"
proof -
  obtain k where k: "n = 2 ^ k" "4 \<le> k" using assms(1) by (auto simp: table_size_def)
  then have "(2::nat) ^ (k + p) \<le> 2 ^ 15" using assms(2) by (simp add: power_add)
  then have "k + p \<le> 15" by (rule power_le_imp_le_exp[rotated]) simp
  then show ?thesis using k by (auto simp: table_size_def power_add intro: exI[of _ "k + p"])
qed

lemma set_room:
  assumes ok: "rh_ok m" and room: "rh_room m"
  shows "\<exists>m2. (if hashmap.count m = growat m then resize (m\<lparr>oom := False\<rparr>) (nbuckets m * 2 ^ growpower m)
              else Some (True, m\<lparr>oom := False\<rparr>)) = Some (True, m2)
     \<and> rh_ok m2 \<and> same_kind m m2 \<and> mset (slots (buckets m2)) = mset (slots (buckets m))
     \<and> hashmap.count m2 < growat m2 \<and> \<not> oom m2 \<and> hashmap.count m2 = hashmap.count m
     \<and> (slack m \<longrightarrow> slack m2)"
proof -
  define m1 where "m1 = m\<lparr>oom := False\<rparr>"
  have gh: "get_hash m1 = get_hash m" by (simp add: m1_def get_hash_def fun_eq_iff)
  have ok1: "rh_ok m1" using ok gh by (simp add: rh_ok_def m1_def)
  have kind: "same_kind m m1" by (simp add: same_kind_def m1_def)
  show ?thesis
  proof (cases "hashmap.count m = growat m")
    case False
    then show ?thesis using ok1 kind ok by (auto simp: m1_def rh_ok_def slack_def)
  next
    case True
    define c where "c = nbuckets m * 2 ^ growpower m"
    have c: "c \<le> 32768" "can_alloc m1 c" using room True by (auto simp: rh_room_def c_def m1_def can_alloc_def)
    have gp: "nbuckets m * 2 \<le> c"
    proof -
      have "(2::nat) ^ 1 \<le> 2 ^ growpower m" using ok by (intro power_increasing) (auto simp: rh_ok_def)
      then show ?thesis by (simp add: c_def)
    qed
    have tc: "table_size c"
      using table_size_grow[of "nbuckets m"] ok c(1) by (simp add: c_def rh_ok_def)
    have lt: "hashmap.count m < grow_at c"
      using ok gp by (auto simp: rh_ok_def grow_at_def)
    have le: "cap m1 \<le> c" "hashmap.count m1 \<le> grow_at c"
      using lt gp ok by (auto simp: m1_def rh_ok_def)
    obtain m2 where "resize m1 c = Some (True, m2)" "rh_ok m2" "same_kind m1 m2"
      "mset (slots (buckets m2)) = mset (slots (buckets m1))" "growat m2 = grow_at c"
      "hashmap.count m2 = hashmap.count m1" "oom m2 = oom m1" "nbuckets m2 = c"
      using resize_ok[OF ok1 tc le c(2)] by blast
    then show ?thesis using True lt by (auto simp: c_def m1_def same_kind_def slack_def)
  qed
qed

text \<open>Replacing one slot by another of the same key.\<close>

lemma slots_replaced:
  assumes c: "cmp_ok cmp" and u: "uniq cmp (mset L)" and p: "p \<in> set L" and s: "same cmp q p"
    and ms: "add_mset p (mset L') = add_mset q (mset L)"
  shows "uniq cmp (mset L') \<and> find (same cmp k) L' = (if same cmp k q then Some q else find (same cmp k) L)"
proof -
  obtain M where M: "mset L = add_mset p (mset M)"
    by (metis p ex_mset in_multiset_in_set multi_member_split)
  then have L': "mset L' = add_mset q (mset M)" using ms by (simp add: add_mset_commute)
  have u': "uniq cmp (add_mset p (mset M))" using u M by simp
  then have uM: "uniq cmp (mset M)" by (rule uniq_sub)
  have "\<not> same cmp q r" if "r \<in># mset M" for r
    using uniq_add[OF u' that] same_trans[OF c same_sym[OF c s], of r] by blast
  then have uL': "uniq cmp (mset L')" using uniq_addI[OF c uM] L' by simp
  have "same cmp k q \<longleftrightarrow> same cmp k p"
    using same_trans[OF c _ s] same_trans[OF c _ same_sym[OF c s]] by blast
  then show ?thesis
    using uL' find_same_add[OF c L' uL', of k] find_same_add[OF c M u, of k] by auto
qed

text \<open>An insertion into a table with room refines the update of a finite map.\<close>

lemma hashmap_set_ok:
  assumes ok: "rh_ok m" and room: "rh_room m"
  shows "\<exists>m'. hashmap_set m x = Some (rh_lookup m x, m') \<and> rh_ok m' \<and> same_kind m m' \<and> \<not> oom m'
     \<and> hashmap.count m' \<le> hashmap.count m + 1 \<and> (slack m \<longrightarrow> slack m')
     \<and> (\<forall>k. rh_lookup m' k = (if same_key m k x then Some x else rh_lookup m k))"
proof -
  obtain m2 where m2: "(if hashmap.count m = growat m then resize (m\<lparr>oom := False\<rparr>) (nbuckets m * 2 ^ growpower m)
              else Some (True, m\<lparr>oom := False\<rparr>)) = Some (True, m2)"
    and ok2: "rh_ok m2" and kind: "same_kind m m2"
    and ms: "mset (slots (buckets m2)) = mset (slots (buckets m))"
    and lt: "hashmap.count m2 < growat m2" and no: "\<not> oom m2" and cnt: "hashmap.count m2 = hashmap.count m"
    and sl: "slack m \<longrightarrow> slack m2"
    using set_room[OF ok room] by blast
  have keys: "key_of m2 = key_of m" "same_key m2 = same_key m" using same_kind_key[OF kind] by auto
  have lk: "rh_lookup m2 k = rh_lookup m k" for k by (rule rh_lookup_mset[OF ok kind ms])
  note f = rh_ok_facts[OF ok2]
  have gh: "get_hash m2 = get_hash m" using kind by (simp add: get_hash_def same_kind_def fun_eq_iff)
  have hash: "clip_hash (clip_hash (hash m x (seed0 m) (seed1 m))) = get_hash m2 x"
    using get_hash_clip[of m x] gh by (simp add: get_hash_def)
  show ?thesis
  proof (cases "rh_lookup m x")
    case None
    obtain bs where bs: "set_loop (compare m2) (mask m2) (buckets m2) \<lparr>bhash = get_hash m2 x, dib = 1, bitem = x\<rparr>
           (home_index (mask m2) (get_hash m2 x)) = Some (None, bs)" "robin (nbuckets m2) bs"
      "mset (slots bs) = add_mset (key_of m2 x) (mset (slots (buckets m2)))" "uniq (compare m2) (mset (slots bs))"
      using set_loop_new[OF ok2, of x] None lk by auto
    define m' where "m' = m2\<lparr>buckets := bs, hashmap.count := hashmap.count m2 + 1\<rparr>"
    have gh': "get_hash m' = get_hash m2" by (simp add: m'_def get_hash_def fun_eq_iff)
    have kind': "same_kind m m'" using kind by (simp add: same_kind_def m'_def)
    have sset: "set (slots bs) = insert (key_of m2 x) (set (slots (buckets m2)))"
      using arg_cong[OF bs(3), of set_mset] by simp
    have "length (slots bs) = Suc (length (slots (buckets m2)))"
      using arg_cong[OF bs(3), of size] by simp
    then have "rh_ok m'"
      using ok2 bs lt sset gh' by (auto simp: rh_ok_def m'_def key_of_def)
    moreover have "rh_lookup m' k = (if same_key m k x then Some x else rh_lookup m k)" for k
    proof -
      have "find (same (compare m2) (key_of m2 k)) (slots bs)
          = (if same (compare m2) (key_of m2 k) (key_of m2 x) then Some (key_of m2 x)
             else find (same (compare m2) (key_of m2 k)) (slots (buckets m2)))"
        by (rule find_same_add[OF f(6) bs(3,4)])
      moreover have "key_of m' = key_of m2" using gh' by (simp add: key_of_def fun_eq_iff)
      ultimately show ?thesis
        using lk[of k] by (auto simp: rh_lookup_def m'_def same_key_def key_of_def gh keys(2)[symmetric])
    qed
    moreover have "hashmap_set m x = Some (None, m')"
      using m2 bs(1)
      by (cases "hashmap.count m = growat m") (auto simp: hashmap_set_def hashmap_set_with_hash_def Let_def hash m'_def)
    ultimately show ?thesis using None kind' no cnt sl by (auto simp: m'_def slack_def)
  next
    case (Some y)
    obtain bs p where bs: "set_loop (compare m2) (mask m2) (buckets m2) \<lparr>bhash = get_hash m2 x, dib = 1, bitem = x\<rparr>
           (home_index (mask m2) (get_hash m2 x)) = Some (Some y, bs)" "robin (nbuckets m2) bs"
      "same (compare m2) (key_of m2 x) p" "p \<in> set (slots (buckets m2))"
      "add_mset p (mset (slots bs)) = add_mset (key_of m2 x) (mset (slots (buckets m2)))"
      using set_loop_old[OF ok2, of x y] Some lk by auto
    define m' where "m' = m2\<lparr>buckets := bs\<rparr>"
    have gh': "get_hash m' = get_hash m2" by (simp add: m'_def get_hash_def fun_eq_iff)
    have kind': "same_kind m m'" using kind by (simp add: same_kind_def m'_def)
    note rep = slots_replaced[OF f(6,7) bs(4,3,5)]
    have "set (slots bs) \<subseteq> insert (key_of m2 x) (set (slots (buckets m2)))"
      using arg_cong[OF bs(5), of set_mset] by auto
    moreover have "length (slots bs) = length (slots (buckets m2))"
      using arg_cong[OF bs(5), of size] by simp
    ultimately have "rh_ok m'"
      using ok2 bs(2) rep gh' by (auto simp: rh_ok_def m'_def key_of_def)
    moreover have "rh_lookup m' k = (if same_key m k x then Some x else rh_lookup m k)" for k
      using rep[of "key_of m2 k"] lk[of k] gh'
      by (auto simp: rh_lookup_def m'_def same_key_def key_of_def gh keys(2)[symmetric])
    moreover have "hashmap_set m x = Some (Some y, m')"
      using m2 bs(1)
      by (cases "hashmap.count m = growat m") (auto simp: hashmap_set_def hashmap_set_with_hash_def Let_def hash m'_def)
    ultimately show ?thesis using Some kind' no cnt sl by (auto simp: m'_def slack_def)
  qed
qed

text \<open>Without the memory to grow, the insertion fails, says so, and leaves the table.\<close>

lemma hashmap_set_oom:
  assumes ok: "rh_ok m" and full: "hashmap.count m = growat m"
    and big: "nbuckets m * 2 ^ growpower m \<le> 32768" and no: "\<not> can_alloc m (nbuckets m * 2 ^ growpower m)"
  shows "hashmap_set m x = Some (None, m\<lparr>oom := True\<rparr>)"
proof -
  have t: "table_size (nbuckets m * 2 ^ growpower m)"
    using table_size_grow[OF _ big] ok by (simp add: rh_ok_def)
  have "\<not> can_alloc (m\<lparr>oom := False\<rparr>) (nbuckets m * 2 ^ growpower m)"
    using no by (simp add: can_alloc_def)
  from resize_oom[OF this t] show ?thesis
    using full by (simp add: hashmap_set_def hashmap_set_with_hash_def Let_def)
qed

section \<open>Lookup and deletion, on the map\<close>

lemma absent_loops:
  assumes ok: "rh_ok m" and no: "rh_lookup m x = None"
  shows "find_loop (compare m) (mask m) (buckets m) (get_hash m x) x (home_index (mask m) (get_hash m x)) = Some None
    \<and> get_loop (compare m) (mask m) (buckets m) (get_hash m x) x (home_index (mask m) (get_hash m x)) = Some None"
proof -
  note f = rh_ok_facts[OF ok]
  define j where "j = home_index (mask m) (get_hash m x)"
  have jn: "j < nbuckets m" using f by (simp add: j_def home_index_mod)
  obtain k where k: "k < nbuckets m" "dib (buckets m ! ((j + k) mod nbuckets m)) = 0"
    using empty_ahead[of "buckets m" j] f(4,5) jn by auto
  have "\<not> matches (compare m) (get_hash m x) x (buckets m ! i)" if "i < nbuckets m" "dib (buckets m ! i) \<noteq> 0" for i
    using rh_lookup_None[OF ok no slot_in_slots[of i "buckets m"]] that f(5)
    by (simp add: matches_same key_of_def)
  from find_loop_absent[OF f(1,5) this jn k] show ?thesis using f(2) by (simp add: j_def)
qed

lemma hashmap_get_ok:
  assumes ok: "rh_ok m"
  shows "hashmap_get m x = Some (rh_lookup m x)"
proof (cases "rh_lookup m x")
  case None
  then show ?thesis
    using absent_loops[OF ok None] by (simp add: hashmap_get_def hashmap_get_with_hash_def Let_def)
next
  case (Some y)
  note f = rh_ok_facts[OF ok]
  obtain q where q: "q < nbuckets m" "dib (buckets m ! q) \<noteq> 0" "bitem (buckets m ! q) = y"
    "same (compare m) (get_hash m x, x) (slot (buckets m ! q))"
    by (rule rh_lookup_Some[OF ok Some]) (simp add: key_of_def)
  from get_loop_found[OF f(1,3,4,6,7) q(1,2,4), of 0] show ?thesis
    using Some q(2,3) f(2)
    by (simp add: hashmap_get_def hashmap_get_with_hash_def Let_def path_home[OF f(1)])
qed

text \<open>Removing a slot.\<close>

lemma slots_removed:
  assumes c: "cmp_ok cmp" and u: "uniq cmp (mset L)" and s: "same cmp q p"
    and ms: "mset L = add_mset p (mset L')"
  shows "uniq cmp (mset L') \<and> find (same cmp k) L' = (if same cmp k q then None else find (same cmp k) L)"
proof -
  have u': "uniq cmp (add_mset p (mset L'))" using u ms by simp
  have eq: "same cmp k q \<longleftrightarrow> same cmp k p"
    using same_trans[OF c _ s] same_trans[OF c _ same_sym[OF c s]] by blast
  have "\<not> same cmp k r" if "r \<in> set L'" "same cmp k p" for r
    using uniq_add[OF u', of r] that same_trans[OF c same_sym[OF c that(2)], of r] by auto
  then have "same cmp k p \<Longrightarrow> find (same cmp k) L' = None"
    unfolding find_None_iff by blast
  then show ?thesis using uniq_sub[OF u'] find_same_add[OF c ms u, of k] eq by auto
qed

text \<open>The search and the shift take one entry out of the table.\<close>

lemma delete_shift:
  assumes ok: "rh_ok m" and y: "rh_lookup m x = Some y"
  shows "\<exists>q bs. find_loop (compare m) (mask m) (buckets m) (get_hash m x) x (home_index (mask m) (get_hash m x))
             = Some (Some q) \<and> bitem (buckets m ! q) = y
         \<and> same (compare m) (key_of m x) (slot (buckets m ! q))
         \<and> shift_loop (mask m) (emptied (buckets m) q) q = Some bs \<and> robin (nbuckets m) bs
         \<and> mset (slots (buckets m)) = add_mset (slot (buckets m ! q)) (mset (slots bs))"
proof -
  note f = rh_ok_facts[OF ok]
  obtain q where q: "q < nbuckets m" "dib (buckets m ! q) \<noteq> 0" "bitem (buckets m ! q) = y"
    "same (compare m) (get_hash m x, x) (slot (buckets m ! q))"
    by (rule rh_lookup_Some[OF ok y]) (simp add: key_of_def)
  have fl: "find_loop (compare m) (mask m) (buckets m) (get_hash m x) x (home_index (mask m) (get_hash m x)) = Some (Some q)"
    using find_loop_found[OF f(1,3,4,6,7) q(1,2,4), of 0] q(2) f(2) by (simp add: path_home[OF f(1)])
  define bs1 where "bs1 = emptied (buckets m) q"
  obtain k where k: "k < nbuckets m" "dib (buckets m ! ((q + k) mod nbuckets m)) = 0"
    using empty_ahead[of "buckets m" q] f(4,5) q(1) by auto
  have k0: "0 < k" using k q(1,2) by (cases k) auto
  have "dib (bs1 ! ((q + k) mod nbuckets m)) \<le> 1"
    using k q f(5) by (cases "(q + k) mod nbuckets m = q") (auto simp: bs1_def)
  then obtain bs where bs: "shift_loop (of_nat (nbuckets m) - 1) bs1 q = Some bs" "robin (nbuckets m) bs"
    "mset (slots bs) = mset (slots (emptied bs1 q))"
    using shift_loop_ok[OF f(1) robin_holed[OF f(3) q(1)] k0 k(1)] by (auto simp: bs1_def)
  have "emptied bs1 q = bs1" using q(1) f(5) by (simp add: bs1_def)
  moreover have "mset (slots (buckets m)) = add_mset (slot (buckets m ! q)) (mset (slots bs1))"
    unfolding bs1_def by (rule slots_take) (use q f(5) in auto)
  ultimately have "mset (slots (buckets m)) = add_mset (slot (buckets m ! q)) (mset (slots bs))"
    using bs(3) by simp
  then show ?thesis using fl q(3,4) bs(1,2) f(2) by (auto simp: bs1_def key_of_def)
qed

lemma table_size_half:
  assumes "table_size n" and "table_size c" and "c < n"
  shows "table_size (n div 2) \<and> c \<le> n div 2"
proof -
  obtain k where k: "n = 2 ^ k" "k \<le> 15" using assms(1) by (auto simp: table_size_def)
  obtain l where l: "c = 2 ^ l" "4 \<le> l" using assms(2) by (auto simp: table_size_def)
  have "l < k" using assms(3) k l by (simp add: power_strict_increasing_iff)
  then obtain d where d: "k = Suc d" "l \<le> d" by (cases k) auto
  then have "n div 2 = 2 ^ d" using k by simp
  then show ?thesis using d k l by (auto simp: table_size_def)
qed

lemma shrink_step:
  assumes ok: "rh_ok m" and sh: "nbuckets m > cap m" "hashmap.count m \<le> shrinkat m"
  shows "\<exists>r m'. resize m (nbuckets m div 2) = Some (r, m') \<and> rh_ok m' \<and> same_kind m m'
     \<and> mset (slots (buckets m')) = mset (slots (buckets m)) \<and> oom m' = oom m
     \<and> hashmap.count m' = hashmap.count m \<and> (slack m \<longrightarrow> slack m')"
proof -
  have t: "table_size (nbuckets m div 2)" "cap m \<le> nbuckets m div 2"
    using table_size_half[of "nbuckets m" "cap m"] ok sh by (auto simp: rh_ok_def)
  have "hashmap.count m \<le> grow_at (nbuckets m div 2)"
    using ok sh(2) table_size_bounds[of "nbuckets m"] by (auto simp: rh_ok_def shrink_at_def grow_at_def)
  then show ?thesis
    using resize_ok[OF ok t] resize_oom[of m, OF _ t(1)] ok
    by (cases "can_alloc m (nbuckets m div 2)") (auto simp: same_kind_def slack_def)
qed

lemma hashmap_delete_ok:
  assumes ok: "rh_ok m"
  shows "\<exists>m'. hashmap_delete m x = Some (rh_lookup m x, m') \<and> rh_ok m' \<and> same_kind m m' \<and> \<not> oom m'
     \<and> hashmap.count m' \<le> hashmap.count m \<and> (slack m \<longrightarrow> slack m')
     \<and> (\<forall>k. rh_lookup m' k = (if same_key m k x then None else rh_lookup m k))"
proof (cases "rh_lookup m x")
  case None
  have "rh_lookup m k = None" if "same_key m k x" for k
  proof -
    note f = rh_ok_facts[OF ok]
    have "\<not> same (compare m) (key_of m k) p" if "p \<in> set (slots (buckets m))" for p
      using rh_lookup_None[OF ok None that] \<open>same_key m k x\<close> same_trans[OF f(6) same_sym[OF f(6)]]
      unfolding same_key_def by blast
    then show ?thesis unfolding rh_lookup_def option.map_disc_iff find_None_iff by blast
  qed
  moreover define m' where "m' = m\<lparr>oom := False\<rparr>"
  have gh: "get_hash m' = get_hash m" by (simp add: m'_def get_hash_def fun_eq_iff)
  have "rh_ok m'" using ok gh by (simp add: rh_ok_def m'_def)
  moreover have "rh_lookup m' k = rh_lookup m k" for k using gh by (simp add: rh_lookup_def m'_def key_of_def)
  moreover have "hashmap_delete m x = Some (None, m')"
    using absent_loops[OF ok None]
    by (simp add: hashmap_delete_def hashmap_delete_with_hash_def Let_def m'_def)
  ultimately show ?thesis using None by (auto simp: m'_def same_kind_def slack_def)
next
  case (Some y)
  note f = rh_ok_facts[OF ok]
  obtain q bs where qbs:
    "find_loop (compare m) (mask m) (buckets m) (get_hash m x) x (home_index (mask m) (get_hash m x)) = Some (Some q)"
    "bitem (buckets m ! q) = y" "same (compare m) (key_of m x) (slot (buckets m ! q))"
    "shift_loop (mask m) (emptied (buckets m) q) q = Some bs" "robin (nbuckets m) bs"
    "mset (slots (buckets m)) = add_mset (slot (buckets m ! q)) (mset (slots bs))"
    using delete_shift[OF ok Some] by blast
  define m2 where "m2 = m\<lparr>oom := False, buckets := bs, hashmap.count := hashmap.count m - 1\<rparr>"
  note rem = slots_removed[OF f(6,7) qbs(3,6)]
  have gh: "get_hash m2 = get_hash m" by (simp add: m2_def get_hash_def fun_eq_iff)
  have kind: "same_kind m m2" by (simp add: same_kind_def m2_def)
  have len: "length (slots (buckets m)) = Suc (length (slots bs))"
    using arg_cong[OF qbs(6), of size] by simp
  have sset: "set (slots bs) \<subseteq> set (slots (buckets m))"
    using arg_cong[OF qbs(6), of set_mset] by auto
  have ok2: "rh_ok m2"
    using ok qbs(5) rem len sset gh by (auto simp: rh_ok_def m2_def)
  have lk: "rh_lookup m2 k = (if same_key m k x then None else rh_lookup m k)" for k
    using rem[of "key_of m k"] gh by (simp add: rh_lookup_def m2_def same_key_def key_of_def)
  show ?thesis
  proof (cases "nbuckets m2 > cap m2 \<and> hashmap.count m2 \<le> shrinkat m2")
    case True
    then obtain r m' where m': "resize m2 (nbuckets m2 div 2) = Some (r, m')" "rh_ok m'" "same_kind m2 m'"
      "mset (slots (buckets m')) = mset (slots (buckets m2))" "oom m' = oom m2"
      "hashmap.count m' = hashmap.count m2" "slack m2 \<longrightarrow> slack m'"
      using shrink_step[OF ok2] by blast
    have "hashmap_delete m x = Some (Some y, m')"
      using True qbs m'(1)
      by (simp add: hashmap_delete_def hashmap_delete_with_hash_def Let_def m2_def)
    moreover have "same_kind m m'" using kind m'(3) by (simp add: same_kind_def)
    moreover have "\<not> oom m'" using m'(5) by (simp add: m2_def)
    moreover have "hashmap.count m' \<le> hashmap.count m" "slack m \<longrightarrow> slack m'"
      using m'(6,7) by (auto simp: m2_def slack_def)
    ultimately show ?thesis using Some m'(2) lk rh_lookup_mset[OF ok2 m'(3,4)] by auto
  next
    case False
    then have "hashmap_delete m x = Some (Some y, m2)"
      using qbs
      by (auto simp add: hashmap_delete_def hashmap_delete_with_hash_def Let_def m2_def)
    moreover have "\<not> oom m2" by (simp add: m2_def)
    moreover have "hashmap.count m2 \<le> hashmap.count m" "slack m \<longrightarrow> slack m2"
      by (auto simp: m2_def slack_def)
    ultimately show ?thesis using Some ok2 kind lk by auto
  qed
qed

section \<open>Creation, clearing and enumeration, on the map\<close>

lemma hashmap_new_ok:
  assumes "hashmap_new alloc el z c s0 s1 hf cmp = Some m" and "c \<le> 32768" and "cmp_ok cmp"
  shows "rh_ok m \<and> rh_items m = [] \<and> rh_room m"
  using new_table[of alloc el z c s0 s1 hf cmp m] assms
  by (auto simp: hashmap_new_def rh_room_def rh_items_def hashmap_new_with_allocator_def Let_def
      grow_at_def rh_ok_def dest!: table_size_bounds split: if_splits)

lemma rh_lookup_empty: "rh_items m = [] \<Longrightarrow> rh_lookup m x = None"
  by (simp add: rh_items_def rh_lookup_def)

lemma hashmap_clear_ok:
  assumes "rh_ok m"
  shows "rh_ok (hashmap_clear m b) \<and> rh_items (hashmap_clear m b) = []"
proof -
  have "0 < nbuckets m" "0 < cap m"
    using assms table_size_bounds[of "nbuckets m"] table_size_bounds[of "cap m"] by (auto simp: rh_ok_def)
  then show ?thesis
    using assms by (simp add: hashmap_clear_def Let_def rh_ok_def rh_items_def robin_replicate shrink_at_def
        less_mult_imp_div_less)
qed

text \<open>The loop \<open>while (hashmap_iter(map, &i, &item))\<close> of the callers: the items it sees.\<close>

lemma hashmap_iter_next: "hashmap_iter m i = Some (x, j) \<Longrightarrow> i < j \<and> j \<le> nbuckets m"
proof (induction m i rule: hashmap_iter.induct)
  case (1 m i)
  show ?case
  proof (cases "i \<ge> nbuckets m")
    case True
    then show ?thesis using 1(2) by (subst (asm) hashmap_iter.simps) simp
  next
    case False
    then show ?thesis
      using 1(1)[OF False refl] 1(2)
      by (subst (asm) (2) hashmap_iter.simps) (auto simp: Let_def split: if_splits)
  qed
qed

function iterate :: "'a hashmap \<Rightarrow> nat \<Rightarrow> 'a list" where
  "iterate m i = (case hashmap_iter m i of None \<Rightarrow> [] | Some (x, j) \<Rightarrow> x # iterate m j)"
  by auto
termination
  by (relation "measure (\<lambda>(m, i). nbuckets m - i)") (auto dest!: hashmap_iter_next)

declare iterate.simps [simp del]

lemma iterate_drop:
  "length (buckets m) = nbuckets m \<Longrightarrow> iterate m i = map snd (slots (drop i (buckets m)))"
proof (induction "nbuckets m - i" arbitrary: i rule: less_induct)
  case less
  show ?case
  proof (cases "i \<ge> nbuckets m")
    case True
    then show ?thesis using less.prems
      by (subst iterate.simps, subst hashmap_iter.simps) (simp add: slots_def)
  next
    case False
    then have d: "drop i (buckets m) = buckets m ! i # drop (i + 1) (buckets m)"
      using less.prems by (simp add: Cons_nth_drop_Suc)
    have IH: "iterate m (i + 1) = map snd (slots (drop (i + 1) (buckets m)))"
      by (rule less.hyps) (use False less.prems in auto)
    show ?thesis
    proof (cases "dib (buckets m ! i) = 0")
      case True
      have "hashmap_iter m i = hashmap_iter m (i + 1)"
        using False True by (subst hashmap_iter.simps) (simp add: Let_def)
      then have "iterate m i = iterate m (i + 1)" by (subst (1 2) iterate.simps) simp
      then show ?thesis using IH d True by (simp add: slots_def)
    next
      case full: False
      have "hashmap_iter m i = Some (bitem (buckets m ! i), i + 1)"
        using False full by (subst hashmap_iter.simps) (simp add: Let_def)
      then have "iterate m i = bitem (buckets m ! i) # iterate m (i + 1)" by (subst iterate.simps) simp
      then show ?thesis using IH d full by (simp add: slots_def slot_def)
    qed
  qed
qed

lemma iterate_items: "rh_ok m \<Longrightarrow> iterate m 0 = rh_items m"
  using iterate_drop[of m 0] rh_ok_facts(5)[of m] by (simp add: rh_items_def)

lemma rh_items_slot: "rh_ok m \<Longrightarrow> x \<in> set (rh_items m) \<longleftrightarrow> key_of m x \<in> set (slots (buckets m))"
  by (force simp: rh_items_def key_of_def rh_ok_def)

lemma rh_items_lookup:
  assumes ok: "rh_ok m"
  shows "x \<in> set (rh_items m) \<longleftrightarrow> rh_lookup m x = Some x"
proof
  note f = rh_ok_facts[OF ok]
  assume "x \<in> set (rh_items m)"
  then show "rh_lookup m x = Some x"
    using find_same[OF f(6,7), of "key_of m x" "key_of m x"] same_refl[OF f(6)] rh_items_slot[OF ok]
    by (simp add: rh_lookup_def key_of_def)
next
  assume "rh_lookup m x = Some x"
  then obtain q where "q < nbuckets m" "dib (buckets m ! q) \<noteq> 0" "bitem (buckets m ! q) = x"
    by (rule rh_lookup_Some[OF ok])
  then show "x \<in> set (rh_items m)"
    using slot_in_slots[of q "buckets m"] rh_ok_facts(5)[OF ok] by (force simp: rh_items_def slot_def)
qed

lemma uniq_keys: "uniq cmp (mset L) \<Longrightarrow> i < j \<Longrightarrow> j < length L \<Longrightarrow> \<not> same cmp (L ! i) (L ! j)"
proof (induction L arbitrary: i j)
  case (Cons x xs)
  then obtain j' where j': "j = Suc j'" "j' < length xs" by (cases j) auto
  show ?case
  proof (cases i)
    case 0
    then show ?thesis using uniq_add[of cmp x "mset xs" "xs ! j'"] Cons.prems j' by simp
  next
    case (Suc i')
    then show ?thesis using Cons.IH[of i' j'] uniq_sub[of cmp x "mset xs"] Cons.prems j' by simp
  qed
qed simp

lemma rh_items_keys:
  assumes ok: "rh_ok m" and ij: "i < j" "j < length (rh_items m)"
  shows "\<not> same_key m (rh_items m ! i) (rh_items m ! j)"
proof -
  note f = rh_ok_facts[OF ok]
  define L where "L = slots (buckets m)"
  have "key_of m (snd p) = p" if "p \<in> set L" for p
    using ok that by (cases p) (auto simp: rh_ok_def key_of_def L_def)
  then show ?thesis
    using uniq_keys[OF f(7) ij(1)] ij by (simp add: same_key_def rh_items_def L_def)
qed

lemma scan_buckets_items:
  "scan_buckets (\<lambda>x s. (True, f x s)) bs s = (True, fold f (map snd (slots bs)) s)"
  by (induction bs arbitrary: s) (auto simp: slots_def slot_def)

section \<open>The table as a keyed table\<close>

text \<open>Room for \<open>n\<close> more insertions: memory does not run out, and the items stay below 19660, the
  growth limit of 32768 buckets.\<close>

definition rh_roomy :: "'a hashmap \<Rightarrow> nat \<Rightarrow> bool" where
  "rh_roomy m n \<longleftrightarrow> hashmap.count m + n \<le> 19660 \<and> growpower m = 1 \<and> (\<forall>k. malloc m k) \<and> slack m"

lemma rh_roomy_room:
  assumes "rh_ok m" and "rh_roomy m (Suc n)"
  shows "rh_room m"
proof (cases "nbuckets m * 2 \<le> 32768")
  case True
  then show ?thesis using assms by (simp add: rh_room_def rh_roomy_def can_alloc_def)
next
  case False
  obtain k where k: "nbuckets m = 2 ^ k" "k \<le> 15" using assms(1) by (auto simp: rh_ok_def table_size_def)
  have "15 \<le> k"
  proof (rule ccontr)
    assume "\<not> 15 \<le> k"
    then have "(2::nat) ^ k \<le> 2 ^ 14" by (intro power_increasing) auto
    then show False using False k by simp
  qed
  then have "nbuckets m = 32768" using k by (cases "k = 15") auto
  then show ?thesis using assms(2) by (simp add: rh_room_def rh_roomy_def slack_def grow_at_def)
qed

lemma rh_put_law:
  assumes "rh_ok m" and "rh_roomy m (Suc n)"
  shows "\<exists>m'. hashmap_set m x = Some (rh_lookup m x, m') \<and> rh_ok m' \<and> rh_roomy m' n
      \<and> same_key m' = same_key m \<and> (\<forall>k. rh_lookup m' k = (if same_key m k x then Some x else rh_lookup m k))"
proof -
  obtain m' where m': "hashmap_set m x = Some (rh_lookup m x, m')" "rh_ok m'" "same_kind m m'"
    "hashmap.count m' \<le> hashmap.count m + 1" "slack m \<longrightarrow> slack m'"
    "\<forall>k. rh_lookup m' k = (if same_key m k x then Some x else rh_lookup m k)"
    using hashmap_set_ok[OF assms(1) rh_roomy_room[OF assms], of x] by blast
  moreover have "rh_roomy m' n" using m'(3-5) assms(2) by (auto simp: rh_roomy_def same_kind_def)
  moreover have "same_key m' = same_key m" using same_kind_key[OF m'(3)] by simp
  ultimately show ?thesis by blast
qed

lemma rh_del_law:
  assumes "rh_ok m"
  shows "\<exists>m'. hashmap_delete m x = Some (rh_lookup m x, m') \<and> rh_ok m' \<and> (\<forall>n. rh_roomy m n \<longrightarrow> rh_roomy m' n)
      \<and> same_key m' = same_key m \<and> (\<forall>k. rh_lookup m' k = (if same_key m k x then None else rh_lookup m k))"
proof -
  obtain m' where m': "hashmap_delete m x = Some (rh_lookup m x, m')" "rh_ok m'" "same_kind m m'"
    "hashmap.count m' \<le> hashmap.count m" "slack m \<longrightarrow> slack m'"
    "\<forall>k. rh_lookup m' k = (if same_key m k x then None else rh_lookup m k)"
    using hashmap_delete_ok[OF assms, of x] by blast
  moreover have "\<forall>n. rh_roomy m n \<longrightarrow> rh_roomy m' n"
    using m'(3-5) by (auto simp: rh_roomy_def same_kind_def)
  moreover have "same_key m' = same_key m" using same_kind_key[OF m'(3)] by simp
  ultimately show ?thesis by blast
qed

lemma same_key_equiv: "rh_ok m \<Longrightarrow> equivp (same_key m)"
  using rh_ok_facts(6)[of m] unfolding same_key_def
  by (intro equivpI reflpI sympI transpI) (blast intro: same_refl same_sym same_trans)+

lemma rh_lookup_key:
  assumes "rh_ok m" and "same_key m x y"
  shows "rh_lookup m x = rh_lookup m y"
proof -
  note c = rh_ok_facts(6)[OF assms(1)]
  have "same (compare m) (key_of m x) p \<longleftrightarrow> same (compare m) (key_of m y) p" for p
    using assms(2) same_trans[OF c] same_sym[OF c] unfolding same_key_def by blast
  then have "same (compare m) (key_of m x) = same (compare m) (key_of m y)" by blast
  then show ?thesis by (simp add: rh_lookup_def)
qed

interpretation rh: keyed_table rh_ok rh_roomy same_key rh_lookup hashmap_set hashmap_get hashmap_delete
proof unfold_locales
  show "rh_roomy m (Suc n) \<Longrightarrow> rh_roomy m n" for m :: "'a hashmap" and n
    by (simp add: rh_roomy_def)
qed (fact rh_put_law hashmap_get_ok rh_del_law same_key_equiv rh_lookup_key)+

section \<open>Properties\<close>

text \<open>
  C6. The table is a finite map, if the allocator does not fail, the initial capacity is at most 32768 and the comparison callback is
  an equivalence: every history of up to 19660 insertions, lookups and deletions on a new map returns,
  with growth and shrinking on the way, and each operation returns what the finite map of the items held before it,
  keyed by the hash and comparison callbacks. The iteration over the result visits exactly the items it stores, no two
  of them with the same key.
\<close>

theorem hashmap_history:
  assumes "hashmap_new alloc el z c s0 s1 hf cmp = Some m" and "c \<le> 32768" and "cmp_ok cmp" and "\<forall>k. alloc k"
    and "length ops \<le> 19660"
  shows "\<exists>m'. table_run hashmap_set hashmap_get hashmap_delete ops m
      = Some (table_spec (same_key m) ops (\<lambda>_. None), m')
    \<and> (\<forall>x. x \<in> set (iterate m' 0) \<longleftrightarrow> hashmap_get m' x = Some (Some x))
    \<and> (\<forall>i j. i < j \<and> j < length (iterate m' 0) \<longrightarrow> \<not> same_key m' (iterate m' 0 ! i) (iterate m' 0 ! j))"
proof -
  have ok: "rh_ok m" "rh_items m = []" using hashmap_new_ok[OF assms(1-3)] by auto
  have "rh_roomy m (length ops)"
    using assms(1,4,5) by (auto simp: rh_roomy_def slack_def hashmap_new_def hashmap_new_with_allocator_def Let_def
        split: if_splits)
  moreover have "rh_lookup m = (\<lambda>_. None)" using rh_lookup_empty[OF ok(2)] by (simp add: fun_eq_iff)
  ultimately obtain m' where "table_run hashmap_set hashmap_get hashmap_delete ops m
      = Some (table_spec (same_key m) ops (\<lambda>_. None), m')" "rh_ok m'"
    using rh.run_spec[OF ok(1)] by blast
  moreover from this have "x \<in> set (iterate m' 0) \<longleftrightarrow> hashmap_get m' x = Some (Some x)" for x
    by (simp add: iterate_items rh_items_lookup rh.get_law)
  moreover have "\<not> same_key m' (iterate m' 0 ! i) (iterate m' 0 ! j)" if "i < j" "j < length (iterate m' 0)" for i j
    using rh_items_keys[OF \<open>rh_ok m'\<close>] that iterate_items[OF \<open>rh_ok m'\<close>] by simp
  ultimately show ?thesis by blast
qed

theorem hashmap_history_witness:
  "\<exists>m m'. hashmap_new (\<lambda>_. True) 8 (0 :: u64) 0 0 0 (\<lambda>x _ _. x mod 4) (Some (=)) = Some m
    \<and> table_run hashmap_set hashmap_get hashmap_delete [TSet 1, TSet 5, TGet 1, TDelete 1, TGet 1, TGet 5] m
      = Some ([None, None, Some 1, Some 1, None, Some 5], m')"
proof -
  obtain m :: "u64 hashmap" where m: "hashmap_new (\<lambda>_. True) 8 0 0 0 0 (\<lambda>x _ _. x mod 4) (Some (=)) = Some m"
    by (auto simp: hashmap_new_def hashmap_new_with_allocator_def Let_def)
  have "same_key m x y \<longleftrightarrow> x = y" for x y
    using m by (auto simp: hashmap_new_def hashmap_new_with_allocator_def Let_def same_key_def same_def key_of_def get_hash_def)
  then have "table_spec (same_key m) [TSet 1, TSet 5, TGet 1, TDelete 1, TGet 1, TGet 5] (\<lambda>_. None)
      = [None, None, Some 1, Some 1, None, Some 5]" by simp
  moreover have "cmp_ok (Some ((=) :: u64 \<Rightarrow> u64 \<Rightarrow> bool))" by (simp add: cmp_ok_def identity_equivp)
  ultimately show ?thesis
    using hashmap_history[OF m, of "[TSet 1, TSet 5, TGet 1, TDelete 1, TGet 1, TGet 5]"] m by auto
qed

end
