(* ===== verification/Manipulation.thy ===== *)
theory Manipulation
  imports Coreconf_Types Sid_Lists Robin_Hood_Map
begin

text \<open>
  \<open>src/src/coreconfManipulation.c\<close>: the table from a SID to its parents that is built from a
  datastore, the search for the path from the root to a SID, and the extraction of the subtree at
  the end of a path. An entry of the table points to a dynamic list that the code changes in place,
  so the lists live in a heap (\<open>lists\<close>, a pointer is an index); the tables are those of
  \<open>Robin_Hood\<close>. The lists of the key mapping are only read, and stand in its items. A result
  \<open>None\<close> means that a loop does not end; NULL results are options inside.
\<close>

section \<open>Data\<close>

record CLookup =
  childSID :: u64
  dynamicLongList :: nat

text \<open>\<open>PathNodeT\<close>; a chain of nodes is the list from its head, ended by a node of SID 0.\<close>

record PathNode =
  parentSID :: u64
  sidKeys :: "DynamicLongList option"

record ctable =
  ctab :: "CLookup hashmap"
  lists :: "DynamicLongList list"

definition clookupCompare :: "CLookup \<Rightarrow> CLookup \<Rightarrow> bool" where
  "clookupCompare a b = (childSID a = childSID b)"

definition clookupHash :: "CLookup \<Rightarrow> u64 \<Rightarrow> u64 \<Rightarrow> u64" where
  "clookupHash a s0 s1 = hashmap_murmur (le_bytes 8 (childSID a)) s0 s1"

definition clookup_key :: "u64 \<Rightarrow> CLookup" where
  "clookup_key sid = \<lparr>childSID = sid, dynamicLongList = 0\<rparr>"

definition keymapping_key :: "u64 \<Rightarrow> KeyMapping" where
  "keymapping_key sid = \<lparr>km_key = sid, km_list = []\<rparr>"

text \<open>The two tables as the callers make them: \<open>hashmap_new(sizeof(T), 0, 0, 0, hash, compare, NULL, NULL)\<close>.\<close>

definition new_clookup_table :: "(nat \<Rightarrow> bool) \<Rightarrow> CLookup hashmap option" where
  "new_clookup_table alloc =
     hashmap_new alloc 16 (clookup_key 0) 0 0 0 clookupHash (Some clookupCompare)"

definition new_keymapping_table :: "(nat \<Rightarrow> bool) \<Rightarrow> KeyMapping hashmap option" where
  "new_keymapping_table alloc =
     hashmap_new alloc 16 (keymapping_key 0) 0 0 0 keyMappingHash (Some keyMappingCompare)"

section \<open>Building the parent table\<close>

definition MAX_CORECONF_RECURSION_DEPTH :: nat where
  "MAX_CORECONF_RECURSION_DEPTH = 50"

text \<open>A loop over a list whose body may not return.\<close>

fun fold_option :: "('a \<Rightarrow> 's \<Rightarrow> 's option) \<Rightarrow> 'a list \<Rightarrow> 's \<Rightarrow> 's option" where
  "fold_option f [] s = Some s"
| "fold_option f (x # xs) s = (case f x s of None \<Rightarrow> None | Some s' \<Rightarrow> fold_option f xs s')"

lemma fold_option_cong [fundef_cong]:
  assumes "xs = ys" and "s = t" and "\<And>x u. x \<in> set ys \<Longrightarrow> f x u = g x u"
  shows "fold_option f xs s = fold_option g ys t"
proof -
  have "fold_option f zs u = fold_option g zs u" if "set zs \<subseteq> set ys" for zs u
    using that assms(3) by (induction zs arbitrary: u) (auto split: option.splits)
  then show ?thesis using assms(1,2) by simp
qed

text \<open>One object of a map: the parent is added to the list of the child, which is made and entered
  into the table when the child is new.\<close>

definition add_parent :: "u64 \<Rightarrow> u64 \<Rightarrow> ctable \<Rightarrow> ctable option" where
  "add_parent childSIDValue parent st =
     (case hashmap_get (ctab st) (clookup_key childSIDValue) of
        None \<Rightarrow> None
      | Some None \<Rightarrow>
          (let p = length (lists st);
               item = \<lparr>childSID = childSIDValue, dynamicLongList = p\<rparr>;
               l = addUniqueLong initializeDynamicLongList parent
           in case hashmap_set (ctab st) item of
                None \<Rightarrow> None
              | Some (_, tab) \<Rightarrow> Some \<lparr>ctab = tab, lists = lists st @ [l]\<rparr>)
      | Some (Some c) \<Rightarrow>
          Some (st\<lparr>lists := (lists st)[dynamicLongList c :=
                    addUniqueLong (lists st ! dynamicLongList c) parent]\<rparr>))"

function buildCLookupHashmapFromCoreconf ::
  "CoreconfValue \<Rightarrow> u64 \<Rightarrow> nat \<Rightarrow> ctable \<Rightarrow> ctable option" where
  "buildCLookupHashmapFromCoreconf v parent depth st =
     (if depth > MAX_CORECONF_RECURSION_DEPTH then Some st
      else case v of
        CORECONF_HASHMAP hm \<Rightarrow>
          fold_option (\<lambda>current st.
              let childSIDValue = fst current + parent in
              case add_parent childSIDValue parent st of
                None \<Rightarrow> None
              | Some st \<Rightarrow> buildCLookupHashmapFromCoreconf (snd current) childSIDValue (depth + 1) st)
            (hm_objects hm) st
      | CORECONF_ARRAY elements \<Rightarrow>
          fold_option (\<lambda>arrayElement st. buildCLookupHashmapFromCoreconf arrayElement parent (depth + 1) st)
            elements st
      | _ \<Rightarrow> Some st)"
  by auto
termination by (relation "measure (\<lambda>(v, parent, depth, st). 51 - depth)") (auto simp: MAX_CORECONF_RECURSION_DEPTH_def)

declare buildCLookupHashmapFromCoreconf.simps [simp del]

section \<open>The path to a SID\<close>

definition createPathNode :: "u64 \<Rightarrow> DynamicLongList option \<Rightarrow> PathNode list" where
  "createPathNode sid keys = [\<lparr>parentSID = sid, sidKeys = keys\<rparr>]"

definition prependPathNode :: "PathNode list \<Rightarrow> u64 \<Rightarrow> DynamicLongList option \<Rightarrow> PathNode list" where
  "prependPathNode endNode sid keys = createPathNode sid keys @ endNode"

text \<open>A node for a SID, with the keys that the key mapping has for it.\<close>

definition prepend_sid :: "KeyMapping hashmap \<Rightarrow> u64 \<Rightarrow> PathNode list \<Rightarrow> PathNode list option" where
  "prepend_sid kmap sid nodes =
     (case hashmap_get kmap (keymapping_key sid) of
        None \<Rightarrow> None
      | Some None \<Rightarrow> Some (prependPathNode nodes sid None)
      | Some (Some km) \<Rightarrow> Some (prependPathNode nodes sid (Some (km_list km))))"

text \<open>The loop that climbs to the root; it takes the parents out of the table.\<close>

partial_function (option) climb ::
  "KeyMapping hashmap \<Rightarrow> u64 \<Rightarrow> PathNode list \<Rightarrow> ctable \<Rightarrow> (PathNode list option \<times> ctable) option" where
  "climb kmap current nodes st =
     (if current = 0 then Some (Some nodes, st)
      else case hashmap_get (ctab st) (clookup_key current) of
             None \<Rightarrow> None
           | Some None \<Rightarrow> Some (None, st)
           | Some (Some c) \<Rightarrow>
               (case popLong (Some (lists st ! dynamicLongList c)) of
                  (parent, l) \<Rightarrow>
                    (let st' = st\<lparr>lists := (lists st)[dynamicLongList c := the l]\<rparr> in
                     if parent = 0 then climb kmap parent nodes st'
                     else case prepend_sid kmap parent nodes of
                            None \<Rightarrow> None
                          | Some nodes' \<Rightarrow> climb kmap parent nodes' st')))"

definition findRequirementForSID ::
  "u64 \<Rightarrow> KeyMapping hashmap \<Rightarrow> ctable \<Rightarrow> (PathNode list option \<times> ctable) option" where
  "findRequirementForSID sid kmap st =
     (case prepend_sid kmap sid (createPathNode 0 None) of
        None \<Rightarrow> None
      | Some nodes \<Rightarrow> climb kmap sid nodes st)"

section \<open>The subtree at the end of a path\<close>

text \<open>The comparison of the keys of one list entry: the list of the SIDs that matched, and what is
  left of the clone of the request keys. A clone that was never made is uninitialised memory. (A
  real of \<open>2 ^ 64\<close> or more, whose conversion is undefined, counts as no match.)\<close>

fun match_keys ::
  "u64 \<Rightarrow> CoreconfValue \<Rightarrow> u64 list \<Rightarrow> DynamicLongList option \<Rightarrow> DynamicLongList
    \<Rightarrow> c_fault + DynamicLongList option \<times> DynamicLongList" where
  "match_keys parent element [] clone matched = Inr (clone, matched)"
| "match_keys parent element (sidKey # keys) clone matched =
     (case element of
        CORECONF_HASHMAP hm \<Rightarrow>
          (case getCoreconfHashMap hm (sidKey - parent) of
             None \<Rightarrow> Inl NullDereference
           | Some check \<Rightarrow>
               (case clone of
                  None \<Rightarrow> Inl OutOfBoundsRead
                | Some c \<Rightarrow>
                    (case popLong (Some c) of
                       (keyValue, clone') \<Rightarrow>
                         match_keys parent element keys clone'
                           (if getCoreconfValueAsUint64 check = Some keyValue
                            then addUniqueLong matched sidKey else matched))))
      | _ \<Rightarrow> Inl WrongUnionMember)"

text \<open>The loop over the entries of a list: the entry whose keys match, if any, and the request keys,
  which shrink by the keys that were used.\<close>

fun select_entry ::
  "qsort_fun \<Rightarrow> u64 \<Rightarrow> DynamicLongList \<Rightarrow> CoreconfValue list \<Rightarrow> DynamicLongList
    \<Rightarrow> c_fault + (CoreconfValue option \<times> DynamicLongList)" where
  "select_entry qs parent keys [] requestKeys = Inr (None, requestKeys)"
| "select_entry qs parent keys (element # elements) requestKeys =
     (case match_keys parent element keys (cloneDynamicLongList (Some requestKeys) None)
             initializeDynamicLongList of
        Inl f \<Rightarrow> Inl f
      | Inr (clone, matched) \<Rightarrow>
          if compareDynamicLongList qs keys matched
          then Inr (Some element, the (cloneDynamicLongList clone (Some requestKeys)))
          else select_entry qs parent keys elements requestKeys)"

text \<open>The loop over the nodes of a path; \<open>Inr None\<close> is the NULL result for a node with keys that is
  no list. A list without a matching entry stays the subtree.\<close>

fun examine_nodes ::
  "qsort_fun \<Rightarrow> PathNode list \<Rightarrow> CoreconfValue option \<Rightarrow> u64 \<Rightarrow> DynamicLongList
    \<Rightarrow> c_fault + (CoreconfValue option \<times> u64 \<times> DynamicLongList) option" where
  "examine_nodes qs [] subTree previousSID requestKeys = Inl NullDereference"
| "examine_nodes qs (node # nodes) subTree previousSID requestKeys =
     (if parentSID node = 0 then Inr (Some (subTree, previousSID, requestKeys))
      else case subTree of
        None \<Rightarrow> Inl NullDereference
      | Some (CORECONF_HASHMAP hm) \<Rightarrow>
          (let sub = getCoreconfHashMap hm (parentSID node - previousSID) in
           case sidKeys node of
             None \<Rightarrow> examine_nodes qs nodes sub (parentSID node) requestKeys
           | Some keys \<Rightarrow>
               if keys = [] then examine_nodes qs nodes sub (parentSID node) requestKeys
               else (case sub of
                       None \<Rightarrow> Inl NullDereference
                     | Some (CORECONF_ARRAY elements) \<Rightarrow>
                         (case select_entry qs (parentSID node) keys elements requestKeys of
                            Inl f \<Rightarrow> Inl f
                          | Inr (None, rk) \<Rightarrow> examine_nodes qs nodes sub (parentSID node) rk
                          | Inr (Some e, rk) \<Rightarrow> examine_nodes qs nodes (Some e) (parentSID node) rk)
                     | Some _ \<Rightarrow> Inr None))
      | Some _ \<Rightarrow> Inl WrongUnionMember)"

text \<open>The result is a new map with one object, whose value pointer may be NULL; and the request
  keys that are left.\<close>

definition examineCoreconfValue ::
  "qsort_fun \<Rightarrow> CoreconfValue option \<Rightarrow> DynamicLongList \<Rightarrow> PathNode list option
    \<Rightarrow> c_fault + (CoreconfValue option CoreconfHashMap \<times> DynamicLongList) option" where
  "examineCoreconfValue qs coreconfModel requestKeys headNode =
     (case coreconfModel of
        None \<Rightarrow> Inr None
      | Some model \<Rightarrow>
          (case headNode of
             None \<Rightarrow> Inr None
           | Some nodes \<Rightarrow>
               (case examine_nodes qs nodes (Some model) 0 requestKeys of
                  Inl f \<Rightarrow> Inl f
                | Inr None \<Rightarrow> Inr None
                | Inr (Some (subTree, previousSID, rk)) \<Rightarrow>
                    Inr (Some (snd (insertCoreconfHashMap empty_hashmap previousSID subTree), rk)))))"

section \<open>The parent table\<close>

text \<open>A table of parents stands for a partial function from SIDs to lists.\<close>

definition parents :: "ctable \<Rightarrow> u64 \<Rightarrow> DynamicLongList option" where
  "parents st sid = map_option (\<lambda>c. lists st ! dynamicLongList c) (rh_lookup (ctab st) (clookup_key sid))"

definition ctable_ok :: "ctable \<Rightarrow> bool" where
  "ctable_ok st \<longleftrightarrow> rh_ok (ctab st) \<and> same_key (ctab st) = clookupCompare
     \<and> (\<forall>k c. rh_lookup (ctab st) (clookup_key k) = Some c \<longrightarrow> dynamicLongList c < length (lists st))
     \<and> (\<forall>k k' c c'. rh_lookup (ctab st) (clookup_key k) = Some c \<longrightarrow> rh_lookup (ctab st) (clookup_key k') = Some c'
            \<longrightarrow> dynamicLongList c = dynamicLongList c' \<longrightarrow> k = k')"

text \<open>What the code promises: the edges of a datastore, a parent for every SID in it, added in the
  order of the traversal.\<close>

function sid_edges :: "CoreconfValue \<Rightarrow> u64 \<Rightarrow> nat \<Rightarrow> (u64 \<times> u64) list" where
  "sid_edges v parent depth =
     (if depth > MAX_CORECONF_RECURSION_DEPTH then []
      else case v of
        CORECONF_HASHMAP hm \<Rightarrow>
          concat (map (\<lambda>obj. (fst obj + parent, parent) # sid_edges (snd obj) (fst obj + parent) (depth + 1))
            (hm_objects hm))
      | CORECONF_ARRAY elements \<Rightarrow> concat (map (\<lambda>e. sid_edges e parent (depth + 1)) elements)
      | _ \<Rightarrow> [])"
  by auto
termination by (relation "measure (\<lambda>(v, parent, depth). 51 - depth)") (auto simp: MAX_CORECONF_RECURSION_DEPTH_def)

declare sid_edges.simps [simp del]

fun add_edge :: "u64 \<times> u64 \<Rightarrow> (u64 \<Rightarrow> DynamicLongList option) \<Rightarrow> u64 \<Rightarrow> DynamicLongList option" where
  "add_edge (c, p) f = f(c \<mapsto> addUniqueLong (case f c of None \<Rightarrow> [] | Some l \<Rightarrow> l) p)"

lemma clookup_key_same [simp]: "clookupCompare (clookup_key a) x \<longleftrightarrow> a = childSID x"
  by (simp add: clookupCompare_def clookup_key_def)

lemma childSID_key [simp]: "childSID (clookup_key a) = a"
  by (simp add: clookup_key_def)

lemma add_parent_ok:
  assumes ok: "ctable_ok st" and room: "rh_roomy (ctab st) (Suc n)"
  shows "\<exists>st'. add_parent c p st = Some st' \<and> ctable_ok st' \<and> rh_roomy (ctab st') n
    \<and> parents st' = add_edge (c, p) (parents st)"
proof -
  have rok: "rh_ok (ctab st)" and keq: "same_key (ctab st) = clookupCompare" using ok by (auto simp: ctable_ok_def)
  note get = rh.get_law[OF rok, of "clookup_key c"]
  show ?thesis
  proof (cases "rh_lookup (ctab st) (clookup_key c)")
    case None
    define item where "item = \<lparr>childSID = c, dynamicLongList = length (lists st)\<rparr>"
    obtain tab r where t: "hashmap_set (ctab st) item = Some (r, tab)" "rh_ok tab" "rh_roomy tab n"
      "same_key tab = same_key (ctab st)"
      "\<forall>k. rh_lookup tab k = (if same_key (ctab st) k item then Some item else rh_lookup (ctab st) k)"
      using rh.put_law[OF rok room, of item] by blast
    define st' where "st' = \<lparr>ctab = tab, lists = lists st @ [[p]]\<rparr>"
    have lk: "rh_lookup tab (clookup_key k) = (if k = c then Some item else rh_lookup (ctab st) (clookup_key k))" for k
      using t(5) by (simp add: keq item_def)
    have add: "add_parent c p st = Some st'"
      using None get t(1)
      by (simp add: add_parent_def item_def st'_def addUniqueLong_def initializeDynamicLongList_def Let_def)
    have old: "dynamicLongList x < length (lists st)" if "rh_lookup (ctab st) (clookup_key k) = Some x" for k x
      using ok that by (auto simp: ctable_ok_def)
    have ptr: "dynamicLongList x < length (lists st')" if "rh_lookup tab (clookup_key k) = Some x" for k x
      using that old[of k x] by (auto simp: st'_def lk item_def split: if_splits)
    have inj: "k = k'" if "rh_lookup tab (clookup_key k) = Some x" "rh_lookup tab (clookup_key k') = Some x'"
      "dynamicLongList x = dynamicLongList x'" for k k' x x'
    proof (cases "k = c"; cases "k' = c")
      assume "k \<noteq> c" "k' \<noteq> c"
      then show ?thesis using that ok unfolding ctable_ok_def lk by auto
    qed (use that old[of k x] old[of k' x'] in \<open>auto simp: lk item_def\<close>)
    have "ctable_ok st'"
      unfolding ctable_ok_def using t(2,4) keq ptr inj by (auto simp: st'_def)
    moreover have "parents st' = add_edge (c, p) (parents st)"
    proof
      fix k
      show "parents st' k = add_edge (c, p) (parents st) k"
        using old[of k] None
        by (cases "rh_lookup (ctab st) (clookup_key k)")
          (auto simp: parents_def st'_def lk item_def nth_append addUniqueLong_def)
    qed
    ultimately show ?thesis using add t(3) by (simp add: st'_def)
  next
    case (Some x)
    define st' where "st' = st\<lparr>lists := (lists st)[dynamicLongList x := addUniqueLong (lists st ! dynamicLongList x) p]\<rparr>"
    have add: "add_parent c p st = Some st'"
      using Some get by (simp add: add_parent_def st'_def)
    have "ctable_ok st'" using ok by (simp add: ctable_ok_def st'_def)
    moreover have "parents st' k = add_edge (c, p) (parents st) k" for k
    proof (cases "k = c")
      case True
      then show ?thesis using ok Some by (auto simp: parents_def st'_def ctable_ok_def)
    next
      case False
      have "dynamicLongList y \<noteq> dynamicLongList x" if "rh_lookup (ctab st) (clookup_key k) = Some y" for y
        using ok Some that False unfolding ctable_ok_def by metis
      then show ?thesis using False
        by (cases "rh_lookup (ctab st) (clookup_key k)") (auto simp: parents_def st'_def)
    qed
    ultimately show ?thesis using add rh.roomy_less[OF room] by (auto simp: st'_def fun_eq_iff)
  qed
qed

lemma fold_option_edges:
  assumes "\<And>x st n. x \<in> set xs \<Longrightarrow> ctable_ok st \<Longrightarrow> rh_roomy (ctab st) (length (e x) + n)
      \<Longrightarrow> \<exists>st'. f x st = Some st' \<and> ctable_ok st' \<and> rh_roomy (ctab st') n \<and> parents st' = fold add_edge (e x) (parents st)"
    and "ctable_ok st" and "rh_roomy (ctab st) (length (concat (map e xs)) + n)"
  shows "\<exists>st'. fold_option f xs st = Some st' \<and> ctable_ok st' \<and> rh_roomy (ctab st') n
      \<and> parents st' = fold add_edge (concat (map e xs)) (parents st)"
  using assms
proof (induction xs arbitrary: st)
  case (Cons x xs)
  obtain st1 where st1: "f x st = Some st1" "ctable_ok st1" "rh_roomy (ctab st1) (length (concat (map e xs)) + n)"
    "parents st1 = fold add_edge (e x) (parents st)"
    using Cons.prems(1)[of x st "length (concat (map e xs)) + n"] Cons.prems(2,3) by (auto simp: add.assoc)
  obtain st2 where "fold_option f xs st1 = Some st2" "ctable_ok st2" "rh_roomy (ctab st2) n"
    "parents st2 = fold add_edge (concat (map e xs)) (parents st1)"
    using Cons.IH[OF _ st1(2,3)] Cons.prems(1) by auto
  then show ?case using st1 by simp
qed simp

text \<open>The equations of the two traversals, by the kind of value.\<close>

definition is_container :: "CoreconfValue \<Rightarrow> bool" where
  "is_container v \<longleftrightarrow> (case v of CORECONF_HASHMAP _ \<Rightarrow> True | CORECONF_ARRAY _ \<Rightarrow> True | _ \<Rightarrow> False)"

lemma sid_edges_leaf: "depth > MAX_CORECONF_RECURSION_DEPTH \<or> \<not> is_container v \<Longrightarrow> sid_edges v parent depth = []"
  by (subst sid_edges.simps) (auto simp: is_container_def split: CoreconfValue.splits)

lemma sid_edges_map:
  "depth \<le> MAX_CORECONF_RECURSION_DEPTH \<Longrightarrow> sid_edges (CORECONF_HASHMAP hm) parent depth =
    concat (map (\<lambda>obj. (fst obj + parent, parent) # sid_edges (snd obj) (fst obj + parent) (depth + 1)) (hm_objects hm))"
  by (subst sid_edges.simps) simp

lemma sid_edges_array:
  "depth \<le> MAX_CORECONF_RECURSION_DEPTH \<Longrightarrow> sid_edges (CORECONF_ARRAY es) parent depth =
    concat (map (\<lambda>e. sid_edges e parent (depth + 1)) es)"
  by (subst sid_edges.simps) simp

lemma build_leaf:
  "depth > MAX_CORECONF_RECURSION_DEPTH \<or> \<not> is_container v \<Longrightarrow> buildCLookupHashmapFromCoreconf v parent depth st = Some st"
  by (subst buildCLookupHashmapFromCoreconf.simps) (auto simp: is_container_def split: CoreconfValue.splits)

lemma build_map:
  "depth \<le> MAX_CORECONF_RECURSION_DEPTH \<Longrightarrow> buildCLookupHashmapFromCoreconf (CORECONF_HASHMAP hm) parent depth st =
    fold_option (\<lambda>obj st. case add_parent (fst obj + parent) parent st of None \<Rightarrow> None
        | Some st \<Rightarrow> buildCLookupHashmapFromCoreconf (snd obj) (fst obj + parent) (depth + 1) st) (hm_objects hm) st"
  by (subst buildCLookupHashmapFromCoreconf.simps) (simp add: Let_def)

lemma build_array:
  "depth \<le> MAX_CORECONF_RECURSION_DEPTH \<Longrightarrow> buildCLookupHashmapFromCoreconf (CORECONF_ARRAY es) parent depth st =
    fold_option (\<lambda>e st. buildCLookupHashmapFromCoreconf e parent (depth + 1) st) es st"
  by (subst buildCLookupHashmapFromCoreconf.simps) simp

lemma buildCLookup_ok:
  "ctable_ok st \<Longrightarrow> rh_roomy (ctab st) (length (sid_edges v parent depth) + n)
    \<Longrightarrow> \<exists>st'. buildCLookupHashmapFromCoreconf v parent depth st = Some st' \<and> ctable_ok st'
      \<and> rh_roomy (ctab st') n \<and> parents st' = fold add_edge (sid_edges v parent depth) (parents st)"
proof (induction v parent depth arbitrary: st n rule: sid_edges.induct)
  case (1 v parent depth)
  consider "depth > MAX_CORECONF_RECURSION_DEPTH \<or> \<not> is_container v"
    | hm where "depth \<le> MAX_CORECONF_RECURSION_DEPTH" "v = CORECONF_HASHMAP hm"
    | es where "depth \<le> MAX_CORECONF_RECURSION_DEPTH" "v = CORECONF_ARRAY es"
  proof (cases "depth > MAX_CORECONF_RECURSION_DEPTH")
    case False
    then have d: "depth \<le> MAX_CORECONF_RECURSION_DEPTH" by simp
    show ?thesis using that(1) that(2)[OF d] that(3)[OF d] by (cases v) (auto simp: is_container_def)
  qed (use that(1) in blast)
  then show ?case
  proof cases
    case 1
    then show ?thesis using "1.prems" by (simp add: sid_edges_leaf build_leaf)
  next
    case (2 hm)
    show ?thesis
      unfolding 2(2) build_map[OF 2(1)] sid_edges_map[OF 2(1)]
    proof (rule fold_option_edges)
      fix obj :: "u64 \<times> CoreconfValue" and st :: ctable and k
      assume obj: "obj \<in> set (hm_objects hm)" and ok: "ctable_ok st"
      define es where "es = sid_edges (snd obj) (fst obj + parent) (depth + 1)"
      assume "rh_roomy (ctab st) (length ((fst obj + parent, parent) # sid_edges (snd obj) (fst obj + parent) (depth + 1)) + k)"
      then have "rh_roomy (ctab st) (Suc (length es + k))" by (simp add: es_def)
      then obtain st1 where st1: "add_parent (fst obj + parent) parent st = Some st1" "ctable_ok st1"
        "rh_roomy (ctab st1) (length es + k)" "parents st1 = add_edge (fst obj + parent, parent) (parents st)"
        using add_parent_ok[OF ok] by blast
      have nd: "\<not> depth > MAX_CORECONF_RECURSION_DEPTH" using 2(1) by simp
      obtain st2 where "buildCLookupHashmapFromCoreconf (snd obj) (fst obj + parent) (depth + 1) st1 = Some st2"
        "ctable_ok st2" "rh_roomy (ctab st2) k" "parents st2 = fold add_edge es (parents st1)"
        using "1.IH"(2)[OF nd 2(2) obj st1(2) st1(3)[unfolded es_def]] unfolding es_def by blast
      then show "\<exists>st'. (case add_parent (fst obj + parent) parent st of None \<Rightarrow> None
          | Some st \<Rightarrow> buildCLookupHashmapFromCoreconf (snd obj) (fst obj + parent) (depth + 1) st) = Some st' \<and>
          ctable_ok st' \<and> rh_roomy (ctab st') k \<and>
          parents st' = fold add_edge ((fst obj + parent, parent) # sid_edges (snd obj) (fst obj + parent) (depth + 1)) (parents st)"
        using st1 by (simp add: es_def)
    qed (use "1.prems" sid_edges_map[OF 2(1)] 2(2) in auto)
  next
    case (3 es)
    show ?thesis
      unfolding 3(2) build_array[OF 3(1)] sid_edges_array[OF 3(1)]
    proof (rule fold_option_edges)
      fix e :: CoreconfValue and st :: ctable and k
      assume e: "e \<in> set es" and prems: "ctable_ok st" "rh_roomy (ctab st) (length (sid_edges e parent (depth + 1)) + k)"
      show "\<exists>st'. buildCLookupHashmapFromCoreconf e parent (depth + 1) st = Some st' \<and> ctable_ok st' \<and>
          rh_roomy (ctab st') k \<and> parents st' = fold add_edge (sid_edges e parent (depth + 1)) (parents st)"
        using "1.IH"(1)[OF _ 3(2) e prems] 3(1) by (simp add: not_less)
    qed (use "1.prems" sid_edges_array[OF 3(1)] 3(2) in auto)
  qed
qed

section \<open>What the built table says\<close>

text \<open>The parents of a SID, each at its first place.\<close>

definition parents_in :: "(u64 \<times> u64) list \<Rightarrow> u64 \<Rightarrow> u64 list" where
  "parents_in es sid = map snd (filter (\<lambda>e. fst e = sid) es)"

definition first_places :: "'a list \<Rightarrow> 'a list" where
  "first_places xs = rev (remdups (rev xs))"

lemma foldl_addUnique: "foldl addUniqueLong [] ps = first_places ps"
  by (induction ps rule: rev_induct) (auto simp: first_places_def addUniqueLong_def)

lemma fold_add_edge:
  "fold add_edge es f sid =
     (if parents_in es sid = [] then f sid
      else Some (foldl addUniqueLong (case f sid of None \<Rightarrow> [] | Some l \<Rightarrow> l) (parents_in es sid)))"
proof (induction es arbitrary: f)
  case Nil
  then show ?case by (simp add: parents_in_def)
next
  case (Cons e es)
  define g where "g = add_edge e f"
  have g: "g sid = (if fst e = sid then Some (addUniqueLong (case f sid of None \<Rightarrow> [] | Some l \<Rightarrow> l) (snd e)) else f sid)"
    by (cases e) (simp add: g_def)
  have "fold add_edge (e # es) f sid = fold add_edge es g sid" by (simp add: g_def)
  then show ?case using Cons.IH[of g] g by (auto simp: parents_in_def)
qed

lemma new_clookup_ok:
  assumes "new_clookup_table alloc = Some t" and "\<forall>k. alloc k"
  shows "ctable_ok \<lparr>ctab = t, lists = []\<rparr> \<and> rh_roomy t 19660 \<and> parents \<lparr>ctab = t, lists = []\<rparr> = Map.empty"
proof -
  have c: "cmp_ok (Some clookupCompare)"
    unfolding cmp_ok_def by (auto simp: clookupCompare_def intro!: equivpI reflpI sympI transpI)
  have t: "rh_ok t" "rh_items t = []"
    using hashmap_new_ok[OF assms(1)[unfolded new_clookup_table_def] _ c] by auto
  have f: "hash t = clookupHash" "compare t = Some clookupCompare" "hashmap.count t = 0" "growpower t = 1"
    "malloc t = alloc" "slack t"
    using assms(1) by (auto simp: new_clookup_table_def hashmap_new_def hashmap_new_with_allocator_def Let_def
        slack_def split: if_splits)
  have "same_key t a b = clookupCompare a b" for a b
    by (auto simp: same_key_def same_def key_of_def get_hash_def f clookupHash_def clookupCompare_def)
  then have "same_key t = clookupCompare" by (simp add: fun_eq_iff)
  then show ?thesis
    using t f assms(2) by (simp add: ctable_ok_def parents_def rh_lookup_empty rh_roomy_def fun_eq_iff)
qed

lemma new_keymapping_ok:
  assumes "new_keymapping_table alloc = Some t" and "\<forall>k. alloc k"
  shows "rh_ok t \<and> rh_roomy t 19660 \<and> same_key t = keyMappingCompare \<and> rh_items t = []"
proof -
  have c: "cmp_ok (Some keyMappingCompare)"
    unfolding cmp_ok_def by (auto simp: keyMappingCompare_def intro!: equivpI reflpI sympI transpI)
  have t: "rh_ok t" "rh_items t = []"
    using hashmap_new_ok[OF assms(1)[unfolded new_keymapping_table_def] _ c] by auto
  have f: "hash t = keyMappingHash" "compare t = Some keyMappingCompare" "hashmap.count t = 0" "growpower t = 1"
    "malloc t = alloc" "slack t"
    using assms(1) by (auto simp: new_keymapping_table_def hashmap_new_def hashmap_new_with_allocator_def Let_def
        slack_def split: if_splits)
  have "same_key t a b = keyMappingCompare a b" for a b
    by (auto simp: same_key_def same_def key_of_def get_hash_def f keyMappingHash_def keyMappingCompare_def)
  then have "same_key t = keyMappingCompare" by (simp add: fun_eq_iff)
  then show ?thesis using t f assms(2) by (simp add: rh_roomy_def)
qed

lemma built_parents:
  assumes "new_clookup_table alloc = Some t" and "\<forall>k. alloc k" and "length (sid_edges v parent 0) \<le> 19660"
  shows "\<exists>st. buildCLookupHashmapFromCoreconf v parent 0 \<lparr>ctab = t, lists = []\<rparr> = Some st \<and> ctable_ok st
    \<and> (\<forall>sid. parents st sid = (let ps = parents_in (sid_edges v parent 0) sid
                                in if ps = [] then None else Some (first_places ps)))"
proof -
  define es where "es = sid_edges v parent 0"
  note t = new_clookup_ok[OF assms(1,2)]
  have "rh_roomy t (length es + 0)"
    using t assms(3) by (auto simp: rh_roomy_def es_def)
  then obtain st where "buildCLookupHashmapFromCoreconf v parent 0 \<lparr>ctab = t, lists = []\<rparr> = Some st" "ctable_ok st"
    "parents st = fold add_edge es (parents \<lparr>ctab = t, lists = []\<rparr>)"
    using buildCLookup_ok[of "\<lparr>ctab = t, lists = []\<rparr>" v parent 0 0] t by (auto simp: es_def)
  then show ?thesis using t by (simp add: fold_add_edge foldl_addUnique es_def Let_def)
qed

section \<open>The climb\<close>

definition keys_of :: "KeyMapping hashmap \<Rightarrow> u64 \<Rightarrow> DynamicLongList option" where
  "keys_of kmap sid = map_option km_list (rh_lookup kmap (keymapping_key sid))"

definition path_node :: "KeyMapping hashmap \<Rightarrow> u64 \<Rightarrow> PathNode" where
  "path_node kmap sid = \<lparr>parentSID = sid, sidKeys = keys_of kmap sid\<rparr>"

definition end_node :: PathNode where
  "end_node = \<lparr>parentSID = 0, sidKeys = None\<rparr>"

lemma prepend_sid_ok: "rh_ok kmap \<Longrightarrow> prepend_sid kmap sid nodes = Some (path_node kmap sid # nodes)"
  by (auto simp: prepend_sid_def rh.get_law prependPathNode_def createPathNode_def path_node_def keys_of_def
      split: option.splits)

text \<open>Taking the last parent of a SID.\<close>

definition take_parent :: "ctable \<Rightarrow> CLookup \<Rightarrow> ctable" where
  "take_parent st c = st\<lparr>lists := (lists st)[dynamicLongList c := butlast (lists st ! dynamicLongList c)]\<rparr>"

lemma take_parent_ok:
  assumes "ctable_ok st" and "rh_lookup (ctab st) (clookup_key sid) = Some c"
  shows "ctable_ok (take_parent st c)
    \<and> parents (take_parent st c) = (parents st)(sid := map_option butlast (parents st sid))"
proof -
  have "parents (take_parent st c) k = ((parents st)(sid := map_option butlast (parents st sid))) k" for k
  proof (cases "k = sid")
    case True
    then show ?thesis using assms by (auto simp: parents_def take_parent_def ctable_ok_def)
  next
    case False
    have "dynamicLongList c \<noteq> dynamicLongList y" if "rh_lookup (ctab st) (clookup_key k) = Some y" for y
      using assms that False unfolding ctable_ok_def by metis
    then show ?thesis using False
      by (cases "rh_lookup (ctab st) (clookup_key k)") (auto simp: parents_def take_parent_def)
  qed
  then show ?thesis using assms(1) by (auto simp: ctable_ok_def take_parent_def fun_eq_iff)
qed

lemma climb_step:
  assumes "ctable_ok st" and "rh_ok kmap" and "sid \<noteq> 0" and "parents st sid = Some ps"
  shows "\<exists>st'. ctable_ok st' \<and> parents st' = (parents st)(sid \<mapsto> butlast ps)
    \<and> length (concat (lists st')) = length (concat (lists st)) - (if ps = [] then 0 else 1)
    \<and> (ps \<noteq> [] \<longrightarrow> concat (lists st) \<noteq> [])
    \<and> climb kmap sid nodes st
      = (if ps = [] \<or> last ps = 0 then Some (Some nodes, st')
         else climb kmap (last ps) (path_node kmap (last ps) # nodes) st')"
proof -
  obtain c where c: "rh_lookup (ctab st) (clookup_key sid) = Some c" "ps = lists st ! dynamicLongList c"
    using assms(4) by (auto simp: parents_def)
  have ptr: "dynamicLongList c < length (lists st)" using assms(1) c(1) by (auto simp: ctable_ok_def)
  have get: "hashmap_get (ctab st) (clookup_key sid) = Some (Some c)"
    using rh.get_law[of "ctab st" "clookup_key sid"] assms(1) c(1) by (simp add: ctable_ok_def)
  have len: "length (concat (xs[i := butlast (xs ! i)])) = length (concat xs) - (if xs ! i = [] then 0 else 1)
      \<and> (xs ! i \<noteq> [] \<longrightarrow> concat xs \<noteq> [])" if "i < length xs" for xs :: "u64 list list" and i
    using that
  proof (induction xs arbitrary: i)
    case (Cons x xs)
    then show ?case by (cases i; cases x rule: rev_cases) auto
  qed simp
  have pop: "popLong (Some ps) = (if ps = [] then 0 else last ps, Some (butlast ps))" by (simp add: popLong_def)
  have zero: "climb kmap 0 nodes st'' = Some (Some nodes, st'')" for st'' by (subst climb.simps) simp
  show ?thesis
    using take_parent_ok[OF assms(1) c(1)] len[OF ptr] assms(3,4) c(2) get pop zero prepend_sid_ok[OF assms(2)]
    by (intro exI[of _ "take_parent st c"] conjI) (auto simp: climb.simps[of kmap sid] take_parent_def)
qed

lemma climb_returns:
  assumes "rh_ok kmap"
  shows "ctable_ok st \<Longrightarrow> \<exists>r st'. climb kmap sid nodes st = Some (r, st') \<and> ctable_ok st'"
proof (induction "length (concat (lists st))" arbitrary: st sid nodes rule: less_induct)
  case less
  show ?case
  proof (cases "sid = 0 \<or> parents st sid = None")
    case True
    then have "climb kmap sid nodes st = Some (if sid = 0 then Some nodes else None, st)"
      using less.prems rh.get_law[of "ctab st" "clookup_key sid"]
      by (subst climb.simps) (auto simp: parents_def ctable_ok_def)
    then show ?thesis using less.prems by blast
  next
    case False
    then obtain ps where ps: "parents st sid = Some ps" "sid \<noteq> 0" by auto
    obtain st' where st': "ctable_ok st'" "length (concat (lists st')) = length (concat (lists st)) - (if ps = [] then 0 else 1)"
      "ps \<noteq> [] \<longrightarrow> concat (lists st) \<noteq> []"
      "climb kmap sid nodes st = (if ps = [] \<or> last ps = 0 then Some (Some nodes, st')
         else climb kmap (last ps) (path_node kmap (last ps) # nodes) st')"
      using climb_step[OF less.prems assms ps(2,1)] by blast
    show ?thesis
    proof (cases "ps = [] \<or> last ps = 0")
      case True
      then show ?thesis using st' by auto
    next
      case False
      then have "length (concat (lists st')) < length (concat (lists st))" using st'(2,3) by auto
      then show ?thesis using less.hyps[OF _ st'(1)] False st'(4) by auto
    qed
  qed
qed

section \<open>The path of a SID with one parent each\<close>

text \<open>A chain from a SID up to a root, where every SID has one parent.\<close>

fun up_chain :: "(u64 \<Rightarrow> DynamicLongList option) \<Rightarrow> u64 \<Rightarrow> u64 list \<Rightarrow> bool" where
  "up_chain f c [] \<longleftrightarrow> f c = Some [0]"
| "up_chain f c (d # cs) \<longleftrightarrow> f c = Some [d] \<and> up_chain f d cs"

lemma up_chain_cong: "(\<And>k. k \<in> insert c (set cs) \<Longrightarrow> f k = g k) \<Longrightarrow> up_chain f c cs = up_chain g c cs"
  by (induction cs arbitrary: c) auto

lemma climb_chain:
  assumes "rh_ok kmap"
  shows "ctable_ok st \<Longrightarrow> up_chain (parents st) c cs \<Longrightarrow> distinct (c # cs) \<Longrightarrow> 0 \<notin> set (c # cs)
    \<Longrightarrow> \<exists>st'. climb kmap c nodes st = Some (Some (rev (map (path_node kmap) cs) @ nodes), st') \<and> ctable_ok st'
      \<and> parents st' = (\<lambda>k. if k \<in> set (c # cs) then Some [] else parents st k)"
proof (induction cs arbitrary: c nodes st)
  case Nil
  then have "parents st c = Some [0]" "c \<noteq> 0" by auto
  then obtain st' where "ctable_ok st'" "parents st' = (parents st)(c \<mapsto> butlast [0])"
    "climb kmap c nodes st = Some (Some nodes, st')"
    using climb_step[OF Nil.prems(1) assms, of c "[0]" nodes] by auto
  then show ?case by auto
next
  case (Cons d cs)
  then have "parents st c = Some [d]" "c \<noteq> 0" "d \<noteq> 0" by auto
  then obtain st1 where st1: "ctable_ok st1" "parents st1 = (parents st)(c \<mapsto> [])"
    "climb kmap c nodes st = climb kmap d (path_node kmap d # nodes) st1"
    using climb_step[OF Cons.prems(1) assms, of c "[d]" nodes] by auto
  have "up_chain (parents st1) d cs"
  proof -
    have "parents st k = parents st1 k" if "k \<in> insert d (set cs)" for k
      using Cons.prems(3) st1(2) that by auto
    then show ?thesis using Cons.prems(2) up_chain_cong[of d cs "parents st" "parents st1"] by simp
  qed
  then obtain st' where st': "climb kmap d (path_node kmap d # nodes) st1
      = Some (Some (rev (map (path_node kmap) cs) @ path_node kmap d # nodes), st')" "ctable_ok st'"
    "parents st' = (\<lambda>k. if k \<in> set (d # cs) then Some [] else parents st1 k)"
    using Cons.IH[OF st1(1), of d] Cons.prems(3,4) by auto
  have "parents st' = (\<lambda>k. if k \<in> set (c # d # cs) then Some [] else parents st k)"
    using st'(3) st1(2) by (auto simp: fun_eq_iff)
  then show ?case using st' st1(3) by auto
qed

lemma findRequirement_chain:
  assumes "rh_ok kmap" and "ctable_ok st" and "up_chain (parents st) sid cs" and "distinct (sid # cs)"
    and "0 \<notin> set (sid # cs)"
  shows "\<exists>st'. findRequirementForSID sid kmap st
        = Some (Some (map (path_node kmap) (rev (sid # cs)) @ [end_node]), st') \<and> ctable_ok st'
      \<and> parents st' = (\<lambda>k. if k \<in> set (sid # cs) then Some [] else parents st k)"
  using climb_chain[OF assms(1-5), of "[path_node kmap sid, end_node]"] prepend_sid_ok[OF assms(1)]
  by (auto simp: findRequirementForSID_def createPathNode_def end_node_def rev_map)

lemma findRequirement_used:
  assumes "rh_ok kmap" and "ctable_ok st" and "sid \<noteq> 0" and "parents st sid = Some []"
  shows "\<exists>st'. findRequirementForSID sid kmap st = Some (Some [path_node kmap sid, end_node], st')"
  using climb_step[OF assms(2,1,3,4), of "[path_node kmap sid, end_node]"] prepend_sid_ok[OF assms(1)]
  by (auto simp: findRequirementForSID_def createPathNode_def end_node_def)

section \<open>Following a path down\<close>

text \<open>The value below a value along the deltas of map keys.\<close>

fun follow :: "CoreconfValue \<Rightarrow> u64 list \<Rightarrow> CoreconfValue option" where
  "follow v [] = Some v"
| "follow v (d # ds) =
     (case v of
        CORECONF_HASHMAP hm \<Rightarrow> (case getCoreconfHashMap hm d of None \<Rightarrow> None | Some w \<Rightarrow> follow w ds)
      | _ \<Rightarrow> None)"

text \<open>The SIDs on the way, from the last one up.\<close>

fun climb_sids :: "u64 \<Rightarrow> u64 list \<Rightarrow> u64 list" where
  "climb_sids parent [] = []"
| "climb_sids parent (d # ds) = climb_sids (d + parent) ds @ [d + parent]"

text \<open>Maps that are well formed along the path.\<close>

fun maps_wf :: "CoreconfValue \<Rightarrow> u64 list \<Rightarrow> bool" where
  "maps_wf v [] \<longleftrightarrow> True"
| "maps_wf v (d # ds) \<longleftrightarrow>
     (case v of
        CORECONF_HASHMAP hm \<Rightarrow>
          hm_wf hm \<and> (case getCoreconfHashMap hm d of None \<Rightarrow> True | Some w \<Rightarrow> maps_wf w ds)
      | _ \<Rightarrow> True)"

lemma getCoreconfHashMap_object: "hm_wf hm \<Longrightarrow> getCoreconfHashMap hm d = Some w \<Longrightarrow> (d, w) \<in> set (hm_objects hm)"
  using map_of_hm_objects[of hm d] by (auto dest: map_of_SomeD)

lemma follow_edges:
  "follow v ds = Some w \<Longrightarrow> maps_wf v ds \<Longrightarrow> depth + length ds \<le> 51
    \<Longrightarrow> set (zip (climb_sids parent ds) (tl (climb_sids parent ds @ [parent]))) \<subseteq> set (sid_edges v parent depth)"
proof (induction ds arbitrary: v parent depth)
  case (Cons d ds)
  obtain hm u where v: "v = CORECONF_HASHMAP hm" "getCoreconfHashMap hm d = Some u" "follow u ds = Some w"
    using Cons.prems(1) by (auto split: CoreconfValue.splits option.splits)
  have wf: "hm_wf hm" "maps_wf u ds" using Cons.prems(2) v by auto
  have dep: "depth \<le> MAX_CORECONF_RECURSION_DEPTH" using Cons.prems(3) by (simp add: MAX_CORECONF_RECURSION_DEPTH_def)
  have obj: "(d, u) \<in> set (hm_objects hm)" by (rule getCoreconfHashMap_object[OF wf(1) v(2)])
  have IH: "set (zip (climb_sids (d + parent) ds) (tl (climb_sids (d + parent) ds @ [d + parent])))
      \<subseteq> set (sid_edges u (d + parent) (depth + 1))"
    using Cons.IH[OF v(3) wf(2), of "depth + 1" "d + parent"] Cons.prems(3) by simp
  define cs where "cs = climb_sids (d + parent) ds"
  have z: "zip (cs @ [d + parent]) (tl ((cs @ [d + parent]) @ [parent]))
      = zip cs (tl (cs @ [d + parent])) @ [(d + parent, parent)]"
  proof (cases cs)
    case (Cons a l)
    then show ?thesis
      using zip_append[of "a # l" "l @ [d + parent]" "[d + parent]" "[parent]"] by (simp del: zip_append)
  qed simp
  have "set (sid_edges u (d + parent) (depth + 1)) \<union> {(d + parent, parent)} \<subseteq> set (sid_edges v parent depth)"
    using obj unfolding v(1) sid_edges_map[OF dep] by force
  then show ?case using IH z by (auto simp: cs_def)
qed simp

lemma up_chain_zip:
  assumes "\<And>c p. (c, p) \<in> set (zip (c0 # cs) (cs @ [0])) \<Longrightarrow> f c = Some [p]"
  shows "up_chain f c0 cs"
  using assms by (induction cs arbitrary: c0) auto

text \<open>If every SID has one parent, and none is 0, then no SID comes twice on a path.\<close>

lemma chain_distinct:
  assumes "set (zip cs (tl (cs @ [0]))) \<subseteq> E" and "\<And>c p q. (c, p) \<in> E \<Longrightarrow> (c, q) \<in> E \<Longrightarrow> p = (q :: u64)"
    and "\<And>p. (0, p) \<notin> E"
  shows "distinct cs \<and> 0 \<notin> set cs"
proof -
  have up: "(cs ! i, (cs @ [0]) ! Suc i) \<in> E" if "i < length cs" for i
  proof -
    have "(cs ! i, tl (cs @ [0]) ! i) \<in> set (zip cs (tl (cs @ [0])))"
      using that by (auto simp: set_zip intro!: exI[of _ i])
    then show ?thesis using assms(1) that by (auto simp: nth_tl)
  qed
  have no0: "0 \<notin> set cs" using up assms(3) by (metis in_set_conv_nth)
  have ne: "cs ! i \<noteq> cs ! (i + Suc k)" if "i + Suc k < length cs" for i k
    using that
  proof (induction "length cs - (i + Suc k)" arbitrary: i rule: less_induct)
    case less
    show ?case
    proof
      assume eq: "cs ! i = cs ! (i + Suc k)"
      have "(cs @ [0]) ! Suc i = (cs @ [0]) ! Suc (i + Suc k)"
        using assms(2) up[of i] up[of "i + Suc k"] less.prems eq by auto
      then have e: "cs ! Suc i = (cs @ [0]) ! Suc (i + Suc k)" using less.prems by (simp add: nth_append)
      show False
      proof (cases "Suc i + Suc k < length cs")
        case True
        then have "cs ! Suc i \<noteq> cs ! (Suc i + Suc k)" by (intro less.hyps) linarith+
        then show ?thesis using e True by (simp add: nth_append)
      next
        case False
        then have "cs ! Suc i = 0" using e less.prems by (simp add: nth_append)
        then show ?thesis using no0 less.prems nth_mem[of "Suc i" cs] by auto
      qed
    qed
  qed
  have "distinct cs"
    unfolding distinct_conv_nth
  proof (intro allI impI)
    fix i j assume ij: "i < length cs" "j < length cs" "i \<noteq> j"
    then show "cs ! i \<noteq> cs ! j"
      using ne[of i "j - i - 1"] ne[of j "i - j - 1"] by (cases "i < j") auto
  qed
  then show ?thesis using no0 by blast
qed

text \<open>Without list keys, the examination of a path is following it.\<close>

lemma examine_follow:
  assumes "\<And>sid. keys_of kmap sid = None"
  shows "follow v ds = Some w \<Longrightarrow> 0 \<notin> set (climb_sids prev ds)
    \<Longrightarrow> examine_nodes qs (map (path_node kmap) (rev (climb_sids prev ds)) @ [end_node]) (Some v) prev rk
      = Inr (Some (Some w, sum_list ds + prev, rk))"
proof (induction ds arbitrary: v prev)
  case Nil
  then show ?case by (simp add: end_node_def)
next
  case (Cons d ds)
  obtain hm u where v: "v = CORECONF_HASHMAP hm" "getCoreconfHashMap hm d = Some u" "follow u ds = Some w"
    using Cons.prems(1) by (auto split: CoreconfValue.splits option.splits)
  have "d + prev \<noteq> 0" using Cons.prems(2) by auto
  then show ?case
    using Cons.IH[OF v(3), of "d + prev"] Cons.prems(2) v assms by (simp add: path_node_def Let_def add_ac)
qed

lemma first_places_single: "ps \<noteq> [] \<Longrightarrow> set ps = {p} \<Longrightarrow> first_places ps = [p]"
proof -
  assume "ps \<noteq> []" and "set ps = {p}"
  then have d: "distinct (remdups (rev ps))" "set (remdups (rev ps)) = {p}" by auto
  then have "length (remdups (rev ps)) = 1" using distinct_card[OF d(1)] by simp
  then obtain x where "remdups (rev ps) = [x]" by (auto simp: length_Suc_conv)
  then show ?thesis using d(2) by (simp add: first_places_def)
qed

lemma climb_sids_hd: "ds \<noteq> [] \<Longrightarrow> \<exists>cs. climb_sids parent ds = (sum_list ds + parent) # cs"
proof (induction ds arbitrary: parent)
  case (Cons d ds)
  show ?case
  proof (cases "ds = []")
    case False
    then obtain cs where "climb_sids (d + parent) ds = (sum_list ds + (d + parent)) # cs"
      using Cons.IH by blast
    moreover have "sum_list ds + (d + parent) = sum_list (d # ds) + parent" by (simp add: add_ac)
    ultimately show ?thesis by simp
  qed simp
qed simp

text \<open>The conditions on a datastore: every SID has one parent, none is 0, and the table holds them.\<close>

definition sids_unambiguous :: "CoreconfValue \<Rightarrow> bool" where
  "sids_unambiguous model \<longleftrightarrow>
     (let E = sid_edges model 0 0 in
      length E \<le> 19660 \<and> 0 \<notin> fst ` set E
      \<and> (\<forall>e\<in>set E. \<forall>e'\<in>set E. fst e = fst e' \<longrightarrow> snd e = snd e'))"

lemma built_chain:
  assumes t: "new_clookup_table alloc = Some t" "\<forall>k. alloc k"
    and u: "sids_unambiguous model" and ds: "follow model ds = Some w" "ds \<noteq> []" "length ds \<le> 51" "maps_wf model ds"
  shows "\<exists>st cs. buildCLookupHashmapFromCoreconf model 0 0 \<lparr>ctab = t, lists = []\<rparr> = Some st \<and> ctable_ok st
    \<and> climb_sids 0 ds = sum_list ds # cs \<and> up_chain (parents st) (sum_list ds) cs
    \<and> distinct (sum_list ds # cs) \<and> 0 \<notin> set (sum_list ds # cs)"
proof -
  define E where "E = sid_edges model 0 0"
  have fn: "p = q" if "(c, p) \<in> set E" "(c, q) \<in> set E" for c p q
    using u that by (force simp: sids_unambiguous_def Let_def E_def)
  have no0: "(0, p) \<notin> set E" for p using u by (force simp: sids_unambiguous_def Let_def E_def)
  have le: "length (sid_edges model 0 0) \<le> 19660" using u by (simp add: sids_unambiguous_def Let_def)
  obtain st where st: "buildCLookupHashmapFromCoreconf model 0 0 \<lparr>ctab = t, lists = []\<rparr> = Some st" "ctable_ok st"
    "\<forall>sid. parents st sid = (let ps = parents_in E sid in if ps = [] then None else Some (first_places ps))"
    using built_parents[OF t le] unfolding E_def by blast
  have par: "parents st c = Some [p]" if "(c, p) \<in> set E" for c p
  proof -
    have mem: "q \<in> set (parents_in E c) \<longleftrightarrow> (c, q) \<in> set E" for q by (force simp: parents_in_def)
    have "set (parents_in E c) = {p}" using that mem fn by blast
    then have "first_places (parents_in E c) = [p]" "parents_in E c \<noteq> []"
      using first_places_single[of "parents_in E c" p] by (cases "parents_in E c"; simp)+
    then show ?thesis using st(3) by (simp add: Let_def)
  qed
  obtain cs where cs: "climb_sids 0 ds = sum_list ds # cs" using climb_sids_hd[OF ds(2), of 0] by auto
  have sub: "set (zip (sum_list ds # cs) (tl ((sum_list ds # cs) @ [0]))) \<subseteq> set E"
    using follow_edges[OF ds(1,4), of 0 0] ds(3) unfolding cs E_def by simp
  have "up_chain (parents st) (sum_list ds) cs"
    by (rule up_chain_zip) (use sub par in auto)
  moreover have "distinct (sum_list ds # cs) \<and> 0 \<notin> set (sum_list ds # cs)"
    by (rule chain_distinct[OF sub fn no0])
  ultimately show ?thesis using st cs by blast
qed

section \<open>The choice of a list entry\<close>

text \<open>The leaves of an entry under the keys of its list.\<close>

definition entry_keys :: "u64 \<Rightarrow> CoreconfValue \<Rightarrow> u64 list \<Rightarrow> u64 list option" where
  "entry_keys parent element keys =
     (case element of
        CORECONF_HASHMAP hm \<Rightarrow>
          those (map (\<lambda>k. Option.bind (getCoreconfHashMap hm (k - parent)) getCoreconfValueAsUint64) keys)
      | _ \<Rightarrow> None)"

text \<open>The request keys are taken from the end, one for each key of the list.\<close>

definition wanted_keys :: "u64 list \<Rightarrow> DynamicLongList \<Rightarrow> u64 list" where
  "wanted_keys keys requestKeys = take (length keys) (rev requestKeys)"

lemma match_keys_ok:
  assumes "entry_keys parent element keys = Some vals" and "length keys \<le> length c" and "distinct keys" and "set keys \<inter> set m = {}"
  shows "match_keys parent element keys (Some c) m
    = Inr (Some (take (length c - length keys) c),
        m @ map fst (filter (\<lambda>(k, v, w). v = w) (zip keys (zip vals (rev c)))))"
  using assms
proof (induction keys arbitrary: vals c m)
  case Nil
  then show ?case by simp
next
  case (Cons k keys)
  obtain hm where hm: "element = CORECONF_HASHMAP hm"
    using Cons.prems(1) by (auto simp: entry_keys_def split: CoreconfValue.splits)
  obtain leaf v vals' where leaf: "getCoreconfHashMap hm (k - parent) = Some leaf" "getCoreconfValueAsUint64 leaf = Some v"
    "entry_keys parent element keys = Some vals'" "vals = v # vals'"
    using Cons.prems(1) hm by (auto simp: entry_keys_def Option.bind_eq_Some_conv split: option.splits)
  obtain c' w where c: "c = c' @ [w]" using Cons.prems(2) by (cases c rule: rev_cases) auto
  have "set keys \<inter> set (if v = w then addUniqueLong m k else m) = {}"
    using Cons.prems(3,4) by (auto simp: addUniqueLong_def)
  from Cons.IH[OF leaf(3) _ _ this] show ?case
    using Cons.prems(2-4) leaf hm c by (auto simp: popLong_def addUniqueLong_def)
qed

lemma matched_all:
  assumes "length vals = length keys" and "length ws = length keys" and "distinct keys"
  shows "mset (map fst (filter (\<lambda>(k, v, w). v = w) (zip keys (zip vals ws)))) = mset keys \<longleftrightarrow> vals = ws"
proof
  assume eq: "mset (map fst (filter (\<lambda>(k, v, w). v = w) (zip keys (zip vals ws)))) = mset keys"
  have "length (filter (\<lambda>(k, v, w). v = w) (zip keys (zip vals ws))) = length (zip keys (zip vals ws))"
    using arg_cong[OF eq, of size] assms unfolding size_mset length_map by simp
  then have "\<forall>x\<in>set (zip keys (zip vals ws)). (\<lambda>(k, v, w). v = w) x"
    by (metis length_filter_less less_irrefl)
  then have all: "(\<lambda>(k, v, w). v = w) (zip keys (zip vals ws) ! i)" if "i < length keys" for i
    using that assms nth_mem[of i "zip keys (zip vals ws)"] by auto
  show "vals = ws"
  proof (rule nth_equalityI)
    fix i assume "i < length vals"
    then show "vals ! i = ws ! i" using all[of i] assms by simp
  qed (use assms in simp)
next
  assume "vals = ws"
  then have "filter (\<lambda>(k, v, w). v = w) (zip keys (zip vals ws)) = zip keys (zip vals ws)"
    by (auto simp: filter_id_conv set_zip)
  then show "mset (map fst (filter (\<lambda>(k, v, w). v = w) (zip keys (zip vals ws)))) = mset keys"
    using assms by simp
qed

lemma zip_take_right: "zip xs ys = zip xs (take (length xs) ys)"
proof (induction xs arbitrary: ys)
  case (Cons x xs)
  then show ?case by (cases ys) auto
qed simp

text \<open>The first entry whose leaves are the wanted keys is chosen; the used keys are taken off the
  request, but not if there are no others.\<close>

lemma select_entry_first:
  assumes qs: "qsort_contract qs" and keys: "keys \<noteq> []" "distinct keys" "\<forall>k\<in>set keys. unat k < 2 ^ 31"
    and rk: "length keys \<le> length requestKeys"
  shows "(\<forall>e\<in>set elements. entry_keys parent e keys \<noteq> None)
    \<Longrightarrow> select_entry qs parent keys elements requestKeys
      = (case find (\<lambda>e. entry_keys parent e keys = Some (wanted_keys keys requestKeys)) elements of
           None \<Rightarrow> Inr (None, requestKeys)
         | Some e \<Rightarrow> Inr (Some e, if length requestKeys = length keys then requestKeys
                                else take (length requestKeys - length keys) requestKeys))"
proof (induction elements)
  case Nil
  then show ?case by simp
next
  case (Cons e es)
  obtain vals where vals: "entry_keys parent e keys = Some vals" using Cons.prems by auto
  have len: "length vals = length keys"
  proof -
    have "those xs = Some ys \<Longrightarrow> length ys = length xs" for xs :: "u64 option list" and ys
      by (induction xs arbitrary: ys) (auto split: option.splits)
    then show ?thesis using vals by (auto simp: entry_keys_def split: CoreconfValue.splits)
  qed
  define matched where "matched = map fst (filter (\<lambda>(k, v, w). v = w) (zip keys (zip vals (rev requestKeys))))"
  have z: "zip keys (zip vals (rev requestKeys)) = zip keys (zip vals (wanted_keys keys requestKeys))"
    unfolding wanted_keys_def using zip_take_right[of vals "rev requestKeys"] len by simp
  have clone: "cloneDynamicLongList (Some requestKeys) None = Some requestKeys"
    using rk keys(1) by (auto simp: cloneDynamicLongList_def initializeDynamicLongList_def)
  have m: "match_keys parent e keys (Some requestKeys) initializeDynamicLongList
      = Inr (Some (take (length requestKeys - length keys) requestKeys), matched)"
    using match_keys_ok[OF vals rk keys(2), of "[]"] by (simp add: matched_def initializeDynamicLongList_def)
  have "set matched \<subseteq> set keys" by (auto simp: matched_def dest: set_zip_leftD)
  then have "compareDynamicLongList qs keys matched \<longleftrightarrow> mset keys = mset matched"
    using compareDynamicLongList_mset[OF qs, of keys matched] keys by auto
  also have "\<dots> \<longleftrightarrow> vals = wanted_keys keys requestKeys"
    using matched_all[OF len _ keys(2), of "wanted_keys keys requestKeys"] rk
    unfolding matched_def z by (auto simp: wanted_keys_def)
  finally have cmp: "compareDynamicLongList qs keys matched \<longleftrightarrow> vals = wanted_keys keys requestKeys" .
  show ?case
    using Cons clone m cmp vals rk by (auto simp: cloneDynamicLongList_def initializeDynamicLongList_def)
qed

section \<open>A small datastore\<close>

text \<open>The datastore \<open>{1000: {+5: 7}}\<close>.\<close>

definition sample_inner :: CoreconfValue where
  "sample_inner = CORECONF_HASHMAP (snd (insertCoreconfHashMap empty_hashmap 5 (CORECONF_UINT_64 7)))"

definition sample_model :: CoreconfValue where
  "sample_model = CORECONF_HASHMAP (snd (insertCoreconfHashMap empty_hashmap 1000 sample_inner))"

lemma insert_first:
  "getCoreconfHashMap (snd (insertCoreconfHashMap empty_hashmap k v)) = [k \<mapsto> v]
    \<and> hm_wf (snd (insertCoreconfHashMap empty_hashmap k v))"
  using hm.lkp_ins_room[OF hm.inv_emp, of k v] hm.inv_ins[OF hm.inv_emp, of k v] by (simp add: hm.lkp_emp)

lemma sample_path:
  "follow sample_model [1000, 5] = Some (CORECONF_UINT_64 7) \<and> maps_wf sample_model [1000, 5]"
  by (simp add: sample_model_def sample_inner_def insert_first)

lemma sample_edges: "sid_edges sample_model 0 0 = [(1000, 0), (1005, 1000)]"
  by code_simp

lemma sample_unambiguous: "sids_unambiguous sample_model"
  by (simp add: sids_unambiguous_def sample_edges)

lemma new_tables: "\<exists>t. new_clookup_table (\<lambda>_. True) = Some t" "\<exists>t. new_keymapping_table (\<lambda>_. True) = Some t"
  by (simp_all add: new_clookup_table_def new_keymapping_table_def hashmap_new_def
      hashmap_new_with_allocator_def Let_def)

section \<open>Properties\<close>

text \<open>
  C39. Building the parent table of a datastore returns, and afterwards the table gives for every SID the SIDs above
  it, each once, in the order in which the traversal meets them, and nothing for a SID that is not in the datastore.
\<close>

theorem parent_table_spec:
  assumes "new_clookup_table alloc = Some t" and "\<forall>k. alloc k" and "length (sid_edges v parent 0) \<le> 19660"
  shows "\<exists>st. buildCLookupHashmapFromCoreconf v parent 0 \<lparr>ctab = t, lists = []\<rparr> = Some st
    \<and> (\<forall>sid. \<exists>c. hashmap_get (ctab st) (clookup_key sid) = Some c
        \<and> map_option (\<lambda>c. lists st ! dynamicLongList c) c
          = (let ps = parents_in (sid_edges v parent 0) sid in if ps = [] then None else Some (first_places ps)))"
proof -
  obtain st where st: "buildCLookupHashmapFromCoreconf v parent 0 \<lparr>ctab = t, lists = []\<rparr> = Some st" "ctable_ok st"
    "\<forall>sid. parents st sid = (let ps = parents_in (sid_edges v parent 0) sid
                                in if ps = [] then None else Some (first_places ps))"
    using built_parents[OF assms] by blast
  then have "hashmap_get (ctab st) (clookup_key sid) = Some (rh_lookup (ctab st) (clookup_key sid))" for sid
    by (simp add: ctable_ok_def rh.get_law)
  then show ?thesis using st(1,3) unfolding parents_def by blast
qed

theorem parent_table_spec_witness:
  "\<exists>t st c. new_clookup_table (\<lambda>_. True) = Some t
    \<and> buildCLookupHashmapFromCoreconf sample_model 0 0 \<lparr>ctab = t, lists = []\<rparr> = Some st
    \<and> hashmap_get (ctab st) (clookup_key 1005) = Some (Some c) \<and> lists st ! dynamicLongList c = [1000]"
proof -
  obtain t where t: "new_clookup_table (\<lambda>_. True) = Some t" using new_tables by blast
  have "first_places [1000 :: u64] = [1000]" by (simp add: first_places_def)
  then have p: "(let ps = parents_in (sid_edges sample_model 0 0) 1005 in if ps = [] then None else Some (first_places ps))
      = Some [1000]" by (simp add: sample_edges parents_in_def)
  have "length (sid_edges sample_model 0 0) \<le> 19660" by (simp add: sample_edges)
  from parent_table_spec[OF t _ this]
  obtain st where st: "buildCLookupHashmapFromCoreconf sample_model 0 0 \<lparr>ctab = t, lists = []\<rparr> = Some st"
    "\<forall>sid. \<exists>c. hashmap_get (ctab st) (clookup_key sid) = Some c
        \<and> map_option (\<lambda>c. lists st ! dynamicLongList c) c
          = (let ps = parents_in (sid_edges sample_model 0 0) sid in if ps = [] then None else Some (first_places ps))"
    by blast
  obtain c where "hashmap_get (ctab st) (clookup_key 1005) = Some c"
    "map_option (\<lambda>c. lists st ! dynamicLongList c) c = Some [1000]"
    using st(2)[rule_format, of 1005] unfolding p by blast
  then show ?thesis using t st(1) by auto
qed

text \<open>
  C16. The query of a SID: build the parent table of a datastore in which every SID has one parent, look for the path,
  examine it. Each step returns, and the result is the map of that SID to the value it has in the datastore.
\<close>

theorem sid_query:
  assumes "new_clookup_table alloc = Some t" and "new_keymapping_table alloc = Some kmap" and "\<forall>k. alloc k"
    and "sids_unambiguous model" and "follow model ds = Some w" and "ds \<noteq> []" and "length ds \<le> 51" and "maps_wf model ds"
  shows "\<exists>st nodes st' res. buildCLookupHashmapFromCoreconf model 0 0 \<lparr>ctab = t, lists = []\<rparr> = Some st
    \<and> findRequirementForSID (sum_list ds) kmap st = Some (Some nodes, st')
    \<and> examineCoreconfValue qs (Some model) requestKeys (Some nodes) = Inr (Some (res, requestKeys))
    \<and> getCoreconfHashMap res = [sum_list ds \<mapsto> Some w]"
proof -
  obtain st cs where st: "buildCLookupHashmapFromCoreconf model 0 0 \<lparr>ctab = t, lists = []\<rparr> = Some st" "ctable_ok st"
    "climb_sids 0 ds = sum_list ds # cs" "up_chain (parents st) (sum_list ds) cs"
    "distinct (sum_list ds # cs)" "0 \<notin> set (sum_list ds # cs)"
    using built_chain[OF assms(1,3,4,5,6,7,8)] by blast
  note km = new_keymapping_ok[OF assms(2,3)]
  have nk: "keys_of kmap sid = None" for sid using km by (simp add: keys_of_def rh_lookup_empty)
  obtain st' where f: "findRequirementForSID (sum_list ds) kmap st
      = Some (Some (map (path_node kmap) (rev (climb_sids 0 ds)) @ [end_node]), st')"
    using findRequirement_chain[OF _ st(2,4,5,6), of kmap] km st(3) by auto
  define res :: "CoreconfValue option CoreconfHashMap" where
    "res = snd (insertCoreconfHashMap empty_hashmap (sum_list ds) (Some w))"
  have "getCoreconfHashMap res = [sum_list ds \<mapsto> Some w]"
    using hm.lkp_ins_room[OF hm.inv_emp, of "sum_list ds" "Some w"] by (simp add: res_def hm.lkp_emp)
  moreover have "examineCoreconfValue qs (Some model) requestKeys (Some (map (path_node kmap) (rev (climb_sids 0 ds)) @ [end_node]))
      = Inr (Some (res, requestKeys))"
    using examine_follow[OF nk assms(5), of 0 qs requestKeys] st(3,6) by (simp add: examineCoreconfValue_def res_def)
  ultimately show ?thesis using st(1) f by blast
qed

theorem sid_query_witness:
  "\<exists>t kmap st nodes st' res. new_clookup_table (\<lambda>_. True) = Some t \<and> new_keymapping_table (\<lambda>_. True) = Some kmap
    \<and> buildCLookupHashmapFromCoreconf sample_model 0 0 \<lparr>ctab = t, lists = []\<rparr> = Some st
    \<and> findRequirementForSID 1005 kmap st = Some (Some nodes, st')
    \<and> examineCoreconfValue insertion_qsort (Some sample_model) [] (Some nodes) = Inr (Some (res, []))
    \<and> getCoreconfHashMap res = [1005 \<mapsto> Some (CORECONF_UINT_64 7)]"
proof -
  obtain t kmap where t: "new_clookup_table (\<lambda>_. True) = Some t" "new_keymapping_table (\<lambda>_. True) = Some kmap"
    using new_tables by blast
  have "sum_list [1000, 5 :: u64] = 1005" by simp
  then show ?thesis
    using sid_query[OF t, of sample_model "[1000, 5]" "CORECONF_UINT_64 7" insertion_qsort "[]"]
      sample_unambiguous sample_path t by auto
qed

text \<open>
  C38. The search for a path empties the parent lists on it: the second query of the same SID finds a path without
  the SIDs above it, as if the SID were a root of the datastore.
\<close>

theorem second_query_loses_path:
  assumes "new_clookup_table alloc = Some t" and "new_keymapping_table alloc = Some kmap" and "\<forall>k. alloc k"
    and "sids_unambiguous model" and "follow model ds = Some w" and "2 \<le> length ds" and "length ds \<le> 51" and "maps_wf model ds"
  shows "\<exists>st nodes st' st''. buildCLookupHashmapFromCoreconf model 0 0 \<lparr>ctab = t, lists = []\<rparr> = Some st
    \<and> findRequirementForSID (sum_list ds) kmap st = Some (Some nodes, st') \<and> length nodes = length ds + 1
    \<and> findRequirementForSID (sum_list ds) kmap st' = Some (Some [last (butlast nodes), last nodes], st'')"
proof -
  have ne: "ds \<noteq> []" using assms(6) by auto
  obtain st cs where st: "buildCLookupHashmapFromCoreconf model 0 0 \<lparr>ctab = t, lists = []\<rparr> = Some st" "ctable_ok st"
    "climb_sids 0 ds = sum_list ds # cs" "up_chain (parents st) (sum_list ds) cs"
    "distinct (sum_list ds # cs)" "0 \<notin> set (sum_list ds # cs)"
    using built_chain[OF assms(1,3,4,5) ne assms(7,8)] by blast
  have km: "rh_ok kmap" using new_keymapping_ok[OF assms(2,3)] by simp
  obtain st' where f: "findRequirementForSID (sum_list ds) kmap st
      = Some (Some (map (path_node kmap) (rev (sum_list ds # cs)) @ [end_node]), st')" "ctable_ok st'"
    "parents st' = (\<lambda>k. if k \<in> set (sum_list ds # cs) then Some [] else parents st k)"
    using findRequirement_chain[OF km st(2,4,5,6)] by blast
  obtain st'' where "findRequirementForSID (sum_list ds) kmap st'
      = Some (Some [path_node kmap (sum_list ds), end_node], st'')"
    using findRequirement_used[OF km f(2), of "sum_list ds"] f(3) st(6) by auto
  moreover have "length (climb_sids p xs) = length xs" for p xs by (induction xs arbitrary: p) auto
  then have "Suc (length cs) = length ds" using st(3) by (metis length_Cons)
  moreover define nodes where "nodes = map (path_node kmap) (rev (sum_list ds # cs)) @ [end_node]"
  moreover have "last (butlast nodes) = path_node kmap (sum_list ds)" "last nodes = end_node"
    by (simp_all add: nodes_def butlast_append)
  ultimately have "length nodes = length ds + 1"
    "findRequirementForSID (sum_list ds) kmap st' = Some (Some [last (butlast nodes), last nodes], st'')" by auto
  then show ?thesis using st(1) f(1) unfolding nodes_def by blast
qed

theorem second_query_loses_path_witness:
  "\<exists>t kmap st nodes st' st''. new_clookup_table (\<lambda>_. True) = Some t \<and> new_keymapping_table (\<lambda>_. True) = Some kmap
    \<and> buildCLookupHashmapFromCoreconf sample_model 0 0 \<lparr>ctab = t, lists = []\<rparr> = Some st
    \<and> findRequirementForSID 1005 kmap st = Some (Some nodes, st') \<and> length nodes = 3
    \<and> findRequirementForSID 1005 kmap st' = Some (Some [last (butlast nodes), last nodes], st'')"
proof -
  obtain t kmap where t: "new_clookup_table (\<lambda>_. True) = Some t" "new_keymapping_table (\<lambda>_. True) = Some kmap"
    using new_tables by blast
  have "sum_list [1000, 5 :: u64] = 1005" by simp
  then show ?thesis
    using second_query_loses_path[OF t, of sample_model "[1000, 5]" "CORECONF_UINT_64 7"]
      sample_unambiguous sample_path t by auto
qed

text \<open>The search for a path returns on every table and every SID: a cycle of parents is consumed by it.\<close>

lemma path_search_returns:
  assumes "ctable_ok st" and "rh_ok kmap"
  shows "\<exists>r st'. findRequirementForSID sid kmap st = Some (r, st') \<and> ctable_ok st'"
  using climb_returns[OF assms(2,1)] prepend_sid_ok[OF assms(2)] by (simp add: findRequirementForSID_def)

lemma path_search_returns_witness:
  "\<exists>t kmap r st'. new_clookup_table (\<lambda>_. True) = Some t \<and> new_keymapping_table (\<lambda>_. True) = Some kmap
    \<and> findRequirementForSID 1005 kmap \<lparr>ctab = t, lists = []\<rparr> = Some (r, st')"
proof -
  obtain t kmap where t: "new_clookup_table (\<lambda>_. True) = Some t" "new_keymapping_table (\<lambda>_. True) = Some kmap"
    using new_tables by blast
  then have "ctable_ok \<lparr>ctab = t, lists = []\<rparr>" "rh_ok kmap"
    using new_clookup_ok[OF t(1)] new_keymapping_ok[OF t(2)] by auto
  from path_search_returns[OF this, of 1005] show ?thesis using t by blast
qed

text \<open>
  C40. In a list with keys the first entry is chosen whose leaves under the keys are the last request keys, read
  backwards; these are then taken off the request, unless it has no others.
\<close>

theorem list_entry_choice:
  assumes "qsort_contract qs" and "keys \<noteq> []" and "distinct keys" and "\<forall>k\<in>set keys. unat k < 2 ^ 31"
    and "length keys \<le> length requestKeys" and "\<forall>e\<in>set elements. entry_keys parent e keys \<noteq> None"
  shows "select_entry qs parent keys elements requestKeys
      = (case find (\<lambda>e. entry_keys parent e keys = Some (wanted_keys keys requestKeys)) elements of
           None \<Rightarrow> Inr (None, requestKeys)
         | Some e \<Rightarrow> Inr (Some e, if length requestKeys = length keys then requestKeys
                                else take (length requestKeys - length keys) requestKeys))"
  by (rule select_entry_first[OF assms])

theorem list_entry_choice_witness:
  "select_entry insertion_qsort 1000 [1005] [sample_inner] [7] = Inr (Some sample_inner, [7])"
proof -
  have "entry_keys 1000 sample_inner [1005] = Some [7]"
    by (simp add: entry_keys_def sample_inner_def insert_first)
  then show ?thesis
    using list_entry_choice[OF insertion_qsort_contract, of "[1005]" "[7]" "[sample_inner]" 1000]
    by (simp add: wanted_keys_def)
qed

end
