(* ===== verification/Key_Mapping.thy ===== *)
theory Key_Mapping
  imports Manipulation Get_Put
begin

text \<open>
  The key mapping of a module, the table from the SID of a list to the SIDs of its keys, as
  \<open>src/src/serialization.c\<close> writes it to CBOR and reads it (\<open>keyMappingHashMapToCBOR\<close>,
  \<open>cborToKeyMappingHashMap\<close>): a map from SIDs to lists of SIDs. Both loops of the reader count in one
  counter that stops them at \<open>CORECONF_MAX_LOOP\<close>, so that no fuel is needed. Memory for the new table
  does not run out.
\<close>

section \<open>Writing\<close>

definition keyMappingToCBOR :: "KeyMapping \<Rightarrow> zcbor \<Rightarrow> bool \<times> zcbor" where
  "keyMappingToCBOR km s =
     (let array_size = of_nat (length (km_list km)) in
      case zcbor_uint64_put s (km_key km) of
        (False, s) \<Rightarrow> (False, s)
      | (True, s) \<Rightarrow>
          (case zcbor_list_start_encode s array_size of
             (False, s) \<Rightarrow> (False, s)
           | (True, s) \<Rightarrow>
               (case encode_each (\<lambda>sidKey s. zcbor_uint64_put s sidKey) (km_list km) s of
                  (False, s) \<Rightarrow> (False, s)
                | (True, s) \<Rightarrow> zcbor_list_end_encode s array_size)))"

text \<open>The loop over the items, with the iteration state \<open>iter\<close>.\<close>

function keyMappings_loop :: "KeyMapping hashmap \<Rightarrow> nat \<Rightarrow> zcbor \<Rightarrow> bool \<times> zcbor" where
  "keyMappings_loop m iter s =
     (case hashmap_iter m iter of
        None \<Rightarrow> (True, s)
      | Some (keyMapping, iter) \<Rightarrow>
          (case keyMappingToCBOR keyMapping s of
             (False, s) \<Rightarrow> (False, s)
           | (True, s) \<Rightarrow> keyMappings_loop m iter s))"
  by auto
termination
  by (relation "measure (\<lambda>(m, iter, s). nbuckets m - iter)") (auto dest!: hashmap_iter_next)

declare keyMappings_loop.simps [simp del]

definition keyMappingHashMapToCBOR :: "KeyMapping hashmap \<Rightarrow> zcbor \<Rightarrow> bool \<times> zcbor" where
  "keyMappingHashMapToCBOR m s =
     (let map_size = of_nat (hashmap_count m) in
      case zcbor_map_start_encode s map_size of
        (False, s) \<Rightarrow> (False, s)
      | (True, s) \<Rightarrow>
          (case keyMappings_loop m 0 s of
             (False, s) \<Rightarrow> (False, s)
           | (True, s) \<Rightarrow> zcbor_map_end_encode s map_size))"

section \<open>Reading\<close>

text \<open>The inner loop, over the SIDs of one list.\<close>

function key_sids_loop :: "zcbor \<Rightarrow> DynamicLongList \<Rightarrow> nat \<Rightarrow> (DynamicLongList \<times> nat) option \<times> zcbor" where
  "key_sids_loop s l loopCounter =
     (if zcbor_array_at_end s then (Some (l, loopCounter), s)
      else if loopCounter > CORECONF_MAX_LOOP then (None, s)
      else case zcbor_uint64_decode s of
             (None, s) \<Rightarrow> (None, s)
           | (Some sidKey, s) \<Rightarrow> key_sids_loop s (l @ [sidKey]) (loopCounter + 1))"
  by auto
termination by (relation "measure (\<lambda>(s, l, loopCounter). 51 - loopCounter)") (auto simp: CORECONF_MAX_LOOP_def)

declare key_sids_loop.simps [simp del]

lemma key_sids_loop_counter: "key_sids_loop s l n = (Some (l', n'), s') \<Longrightarrow> n \<le> n'"
proof (induction s l n rule: key_sids_loop.induct)
  case (1 s l n)
  have "key_sids_loop s l n = (Some (l', n'), s')" by (rule "1.prems")
  then show ?case
    using "1.IH" unfolding key_sids_loop.simps[of s l n]
    by (fastforce split: if_splits option.splits prod.splits)
qed

text \<open>The outer loop; \<open>None\<close> inside is the NULL result, and an insertion may not return.\<close>

function key_mappings_loop ::
  "zcbor \<Rightarrow> KeyMapping hashmap \<Rightarrow> nat \<Rightarrow> (KeyMapping hashmap option \<times> zcbor) option" where
  "key_mappings_loop s m loopCounter =
     (if zcbor_array_at_end s then Some (Some m, s)
      else if loopCounter > CORECONF_MAX_LOOP then Some (None, s)
      else case zcbor_uint64_decode s of
             (None, s) \<Rightarrow> Some (None, s)
           | (Some key, s) \<Rightarrow>
               (case zcbor_list_start_decode s of
                  (False, s) \<Rightarrow> Some (None, s)
                | (True, s) \<Rightarrow>
                    (case key_sids_loop s initializeDynamicLongList loopCounter of
                       (None, s) \<Rightarrow> Some (None, s)
                     | (Some (l, n), s) \<Rightarrow>
                         (case zcbor_list_end_decode s of
                            (False, s) \<Rightarrow> Some (None, s)
                          | (True, s) \<Rightarrow>
                              (case hashmap_set m \<lparr>km_key = key, km_list = l\<rparr> of
                                 None \<Rightarrow> None
                               | Some (_, m) \<Rightarrow> key_mappings_loop s m (n + 1))))))"
  by auto
termination
  by (relation "measure (\<lambda>(s, m, loopCounter). 51 - loopCounter)")
    (auto simp: CORECONF_MAX_LOOP_def dest!: sym[of "(Some _, _)" "key_sids_loop _ _ _"] key_sids_loop_counter)

declare key_mappings_loop.simps [simp del]

definition cborToKeyMappingHashMap :: "zcbor \<Rightarrow> (KeyMapping hashmap option \<times> zcbor) option" where
  "cborToKeyMappingHashMap s =
     (case new_keymapping_table (\<lambda>_. True) of
        None \<Rightarrow> Some (None, s)
      | Some m \<Rightarrow>
          (case zcbor_map_start_decode s of
             (False, s) \<Rightarrow> Some (None, s)
           | (True, s) \<Rightarrow>
               (case key_mappings_loop s m 0 of
                  None \<Rightarrow> None
                | Some (None, s) \<Rightarrow> Some (None, s)
                | Some (Some m, s) \<Rightarrow>
                    (case zcbor_map_end_decode s of
                       (False, s) \<Rightarrow> Some (None, s)
                     | (True, s) \<Rightarrow> Some (Some m, s)))))"

section \<open>The bytes\<close>

definition cbor_key_mapping :: "KeyMapping \<Rightarrow> bytes" where
  "cbor_key_mapping km =
     cbor_head ZCBOR_MAJOR_TYPE_PINT (km_key km)
       @ [0x9F] @ concat (map (cbor_head ZCBOR_MAJOR_TYPE_PINT) (km_list km)) @ [0xFF]"

definition cbor_key_mappings :: "KeyMapping list \<Rightarrow> bytes" where
  "cbor_key_mappings kms = [0xBF] @ concat (map cbor_key_mapping kms) @ [0xFF]"

lemma keyMappingToCBOR_writes: "writes (keyMappingToCBOR km) (cbor_key_mapping km)"
proof -
  have "writes (\<lambda>s. keyMappingToCBOR km s) (cbor_key_mapping km)"
    unfolding keyMappingToCBOR_def cbor_key_mapping_def Let_def
    by (intro writes_seq writes_each writes_intros)
  then show ?thesis by simp
qed

lemma keyMappings_loop_each: "keyMappings_loop m i s = encode_each keyMappingToCBOR (iterate m i) s"
proof (induction m i s rule: keyMappings_loop.induct)
  case (1 m i s)
  show ?case
  proof (cases "hashmap_iter m i")
    case None
    then show ?thesis by (subst keyMappings_loop.simps, subst iterate.simps) simp
  next
    case (Some p)
    obtain km j where p: "p = (km, j)" by (cases p)
    obtain ok s1 where e: "keyMappingToCBOR km s = (ok, s1)" by (cases "keyMappingToCBOR km s")
    have "keyMappings_loop m i s = (if ok then keyMappings_loop m j s1 else (False, s1))"
      using Some p e by (subst keyMappings_loop.simps) simp
    moreover have "ok \<Longrightarrow> keyMappings_loop m j s1 = encode_each keyMappingToCBOR (iterate m j) s1"
      using "1.IH" Some p e by auto
    moreover have "iterate m i = km # iterate m j" using Some p by (subst iterate.simps) simp
    ultimately show ?thesis using e by (cases ok) auto
  qed
qed

lemma keyMappingHashMapToCBOR_writes:
  assumes "rh_ok m"
  shows "writes (keyMappingHashMapToCBOR m) (cbor_key_mappings (rh_items m))"
proof -
  have "writes (\<lambda>s. keyMappings_loop m 0 s) (concat (map cbor_key_mapping (rh_items m)))"
    unfolding keyMappings_loop_each iterate_items[OF assms]
    by (rule writes_each) (rule keyMappingToCBOR_writes)
  then have "writes (\<lambda>s. keyMappingHashMapToCBOR m s) (cbor_key_mappings (rh_items m))"
    unfolding keyMappingHashMapToCBOR_def cbor_key_mappings_def Let_def
    by (intro writes_seq writes_intros)
  then show ?thesis by simp
qed

section \<open>Reading the bytes\<close>

lemma key_sids_loop_coming:
  "coming s (concat (map (cbor_head ZCBOR_MAJOR_TYPE_PINT) xs) @ [0xFF]) \<Longrightarrow> length xs < unat (elem_count s)
    \<Longrightarrow> indefinite_length_array s \<Longrightarrow> \<not> enforce_canonical s \<Longrightarrow> n + length xs \<le> Suc CORECONF_MAX_LOOP
    \<Longrightarrow> \<exists>s' k. key_sids_loop s l n = (Some (l @ xs, n + length xs), s')
      \<and> consumed (length (concat (map (cbor_head ZCBOR_MAJOR_TYPE_PINT) xs))) k s s' \<and> coming s' [0xFF]"
proof (induction xs arbitrary: s l n)
  case Nil
  then show ?case
    using array_at_end_break[of s] by (subst key_sids_loop.simps) (auto intro: exI[of _ 0])
next
  case (Cons x xs)
  let ?head = "cbor_head ZCBOR_MAJOR_TYPE_PINT x" let ?body = "concat (map (cbor_head ZCBOR_MAJOR_TYPE_PINT) xs)"
  have com: "coming s (?head @ ?body @ [0xFF])" using Cons.prems(1) by simp
  obtain b bs where b: "?head = b # bs" by (cases ?head) auto
  have notend: "\<not> zcbor_array_at_end s"
    using array_not_at_end[of s b bs] Cons.prems(3) coming_appendD[OF com] b cbor_head_no_break[OF b] by simp
  have ne: "elem_count s \<noteq> 0" using Cons.prems(2) by auto
  let ?s0 = "advance s (length ?head)"
  have key: "zcbor_uint64_decode s = (Some x, ?s0)"
    by (rule uint64_decode_head[OF coming_appendD[OF com] ne Cons.prems(4)])
  have com0: "coming ?s0 (?body @ [0xFF])" by (rule coming_consumed[OF com consumed_advance])
  have "\<exists>s' k. key_sids_loop ?s0 (l @ [x]) (n + 1) = (Some ((l @ [x]) @ xs, (n + 1) + length xs), s')
      \<and> consumed (length ?body) k ?s0 s' \<and> coming s' [0xFF]"
    by (rule Cons.IH[OF com0]) (use Cons.prems unat_dec[OF ne] in auto)
  then obtain s' k where s': "key_sids_loop ?s0 (l @ [x]) (n + 1) = (Some ((l @ [x]) @ xs, (n + 1) + length xs), s')"
    "consumed (length ?body) k ?s0 s'" "coming s' [0xFF]" by blast
  have "\<not> n > CORECONF_MAX_LOOP" using Cons.prems(5) by simp
  then have "key_sids_loop s l n = (Some (l @ x # xs, n + length (x # xs)), s')"
    using notend key s'(1) by (subst key_sids_loop.simps) simp
  then show ?case using consumed_trans[OF consumed_advance s'(2)] s'(3) by (auto simp del: One_nat_def)
qed

text \<open>The table after reading a list of key mappings.\<close>

definition km_update :: "KeyMapping \<Rightarrow> (KeyMapping \<Rightarrow> KeyMapping option) \<Rightarrow> KeyMapping \<Rightarrow> KeyMapping option" where
  "km_update km f = (\<lambda>x. if km_key x = km_key km then Some km else f x)"

definition km_count :: "KeyMapping list \<Rightarrow> nat" where
  "km_count kms = sum_list (map (\<lambda>km. Suc (length (km_list km))) kms)"

lemma key_mappings_loop_coming:
  "coming s (concat (map cbor_key_mapping kms) @ [0xFF]) \<Longrightarrow> 2 * length kms < unat (elem_count s)
    \<Longrightarrow> indefinite_length_array s \<Longrightarrow> \<not> enforce_canonical s \<Longrightarrow> length (backup_list s) < num_backups s
    \<Longrightarrow> n + km_count kms \<le> Suc CORECONF_MAX_LOOP
    \<Longrightarrow> rh_ok m \<Longrightarrow> rh_roomy m (length kms) \<Longrightarrow> same_key m = keyMappingCompare
    \<Longrightarrow> \<exists>s' k m'. key_mappings_loop s m n = Some (Some m', s') \<and> rh_ok m' \<and> same_key m' = keyMappingCompare
      \<and> rh_lookup m' = fold km_update kms (rh_lookup m)
      \<and> consumed (length (concat (map cbor_key_mapping kms))) k s s' \<and> coming s' [0xFF]"
proof (induction kms arbitrary: s m n)
  case Nil
  then show ?case
    using array_at_end_break[of s] by (subst key_mappings_loop.simps) (auto intro: exI[of _ 0])
next
  case (Cons km kms)
  let ?head = "cbor_head ZCBOR_MAJOR_TYPE_PINT (km_key km)"
  let ?sids = "concat (map (cbor_head ZCBOR_MAJOR_TYPE_PINT) (km_list km))"
  let ?rest = "concat (map cbor_key_mapping kms) @ [0xFF]"
  have com: "coming s (?head @ [0x9F] @ ?sids @ [0xFF] @ ?rest)"
    using Cons.prems(1) by (simp add: cbor_key_mapping_def[of km])
  obtain b bs where b: "?head = b # bs" by (cases ?head) auto
  have notend: "\<not> zcbor_array_at_end s"
    using array_not_at_end[of s b bs] Cons.prems(3) coming_appendD[OF com] b cbor_head_no_break[OF b] by simp
  have ne: "elem_count s \<noteq> 0" using Cons.prems(2) by auto
  let ?s0 = "advance s (length ?head)"
  have key: "zcbor_uint64_decode s = (Some (km_key km), ?s0)"
    by (rule uint64_decode_head[OF coming_appendD[OF com] ne Cons.prems(4)])
  have com0: "coming ?s0 ([0x9F] @ (?sids @ [0xFF] @ ?rest))" by (rule coming_consumed[OF com consumed_advance])
  have ne0: "elem_count ?s0 \<noteq> 0" using Cons.prems(2) unat_dec[OF ne] by auto
  obtain s1 where s1: "zcbor_list_start_decode ?s0 = (True, s1)" "opened ?s0 s1"
    by (rule list_start_coming[OF coming_appendD[OF com0] ne0]) (use Cons.prems in auto)
  have com1: "coming s1 ((?sids @ [0xFF]) @ ?rest)" using coming_opened[of ?s0 _ _ s1] com0 s1(2) by simp
  have o1: "indefinite_length_array s1" "\<not> enforce_canonical s1" "elem_count s1 = ZCBOR_LARGE_ELEM_COUNT"
    using s1(2) Cons.prems(4) by (auto simp: opened_def)
  have cnt: "n + 1 + length (km_list km) + km_count kms \<le> Suc CORECONF_MAX_LOOP"
    using Cons.prems(6) by (simp add: km_count_def)
  obtain s2 k2 where s2: "key_sids_loop s1 [] n = (Some (km_list km, n + length (km_list km)), s2)"
    "consumed (length ?sids) k2 s1 s2" "coming s2 [0xFF]"
    using key_sids_loop_coming[OF coming_appendD[OF com1], of n "[]"] o1 cnt
    by (auto simp: CORECONF_MAX_LOOP_def)
  obtain s3 where s3: "list_map_end_decode s2 = (True, s3)" "consumed (length ?sids + 2) 1 ?s0 s3"
    by (rule list_map_end_coming[OF s1(2) s2(2,3)]) (use Cons.prems in auto)
  have bytes: "length (cbor_key_mapping km) = length ?head + (length ?sids + 2)"
    by (simp add: cbor_key_mapping_def)
  have all: "consumed (length (cbor_key_mapping km)) (1 + 1) s s3"
    unfolding bytes by (rule consumed_trans[OF consumed_advance s3(2)])
  note f = consumedD[OF all]
  have com3: "coming s3 ?rest"
    using coming_consumed[of s "cbor_key_mapping km" ?rest] all Cons.prems(1) by simp
  have room: "rh_roomy m (Suc (length kms))" using Cons.prems(8) by simp
  obtain m1 where m1: "hashmap_set m km = Some (rh_lookup m km, m1)" "rh_ok m1" "rh_roomy m1 (length kms)"
    "same_key m1 = same_key m" "\<forall>k. rh_lookup m1 k = (if same_key m k km then Some km else rh_lookup m k)"
    using rh.put_law[OF Cons.prems(7) room, of km] by blast
  have upd: "rh_lookup m1 = km_update km (rh_lookup m)"
    using m1(5) Cons.prems(9) by (simp add: km_update_def fun_eq_iff keyMappingCompare_def)
  have "unat (elem_count s3) = unat (elem_count s) - 2"
    using consumedD(4)[OF s3(2)] unat_dec[OF ne] unat_dec[OF ne0] by simp
  then have "\<exists>s' k m'. key_mappings_loop s3 m1 (n + length (km_list km) + 1) = Some (Some m', s') \<and> rh_ok m'
      \<and> same_key m' = keyMappingCompare \<and> rh_lookup m' = fold km_update kms (rh_lookup m1)
      \<and> consumed (length (concat (map cbor_key_mapping kms))) k s3 s' \<and> coming s' [0xFF]"
    by (intro Cons.IH[OF com3]) (use Cons.prems f m1 cnt in auto)
  then obtain s' k m' where s': "key_mappings_loop s3 m1 (n + length (km_list km) + 1) = Some (Some m', s')" "rh_ok m'"
    "same_key m' = keyMappingCompare" "rh_lookup m' = fold km_update kms (rh_lookup m1)"
    "consumed (length (concat (map cbor_key_mapping kms))) k s3 s'" "coming s' [0xFF]" by blast
  have "\<not> n > CORECONF_MAX_LOOP" using cnt by simp
  moreover have rec: "\<lparr>km_key = km_key km, km_list = km_list km\<rparr> = km" by simp
  have "hashmap_set m \<lparr>km_key = km_key km, km_list = km_list km\<rparr> = Some (rh_lookup m km, m1)"
    unfolding rec by (rule m1(1))
  ultimately have "key_mappings_loop s m n = Some (Some m', s')"
    using notend key s1(1) s2(1) s3(1) s'(1)
    by (subst key_mappings_loop.simps) (simp add: initializeDynamicLongList_def zcbor_list_end_decode_def)
  then show ?case
    using s'(2-4,6) upd consumed_trans[OF all s'(5)] by (auto simp del: One_nat_def)
qed

lemma fold_km_update:
  "distinct (map km_key kms)
    \<Longrightarrow> fold km_update kms f x = (case find (\<lambda>km. km_key x = km_key km) kms of None \<Rightarrow> f x | Some km \<Rightarrow> Some km)"
proof (induction kms arbitrary: f)
  case (Cons km kms)
  have "find (\<lambda>km'. km_key x = km_key km') kms = None" if "km_key x = km_key km"
    using Cons.prems that by (auto simp: find_None_iff)
  then show ?case using Cons by (auto simp: km_update_def split: option.splits)
qed simp

lemma rh_keys_distinct:
  assumes "rh_ok m" and "same_key m = keyMappingCompare"
  shows "distinct (map km_key (rh_items m))"
  unfolding distinct_conv_nth
proof (intro allI impI)
  fix i j assume ij: "i < length (map km_key (rh_items m))" "j < length (map km_key (rh_items m))" "i \<noteq> j"
  then show "map km_key (rh_items m) ! i \<noteq> map km_key (rh_items m) ! j"
    using rh_items_keys[OF assms(1), of i j] rh_items_keys[OF assms(1), of j i] assms(2)
    by (cases "i < j") (auto simp: keyMappingCompare_def)
qed

lemma rh_lookup_find:
  assumes "rh_ok m" and "same_key m = keyMappingCompare"
  shows "rh_lookup m x = find (\<lambda>km. km_key x = km_key km) (rh_items m)"
proof (cases "find (\<lambda>km. km_key x = km_key km) (rh_items m)")
  case None
  have "rh_lookup m x \<noteq> Some y" for y
  proof
    assume y: "rh_lookup m x = Some y"
    then obtain q where q: "q < nbuckets m" "dib (buckets m ! q) \<noteq> 0" "bitem (buckets m ! q) = y"
      "same (compare m) (key_of m x) (slot (buckets m ! q))"
      by (rule rh_lookup_Some[OF assms(1)])
    have "slot (buckets m ! q) \<in> set (slots (buckets m))"
      using slot_in_slots[of q "buckets m"] q rh_ok_facts(5)[OF assms(1)] by simp
    then have "y \<in> set (rh_items m)" "slot (buckets m ! q) = key_of m y"
      using q(3) assms(1) by (force simp: rh_items_def slot_def rh_ok_def key_of_def)+
    then have "same_key m x y" using q(4) by (simp add: same_key_def)
    then show False using None \<open>y \<in> set (rh_items m)\<close> assms(2)
      by (auto simp: find_None_iff keyMappingCompare_def)
  qed
  then show ?thesis using None by (cases "rh_lookup m x") auto
next
  case (Some y)
  then have y: "y \<in> set (rh_items m)" "km_key x = km_key y" by (auto simp: find_Some_iff in_set_conv_nth)
  then have "rh_lookup m y = Some y" using rh_items_lookup[OF assms(1)] by simp
  moreover have "same_key m x y" using y(2) assms(2) by (simp add: keyMappingCompare_def)
  ultimately show ?thesis using Some rh.lkp_keq[OF assms(1), of x y] by simp
qed

lemma single_item:
  assumes "new_keymapping_table (\<lambda>_. True) = Some t"
  obtains m where "hashmap_set t km = Some (None, m)" "rh_ok m" "same_key m = keyMappingCompare" "rh_items m = [km]"
proof -
  note t = new_keymapping_ok[OF assms]
  have "rh_roomy t (Suc 0)" using t by (simp add: rh_roomy_def)
  then obtain m where m: "hashmap_set t km = Some (rh_lookup t km, m)" "rh_ok m" "same_key m = same_key t"
    "\<forall>k. rh_lookup m k = (if same_key t k km then Some km else rh_lookup t k)"
    using rh.put_law[of t 0 km] t by auto
  have sk: "same_key m = keyMappingCompare" using m(3) t by simp
  have "x \<in> set (rh_items m) \<longleftrightarrow> x = km" for x
    using rh_items_lookup[OF m(2), of x] m(4) t by (auto simp: rh_lookup_empty keyMappingCompare_def)
  then have "set (rh_items m) = {km}" by blast
  moreover have "distinct (rh_items m)" using rh_keys_distinct[OF m(2) sk] by (simp add: distinct_map)
  ultimately have "length (rh_items m) = 1" "set (rh_items m) = {km}" using distinct_card[of "rh_items m"] by auto
  then have "rh_items m = [km]" by (auto simp: length_Suc_conv)
  then show ?thesis using that[of m] m(1,2) sk t by (simp add: rh_lookup_empty)
qed

section \<open>Properties\<close>

text \<open>
  C17. Round trip of a key mapping: a table of at most 51 SIDs, keys and list elements together, written to a buffer
  with room is read back, from a fresh state with one level of nesting to spare, into a table with the same entry for
  every SID.
\<close>

theorem key_mapping_roundtrip:
  assumes "rh_ok m" and "same_key m = keyMappingCompare" and "km_count (rh_items m) \<le> 51"
    and "length (cbor_key_mappings (rh_items m)) \<le> length buf"
    and "keyMappingHashMapToCBOR m (zcbor_new_encode_state old 4 buf 0 (length buf) 1) = (ok, s)"
  shows "ok \<and> (\<exists>m' s'. cborToKeyMappingHashMap (zcbor_new_decode_state old' 4 (mem s) 0 (payload s) 1) = Some (Some m', s')
    \<and> payload s' = payload s
    \<and> (\<forall>sid. hashmap_get m' (keymapping_key sid) = hashmap_get m (keymapping_key sid)))"
proof -
  let ?kms = "rh_items m" let ?body = "concat (map cbor_key_mapping ?kms)"
  note w = writes_fresh[OF keyMappingHashMapToCBOR_writes[OF assms(1)] _ assms(4,5)]
  have ok: ok and pl: "payload s = length (cbor_key_mappings ?kms)" "length (mem s) = length buf"
    "take (length (cbor_key_mappings ?kms)) (mem s) = cbor_key_mappings ?kms"
    using w by auto
  define d where "d = zcbor_new_decode_state old' 4 (mem s) 0 (payload s) 1"
  have d: "payload d = 0" "payload_end d = payload s" "mem d = mem s" "elem_count d = 1" "\<not> enforce_canonical d"
    "backup_list d = []" "num_backups d = 2"
    by (simp_all add: d_def zcbor_new_decode_state_def)
  have com: "coming d ([0xBF] @ ?body @ [0xFF])"
    using pl d assms(4) by (auto simp: coming_def cbor_key_mappings_def)
  obtain t where t: "new_keymapping_table (\<lambda>_. True) = Some t" using new_tables by blast
  have t': "rh_ok t" "rh_roomy t 19660" "same_key t = keyMappingCompare" "rh_items t = []"
    using new_keymapping_ok[OF t] by auto
  have len: "length ?kms \<le> km_count ?kms"
    unfolding km_count_def by (induction ?kms) (auto simp: sum_list_Suc)
  have room: "rh_roomy t (length ?kms)"
    using t'(2) len assms(3) by (auto simp: rh_roomy_def)
  obtain s1 where s1: "zcbor_map_start_decode d = (True, s1)" "opened d s1"
    by (rule map_start_coming[OF coming_appendD[OF com]]) (use d in auto)
  have com1: "coming s1 (?body @ [0xFF])" using coming_opened[of d _ _ s1] com s1(2) by simp
  have o1: "indefinite_length_array s1" "\<not> enforce_canonical s1" "length (backup_list s1) < num_backups s1"
    "2 * length ?kms < unat (elem_count s1)"
    using s1(2) d len assms(3) by (auto simp: opened_def)
  obtain s2 k m' where s2: "key_mappings_loop s1 t 0 = Some (Some m', s2)" "rh_ok m'" "same_key m' = keyMappingCompare"
    "rh_lookup m' = fold km_update ?kms (rh_lookup t)" "consumed (length ?body) k s1 s2" "coming s2 [0xFF]"
    using key_mappings_loop_coming[OF com1 o1(4,1,2,3) _ t'(1) room t'(3), of 0] assms(3)
    by (auto simp: CORECONF_MAX_LOOP_def)
  obtain s3 where s3: "list_map_end_decode s2 = (True, s3)" "consumed (length ?body + 2) 1 d s3"
    by (rule list_map_end_coming[OF s1(2) s2(5,6)]) (use d in auto)
  have "rh_lookup m' x = rh_lookup m x" for x
    using s2(4) fold_km_update[OF rh_keys_distinct[OF assms(1,2)], of "rh_lookup t" x]
      rh_lookup_find[OF assms(1,2), of x] rh_lookup_empty[OF t'(4)] by (auto split: option.splits)
  then have "hashmap_get m' x = hashmap_get m x" for x
    using rh.get_law[OF s2(2)] rh.get_law[OF assms(1)] by simp
  moreover have "cborToKeyMappingHashMap d = Some (Some m', s3)"
    using t s1(1) s2(1) s3(1) by (simp add: cborToKeyMappingHashMap_def zcbor_map_end_decode_def)
  moreover have "payload s3 = payload s"
    using consumedD(1)[OF s3(2)] d(1) pl(1) by (simp add: cbor_key_mappings_def)
  ultimately show ?thesis using ok unfolding d_def by blast
qed

theorem key_mapping_roundtrip_witness:
  "\<exists>t m ok s m' s'. new_keymapping_table (\<lambda>_. True) = Some t
    \<and> hashmap_set t \<lparr>km_key = 1001, km_list = [1002, 1005]\<rparr> = Some (None, m)
    \<and> keyMappingHashMapToCBOR m (zcbor_new_encode_state any_state 4 (replicate 32 0) 0 32 1) = (ok, s)
    \<and> cborToKeyMappingHashMap (zcbor_new_decode_state any_state 4 (mem s) 0 (payload s) 1) = Some (Some m', s')
    \<and> hashmap_get m' (keymapping_key 1001) = Some (Some \<lparr>km_key = 1001, km_list = [1002, 1005]\<rparr>)"
proof -
  define km where "km = \<lparr>km_key = 1001, km_list = [1002, 1005]\<rparr>"
  obtain t where t: "new_keymapping_table (\<lambda>_. True) = Some t" using new_tables by blast
  obtain m where m: "hashmap_set t km = Some (None, m)" "rh_ok m" "same_key m = keyMappingCompare" "rh_items m = [km]"
    by (rule single_item[OF t])
  obtain ok s where e: "keyMappingHashMapToCBOR m (zcbor_new_encode_state any_state 4 (replicate 32 0) 0 32 1) = (ok, s)"
    by (cases "keyMappingHashMapToCBOR m (zcbor_new_encode_state any_state 4 (replicate 32 0) 0 32 1)")
  have "length (cbor_key_mappings [km]) = 13" unfolding km_def by code_simp
  moreover have "km_count [km] = 3" by (simp add: km_count_def km_def)
  ultimately obtain m' s' where r: "cborToKeyMappingHashMap (zcbor_new_decode_state any_state 4 (mem s) 0 (payload s) 1) = Some (Some m', s')"
    "\<forall>sid. hashmap_get m' (keymapping_key sid) = hashmap_get m (keymapping_key sid)"
    using key_mapping_roundtrip[OF m(2,3), of "replicate 32 0" any_state ok s any_state] m(4) e by auto
  have "hashmap_get m (keymapping_key 1001) = Some (Some km)"
    using rh.get_law[OF m(2)] rh_lookup_find[OF m(2,3)] m(4) by (simp add: keymapping_key_def km_def)
  then show ?thesis using t m(1) e r unfolding km_def by metis
qed

end
