(* ===== verification/Cli_Numbers.thy ===== *)
theory Cli_Numbers
  imports Sid_Lists "HOL-Library.Sublist"
begin

text \<open>
  The numbers in the text that the client (\<open>src/iot_containers/iot_apps/coreconf_cli.c\<close>) reads and prints: the
  functions of the C library it calls for them, \<open>strtod\<close>, \<open>strtoull\<close> with its end pointer and \<open>strtoll\<close>, and the
  conversion \<open>%.6g\<close> of \<open>printf\<close>, in the C locale. A double is its IEEE-754 binary64 pattern, and conversions
  round to nearest, ties to even. What \<open>strtod\<close> returns for \<open>nan(...)\<close> depends on the implementation, so it is an
  argument.
\<close>

section \<open>Rounding\<close>

text \<open>The number of binary digits; the nearest integer of a fraction, ties to even.\<close>

fun bit_length :: "nat \<Rightarrow> nat" where
  "bit_length n = (if n = 0 then 0 else Suc (bit_length (n div 2)))"

declare bit_length.simps [simp del]

definition round_half_even :: "nat \<Rightarrow> nat \<Rightarrow> nat" where
  "round_half_even n d =
     (let q = n div d; r = n mod d in if 2 * r > d \<or> 2 * r = d \<and> odd q then q + 1 else q)"

text \<open>\<open>n * b ^ e\<close> over \<open>d\<close> for an integer \<open>e\<close>, as a fraction of natural numbers.\<close>

definition scaled :: "nat \<Rightarrow> nat \<Rightarrow> nat \<Rightarrow> int \<Rightarrow> nat \<times> nat" where
  "scaled b n d e = (if e \<ge> 0 then (n * b ^ nat e, d) else (n, d * b ^ nat (- e)))"

text \<open>The exponent \<open>l\<close> with \<open>2 ^ l \<le> n / d < 2 ^ (l + 1)\<close>.\<close>

definition floor_log2 :: "nat \<Rightarrow> nat \<Rightarrow> int" where
  "floor_log2 n d =
     (let k = int (bit_length n) - int (bit_length d); (d', n') = scaled 2 d n k
      in if d' \<le> n' then k else k - 1)"

text \<open>
  The double next to \<open>n / d\<close>: a multiple of \<open>2 ^ e\<close>, where \<open>e\<close> leaves 53 digits or is the exponent of the
  subnormal numbers. The pattern is the exponent field in front of the fraction, so that a carry of the
  rounding moves into the exponent; a result above the largest number is infinite.
\<close>

definition double_of_ratio :: "nat \<Rightarrow> nat \<Rightarrow> u64" where
  "double_of_ratio n d =
     (if n = 0 then 0
      else let e = max (floor_log2 n d - 52) (-1074);
               (n', d') = scaled 2 n d (- e);
               b = nat (e + 1074) * 2 ^ 52 + round_half_even n' d'
           in if b \<ge> 0x7FF0000000000000 then 0x7FF0000000000000 else of_nat b)"

definition double_negate :: "bool \<Rightarrow> u64 \<Rightarrow> u64" where
  "double_negate neg b = (if neg then b XOR 0x8000000000000000 else b)"

section \<open>Reading numbers\<close>

definition to_lower :: "u8 \<Rightarrow> u8" where
  "to_lower b = (if 0x41 \<le> b \<and> b \<le> 0x5A then b + 0x20 else b)"

definition hex_digit :: "u8 \<Rightarrow> bool" where
  "hex_digit b \<longleftrightarrow> is_digit b \<or> (0x61 \<le> to_lower b \<and> to_lower b \<le> 0x66)"

definition hex_value :: "u8 \<Rightarrow> nat" where
  "hex_value b = (if is_digit b then unat (b - 0x30) else unat (to_lower b - 0x57))"

definition number_value :: "nat \<Rightarrow> bytes \<Rightarrow> nat" where
  "number_value base bs = foldl (\<lambda>n b. base * n + hex_value b) 0 bs"

text \<open>An optional sign, and what follows it.\<close>

definition split_sign :: "bytes \<Rightarrow> bool \<times> bytes" where
  "split_sign t = (t \<noteq> [] \<and> hd t = 0x2D, if t \<noteq> [] \<and> (hd t = 0x2D \<or> hd t = 0x2B) then tl t else t)"

text \<open>The exponent of a number behind the letter \<open>c\<close>: 0 and nothing read when no digit follows.\<close>

definition read_exponent :: "u8 \<Rightarrow> bytes \<Rightarrow> int \<times> bytes" where
  "read_exponent c t =
     (if t = [] \<or> to_lower (hd t) \<noteq> c then (0, t)
      else case split_sign (tl t) of (neg, u) \<Rightarrow>
        if takeWhile is_digit u = [] then (0, t)
        else let e = int (digits_value (takeWhile is_digit u))
             in (if neg then - e else e, dropWhile is_digit u))"

text \<open>Digits with an optional point: the digits before and after it and the rest, if there is a digit.\<close>

definition read_mantissa :: "(u8 \<Rightarrow> bool) \<Rightarrow> bytes \<Rightarrow> (bytes \<times> bytes \<times> bytes) option" where
  "read_mantissa dg t =
     (let whole = takeWhile dg t; t1 = dropWhile dg t;
          point = (t1 \<noteq> [] \<and> hd t1 = 0x2E);
          frac = (if point then takeWhile dg (tl t1) else []);
          t2 = (if point then dropWhile dg (tl t1) else t1)
      in if whole = [] \<and> frac = [] then None else Some (whole, frac, t2))"

definition read_decimal :: "bytes \<Rightarrow> (u64 \<times> bytes) option" where
  "read_decimal t =
     (case read_mantissa is_digit t of
        None \<Rightarrow> None
      | Some (whole, frac, t1) \<Rightarrow>
          (case read_exponent 0x65 t1 of (e, t2) \<Rightarrow>
             (case scaled 10 (number_value 10 (whole @ frac)) 1 (e - int (length frac)) of
                (n, d) \<Rightarrow> Some (double_of_ratio n d, t2))))"

definition read_hexadecimal :: "bytes \<Rightarrow> (u64 \<times> bytes) option" where
  "read_hexadecimal t =
     (if \<not> prefix [0x30, 0x78] (map to_lower t) then None
      else case read_mantissa hex_digit (drop 2 t) of
        None \<Rightarrow> None
      | Some (whole, frac, t1) \<Rightarrow>
          (case read_exponent 0x70 t1 of (e, t2) \<Rightarrow>
             (case scaled 2 (number_value 16 (whole @ frac)) 1 (e - 4 * int (length frac)) of
                (n, d) \<Rightarrow> Some (double_of_ratio n d, t2))))"

definition nan_char :: "u8 \<Rightarrow> bool" where
  "nan_char b \<longleftrightarrow> is_digit b \<or> (0x61 \<le> to_lower b \<and> to_lower b \<le> 0x7A) \<or> b = 0x5F"

definition read_special :: "(bytes \<Rightarrow> u64) \<Rightarrow> bytes \<Rightarrow> (u64 \<times> bytes) option" where
  "read_special nan t =
     (let l = map to_lower t in
      if prefix [0x69, 0x6E, 0x66, 0x69, 0x6E, 0x69, 0x74, 0x79] l then Some (0x7FF0000000000000, drop 8 t)
      else if prefix [0x69, 0x6E, 0x66] l then Some (0x7FF0000000000000, drop 3 t)
      else if prefix [0x6E, 0x61, 0x6E] l
      then let u = drop 3 t; cs = takeWhile nan_char (tl u); v = dropWhile nan_char (tl u) in
           if u \<noteq> [] \<and> hd u = 0x28 \<and> v \<noteq> [] \<and> hd v = 0x29 then Some (nan cs, tl v) else Some (nan [], u)
      else None)"

text \<open>
  \<open>strtod\<close>: the double and what is left of the string, \<open>None\<close> when there is no number, in which case the end
  pointer is the start of the string. A hexadecimal number without digits is the number 0 before the letter.
\<close>

definition strtod :: "(bytes \<Rightarrow> u64) \<Rightarrow> bytes \<Rightarrow> (u64 \<times> bytes) option" where
  "strtod nan str =
     (case split_sign (dropWhile is_space (c_string str)) of (neg, t) \<Rightarrow>
        map_option (apfst (double_negate neg))
          (case read_hexadecimal t of
             Some r \<Rightarrow> Some r
           | None \<Rightarrow> (case read_decimal t of Some r \<Rightarrow> Some r | None \<Rightarrow> read_special nan t)))"

text \<open>\<open>strtoull\<close> with the rest of the string, and the clamped \<open>strtoll\<close>, as 64 bits.\<close>

definition strtoull_end :: "bytes \<Rightarrow> (u64 \<times> bytes) option" where
  "strtoull_end str =
     map_option (\<lambda>v. (v, dropWhile is_digit (snd (split_sign (dropWhile is_space str))))) (strtoull10 str)"

definition strtoull_value :: "bytes \<Rightarrow> u64" where
  "strtoull_value str = (case strtoull10 str of Some v \<Rightarrow> v | None \<Rightarrow> 0)"

definition strtoll_value :: "bytes \<Rightarrow> u64" where
  "strtoll_value str = of_int (fst (strtoimax10 str))"

section \<open>Printing numbers\<close>

text \<open>A finite double as a fraction: its fraction field, with the hidden digit, times a power of two.\<close>

definition double_mantissa :: "u64 \<Rightarrow> nat" where
  "double_mantissa b =
     (let f = unat (take_bit 52 b) in if unat (take_bit 11 (drop_bit 52 b)) = 0 then f else 2 ^ 52 + f)"

definition double_exponent :: "u64 \<Rightarrow> int" where
  "double_exponent b = max 1 (int (unat (take_bit 11 (drop_bit 52 b)))) - 1075"

definition ratio_of_double :: "u64 \<Rightarrow> nat \<times> nat" where
  "ratio_of_double b = scaled 2 (double_mantissa b) 1 (double_exponent b)"

definition floor_log10 :: "nat \<Rightarrow> nat \<Rightarrow> int" where
  "floor_log10 n d =
     (let k = int (length (decimal n)) - int (length (decimal d)); (d', n') = scaled 10 d n k
      in if d' \<le> n' then k else k - 1)"

definition strip_zeros :: "bytes \<Rightarrow> bytes" where
  "strip_zeros bs = rev (dropWhile (\<lambda>b. b = 0x30) (rev bs))"

definition with_point :: "bytes \<Rightarrow> bytes \<Rightarrow> bytes" where
  "with_point whole frac = (let f = strip_zeros frac in if f = [] then whole else whole @ [0x2E] @ f)"

text \<open>
  \<open>%.6g\<close> of a positive number \<open>n / d\<close>: six significant digits, rounded, with the exponent \<open>x\<close> they end up with;
  a decimal fraction when it is between -4 and 5, otherwise an exponent of at least two digits; no trailing zeros.
\<close>

definition format_ratio :: "nat \<Rightarrow> nat \<Rightarrow> bytes" where
  "format_ratio n d =
     (let x0 = floor_log10 n d;
          (n', d') = scaled 10 n d (5 - x0);
          m0 = round_half_even n' d';
          (m, x) = (if m0 = 10 ^ 6 then (10 ^ 5, x0 + 1) else (m0, x0));
          ds = decimal m
      in if x < -4 \<or> x \<ge> 6
         then with_point (take 1 ds) (drop 1 ds) @ [0x65, if x < 0 then 0x2D else 0x2B] @
              (if \<bar>x\<bar> < 10 then [0x30] else []) @ decimal (nat \<bar>x\<bar>)
         else if x < 0 then with_point [0x30] (replicate (nat (- x - 1)) 0x30 @ ds)
         else with_point (take (nat x + 1) ds) (drop (nat x + 1) ds))"

definition format_g :: "u64 \<Rightarrow> bytes" where
  "format_g b =
     (let neg = bit b 63; a = take_bit 63 b;
          body = (if a > 0x7FF0000000000000 then [0x6E, 0x61, 0x6E]
                  else if a = 0x7FF0000000000000 then [0x69, 0x6E, 0x66]
                  else if a = 0 then [0x30]
                  else case ratio_of_double a of (n, d) \<Rightarrow> format_ratio n d)
      in if neg then 0x2D # body else body)"

end
