(* ===== verification/Cli_Text.thy ===== *)
theory Cli_Text
  imports Cli_Numbers Server_Sids
begin

text \<open>
  The text of the client's command line (\<open>src/iot_containers/iot_apps/coreconf_cli.c\<close>): the lines it reads, their
  division into words (\<open>tokenize\<close>), and the notation of values (\<open>parse_value\<close>, \<open>parse_value_ptr\<close>, \<open>parse_map_ptr\<close>). A
  pointer into a string is the list of the characters from it to the terminating NUL.
\<close>

section \<open>Lines and words\<close>

definition MAX_ARGS :: nat where
  "MAX_ARGS = 32"

text \<open>\<open>fgets (line, 512, stdin)\<close>: at most 511 characters, up to a newline; \<open>None\<close> at the end of the input.\<close>

definition fgets :: "nat \<Rightarrow> bytes \<Rightarrow> (bytes \<times> bytes) option" where
  "fgets sz inp =
     (if inp = [] then None
      else let l = takeWhile (\<lambda>b. b \<noteq> 0x0A) inp;
               n = min (sz - 1) (if length l < length inp then length l + 1 else length l)
           in Some (take n inp, drop n inp))"

text \<open>The line as a C string without the newlines and carriage returns at its end.\<close>

definition trim_line :: "bytes \<Rightarrow> bytes" where
  "trim_line line = rev (dropWhile (\<lambda>b. b = 0x0A \<or> b = 0x0D) (rev (c_string line)))"

definition is_blank :: "u8 \<Rightarrow> bool" where
  "is_blank b \<longleftrightarrow> b = 0x20 \<or> b = 0x09"

definition word_end :: "u8 \<Rightarrow> bool" where
  "word_end b \<longleftrightarrow> b = 0x20 \<or> b = 0x09 \<or> b = 0x0A"

text \<open>The loop of \<open>tokenize\<close>, which may still store \<open>n\<close> words.\<close>

fun tokenize_loop :: "nat \<Rightarrow> bytes \<Rightarrow> bytes list" where
  "tokenize_loop 0 p = []"
| "tokenize_loop (Suc n) p =
     (if p = [] then []
      else let q = dropWhile is_blank p in
           if q = [] \<or> hd q = 0x0A then []
           else takeWhile (\<lambda>b. \<not> word_end b) q # tokenize_loop n (tl (dropWhile (\<lambda>b. \<not> word_end b) q)))"

definition tokenize :: "bytes \<Rightarrow> bytes list" where
  "tokenize line = tokenize_loop MAX_ARGS line"

section \<open>Values\<close>

text \<open>
  The value that a word denotes: the three names; a number that \<open>strtod\<close> reads to the end, as a real if it has a point or
  an \<open>e\<close> and otherwise as an integer, converted in base 10 whatever its notation was; or a string.
\<close>

definition scalar_value :: "(bytes \<Rightarrow> u64) \<Rightarrow> bytes \<Rightarrow> CoreconfValue" where
  "scalar_value nan buf =
     (if buf = [0x6E, 0x75, 0x6C, 0x6C] then CORECONF_NULL
      else if buf = [0x74, 0x72, 0x75, 0x65] then createCoreconfBoolean True
      else if buf = [0x66, 0x61, 0x6C, 0x73, 0x65] then createCoreconfBoolean False
      else case strtod nan buf of
        Some (d, []) \<Rightarrow>
          if 0x2E \<in> set buf \<or> 0x65 \<in> set buf \<or> 0x45 \<in> set buf then createCoreconfReal d
          else if hd buf = 0x2D then createCoreconfInt64 (strtoll_value buf)
          else createCoreconfUint64 (strtoull_value buf)
      | _ \<Rightarrow> createCoreconfString buf)"

definition skip_spaces :: "bytes \<Rightarrow> bytes" where
  "skip_spaces p = dropWhile (\<lambda>b. b = 0x20) p"

definition value_end :: "u8 \<Rightarrow> bool" where
  "value_end b \<longleftrightarrow> b = 0x2C \<or> b = 0x7D"

text \<open>The copy of a value into the array of 256 characters, without spaces at its end.\<close>

definition value_text :: "bytes \<Rightarrow> bytes" where
  "value_text t = rev (dropWhile (\<lambda>b. b = 0x20) (rev (take 255 t)))"

text \<open>
  A key of a map: the number, an optional colon and the spaces around it. \<open>None\<close> where \<open>strtoull\<close> finds no number.
\<close>

definition skip_separators :: "bytes \<Rightarrow> bytes" where
  "skip_separators p = dropWhile (\<lambda>b. b = 0x20 \<or> b = 0x2C) p"

definition read_key :: "bytes \<Rightarrow> (u64 \<times> bytes) option" where
  "read_key p =
     (case strtoull_end p of
        None \<Rightarrow> None
      | Some (key, p) \<Rightarrow>
          let p = skip_spaces p; p = (if p \<noteq> [] \<and> hd p = 0x3A then tl p else p) in Some (key, skip_spaces p))"

text \<open>
  The loop of \<open>parse_map_ptr\<close> and the function \<open>parse_value_ptr\<close>: the result and where they leave the pointer.
\<close>

function (sequential) map_ptr_loop ::
    "(bytes \<Rightarrow> u64) \<Rightarrow> CoreconfValue CoreconfHashMap \<Rightarrow> bytes \<Rightarrow> CoreconfValue CoreconfHashMap \<times> bytes"
  and parse_value_ptr :: "(bytes \<Rightarrow> u64) \<Rightarrow> bytes \<Rightarrow> CoreconfValue \<times> bytes" where
  "map_ptr_loop nan m p =
     (if p = [] \<or> hd p = 0x7D then (m, p)
      else if skip_separators p \<noteq> [] \<and> hd (skip_separators p) = 0x7D then (m, skip_separators p)
      else case read_key (skip_separators p) of
          None \<Rightarrow> (m, skip_separators p)
        | Some (key, q) \<Rightarrow>
            (case parse_value_ptr nan q of
               (val, r) \<Rightarrow> map_ptr_loop nan (snd (insertCoreconfHashMap m key val)) (skip_spaces r)))"
| "parse_value_ptr nan p =
     (if skip_spaces p \<noteq> [] \<and> hd (skip_spaces p) = 0x7B
      then (case map_ptr_loop nan empty_hashmap (tl (skip_spaces p)) of
              (m, r) \<Rightarrow> (CORECONF_HASHMAP m, if r \<noteq> [] \<and> hd r = 0x7D then tl r else r))
      else (scalar_value nan (value_text (takeWhile (\<lambda>b. \<not> value_end b) (skip_spaces p))),
            dropWhile (\<lambda>b. \<not> value_end b) (skip_spaces p)))"
  by pat_completeness auto

text \<open>Neither function leaves more text than it was given, and a key takes at least one character.\<close>

lemma length_skip_spaces: "length (skip_spaces p) \<le> length p"
  by (simp add: skip_spaces_def length_dropWhile_le)

lemma length_split_sign: "length (snd (split_sign t)) \<le> length t"
  by (simp add: split_sign_def)

lemma length_dropWhile_less: "takeWhile P xs \<noteq> [] \<Longrightarrow> length (dropWhile P xs) < length xs"
  by (cases xs) (auto simp: length_dropWhile_le le_imp_less_Suc split: if_splits)

lemma split_sign_c_string:
  "\<exists>r. snd (split_sign (dropWhile is_space p)) = snd (split_sign (dropWhile is_space (c_string p))) @ r"
proof (cases "\<forall>b \<in> set (c_string p). is_space b")
  case True
  then have "snd (split_sign (dropWhile is_space (c_string p))) = []" by (simp add: split_sign_def)
  then show ?thesis by (simp only: append_Nil) blast
next
  case False
  have "p = c_string p @ dropWhile (\<lambda>b. b \<noteq> 0) p" by (simp add: c_string_def)
  then have "dropWhile is_space p = dropWhile is_space (c_string p) @ dropWhile (\<lambda>b. b \<noteq> 0) p"
    using False dropWhile_append1 by metis
  moreover have "dropWhile is_space (c_string p) \<noteq> []" using False by simp
  ultimately show ?thesis by (auto simp: split_sign_def)
qed

lemma strtoull_end_shorter:
  assumes "strtoull_end p = Some (v, q)"
  shows "length q < length p"
proof -
  let ?t = "snd (split_sign (dropWhile is_space p))" let ?u = "snd (split_sign (dropWhile is_space (c_string p)))"
  have "takeWhile is_digit ?u \<noteq> []" and q: "q = dropWhile is_digit ?t"
    using assms by (auto simp: strtoull_end_def strtoull10_def split_sign_def Let_def split: if_splits)
  moreover have "\<exists>r. ?t = ?u @ r" by (rule split_sign_c_string)
  ultimately have "takeWhile is_digit ?t \<noteq> []" by (cases ?u) (auto split: if_splits)
  then have "length q < length ?t" unfolding q by (rule length_dropWhile_less)
  also have "\<dots> \<le> length (dropWhile is_space p)" by (rule length_split_sign)
  also have "\<dots> \<le> length p" by (rule length_dropWhile_le)
  finally show ?thesis .
qed

lemma read_key_shorter:
  assumes "read_key (skip_separators p) = Some (key, q)"
  shows "length q < length p"
proof -
  obtain r where r: "strtoull_end (skip_separators p) = Some (key, r)"
      "q = skip_spaces (if skip_spaces r \<noteq> [] \<and> hd (skip_spaces r) = 0x3A then tl (skip_spaces r) else skip_spaces r)"
    using assms by (auto simp: read_key_def Let_def split: option.splits)
  have "length r < length p"
    using strtoull_end_shorter[OF r(1)] length_dropWhile_le[of _ p] unfolding skip_separators_def by (rule less_le_trans)
  moreover have "length (if skip_spaces r \<noteq> [] \<and> hd (skip_spaces r) = 0x3A then tl (skip_spaces r) else skip_spaces r) \<le> length r"
    using length_skip_spaces[of r] by auto
  ultimately show ?thesis unfolding r(2) by (meson length_skip_spaces le_less_trans)
qed

lemma parse_no_longer:
  "map_ptr_loop_parse_value_ptr_dom (Inl (nan, m, p)) \<Longrightarrow> length (snd (map_ptr_loop nan m p)) \<le> length p"
  "map_ptr_loop_parse_value_ptr_dom (Inr (nan', q)) \<Longrightarrow> length (snd (parse_value_ptr nan' q)) \<le> length q"
proof (induction nan m p and nan' q rule: map_ptr_loop_parse_value_ptr.pinduct)
  case (1 nan m p)
  let ?p = "skip_separators p"
  have dw: "length ?p \<le> length p" by (simp add: skip_separators_def length_dropWhile_le)
  show ?case
  proof (cases "(p = [] \<or> hd p = 0x7D) \<or> (?p \<noteq> [] \<and> hd ?p = 0x7D) \<or> read_key ?p = None")
    case True
    then show ?thesis using 1(1) dw by (subst map_ptr_loop.psimps) auto
  next
    case False
    then obtain key q where key: "read_key ?p = Some (key, q)" by auto
    obtain val r where r: "parse_value_ptr nan q = (val, r)" by fastforce
    have "length r \<le> length q" using 1(2)[OF _ _ key refl] r False by auto
    moreover have "length (snd (map_ptr_loop nan (snd (insertCoreconfHashMap m key val)) (skip_spaces r))) \<le> length (skip_spaces r)"
      using 1(3)[OF _ _ key refl r[symmetric]] False by auto
    ultimately have "length (snd (map_ptr_loop nan (snd (insertCoreconfHashMap m key val)) (skip_spaces r))) \<le> length p"
      using read_key_shorter[OF key] length_skip_spaces[of r] by linarith
    then show ?thesis using 1(1) False key r dw by (subst map_ptr_loop.psimps) simp_all
  qed
next
  case (2 nan p)
  have sp: "length (skip_spaces p) \<le> length p" by (rule length_skip_spaces)
  show ?case
  proof (cases "skip_spaces p \<noteq> [] \<and> hd (skip_spaces p) = 0x7B")
    case True
    obtain m r where r: "map_ptr_loop nan empty_hashmap (tl (skip_spaces p)) = (m, r)" by fastforce
    have "length r \<le> length (tl (skip_spaces p))" using 2(2)[OF True] r by simp
    then show ?thesis using 2(1) True r sp by (subst parse_value_ptr.psimps) auto
  next
    case False
    have "length (dropWhile (\<lambda>b. \<not> value_end b) (skip_spaces p)) \<le> length (skip_spaces p)" by (rule length_dropWhile_le)
    then show ?thesis using 2(1) False sp by (subst parse_value_ptr.psimps) auto
  qed
qed

termination map_ptr_loop
proof (relation "measure (\<lambda>x. case x of Inl (nan, m, p) \<Rightarrow> 2 * length p | Inr (nan, p) \<Rightarrow> 2 * length p + 1)", goal_cases)
  case 1
  show ?case by simp
next
  case (2 nan m p pair key q)
  then have "length q < length p" using read_key_shorter by blast
  then show ?case by simp
next
  case (3 nan m p pair key q val r)
  then have "length q < length p" using read_key_shorter by blast
  moreover have "length (snd (val, r)) \<le> length q" using 3 parse_no_longer(2)[of nan q] by auto
  ultimately show ?case using length_skip_spaces[of r] by simp
next
  case (4 nan p)
  then have "length (tl (skip_spaces p)) < length p" using length_skip_spaces[of p] by (cases "skip_spaces p") auto
  then show ?case by simp
qed

declare map_ptr_loop.simps [simp del]
declare parse_value_ptr.simps [simp del]

definition parse_map_ptr :: "(bytes \<Rightarrow> u64) \<Rightarrow> bytes \<Rightarrow> CoreconfValue \<times> bytes" where
  "parse_map_ptr nan p =
     (case map_ptr_loop nan empty_hashmap p of
        (m, r) \<Rightarrow> (CORECONF_HASHMAP m, if r \<noteq> [] \<and> hd r = 0x7D then tl r else r))"

definition parse_value :: "(bytes \<Rightarrow> u64) \<Rightarrow> bytes \<Rightarrow> CoreconfValue" where
  "parse_value nan s = fst (parse_value_ptr nan (c_string s))"

section \<open>Reading numbers back\<close>

lemma decimal_no_letter: "b \<in> set (decimal n) \<Longrightarrow> b \<noteq> 0x2E \<and> b \<noteq> 0x65 \<and> b \<noteq> 0x45 \<and> to_lower b \<noteq> 0x78 \<and> \<not> value_end b"
  using is_digit_decimal[of b n] by (auto simp: is_digit_def to_lower_def value_end_def word_le_nat_alt split: if_splits)

lemma decimal_takeWhile: "takeWhile is_digit (decimal n) = decimal n" "dropWhile is_digit (decimal n) = []"
  using is_digit_decimal by (auto simp: takeWhile_eq_all_conv)

lemma c_string_decimal_end: "c_string (decimal n) = decimal n"
  using decimal_no_nul[of n] by (auto simp: c_string_def takeWhile_eq_all_conv)

lemma decimal_first:
  obtains b bs where "decimal n = b # bs" "is_digit b" "b \<noteq> 0x2D" "b \<noteq> 0x2B" "\<not> is_space b" "b \<noteq> 0x20" "b \<noteq> 0x7B" "\<not> value_end b"
proof -
  obtain b bs where b: "decimal n = b # bs" using decimal_ne by (cases "decimal n") auto
  then have "is_digit b" "\<not> value_end b" using is_digit_decimal[of b n] decimal_no_letter[of b n] by auto
  moreover from this have "b \<noteq> 0x7B" "b \<noteq> 0x20" by (auto simp: is_digit_def word_le_nat_alt)
  ultimately show ?thesis using that[OF b] digit_not[of b] by blast
qed

lemma decimal_no_name: "\<not> is_digit c \<Longrightarrow> decimal n \<noteq> c # cs"
  using is_digit_decimal[of c n] by (metis list.set_intros(1))

lemma decimal_names:
  "decimal n \<noteq> [0x6E, 0x75, 0x6C, 0x6C]" "decimal n \<noteq> [0x74, 0x72, 0x75, 0x65]"
  "decimal n \<noteq> [0x66, 0x61, 0x6C, 0x73, 0x65]"
  by (rule decimal_no_name; simp add: is_digit_def word_le_nat_alt)+

lemma read_decimal_decimal: "\<exists>d. read_decimal (decimal n) = Some (d, [])"
proof -
  have "read_mantissa is_digit (decimal n) = Some (decimal n, [], [])"
    by (simp add: read_mantissa_def decimal_takeWhile decimal_ne)
  then show ?thesis by (simp add: read_decimal_def read_exponent_def split: prod.splits)
qed

lemma read_hexadecimal_decimal: "read_hexadecimal (decimal n) = None"
proof -
  have "\<not> prefix [0x30, 0x78] (map to_lower (decimal n))"
  proof
    assume "prefix [0x30, 0x78] (map to_lower (decimal n))"
    then have "0x78 \<in> set (map to_lower (decimal n))" by (auto dest: set_mono_prefix)
    then show False using decimal_no_letter by auto
  qed
  then show ?thesis by (simp add: read_hexadecimal_def)
qed

lemma strtod_signed: "\<exists>d. strtod nan (signed_decimal v) = Some (d, [])"
proof (cases "v < 0")
  case True
  have "\<not> is_space 0x2D" by (simp add: is_space_def word_le_nat_alt)
  moreover have "c_string (0x2D # decimal n) = 0x2D # decimal n" for n
    using c_string_decimal_end[of n] by (simp add: c_string_def)
  moreover obtain d where "read_decimal (decimal (nat (- v))) = Some (d, [])" using read_decimal_decimal by blast
  ultimately show ?thesis
    using True by (simp add: strtod_def signed_decimal_def split_sign_def read_hexadecimal_decimal)
next
  case False
  obtain b bs where "decimal (nat v) = b # bs" "b \<noteq> 0x2D" "b \<noteq> 0x2B" "\<not> is_space b" by (rule decimal_first)
  then have "split_sign (dropWhile is_space (c_string (decimal (nat v)))) = (False, decimal (nat v))"
    using c_string_decimal_end[of "nat v"] by (simp add: split_sign_def)
  moreover obtain d where "read_decimal (decimal (nat v)) = Some (d, [])" using read_decimal_decimal by blast
  ultimately show ?thesis using False by (simp add: strtod_def signed_decimal_def read_hexadecimal_decimal)
qed

lemma strtoimax10_negative:
  assumes "v < 0" and "- (2 ^ 63) \<le> v"
  shows "strtoimax10 (0x2D # decimal (nat (- v))) = (v, False)"
proof -
  have "\<not> is_space 0x2D" by (simp add: is_space_def word_le_nat_alt)
  moreover have "c_string (0x2D # decimal n) = 0x2D # decimal n" for n
    using c_string_decimal_end[of n] by (simp add: c_string_def)
  ultimately show ?thesis
    using assms by (simp add: strtoimax10_def Let_def decimal_takeWhile digits_value_decimal)
qed

text \<open>A signed integer in decimal notation is read as the decoder of CBOR reads it.\<close>

lemma scalar_value_int: "scalar_value nan (signed_decimal (sint v)) = decoded_int v"
proof -
  obtain d where d: "strtod nan (signed_decimal (sint v)) = Some (d, [])" using strtod_signed by blast
  have plain: "0x2E \<notin> set (signed_decimal i)" "0x65 \<notin> set (signed_decimal i)" "0x45 \<notin> set (signed_decimal i)" for i
    using decimal_no_letter by (auto simp: signed_decimal_def)
  have neg: "bit v 63 \<longleftrightarrow> sint v < 0" using bit_last_iff[of v] by simp
  show ?thesis
  proof (cases "sint v < 0")
    case True
    have "- (2 ^ 63) \<le> sint v" using sint_greater_eq[of v] by simp
    then have "strtoll_value (signed_decimal (sint v)) = v"
      using strtoimax10_negative[OF True] True by (simp add: strtoll_value_def signed_decimal_def)
    moreover have "hd (signed_decimal (sint v)) = 0x2D" using True by (simp add: signed_decimal_def)
    ultimately show ?thesis
      using True neg d plain[of "sint v"]
      by (simp add: scalar_value_def decoded_int_def createCoreconfInt64_def signed_decimal_def)
  next
    case False
    then have "uint v < 2 ^ 63" using uint_bounded[of v] by (auto simp: sint_u64 split: if_splits)
    then have "nat (sint v) = unat v" by (simp add: sint_u64)
    then have s: "signed_decimal (sint v) = decimal (unat v)" using False by (simp add: signed_decimal_def)
    obtain b bs where "decimal (unat v) = b # bs" "b \<noteq> 0x2D" by (rule decimal_first)
    moreover have "strtoull_value (decimal (unat v)) = v" by (simp add: strtoull_value_def strtoull10_decimal)
    ultimately show ?thesis
      using False neg d plain[of "sint v"] decimal_names[of "unat v"] s
      by (auto simp: scalar_value_def decoded_int_def createCoreconfUint64_def)
  qed
qed

lemma scalar_value_uint: "scalar_value nan (decimal (unat v)) = CORECONF_UINT_64 v"
proof -
  obtain d where d: "strtod nan (decimal (unat v)) = Some (d, [])"
    using strtod_signed[of nan "int (unat v)"] by (auto simp: signed_decimal_def)
  obtain b bs where "decimal (unat v) = b # bs" "b \<noteq> 0x2D" by (rule decimal_first)
  moreover have "strtoull_value (decimal (unat v)) = v" by (simp add: strtoull_value_def strtoull10_decimal)
  moreover have "0x2E \<notin> set (decimal (unat v))" "0x65 \<notin> set (decimal (unat v))" "0x45 \<notin> set (decimal (unat v))"
    using decimal_no_letter by blast+
  ultimately show ?thesis using d decimal_names[of "unat v"]
    by (auto simp: scalar_value_def createCoreconfUint64_def)
qed

section \<open>Reading values back\<close>

text \<open>
  The notation of a value: integers in decimal, the three names, words, and maps as \<open>{key:value,key:value}\<close>. Reals and lists have
  no place in it here: a real depends on its digits, and for lists the client has no notation.
\<close>

definition plain_word :: "(bytes \<Rightarrow> u64) \<Rightarrow> bytes \<Rightarrow> bool" where
  "plain_word nan s \<longleftrightarrow> length s \<le> 255 \<and> list_all (\<lambda>b. b \<noteq> 0 \<and> \<not> value_end b) s \<and>
     (s = [] \<or> hd s \<noteq> 0x20 \<and> hd s \<noteq> 0x7B \<and> last s \<noteq> 0x20) \<and>
     s \<noteq> [0x6E, 0x75, 0x6C, 0x6C] \<and> s \<noteq> [0x74, 0x72, 0x75, 0x65] \<and> s \<noteq> [0x66, 0x61, 0x6C, 0x73, 0x65] \<and>
     (case strtod nan s of Some (_, []) \<Rightarrow> False | _ \<Rightarrow> True)"

fun text_ok :: "(bytes \<Rightarrow> u64) \<Rightarrow> CoreconfValue \<Rightarrow> bool" where
  "text_ok nan (CORECONF_HASHMAP hm) \<longleftrightarrow> list_all (\<lambda>obj. text_ok nan (snd obj)) (hm_objects hm)"
| "text_ok nan (CORECONF_STRING s) \<longleftrightarrow> plain_word nan s"
| "text_ok nan (CORECONF_ARRAY _) \<longleftrightarrow> False"
| "text_ok nan (CORECONF_REAL _) \<longleftrightarrow> False"
| "text_ok nan _ \<longleftrightarrow> True"

fun text_of :: "CoreconfValue \<Rightarrow> bytes" where
  "text_of (CORECONF_HASHMAP hm) =
     [0x7B] @ tl (concat (map (\<lambda>obj. [0x2C] @ decimal (unat (fst obj)) @ [0x3A] @ text_of (snd obj)) (hm_objects hm))) @ [0x7D]"
| "text_of (CORECONF_STRING s) = s"
| "text_of (CORECONF_ARRAY _) = []"
| "text_of (CORECONF_REAL _) = []"
| "text_of (CORECONF_INT_8 v) = signed_decimal (sint v)"
| "text_of (CORECONF_INT_16 v) = signed_decimal (sint v)"
| "text_of (CORECONF_INT_32 v) = signed_decimal (sint v)"
| "text_of (CORECONF_INT_64 v) = signed_decimal (sint v)"
| "text_of (CORECONF_UINT_8 v) = decimal (unat v)"
| "text_of (CORECONF_UINT_16 v) = decimal (unat v)"
| "text_of (CORECONF_UINT_32 v) = decimal (unat v)"
| "text_of (CORECONF_UINT_64 v) = decimal (unat v)"
| "text_of CORECONF_TRUE = [0x74, 0x72, 0x75, 0x65]"
| "text_of CORECONF_FALSE = [0x66, 0x61, 0x6C, 0x73, 0x65]"
| "text_of CORECONF_NULL = [0x6E, 0x75, 0x6C, 0x6C]"

definition text_object :: "CoreconfValue CoreconfObject \<Rightarrow> bytes" where
  "text_object obj = [0x2C] @ decimal (unat (fst obj)) @ [0x3A] @ text_of (snd obj)"

text \<open>A value ends at the end of the text or at a comma or brace.\<close>

definition ends_value :: "bytes \<Rightarrow> bool" where
  "ends_value rest \<longleftrightarrow> rest = [] \<or> value_end (hd rest)"

lemma ends_value_skip: "ends_value rest \<Longrightarrow> skip_spaces rest = rest"
  by (cases rest) (auto simp: ends_value_def skip_spaces_def value_end_def)

lemma length_decimal: "n < 10 ^ k \<Longrightarrow> 0 < k \<Longrightarrow> length (decimal n) \<le> k"
proof (induction n arbitrary: k rule: decimal.induct)
  case (1 n)
  show ?case
  proof (cases "n < 10")
    case True
    then show ?thesis using 1(3) by (subst decimal.simps) simp
  next
    case False
    obtain j where k: "k = Suc j" using 1(3) by (cases k) auto
    then have j: "k = Suc j" "0 < j" using False 1(2) by (cases j; simp)+
    then have "n div 10 < 10 ^ j" using 1(2) by (simp add: div_less_iff_less_mult)
    then have "length (decimal (n div 10)) \<le> j" using 1(1)[OF False] j(2) by blast
    then show ?thesis using False j(1) by (subst decimal.simps) simp
  qed
qed

lemma length_decimal_u64: "length (decimal (unat (v :: u64))) \<le> 20"
proof (rule length_decimal)
  have "unat v < 2 ^ 64" using unsigned_less[where 'a = nat, of v] by simp
  then show "unat v < 10 ^ 20" by simp
qed simp

lemma parse_word:
  assumes "length s \<le> 255" and "list_all (\<lambda>b. \<not> value_end b) s"
    and "s = [] \<or> hd s \<noteq> 0x20 \<and> hd s \<noteq> 0x7B \<and> last s \<noteq> 0x20" and "ends_value rest"
  shows "parse_value_ptr nan (s @ rest) = (scalar_value nan s, rest)"
proof -
  have first: "hd (s @ rest) \<noteq> 0x20 \<and> hd (s @ rest) \<noteq> 0x7B \<or> s @ rest = []"
    using assms(3,4) by (cases s) (auto simp: ends_value_def value_end_def)
  then have skip: "skip_spaces (s @ rest) = s @ rest"
    unfolding skip_spaces_def by (cases "s @ rest") auto
  have split: "takeWhile (\<lambda>b. \<not> value_end b) (s @ rest) = s" "dropWhile (\<lambda>b. \<not> value_end b) (s @ rest) = rest"
    using assms(2,4) by (cases rest; auto simp: ends_value_def list_all_iff takeWhile_append dropWhile_append)+
  have "value_text s = s"
    using assms(1,3) by (cases s rule: rev_cases) (auto simp: value_text_def)
  then show ?thesis using first skip split by (subst parse_value_ptr.simps) auto
qed

lemma decimal_word:
  assumes "n < 10 ^ 20"
  shows "length (decimal n) \<le> 20" "list_all (\<lambda>b. \<not> value_end b) (decimal n)" "last (decimal n) \<noteq> 0x20"
  using length_decimal[OF assms] decimal_no_letter[of _ n] digit_not is_digit_decimal[OF last_in_set[OF decimal_ne], of n]
  by (auto simp: list_all_iff is_digit_def word_le_nat_alt)

lemma parse_uint:
  assumes "ends_value rest"
  shows "parse_value_ptr nan (decimal (unat (v :: u64)) @ rest) = (CORECONF_UINT_64 v, rest)"
proof -
  have "unat v < 2 ^ 64" using unsigned_less[where 'a = nat, of v] by simp
  then have "unat v < 10 ^ 20" by simp
  note w = decimal_word[OF this]
  have "hd (decimal (unat v)) \<noteq> 0x20 \<and> hd (decimal (unat v)) \<noteq> 0x7B"
    using decimal_first[of "unat v"] by (metis list.sel(1))
  then show ?thesis using parse_word[OF _ w(2) _ assms] w by (simp add: scalar_value_uint)
qed

lemma parse_int:
  assumes "ends_value rest"
  shows "parse_value_ptr nan (signed_decimal (sint (v :: u64)) @ rest) = (decoded_int v, rest)"
proof -
  let ?s = "signed_decimal (sint v)"
  obtain n where n: "n = nat \<bar>sint v\<bar>" by simp
  have "\<bar>sint v\<bar> \<le> 2 ^ 63" using sint_greater_eq[of v] sint_less[of v] by simp
  then have "n < 10 ^ 20" using n by simp
  note w = decimal_word[OF this]
  have s: "?s = (if sint v < 0 then 0x2D # decimal n else decimal n)" using n by (simp add: signed_decimal_def)
  have "hd (decimal n) \<noteq> 0x20 \<and> hd (decimal n) \<noteq> 0x7B" using decimal_first[of n] by (metis list.sel(1))
  then have "hd ?s \<noteq> 0x20 \<and> hd ?s \<noteq> 0x7B \<and> last ?s \<noteq> 0x20" using w(3) s decimal_ne by simp
  moreover have "list_all (\<lambda>b. \<not> value_end b) ?s" using w(2) s by (simp add: value_end_def)
  moreover have "length ?s \<le> 255" using w(1) s by simp
  ultimately have "parse_value_ptr nan (?s @ rest) = (scalar_value nan ?s, rest)" using assms by (intro parse_word) auto
  then show ?thesis by (simp only: scalar_value_int)
qed

lemma parse_name:
  assumes "ends_value rest"
  shows "parse_value_ptr nan ([0x74, 0x72, 0x75, 0x65] @ rest) = (CORECONF_TRUE, rest)"
    and "parse_value_ptr nan ([0x66, 0x61, 0x6C, 0x73, 0x65] @ rest) = (CORECONF_FALSE, rest)"
    and "parse_value_ptr nan ([0x6E, 0x75, 0x6C, 0x6C] @ rest) = (CORECONF_NULL, rest)"
  by (subst parse_word[OF _ _ _ assms]; simp add: value_end_def scalar_value_def createCoreconfBoolean_def)+

lemma parse_string:
  assumes "plain_word nan s" and "ends_value rest"
  shows "parse_value_ptr nan (s @ rest) = (CORECONF_STRING s, rest)"
proof -
  have "0 \<notin> set s" using assms(1) by (auto simp: plain_word_def list_all_iff)
  then have "c_string s = s" by (auto simp: c_string_def takeWhile_eq_all_conv)
  then have "scalar_value nan s = CORECONF_STRING s"
    using assms(1) by (auto simp: scalar_value_def plain_word_def createCoreconfString_def split: option.splits list.splits)
  moreover have "list_all (\<lambda>b. \<not> value_end b) s" using assms(1) by (auto simp: plain_word_def list_all_iff)
  ultimately show ?thesis using parse_word[of s rest nan] assms by (simp add: plain_word_def)
qed

text \<open>The entries of a map, each behind a comma.\<close>

lemma parse_value_skip: "parse_value_ptr nan (skip_spaces p) = parse_value_ptr nan p"
proof -
  have "skip_spaces (skip_spaces p) = skip_spaces p" by (simp add: skip_spaces_def dropWhile_idem)
  moreover have "skip_spaces [] = []" by (simp add: skip_spaces_def)
  ultimately show ?thesis by (subst (1 2) parse_value_ptr.simps) auto
qed

lemma read_key_decimal: "read_key (decimal (unat (k :: u64)) @ 0x3A # p) = Some (k, skip_spaces p)"
proof -
  let ?t = "decimal (unat k) @ 0x3A # p"
  have nd: "\<not> is_digit 0x3A" by (simp add: is_digit_def word_le_nat_alt)
  obtain b bs where b: "decimal (unat k) = b # bs" "b \<noteq> 0x2D" "b \<noteq> 0x2B" "\<not> is_space b" by (rule decimal_first)
  have "snd (split_sign (dropWhile is_space ?t)) = ?t" using b by (simp add: split_sign_def)
  moreover have "dropWhile is_digit ?t = 0x3A # p"
    using is_digit_decimal[of _ "unat k"] nd by (subst dropWhile_append2) auto
  ultimately have "strtoull_end ?t = Some (k, 0x3A # p)"
    using strtoull10_decimal_rest[of "0x3A # p" k] nd by (simp add: strtoull_end_def)
  then show ?thesis by (simp add: read_key_def skip_spaces_def)
qed

lemma map_ptr_loop_step:
  assumes "parse_value_ptr nan (t @ rest) = (v, rest)" and "ends_value rest" and "sep = [] \<or> sep = [0x2C]"
  shows "map_ptr_loop nan m (sep @ decimal (unat k) @ 0x3A # t @ rest) =
    map_ptr_loop nan (snd (insertCoreconfHashMap m k v)) rest"
proof -
  let ?e = "decimal (unat k) @ 0x3A # t @ rest"
  obtain b bs where b: "decimal (unat k) = b # bs" "b \<noteq> 0x20" "\<not> value_end b" by (rule decimal_first)
  then have "skip_separators (sep @ ?e) = ?e" "hd (sep @ ?e) \<noteq> 0x7D" "hd ?e \<noteq> 0x7D"
    using assms(3) by (auto simp: skip_separators_def value_end_def)
  moreover have "parse_value_ptr nan (skip_spaces (t @ rest)) = (v, rest)" using assms(1) by (simp add: parse_value_skip)
  ultimately show ?thesis
    using ends_value_skip[OF assms(2)] by (subst map_ptr_loop.simps) (simp add: read_key_decimal)
qed

lemma map_ptr_loop_text:
  assumes "\<forall>obj \<in> set objs. \<forall>rest. ends_value rest \<longrightarrow> parse_value_ptr nan (text_of (snd obj) @ rest) = (norm (snd obj), rest)"
  shows "map_ptr_loop nan m (concat (map text_object objs) @ 0x7D # rest) =
    (hm_of_list (map (\<lambda>obj. (fst obj, norm (snd obj))) objs) m, 0x7D # rest)"
  using assms
proof (induction objs arbitrary: m)
  case Nil
  then show ?case by (subst map_ptr_loop.simps) (simp add: hm_of_list_def)
next
  case (Cons obj objs)
  let ?rest = "concat (map text_object objs) @ 0x7D # rest"
  have e: "ends_value ?rest" by (cases objs) (auto simp: ends_value_def value_end_def text_object_def)
  then have "parse_value_ptr nan (text_of (snd obj) @ ?rest) = (norm (snd obj), ?rest)" using Cons.prems by simp
  from map_ptr_loop_step[OF this e, of "[0x2C]" m "fst obj"] show ?case
    using Cons by (simp add: text_object_def[of obj] hm_of_list_def)
qed

lemma sint_scast_u64:
  assumes "LENGTH('a) \<le> 64"
  shows "sint (scast (w :: 'a :: len word) :: u64) = sint w"
proof -
  have "(2 :: int) ^ (LENGTH('a) - Suc 0) \<le> 2 ^ 63" using assms by (intro power_increasing) auto
  then have "- (2 ^ 63) \<le> sint w" "sint w < 2 ^ 63" using sint_greater_eq[of w] sint_less[of w] by linarith+
  then show ?thesis by (simp add: signed_scast_eq signed_take_bit_int_eq_self)
qed

lemma parse_narrow:
  assumes "ends_value rest" and "LENGTH('a) \<le> 64"
  shows "parse_value_ptr nan (signed_decimal (sint (w :: 'a :: len word)) @ rest) = (decoded_int (scast w), rest)"
    and "parse_value_ptr nan (decimal (unat w) @ rest) = (CORECONF_UINT_64 (ucast w), rest)"
proof -
  show "parse_value_ptr nan (signed_decimal (sint w) @ rest) = (decoded_int (scast w), rest)"
    using parse_int[OF assms(1), of nan "scast w"] sint_scast_u64[OF assms(2), of w] by simp
  have "(2 :: nat) ^ LENGTH('a) \<le> 2 ^ 64" using assms(2) by (intro power_increasing) auto
  then have "unat w < 2 ^ 64" using unsigned_less[where 'a = nat, of w] by linarith
  then have "unat (ucast w :: u64) = unat w" by (simp add: unsigned_ucast_eq take_bit_nat_eq_self)
  then show "parse_value_ptr nan (decimal (unat w) @ rest) = (CORECONF_UINT_64 (ucast w), rest)"
    using parse_uint[OF assms(1), of nan "ucast w"] by simp
qed

lemma parse_text_aux:
  "text_ok nan v \<Longrightarrow> ends_value rest \<Longrightarrow> parse_value_ptr nan (text_of v @ rest) = (norm v, rest)"
proof (induction v arbitrary: rest rule: coreconf_induct)
  case (array xs)
  then show ?case by simp
next
  case (hashmap hm)
  let ?objs = "hm_objects hm"
  let ?r = "\<lambda>rest. (hm_of_list (map (\<lambda>obj. (fst obj, norm (snd obj))) ?objs) empty_hashmap, 0x7D # rest)"
  have IH: "\<forall>obj \<in> set ?objs. \<forall>rest. ends_value rest \<longrightarrow> parse_value_ptr nan (text_of (snd obj) @ rest) = (norm (snd obj), rest)"
    using hashmap by (simp add: list_all_iff)
  have loop: "map_ptr_loop nan empty_hashmap (tl (concat (map text_object ?objs)) @ 0x7D # rest) = ?r rest"
  proof (cases ?objs)
    case Nil
    then show ?thesis using map_ptr_loop_text[OF IH, of empty_hashmap rest] by simp
  next
    case (Cons obj objs)
    let ?rest = "concat (map text_object objs) @ 0x7D # rest"
    have e: "ends_value ?rest" by (cases objs) (auto simp: ends_value_def value_end_def text_object_def)
    then have v: "parse_value_ptr nan (text_of (snd obj) @ ?rest) = (norm (snd obj), ?rest)" using IH Cons by simp
    show ?thesis
      using map_ptr_loop_step[OF v e, of "[]" empty_hashmap "fst obj"] map_ptr_loop_step[OF v e, of "[0x2C]" empty_hashmap "fst obj"]
        map_ptr_loop_text[OF IH, of empty_hashmap rest] Cons by (simp add: text_object_def)
  qed
  have t: "text_of (CORECONF_HASHMAP hm) @ rest = 0x7B # tl (concat (map text_object ?objs)) @ 0x7D # rest"
    by (simp add: text_object_def[abs_def])
  have "skip_spaces (0x7B # q) = 0x7B # q" for q by (simp add: skip_spaces_def)
  then show ?case unfolding t using loop by (subst parse_value_ptr.simps) simp
next
  case (scalar v)
  show ?case
  proof (cases v)
    case (CORECONF_STRING x)
    then have "0 \<notin> set x" using scalar by (auto simp: plain_word_def list_all_iff)
    then have "c_string x = x" by (auto simp: c_string_def takeWhile_eq_all_conv)
    then show ?thesis using scalar CORECONF_STRING parse_string by simp
  qed (use scalar parse_name[OF scalar(4)] in \<open>auto simp: parse_narrow parse_int parse_uint\<close>)
qed


lemma text_no_nul: "text_ok nan v \<Longrightarrow> 0 \<notin> set (text_of v)"
proof (induction v rule: coreconf_induct)
  case (array xs)
  then show ?case by simp
next
  case (hashmap hm)
  have "0 \<notin> set (concat (map text_object (hm_objects hm)))"
    using hashmap decimal_no_nul by (auto simp: text_object_def list_all_iff)
  then have "0 \<notin> set (tl (concat (map text_object (hm_objects hm))))" by (metis list.set_sel(2) tl_Nil)
  then show ?case by (simp add: text_object_def[abs_def])
next
  case (scalar v)
  then show ?case
    using decimal_no_nul by (cases v) (auto simp: signed_decimal_def plain_word_def list_all_iff)
qed

lemma parse_text:
  assumes "text_ok nan v"
  shows "parse_value nan (text_of v) = norm v"
proof -
  have "c_string (text_of v) = text_of v"
    using text_no_nul[OF assms] by (auto simp: c_string_def takeWhile_eq_all_conv)
  moreover have "parse_value_ptr nan (text_of v) = (norm v, [])"
    using parse_text_aux[OF assms, of "[]"] by (simp add: ends_value_def)
  ultimately show ?thesis by (simp add: parse_value_def)
qed

section \<open>Words of a line\<close>

definition shell_word :: "bytes \<Rightarrow> bool" where
  "shell_word w \<longleftrightarrow> w \<noteq> [] \<and> list_all (\<lambda>b. b \<noteq> 0 \<and> b \<noteq> 0x0D \<and> \<not> word_end b) w"

text \<open>Words joined by single spaces.\<close>

fun join_words :: "bytes list \<Rightarrow> bytes" where
  "join_words [] = []"
| "join_words [w] = w"
| "join_words (w # v # ws) = w @ 0x20 # join_words (v # ws)"

lemma join_words_Cons: "join_words (w # ws) = (if ws = [] then w else w @ 0x20 # join_words ws)"
  by (cases ws) simp_all

lemma tokenize_step:
  assumes "shell_word w"
  shows "tokenize_loop (Suc n) w = [w]" and "tokenize_loop (Suc n) (w @ 0x20 # p) = w # tokenize_loop n p"
proof -
  obtain b bs where b: "w = b # bs" using assms by (cases w) (auto simp: shell_word_def)
  then have hd: "\<not> is_blank b" "b \<noteq> 0x0A" using assms by (auto simp: shell_word_def is_blank_def word_end_def)
  have all: "takeWhile (\<lambda>b. \<not> word_end b) w = w" "dropWhile (\<lambda>b. \<not> word_end b) w = []"
    "takeWhile (\<lambda>b. \<not> word_end b) (w @ 0x20 # p) = w" "dropWhile (\<lambda>b. \<not> word_end b) (w @ 0x20 # p) = 0x20 # p"
    using assms by (auto simp: shell_word_def list_all_iff word_end_def takeWhile_eq_all_conv takeWhile_append dropWhile_append)
  have "tokenize_loop n [] = []" by (cases n) simp_all
  then show "tokenize_loop (Suc n) w = [w]" "tokenize_loop (Suc n) (w @ 0x20 # p) = w # tokenize_loop n p"
    using all hd b by simp_all
qed

lemma tokenize_words:
  assumes "\<forall>w \<in> set ws. shell_word w" and "length ws \<le> n"
  shows "tokenize_loop n (join_words ws) = ws"
  using assms
proof (induction ws arbitrary: n)
  case Nil
  then show ?case by (cases n) simp_all
next
  case (Cons w ws)
  then obtain m where m: "n = Suc m" "length ws \<le> m" by (cases n) auto
  have w: "shell_word w" and ws: "\<forall>w \<in> set ws. shell_word w" using Cons.prems by simp_all
  show ?case
  proof (cases "ws = []")
    case True
    then show ?thesis using tokenize_step(1)[OF w, of m] m(1) by (simp only: join_words_Cons simp_thms if_True)
  next
    case False
    then have "tokenize_loop n (join_words (w # ws)) = w # tokenize_loop m (join_words ws)"
      using tokenize_step(2)[OF w] m(1) by (simp only: join_words_Cons if_False)
    then show ?thesis using Cons.IH[OF ws m(2)] by simp
  qed
qed

lemma join_words_bytes:
  assumes "\<forall>w \<in> set ws. shell_word w"
  shows "0x0A \<notin> set (join_words ws)" "0x0D \<notin> set (join_words ws)" "0 \<notin> set (join_words ws)"
  using assms
  by (induction ws) (auto simp: join_words_Cons shell_word_def list_all_iff word_end_def)

text \<open>A line of the standard input with such words is read, trimmed and split into them.\<close>

lemma fgets_line:
  assumes "0x0A \<notin> set l" and "length l + 1 < sz"
  shows "fgets sz (l @ 0x0A # rest) = Some (l @ [0x0A], rest)"
proof -
  have "takeWhile (\<lambda>b. b \<noteq> 0x0A) (l @ 0x0A # rest) = l" using assms(1) by (subst takeWhile_append2) auto
  then show ?thesis using assms(2) by (simp add: fgets_def Let_def)
qed

lemma trim_line_newline:
  assumes "0x0A \<notin> set l" and "0x0D \<notin> set l" and "0 \<notin> set l"
  shows "trim_line (l @ [0x0A]) = l"
proof -
  have "c_string (l @ [0x0A]) = l @ [0x0A]" using assms(3) by (auto simp: c_string_def takeWhile_eq_all_conv)
  moreover have "dropWhile (\<lambda>b. b = 0x0A \<or> b = 0x0D) (rev l) = rev l"
    using assms(1,2) by (cases "rev l") (auto simp: rev_eq_Cons_iff)
  ultimately show ?thesis by (simp add: trim_line_def)
qed

lemma read_line_words:
  assumes "\<forall>w \<in> set ws. shell_word w" and "length ws \<le> 32" and "length (join_words ws) \<le> 510"
  shows "fgets 512 (join_words ws @ 0x0A # rest) = Some (join_words ws @ [0x0A], rest)"
    and "tokenize (trim_line (join_words ws @ [0x0A])) = ws"
  using fgets_line[of "join_words ws" 512 rest] trim_line_newline[of "join_words ws"] tokenize_words[of ws 32]
    join_words_bytes[OF assms(1)] assms
  by (simp_all add: tokenize_def MAX_ARGS_def)

end
