(* ===== verification/Cli_Print.thy ===== *)
theory Cli_Print
  imports Cli_Text Post Get_Put
begin

text \<open>
  What the client (\<open>src/iot_containers/iot_apps/coreconf_cli.c\<close>) prints of an answer: values and datastores
  (\<open>print_value_r\<close>, \<open>print_datastore\<close>) and the answers to POST (\<open>print_post_response\<close>), as the bytes that go to the standard
  output. Decoding takes fuel, as in \<open>Serialization\<close>; \<open>None\<close> is a call that has not returned.
\<close>

section \<open>Values\<close>

definition spaces :: "nat \<Rightarrow> bytes" where
  "spaces n = replicate n 0x20"

text \<open>\<open>%-8llu\<close>.\<close>

definition padded :: "u64 \<Rightarrow> bytes" where
  "padded v = (let d = decimal (unat v) in d @ spaces (8 - length d))"

fun print_value_r :: "CoreconfValue \<Rightarrow> nat \<Rightarrow> bytes" where
  "print_value_r (CORECONF_REAL d) depth = format_g d"
| "print_value_r (CORECONF_STRING s) depth = [0x22] @ c_string s @ [0x22]"
| "print_value_r (CORECONF_UINT_64 v) depth = decimal (unat v)"
| "print_value_r (CORECONF_INT_64 v) depth = signed_decimal (sint v)"
| "print_value_r (CORECONF_UINT_32 v) depth = decimal (unat v)"
| "print_value_r (CORECONF_UINT_16 v) depth = decimal (unat v)"
| "print_value_r (CORECONF_UINT_8 v) depth = decimal (unat v)"
| "print_value_r (CORECONF_INT_32 v) depth = signed_decimal (sint v)"
| "print_value_r (CORECONF_INT_16 v) depth = signed_decimal (sint v)"
| "print_value_r (CORECONF_INT_8 v) depth = signed_decimal (sint v)"
| "print_value_r CORECONF_TRUE depth = [0x74, 0x72, 0x75, 0x65]"
| "print_value_r CORECONF_FALSE depth = [0x66, 0x61, 0x6C, 0x73, 0x65]"
| "print_value_r CORECONF_NULL depth = [0x6E, 0x75, 0x6C, 0x6C]"
| "print_value_r (CORECONF_HASHMAP m) depth =
     (let indent = spaces (2 * min depth 10) in
      [0x7B, 0x0A] @
      concat (map (\<lambda>obj. indent @ spaces 2 @ decimal (unat (fst obj)) @ [0x20, 0x3A, 0x20] @
                          print_value_r (snd obj) (depth + 1) @ [0x0A]) (hm_objects m)) @
      indent @ [0x7D])"
| "print_value_r (CORECONF_ARRAY elements) depth =
     (let indent = spaces (2 * min depth 10) in
      [0x5B, 0x0A] @ concat (map (\<lambda>v. indent @ spaces 2 @ print_value_r v (depth + 1) @ [0x0A]) elements) @
      indent @ [0x5D])"

definition rule_mark :: bytes where
  "rule_mark = [0xE2, 0x94, 0x80, 0xE2, 0x94, 0x80]"

definition print_entry :: "CoreconfValue CoreconfObject \<Rightarrow> bytes" where
  "print_entry obj = spaces 4 @ padded (fst obj) @ [0x20, 0x3A, 0x20] @ print_value_r (snd obj) 1 @ [0x0A]"

definition datastore_text :: "CoreconfValue CoreconfHashMap \<Rightarrow> bytes" where
  "datastore_text hm =
     [0x0A] @ concat (map print_entry (hm_objects hm)) @
     spaces 4 @ rule_mark @ [0x20] @ decimal (length (hm_objects hm)) @ ascii '' root node(s) '' @ rule_mark @ [0x0A]"

definition print_datastore :: "nat \<Rightarrow> zcbor_state \<Rightarrow> bytes \<Rightarrow> nat \<Rightarrow> bytes option" where
  "print_datastore fuel old data len =
     (case parse_get_response fuel old (Some data) len of
        None \<Rightarrow> None
      | Some (Some (CORECONF_HASHMAP hm)) \<Rightarrow> Some (datastore_text hm)
      | Some _ \<Rightarrow> Some (ascii ''(decode error)'' @ [0x0A]))"

section \<open>Answers to POST\<close>

text \<open>The key of an item: a SID, or a SID with a string cut to 127 bytes. \<open>Inr None\<close> is a decoding error.\<close>

definition print_post_key :: "zcbor \<Rightarrow> c_fault + (bytes \<times> zcbor) option" where
  "print_post_key dec =
     (case read_header dec of
        Inl f \<Rightarrow> Inl f
      | Inr b \<Rightarrow>
          if ZCBOR_MAJOR_TYPE b = ZCBOR_MAJOR_TYPE_PINT
          then (case zcbor_uint64_decode dec of
                  (None, _) \<Rightarrow> Inr None
                | (Some sid, dec) \<Rightarrow> Inr (Some (spaces 4 @ padded sid @ [0x20, 0x3A, 0x20], dec)))
          else if ZCBOR_MAJOR_TYPE b = ZCBOR_MAJOR_TYPE_LIST
          then (case zcbor_list_start_decode dec of (False, _) \<Rightarrow> Inr None | (True, dec) \<Rightarrow>
               (case zcbor_uint64_decode dec of (None, _) \<Rightarrow> Inr None | (Some sid, dec) \<Rightarrow>
               (case zcbor_tstr_decode dec of (None, _) \<Rightarrow> Inr None | (Some zs, dec) \<Rightarrow>
               (case zcbor_list_end_decode dec of (False, _) \<Rightarrow> Inr None | (True, dec) \<Rightarrow>
                  let kl = (if unat (snd zs) < 127 then unat (snd zs) else 127);
                      iid_key = c_string (take kl (drop (fst zs) (mem dec)))
                  in Inr (Some (spaces 4 @ [0x5B] @ decimal (unat sid) @ [0x2C, 0x22] @ iid_key @ [0x22, 0x5D, 0x20, 0x3A, 0x20],
                                dec))))))
          else Inr None)"

text \<open>The entries of a map of strings, after what is already printed; the flag is \<open>False\<close> after an error.\<close>

partial_function (option) print_entries :: "bool \<Rightarrow> bytes \<Rightarrow> zcbor \<Rightarrow> (bool \<times> bytes \<times> zcbor) option" where
  "print_entries first out dec =
     (if zcbor_array_at_end dec then Some (True, out, dec)
      else case zcbor_uint64_decode dec of
          (None, dec) \<Rightarrow> Some (False, out, dec)
        | (Some inner_sid, dec) \<Rightarrow>
            (case zcbor_tstr_decode dec of
               (None, dec) \<Rightarrow> Some (False, out, dec)
             | (Some zs, dec) \<Rightarrow>
                 print_entries False
                   (out @ (if first then [] else [0x2C, 0x20]) @ decimal (unat inner_sid) @ [0x3A, 0x22] @
                    c_string (take (unat (snd zs)) (drop (fst zs) (mem dec))) @ [0x22]) dec))"

declare print_entries.simps [code]

text \<open>The value of an item: null, a map of strings, or something that is not printed.\<close>

definition print_post_value :: "zcbor \<Rightarrow> (bool \<times> bytes \<times> zcbor) option" where
  "print_post_value dec =
     (case zcbor_nil_expect dec of
        (True, dec) \<Rightarrow> Some (True, [0x6E, 0x75, 0x6C, 0x6C], dec)
      | (False, dec) \<Rightarrow>
          (case zcbor_map_start_decode dec of
             (True, dec) \<Rightarrow>
               (case print_entries True [0x7B] dec of
                  None \<Rightarrow> None
                | Some (False, out, dec) \<Rightarrow> Some (False, out @ ascii ''(decode error)'', dec)
                | Some (True, out, dec) \<Rightarrow>
                    (case zcbor_map_end_decode dec of
                       (False, dec) \<Rightarrow> Some (False, out @ ascii ''(decode error)'', dec)
                     | (True, dec) \<Rightarrow> Some (True, out @ [0x7D], dec)))
           | (False, dec) \<Rightarrow> Some (True, ascii ''(unsupported value)'', dec)))"

definition decode_error :: bytes where
  "decode_error = spaces 4 @ ascii ''(decode error)'' @ [0x0A]"

text \<open>One item, after what is already printed: \<open>None\<close> in place of the decoder's state when the function returns.\<close>

definition print_post_item :: "bytes \<Rightarrow> zcbor \<Rightarrow> (c_fault + bytes \<times> zcbor option) option" where
  "print_post_item shown dec =
     (case zcbor_map_start_decode dec of
        (False, _) \<Rightarrow> Some (Inr (shown @ decode_error, None))
      | (True, dec) \<Rightarrow>
          if zcbor_array_at_end dec then Some (Inr (shown @ decode_error, None))
          else (case print_post_key dec of
              Inl f \<Rightarrow> Some (Inl f)
            | Inr None \<Rightarrow> Some (Inr (shown @ decode_error, None))
            | Inr (Some (key, dec)) \<Rightarrow>
                (case print_post_value dec of
                   None \<Rightarrow> None
                 | Some (False, out, _) \<Rightarrow> Some (Inr (shown @ key @ out, None))
                 | Some (True, out, dec) \<Rightarrow>
                     if \<not> zcbor_array_at_end dec
                     then Some (Inr (shown @ key @ out @ [0x0A] @ decode_error, None))
                     else (case zcbor_map_end_decode dec of
                         (False, _) \<Rightarrow> Some (Inr (shown @ key @ out @ [0x0A] @ decode_error, None))
                       | (True, dec) \<Rightarrow> Some (Inr (shown @ key @ out @ [0x0A], Some dec))))))"

text \<open>The loop over the items; \<open>n\<close> counts the printed ones.\<close>

partial_function (option) print_post_loop ::
  "zcbor_state \<Rightarrow> bytes \<Rightarrow> nat \<Rightarrow> nat \<Rightarrow> nat \<Rightarrow> bytes \<Rightarrow> (c_fault + bytes) option" where
  "print_post_loop old data len ptr n shown =
     (if ptr < len
      then case print_post_item shown (zcbor_new_decode_state old 12 data ptr (len - ptr) 1) of
          None \<Rightarrow> None
        | Some r \<Rightarrow>
            (case r of
               Inl f \<Rightarrow> Some (Inl f)
             | Inr (out, rest) \<Rightarrow>
                 (case rest of
                    None \<Rightarrow> Some (Inr out)
                  | Some dec \<Rightarrow> print_post_loop (zcbor_state.truncate dec) data len (payload dec) (n + 1) out))
      else Some (Inr (shown @ spaces 4 @ ascii ''-- '' @ decimal n @ ascii '' root node(s) --'' @ [0x0A])))"

declare print_post_loop.simps [code]

definition print_post_response :: "zcbor_state \<Rightarrow> bytes \<Rightarrow> nat \<Rightarrow> (c_fault + bytes) option" where
  "print_post_response old data len = print_post_loop old data len 0 0 [0x0A]"

end
