(* ===== verification/Cli.thy ===== *)
theory Cli
  imports Cli_Print Server
begin

text \<open>
  The commands of the client \<open>src/iot_containers/iot_apps/coreconf_cli.c\<close> over its global state, its standard input and output
  and the network. libcoap with everything behind it is an interface: a state \<open>'n\<close> and, in the environment, what
  \<open>coap_send\<close> and the calls of \<open>coap_io_process\<close> behind it do to it and which messages they hand to \<open>response_handler\<close>. A
  command returns the new state, faults, or does not return within the fuel of the decoder. The error stream is left out.
\<close>

section \<open>State and network\<close>

text \<open>A request as the commands build it, and a message as \<open>response_handler\<close> reads it.\<close>

record pdu =
  pdu_resource :: coap_resource
  pdu_method :: coap_method
  pdu_observe :: bool
  pdu_cf :: "u16 option"
  pdu_accept :: "u16 option"
  pdu_data :: bytes

record message =
  msg_class :: nat
  msg_detail :: nat
  msg_observe :: "u32 option"
  msg_data :: "bytes option"

text \<open>The global variables, the rest of the standard input, the standard output, and the network.\<close>

record 'n cli =
  g_device_type :: bytes
  cli_sys_sids :: RuntimeSystemSids
  cli_if_sids :: RuntimeInterfacesSids
  cli_ops_sids :: RuntimeOperationSids
  g_response_received :: bool
  g_response_buf :: bytes
  g_response_len :: nat
  g_response_code :: "nat \<times> nat"
  g_observe_mode :: bool
  cli_stdin :: bytes
  cli_stdout :: bytes
  cli_net :: 'n

text \<open>
  What a command finds besides the state: the fuel of the decoder, the old contents of the stack under the zcbor states and under
  the arrays of 4096 bytes, the doubles that \<open>strtod\<close> makes of a NaN, the time, and the network. \<open>net_send\<close> is \<open>coap_send\<close> with the wait for the
  answer: the messages that arrive in it, \<open>None\<close> for \<open>COAP_INVALID_MID\<close>. \<open>net_listen\<close> are so many calls of
  \<open>coap_io_process\<close>.
\<close>

record 'n cli_env =
  cli_fuel :: nat
  cli_stack :: zcbor_state
  cli_buf :: bytes
  cli_nan :: "bytes \<Rightarrow> u64"
  cli_time :: "'n \<Rightarrow> u64"
  net_send :: "pdu \<Rightarrow> 'n \<Rightarrow> message list option \<times> 'n"
  net_listen :: "int \<Rightarrow> 'n \<Rightarrow> message list \<times> 'n"

type_synonym 'a run = "(c_fault + 'a) option"

definition return :: "'a \<Rightarrow> 'a run" where
  "return a = Some (Inr a)"

definition and_then :: "'a run \<Rightarrow> ('a \<Rightarrow> 'b run) \<Rightarrow> 'b run" where
  "and_then r f = (case r of None \<Rightarrow> None | Some (Inl e) \<Rightarrow> Some (Inl e) | Some (Inr a) \<Rightarrow> f a)"

lemma and_then_simps [simp]:
  "and_then None f = None" "and_then (Some (Inl e)) f = Some (Inl e)" "and_then (Some (Inr a)) f = f a"
  "and_then (return a) f = f a"
  by (simp_all add: and_then_def return_def)

definition say :: "bytes \<Rightarrow> 'n cli \<Rightarrow> 'n cli" where
  "say bs c = c\<lparr>cli_stdout := cli_stdout c @ bs\<rparr>"

definition newline :: bytes where
  "newline = [0x0A]"

text \<open>The section sign of the messages, in UTF-8.\<close>

definition section_sign :: bytes where
  "section_sign = [0xC2, 0xA7]"

text \<open>\<open>%d.%02d\<close>.\<close>

definition show_code :: "nat \<times> nat \<Rightarrow> bytes" where
  "show_code code =
     decimal (fst code) @ [0x2E] @ (if snd code < 10 then [0x30] else []) @ decimal (snd code)"

definition show_datastore :: "'n cli_env \<Rightarrow> 'n cli \<Rightarrow> 'n cli run" where
  "show_datastore env c =
     (case print_datastore (cli_fuel env) (cli_stack env) (g_response_buf c) (g_response_len c) of
        None \<Rightarrow> None
      | Some out \<Rightarrow> return (say out c))"

section \<open>Messages\<close>

text \<open>\<open>memcpy\<close> copies whatever came into the array of 4096 bytes.\<close>

definition response_handler :: "'n cli_env \<Rightarrow> message \<Rightarrow> 'n cli \<Rightarrow> 'n cli run" where
  "response_handler env recv c =
     (let data = (case msg_data recv of None \<Rightarrow> [] | Some bs \<Rightarrow> bs);
          c = c\<lparr>g_response_code := (msg_class recv, msg_detail recv)\<rparr> in
      if length data > BUFFER_SIZE then Some (Inl OutOfBoundsWrite)
      else let c = c\<lparr>g_response_buf := data @ drop (length data) (g_response_buf c), g_response_len := length data\<rparr> in
        and_then
          (case (g_observe_mode c, msg_observe recv) of
             (True, Some obs_seq) \<Rightarrow>
               let c = say (newline @ ascii ''[OBSERVE] notif seq='' @ decimal (unat obs_seq) @ ascii '' code='' @
                         show_code (g_response_code c) @ newline) c in
               and_then
                 (if g_response_len c > 0 then show_datastore env c
                  else return (say (ascii ''    (stream without payload)'' @ newline) c))
                 (\<lambda>c. return (say (ascii ''coreconf> '') c))
           | _ \<Rightarrow> return c)
          (\<lambda>c. return (c\<lparr>g_response_received := True\<rparr>)))"

fun receive :: "'n cli_env \<Rightarrow> message list \<Rightarrow> 'n cli \<Rightarrow> 'n cli run" where
  "receive env [] c = return c"
| "receive env (recv # msgs) c = and_then (response_handler env recv c) (receive env msgs)"

text \<open>\<open>coap_send\<close> and the loop that waits: \<open>False\<close> when the message could not be sent.\<close>

definition send_pdu :: "'n cli_env \<Rightarrow> pdu \<Rightarrow> 'n cli \<Rightarrow> (bool \<times> 'n cli) run" where
  "send_pdu env p c =
     (case net_send env p (cli_net c) of
        (None, n) \<Rightarrow> return (False, c\<lparr>cli_net := n\<rparr>)
      | (Some msgs, n) \<Rightarrow> and_then (receive env msgs (c\<lparr>cli_net := n\<rparr>)) (\<lambda>c. return (True, c)))"

definition send_and_wait :: "'n cli_env \<Rightarrow> pdu \<Rightarrow> 'n cli \<Rightarrow> (bool \<times> 'n cli) run" where
  "send_and_wait env p c =
     and_then (send_pdu env p (c\<lparr>g_response_received := False, g_response_len := 0\<rparr>)) (\<lambda>(sent, c).
       if \<not> sent then return (False, say (ascii '' Send error'' @ newline) c)
       else if \<not> g_response_received c then return (False, say (ascii ''Timeout'' @ newline) c)
       else return (True, say (ascii '' '' @ show_code (g_response_code c) @ ascii ''  '') c))"

definition request_pdu :: "coap_resource \<Rightarrow> coap_method \<Rightarrow> pdu" where
  "request_pdu res meth =
     \<lparr>pdu_resource = res, pdu_method = meth, pdu_observe = False, pdu_cf = None, pdu_accept = None, pdu_data = []\<rparr>"

text \<open>The commands that print nothing but a newline behind the code of the answer.\<close>

definition send_quietly :: "'n cli_env \<Rightarrow> pdu \<Rightarrow> 'n cli \<Rightarrow> 'n cli run" where
  "send_quietly env p c =
     and_then (send_and_wait env p c) (\<lambda>(ok, c). return (if ok then say newline c else c))"

section \<open>Compatibility with the server\<close>

text \<open>
  \<open>sscanf (payload, "sid-fingerprint=%" SCNu64, &remote_fp)\<close> on at most 127 bytes of the answer; the result is 0 or -1.
\<close>

definition scan_fingerprint :: "bytes \<Rightarrow> u64 option" where
  "scan_fingerprint str =
     (let lit = ascii ''sid-fingerprint='' in if prefix lit str then strtoull10 (drop (length lit) str) else None)"

definition check_server_sid_compatibility :: "'n cli_env \<Rightarrow> 'n cli \<Rightarrow> (int \<times> 'n cli) run" where
  "check_server_sid_compatibility env c =
     (let local_fp = compute_sid_fingerprint (cli_sys_sids c) (cli_if_sids c) (cli_ops_sids c) in
      and_then (send_pdu env (request_pdu RES_SID COAP_GET) (c\<lparr>g_response_received := False, g_response_len := 0\<rparr>))
        (\<lambda>(sent, c).
          if \<not> sent then return (-1, c)
          else if \<not> g_response_received c \<or> g_response_len c = 0 then return (-1, c)
          else let str = c_string (take (min (g_response_len c) 127) (g_response_buf c)) in
            case scan_fingerprint str of
              None \<Rightarrow> return (-1, c)
            | Some remote_fp \<Rightarrow>
                let c = say (ascii ''[SID] CLI local fingerprint='' @ decimal (unat local_fp) @ newline @
                             ascii ''[SID] Server fingerprint='' @ decimal (unat remote_fp) @ newline) c in
                if local_fp \<noteq> remote_fp then return (-1, c)
                else return (0, say (ascii ''[SID] client/server SID compatibility OK'' @ newline) c)))"

end
