(* ===== verification/Cli_Commands.thy ===== *)
theory Cli_Commands
  imports Cli
begin

text \<open>
  The commands of the client \<open>src/iot_containers/iot_apps/coreconf_cli.c\<close>: what each takes from its words, sends, and prints of
  the answer. A command gets the words behind its name.
\<close>

section \<open>Text\<close>

definition atof :: "(bytes \<Rightarrow> u64) \<Rightarrow> bytes \<Rightarrow> u64" where
  "atof nan str = (case strtod nan str of None \<Rightarrow> 0 | Some (d, _) \<Rightarrow> d)"

text \<open>\<open>atoi\<close>, which is undefined when the number is not an \<open>int\<close>.\<close>

definition atoi :: "bytes \<Rightarrow> c_fault + int" where
  "atoi str =
     (let v = fst (strtoimax10 str) in if v < - (2 ^ 31) \<or> v > 2 ^ 31 - 1 then Inl IntegerOverflow else Inr v)"

definition is_word :: "bytes \<Rightarrow> string \<Rightarrow> bool" where
  "is_word w str \<longleftrightarrow> w = ascii str"

section \<open>store\<close>

definition ietf_example :: bytes where
  "ietf_example = ascii ''ietf-example''"

definition store_example :: "RuntimeSystemSids \<Rightarrow> RuntimeInterfacesSids \<Rightarrow> CoreconfValue CoreconfHashMap" where
  "store_example sys ifs =
     (let
        clock_c = put_all empty_hashmap
          [(clock_current sys - clock sys, createCoreconfString (ascii ''2016-10-26T12:16:31Z'')),
           (clock_boot sys - clock sys, createCoreconfString (ascii ''2014-10-05T09:00:00Z''))];
        ifc = put_all empty_hashmap
          [(iface_name ifs - iface ifs, createCoreconfString (ascii ''eth0'')),
           (iface_description ifs - iface ifs, createCoreconfString (ascii ''Ethernet adaptor'')),
           (iface_type ifs - iface ifs, createCoreconfUint64 (identity_ethernet_csmacd ifs)),
           (iface_enabled ifs - iface ifs, createCoreconfBoolean True),
           (iface_oper_status ifs - iface ifs, createCoreconfUint64 3)];
        udp = put_all empty_hashmap
          [(ntp_server_udp_address sys - ntp_server_udp sys, createCoreconfString (ascii ''128.100.49.105''))];
        srv = put_all empty_hashmap
          [(ntp_server_name sys - ntp_server sys, createCoreconfString (ascii ''tac.nrc.ca'')),
           (ntp_server_prefer sys - ntp_server sys, createCoreconfBoolean False),
           (ntp_server_udp sys - ntp_server sys, CORECONF_HASHMAP udp)]
      in put_all empty_hashmap
          [(clock sys, CORECONF_HASHMAP clock_c),
           (iface ifs, projr (addToCoreconfArray createCoreconfArray (CORECONF_HASHMAP ifc))),
           (ntp_enabled sys, createCoreconfBoolean False),
           (ntp_server sys, projr (addToCoreconfArray createCoreconfArray (CORECONF_HASHMAP srv)))])"

definition store_sensor :: "bytes \<Rightarrow> u64 \<Rightarrow> u64 \<Rightarrow> CoreconfValue CoreconfHashMap" where
  "store_sensor tipo now valor =
     put_all empty_hashmap
       [(10, createCoreconfString tipo), (11, createCoreconfUint64 now), (20, createCoreconfReal valor),
        (21, createCoreconfString (ascii ''unit''))]"

text \<open>The array that the encoder has filled up to its payload pointer; its result is not looked at.\<close>

definition encode_data :: "'n cli_env \<Rightarrow> CoreconfValue \<Rightarrow> bytes" where
  "encode_data env v =
     (let enc = snd (coreconfToCBOR v (zcbor_new_encode_state (cli_stack env) 8 (cli_buf env) 0 BUFFER_SIZE 1))
      in take (payload enc) (mem enc))"

definition put_pdu :: "bytes \<Rightarrow> pdu" where
  "put_pdu bs = (request_pdu RES_C COAP_PUT)\<lparr>pdu_cf := Some CF_YANG_DATA_CBOR, pdu_data := bs\<rparr>"

definition loaded_message :: "'n cli \<Rightarrow> bytes" where
  "loaded_message c =
     ascii ''ietf-example datastore loaded (clock '' @ decimal (unat (clock (cli_sys_sids c))) @
     ascii '', ifaces '' @ decimal (unat (iface (cli_if_sids c))) @
     ascii '', ntp '' @ decimal (unat (ntp_enabled (cli_sys_sids c))) @ ascii ''/'' @
     decimal (unat (ntp_server (cli_sys_sids c))) @ ascii '')'' @ newline"

definition cmd_store :: "'n cli_env \<Rightarrow> bytes list \<Rightarrow> 'n cli \<Rightarrow> 'n cli run" where
  "cmd_store env argv c =
     (let tipo = (case argv of [] \<Rightarrow> g_device_type c | w # _ \<Rightarrow> w);
          valor = (case argv of _ # w # _ \<Rightarrow> atof (cli_nan env) w | _ \<Rightarrow> 0x4036800000000000);
          c = c\<lparr>g_device_type := take 63 tipo\<rparr>;
          example = (tipo = ietf_example) in
      if example \<and> (\<not> sys_loaded (cli_sys_sids c) \<or> \<not> if_loaded (cli_if_sids c))
      then return (say (ascii ''  Error: runtime SID dictionary not loaded'' @ newline) c)
      else let data = (if example then store_example (cli_sys_sids c) (cli_if_sids c)
                       else store_sensor tipo (cli_time env (cli_net c)) valor);
               bs = encode_data env (CORECONF_HASHMAP data);
               c = say (if example
                        then ascii ''  PUT /c (ietf-example '' @ section_sign @ ascii ''3.3.1, '' @ decimal (length bs) @
                             ascii '' bytes)... ''
                        else ascii ''  PUT /c (STORE, '' @ decimal (length bs) @ ascii '' bytes)... '') c
        in and_then (send_and_wait env (put_pdu bs) c) (\<lambda>(ok, c).
          return (if \<not> ok then c
                  else if example then say (loaded_message c) c
                  else say (ascii ''datastore initialized with SIDs 10,11,20,21'' @ newline) c)))"

section \<open>fetch and sfetch\<close>

text \<open>
  A word as an instance identifier: a SID, or \<open>[SID,key]\<close>, where a bracket at the end of the key is cut off. \<open>None\<close>
  where the comma is missing. Text that is not a number is the SID 0.
\<close>

definition read_iid_arg :: "bytes \<Rightarrow> InstanceIdentifier option" where
  "read_iid_arg arg =
     (if arg \<noteq> [] \<and> hd arg = 0x5B
      then (case strchr (tl arg) 0x2C of
              None \<Rightarrow> None
            | Some comma \<Rightarrow>
                let key = tl comma;
                    key = (if key \<noteq> [] \<and> last key = 0x5D then butlast key else key)
                in Some (IID_WITH_STR_KEY (strtoull_value (takeWhile (\<lambda>b. b \<noteq> 0x2C) (tl arg))) key))
      else Some (IID_SIMPLE (strtoull_value arg)))"

text \<open>The loop: the identifiers, or the first word that is not one.\<close>

fun read_iid_args :: "bytes list \<Rightarrow> bytes + InstanceIdentifier list" where
  "read_iid_args [] = Inr []"
| "read_iid_args (arg # argv) =
     (case read_iid_arg arg of
        None \<Rightarrow> Inl arg
      | Some iid \<Rightarrow> map_sum id (Cons iid) (read_iid_args argv))"

definition fetch_pdu :: "coap_resource \<Rightarrow> bytes \<Rightarrow> pdu" where
  "fetch_pdu res bs =
     (request_pdu res COAP_FETCH)\<lparr>pdu_cf := Some CF_YANG_IDENTIFIERS, pdu_accept := Some CF_YANG_INSTANCES, pdu_data := bs\<rparr>"

definition expected_iid :: "bytes \<Rightarrow> bytes" where
  "expected_iid arg = ascii ''  Error: expected [SID,key], received: '' @ arg @ newline"

text \<open>The datastore of the answer, or a remark when there is none; a failed request has printed why.\<close>

definition show_answer :: "'n cli_env \<Rightarrow> string \<Rightarrow> bool \<times> 'n cli \<Rightarrow> 'n cli run" where
  "show_answer env remark r =
     (case r of (ok, c) \<Rightarrow>
        if ok \<and> g_response_len c > 0 then show_datastore env c
        else if g_response_len c = 0 then return (say (ascii remark @ newline) c)
        else return c)"

definition cmd_fetch :: "'n cli_env \<Rightarrow> bytes list \<Rightarrow> 'n cli \<Rightarrow> 'n cli run" where
  "cmd_fetch env argv c =
     (if argv = []
      then return (say (ascii ''  Usage: fetch <SID> [SID...] [[SID,key]...]'' @ newline @
                        ascii ''  Ex:  fetch 1723 [1533,eth0]  (ejemplo '' @ section_sign @ ascii ''3.1.3.1 del draft)'' @ newline) c)
      else case read_iid_args (take 64 argv) of
          Inl arg \<Rightarrow> return (say (expected_iid arg) c)
        | Inr iids \<Rightarrow>
            (case create_fetch_request_with_iids (cli_stack env) (Some (cli_buf env)) BUFFER_SIZE (Some iids) of
               (len, buf) \<Rightarrow>
                 let c = say (ascii ''  FETCH /c ('' @ decimal (length iids) @ ascii '' IID(s), '' @ decimal len @
                              ascii '' bytes req)... '') c in
                 and_then (send_and_wait env (fetch_pdu RES_C (take len (the buf))) c) (show_answer env ''no payload'')))"

definition cmd_sfetch :: "'n cli_env \<Rightarrow> bytes list \<Rightarrow> 'n cli \<Rightarrow> 'n cli run" where
  "cmd_sfetch env argv c =
     (if argv = [] then return (say (ascii ''  Usage: sfetch <SID> [SID...] [[SID,key]...]'' @ newline) c)
      else case read_iid_args (take 64 argv) of
          Inl arg \<Rightarrow> return (say (expected_iid arg) c)
        | Inr iids \<Rightarrow>
            (case create_fetch_request_with_iids (cli_stack env) (Some (cli_buf env)) BUFFER_SIZE (Some iids) of
               (len, buf) \<Rightarrow>
                 let c = say (ascii ''  FETCH /s ('' @ decimal (length iids) @ ascii '' IID(s), '' @ decimal len @
                              ascii '' bytes req)... '') c in
                 and_then (send_and_wait env (fetch_pdu RES_S (take len (the buf))) c)
                   (show_answer env ''stream without payload'')))"

section \<open>get\<close>

definition cmd_get :: "'n cli_env \<Rightarrow> 'n cli \<Rightarrow> 'n cli run" where
  "cmd_get env c =
     and_then (send_and_wait env (request_pdu RES_C COAP_GET) (say (ascii ''  GET /c... '') c)) (\<lambda>(ok, c).
       if \<not> ok then return c
       else if g_response_len c > 0 then show_datastore env c
       else return (say (ascii ''no payload'' @ newline) c))"

section \<open>ipatch and put\<close>

definition parse_value_of :: "'n cli_env \<Rightarrow> bytes \<Rightarrow> CoreconfValue" where
  "parse_value_of env str = parse_value (cli_nan env) str"

definition ipatch_pdu :: "bytes \<Rightarrow> pdu" where
  "ipatch_pdu bs = (request_pdu RES_C COAP_IPATCH)\<lparr>pdu_cf := Some CF_YANG_INSTANCES, pdu_data := bs\<rparr>"

text \<open>A word \<open>[SID,key]\<close> of \<open>ipatch\<close>: at most 255 characters behind the bracket, up to the next bracket.\<close>

definition read_ipatch_iid :: "bytes \<Rightarrow> (u64 \<times> bytes) option" where
  "read_ipatch_iid arg =
     (let tmp = takeWhile (\<lambda>b. b \<noteq> 0x5D) (take 255 (tl arg)) in
      case strchr tmp 0x2C of
        None \<Rightarrow> None
      | Some comma \<Rightarrow> Some (strtoull_value (takeWhile (\<lambda>b. b \<noteq> 0x2C) tmp), tl comma))"

definition cmd_ipatch :: "'n cli_env \<Rightarrow> bytes list \<Rightarrow> 'n cli \<Rightarrow> 'n cli run" where
  "cmd_ipatch env argv c =
     (case argv of
        iid # str # _ \<Rightarrow>
          if iid \<noteq> [] \<and> hd iid = 0x5B
          then (case read_ipatch_iid iid of
                  None \<Rightarrow> return (say (ascii ''  Error: expected format [SID,key]'' @ newline) c)
                | Some (sid, key_str) \<Rightarrow>
                    let val = (if is_word str ''null'' then None else Some (parse_value_of env str)) in
                    (case create_ipatch_iid_request (cli_stack env) (Some (cli_buf env)) BUFFER_SIZE sid (Some key_str) val of
                       (len, buf) \<Rightarrow>
                         send_quietly env (ipatch_pdu (take len (the buf)))
                           (say (ascii ''  iPATCH /c (['' @ decimal (unat sid) @ ascii '','' @ key_str @ ascii ''] = '' @ str @
                                 ascii '')... '') c)))
          else let sid = strtoull_value iid;
                   patch = snd (insertCoreconfHashMap empty_hashmap sid (parse_value_of env str)) in
            (case create_ipatch_request (cli_stack env) (Some (cli_buf env)) BUFFER_SIZE (Some (CORECONF_HASHMAP patch)) of
               (len, buf) \<Rightarrow>
                 send_quietly env (ipatch_pdu (take len (the buf)))
                   (say (ascii ''  iPATCH /c (SID '' @ decimal (unat sid) @ ascii '' = '' @ str @ ascii '')... '') c))
      | _ \<Rightarrow> return (say (ascii ''  Usage: ipatch <SID> <value>'' @ newline @
                          ascii ''  Usage: ipatch [SID,key] null|<value>'' @ newline) c))"

text \<open>The loop of \<open>put\<close> over the pairs of words.\<close>

fun put_args :: "'n cli_env \<Rightarrow> CoreconfValue CoreconfHashMap \<Rightarrow> bytes list \<Rightarrow> CoreconfValue CoreconfHashMap" where
  "put_args env m (sid # str # argv) =
     put_args env (snd (insertCoreconfHashMap m (strtoull_value sid) (parse_value_of env str))) argv"
| "put_args env m _ = m"

definition cmd_put :: "'n cli_env \<Rightarrow> bytes list \<Rightarrow> 'n cli \<Rightarrow> 'n cli run" where
  "cmd_put env argv c =
     (if length argv < 2 \<or> length argv mod 2 \<noteq> 0
      then return (say (ascii ''  Usage: put <SID> <value> [SID value ...]'' @ newline) c)
      else case create_put_request (cli_stack env) (Some (cli_buf env)) BUFFER_SIZE
                 (Some (CORECONF_HASHMAP (put_args env empty_hashmap argv))) of
          (len, buf) \<Rightarrow>
            send_quietly env (put_pdu (take len (the buf)))
              (say (ascii ''  PUT /c ('' @ decimal (length argv div 2) @ ascii '' SIDs)... '') c))"

section \<open>post\<close>

definition post_pdu :: "bytes \<Rightarrow> pdu" where
  "post_pdu bs =
     (request_pdu RES_C COAP_POST)\<lparr>pdu_cf := Some CF_YANG_INSTANCES, pdu_accept := Some CF_YANG_INSTANCES, pdu_data := bs\<rparr>"

definition show_post_response :: "'n cli_env \<Rightarrow> 'n cli \<Rightarrow> 'n cli run" where
  "show_post_response env c =
     (case print_post_response (cli_stack env) (g_response_buf c) (g_response_len c) of
        None \<Rightarrow> None
      | Some (Inl f) \<Rightarrow> Some (Inl f)
      | Some (Inr out) \<Rightarrow> return (say out c))"

definition send_post :: "'n cli_env \<Rightarrow> bytes \<Rightarrow> 'n cli \<Rightarrow> 'n cli run" where
  "send_post env bs c =
     and_then (send_and_wait env (post_pdu bs) c) (\<lambda>(ok, c).
       if \<not> ok then return c
       else if g_response_len c > 0 then show_post_response env c
       else return (say (ascii ''no payload'' @ newline) c))"

text \<open>The delay of a reboot: all of the word has to be a number.\<close>

definition read_delay :: "bytes list \<Rightarrow> u64 option" where
  "read_delay ws =
     (case ws of
        [] \<Rightarrow> Some 0
      | w # _ \<Rightarrow> (case strtoull_end w of
                    None \<Rightarrow> if w = [] then Some 0 else None
                  | Some (v, rest) \<Rightarrow> if rest = [] then Some v else None))"

definition post_reboot :: "'n cli_env \<Rightarrow> bytes list \<Rightarrow> 'n cli \<Rightarrow> 'n cli run" where
  "post_reboot env ws c =
     (if length ws > 1 then return (say (ascii ''  Usage: post reboot [delay-seconds]'' @ newline) c)
      else case read_delay ws of
          None \<Rightarrow> return (say (ascii ''  Error: delay must be an unsigned integer.'' @ newline) c)
        | Some delay \<Rightarrow>
            let inp = snd (insertCoreconfHashMap empty_hashmap (reboot_input_delay (cli_ops_sids c)) (createCoreconfUint64 delay)) in
            (case create_post_request_rpc (cli_stack env) (Some (cli_buf env)) BUFFER_SIZE (reboot_rpc_sid (cli_ops_sids c))
                    (Some (CORECONF_HASHMAP inp)) of
               (len, buf) \<Rightarrow>
                 if len = 0 then return (say (ascii ''  Error: failed to encode reboot RPC payload.'' @ newline) c)
                 else send_post env (take len (the buf))
                   (say (ascii ''  POST /c reboot(delay='' @ decimal (unat delay) @ ascii '')... '') c)))"

definition post_reset :: "'n cli_env \<Rightarrow> bytes list \<Rightarrow> 'n cli \<Rightarrow> 'n cli run" where
  "post_reset env ws c =
     (case ws of
        [server_name, reset_at] \<Rightarrow>
          let inp = snd (insertCoreconfHashMap empty_hashmap (reset_input_reset_at (cli_ops_sids c)) (createCoreconfString reset_at)) in
          (case create_ipatch_iid_request (cli_stack env) (Some (cli_buf env)) BUFFER_SIZE (reset_action_sid (cli_ops_sids c))
                  (Some server_name) (Some (CORECONF_HASHMAP inp)) of
             (len, buf) \<Rightarrow>
               if len = 0 then return (say (ascii ''  Error: failed to encode reset action payload.'' @ newline) c)
               else send_post env (take len (the buf))
                 (say (ascii ''  POST /c reset(server='' @ server_name @ ascii '')... '') c))
      | _ \<Rightarrow> return (say (ascii ''  Usage: post reset <server-name> <reset-at-rfc3339>'' @ newline) c))"

definition cmd_post :: "'n cli_env \<Rightarrow> bytes list \<Rightarrow> 'n cli \<Rightarrow> 'n cli run" where
  "cmd_post env argv c =
     (case argv of
        [] \<Rightarrow> return (say (ascii ''  Usage: post reboot [delay-seconds]'' @ newline @
                           ascii ''  Usage: post reset <server-name> <reset-at-rfc3339>'' @ newline) c)
      | op # ws \<Rightarrow>
          if is_word op ''reboot'' then post_reboot env ws c
          else if is_word op ''reset'' then post_reset env ws c
          else return (say (ascii ''  Unknown post operation: '' @ op @ newline @
                            ascii ''  Supported operations: reboot, reset'' @ newline) c))"

section \<open>delete and observe\<close>

definition delete_pdu :: pdu where
  "delete_pdu = request_pdu RES_C COAP_DELETE"

text \<open>The answer to the question is read with \<open>fgets (resp, 8, stdin)\<close>; what it leaves of the line stays in the input.\<close>

definition delete_question :: bytes where
  "delete_question =
     ascii ''  WARNING: DELETE removes the full datastore.'' @ newline @
     ascii ''  To delete a specific SID use: ipatch <SID> null'' @ newline @
     ascii ''  Continue with full DELETE /c? (y/N): ''"

definition cmd_delete :: "'n cli_env \<Rightarrow> bytes list \<Rightarrow> 'n cli \<Rightarrow> 'n cli run" where
  "cmd_delete env argv c =
     (let go = (\<lambda>c. send_quietly env delete_pdu (say (ascii ''  DELETE /c (full datastore)... '') c)) in
      if argv = [] then go c
      else let c = say delete_question c in
        case fgets 8 (cli_stdin c) of
          None \<Rightarrow> return c
        | Some (resp, rest) \<Rightarrow>
            let c = c\<lparr>cli_stdin := rest\<rparr> in
            if hd resp \<noteq> 0x79 \<and> hd resp \<noteq> 0x59 then return (say (ascii ''  Cancelled.'' @ newline) c) else go c)"

definition observe_pdu :: pdu where
  "observe_pdu = (request_pdu RES_S COAP_GET)\<lparr>pdu_observe := True, pdu_accept := Some CF_YANG_INSTANCES\<rparr>"

definition observe_secs :: "bytes list \<Rightarrow> c_fault + int" where
  "observe_secs argv =
     (case argv of
        [] \<Rightarrow> Inr 20
      | w # _ \<Rightarrow> map_sum id (\<lambda>secs. if secs \<le> 0 then 20 else secs) (atoi w))"

definition cmd_observe :: "'n cli_env \<Rightarrow> bytes list \<Rightarrow> 'n cli \<Rightarrow> 'n cli run" where
  "cmd_observe env argv c =
     (case observe_secs argv of
        Inl f \<Rightarrow> Some (Inl f)
      | Inr secs \<Rightarrow>
          let c = say (ascii ''  OBSERVE /s ('' @ signed_decimal secs @ ascii '' s)... '')
                    (c\<lparr>g_response_received := False, g_response_len := 0, g_observe_mode := True\<rparr>) in
          and_then (send_pdu env observe_pdu c) (\<lambda>(sent, c).
            if \<not> sent then return (say (ascii ''Send error'' @ newline) (c\<lparr>g_observe_mode := False\<rparr>))
            else if \<not> g_response_received c
            then return (say (ascii ''Initial timeout'' @ newline) (c\<lparr>g_observe_mode := False\<rparr>))
            else and_then
              (let c = say (show_code (g_response_code c) @ newline) c in
               if g_response_len c > 0 then show_datastore env c else return c)
              (\<lambda>c. let c = say (ascii ''  Listening for /s notifications for '' @ signed_decimal secs @ ascii '' s...'' @ newline) c in
                if secs * 10 > 2 ^ 31 - 1 then Some (Inl IntegerOverflow)
                else case net_listen env (secs * 10) (cli_net c) of
                    (msgs, n) \<Rightarrow>
                      and_then (receive env msgs (c\<lparr>cli_net := n\<rparr>)) (\<lambda>c.
                        return (say (ascii ''  Observe finished.'' @ newline) (c\<lparr>g_observe_mode := False\<rparr>))))))"

end
