(* ===== verification/Cli_Main.thy ===== *)
theory Cli_Main
  imports Cli_Commands
begin

text \<open>
  The demo, the help, the start and the command loop of the client \<open>src/iot_containers/iot_apps/coreconf_cli.c\<close>.
\<close>

section \<open>Texts\<close>

definition repeated :: "nat \<Rightarrow> bytes \<Rightarrow> bytes" where
  "repeated n bs = concat (replicate n bs)"

definition line_mark :: bytes where "line_mark = [0xE2, 0x94, 0x80]"
definition double_mark :: bytes where "double_mark = [0xE2, 0x95, 0x90]"
definition bar_mark :: bytes where "bar_mark = [0xE2, 0x95, 0x91]"
definition arrow :: bytes where "arrow = [0xE2, 0x86, 0x92]"

definition help_text :: bytes where
  "help_text =
     newline @ ascii ''  Available commands (draft-ietf-core-comi-20):'' @ newline @ ascii ''  '' @
     repeated 67 line_mark @ newline @ ascii ''  store  [type] [value]         PUT /c  - initialize datastore'' @
     newline @ ascii ''  store  ietf-example           PUT /c  - exact draft example '' @ section_sign @
     ascii ''3.3.1'' @ newline @ ascii ''  fetch  <SID> [SID...]         FETCH /c - read specific SIDs'' @
     newline @ ascii ''  fetch  [SID,key]              FETCH /c - list instance (draft '' @ section_sign @
     ascii ''3.1.3.1)'' @ newline @ ascii ''  sfetch <SID> [SID...]         FETCH /s - SID-filtered stream'' @
     newline @ ascii ''  get                           GET /c  - full datastore'' @ newline @
     ascii ''  ipatch <SID> <value>          iPATCH /c - update SID (in payload)'' @ newline @
     ascii ''  ipatch <SID> null             iPATCH /c - delete one SID'' @ newline @
     ascii ''  ipatch [SID,key] null         iPATCH /c - delete list instance'' @ newline @
     ascii ''  ipatch [SID,key] <value>      iPATCH /c - update/add instance'' @ newline @
     ascii ''  post reboot [delay]           POST /c - invoke RPC reboot (SID 61000)'' @ newline @
     ascii ''  post reset <name> <reset-at>  POST /c - invoke action reset (SID 60002)'' @ newline @
     ascii ''  put    <SID> <v> [SID <v>]    PUT /c  - replace datastore'' @ newline @
     ascii ''  delete                        DELETE /c - delete full datastore'' @ newline @
     ascii ''  observe [seconds]             GET /s Observe(0) - event stream'' @ newline @
     ascii ''  demo                          replay exact draft examples'' @ newline @
     ascii ''  sidcheck                      re-check SID compatibility with server'' @ newline @
     ascii ''  info                          show current configuration'' @ newline @
     ascii ''  quit / exit                   exit'' @ newline @ ascii ''  '' @ repeated 67 line_mark @ newline @
     ascii ''  Content-Formats: 140=yang-data+cbor;id=sid  141=yang-identifiers+cbor-seq'' @ newline @
     ascii ''                   142=yang-instances+cbor-seq'' @ newline @ ascii ''  Simple examples:'' @ newline @
     ascii ''    store temperature 22.5    '' @ arrow @ ascii '' PUT datastore {10:temperature, 20:22.5}'' @
     newline @ ascii ''    get                       '' @ arrow @ ascii '' GET /c (full datastore)'' @ newline @
     ascii ''    fetch 10 20               '' @ arrow @ ascii '' FETCH /c SIDs [10,20]'' @ newline @
     ascii ''    sfetch 1755               '' @ arrow @ ascii '' FETCH /s filtering by SID 1755'' @ newline @
     ascii ''    ipatch 20 99.9            '' @ arrow @ ascii '' iPATCH /c {20:99.9}'' @ newline @
     ascii ''    ipatch 20 null            '' @ arrow @ ascii '' delete SID 20'' @ newline @
     ascii ''    post reboot 77            '' @ arrow @ ascii '' POST /c {61000:{1:77}}'' @ newline @
     ascii ''    post reset myserver 2016-02-08T14:10:08Z'' @ newline @ ascii ''                             '' @
     arrow @ ascii '' POST /c {[60002,\"myserver\"]:{1:\"...\"}}'' @ newline @
     ascii ''    observe 30               '' @ arrow @ ascii '' listen on /s for 30 seconds'' @ newline @
     ascii ''    delete                    '' @ arrow @ ascii '' DELETE /c (full datastore)'' @ newline @
     ascii ''  Draft examples (ietf-system + ietf-interfaces):'' @ newline @
     ascii ''    store ietf-example        '' @ arrow @ ascii '' clock(1721)+ifaces(1533)+ntp(1755,1756)'' @
     newline @ ascii ''    get                       '' @ arrow @ ascii '' see '' @ section_sign @
     ascii ''3.3.1 of the draft'' @ newline @ ascii ''    fetch 1723 [1533,eth0]    '' @ arrow @ ascii '' '' @
     section_sign @ ascii ''3.1.3.1: current-datetime + interface eth0'' @ newline @
     ascii ''    ipatch 1755 true          '' @ arrow @ ascii '' ntp/enabled=true ('' @ section_sign @
     ascii ''3.2.3.1)'' @ newline @ ascii ''    demo                      '' @ arrow @
     ascii '' complete draft steps 1-5'' @ newline @ newline"

definition print_help :: "'n cli \<Rightarrow> 'n cli" where
  "print_help c = say help_text c"

section \<open>demo\<close>

text \<open>
  The three maps of the demo's iPATCH, each encoded behind the one before with an encoder of 12 states; the results of the
  calls are not looked at.
\<close>

definition demo_map :: "'n cli_env \<Rightarrow> (zcbor \<Rightarrow> zcbor) \<Rightarrow> nat \<times> bytes \<Rightarrow> nat \<times> bytes" where
  "demo_map env puts r =
     (case r of (offset, buf) \<Rightarrow>
        let enc = zcbor_new_encode_state (cli_stack env) 12 buf offset (BUFFER_SIZE - offset) 0;
            enc = snd (zcbor_map_end_encode (puts (snd (zcbor_map_start_encode enc 1))) 1)
        in (payload enc, mem enc))"

definition put_key :: "u64 \<Rightarrow> zcbor \<Rightarrow> zcbor" where
  "put_key sid enc = snd (zcbor_uint64_put enc sid)"

definition put_text :: "string \<Rightarrow> zcbor \<Rightarrow> zcbor" where
  "put_text str enc = snd (zcbor_tstr_encode enc (ascii str))"

definition enable_ntp :: "RuntimeSystemSids \<Rightarrow> zcbor \<Rightarrow> zcbor" where
  "enable_ntp sys enc = snd (zcbor_bool_put (put_key (ntp_enabled sys) enc) True)"

definition remove_server :: "RuntimeSystemSids \<Rightarrow> zcbor \<Rightarrow> zcbor" where
  "remove_server sys enc =
     (let enc = snd (zcbor_list_start_encode enc 2);
          enc = put_text ''tac.nrc.ca'' (put_key (ntp_server sys) enc);
          enc = snd (zcbor_list_end_encode enc 2)
      in snd (zcbor_nil_put enc))"

definition add_server :: "RuntimeSystemSids \<Rightarrow> zcbor \<Rightarrow> zcbor" where
  "add_server sys enc =
     (let enc = snd (zcbor_map_start_encode (put_key (ntp_server sys) enc) 3);
          enc = put_text ''tic.nrc.ca'' (put_key (ntp_server_name sys - ntp_server sys) enc);
          enc = snd (zcbor_bool_put (put_key (ntp_server_prefer sys - ntp_server sys) enc) True);
          enc = put_key (ntp_server_udp sys - ntp_server sys) enc;
          enc = snd (zcbor_map_start_encode enc 1);
          enc = put_text ''132.246.11.231'' (put_key (ntp_server_udp_address sys - ntp_server_udp sys) enc);
          enc = snd (zcbor_map_end_encode enc 1)
      in snd (zcbor_map_end_encode enc 3))"

definition demo_patch :: "'n cli_env \<Rightarrow> RuntimeSystemSids \<Rightarrow> bytes" where
  "demo_patch env sys =
     (case demo_map env (add_server sys) (demo_map env (remove_server sys) (demo_map env (enable_ntp sys) (0, cli_buf env))) of
        (offset, buf) \<Rightarrow> take offset buf)"

definition demo_intro :: bytes where
  "demo_intro =
     newline @ [0xE2, 0x95, 0x94] @ repeated 62 double_mark @ [0xE2, 0x95, 0x97] @ newline @ bar_mark @
     ascii ''  DEMO: Exact draft-ietf-core-comi-20 examples              '' @ bar_mark @ newline @
     [0xE2, 0x95, 0x9A] @ repeated 62 double_mark @ [0xE2, 0x95, 0x9D] @ newline @ newline @
     repeated 2 line_mark @ ascii '' STEP 1: store ietf-example  ('' @ section_sign @ ascii ''3.3.1 PUT /c) '' @
     repeated 17 line_mark @ newline"

definition demo_step2 :: bytes where
  "demo_step2 =
     newline @ repeated 2 line_mark @ ascii '' STEP 2: GET /c '' @ dash @ ascii '' full datastore  ('' @
     section_sign @ ascii ''3.3.1) '' @ repeated 19 line_mark @ newline @ ascii ''  Server response:'' @ newline"

definition demo_step3 :: "'n cli \<Rightarrow> bytes" where
  "demo_step3 c =
     newline @ repeated 2 line_mark @ ascii '' STEP 3: FETCH /c  ('' @ section_sign @ ascii ''3.1.3.1) '' @
     repeated 32 line_mark @ newline @ ascii ''  REQ payload (yang-identifiers+cbor-seq):'' @ newline @
     ascii ''    '' @ decimal (unat (clock_current (cli_sys_sids c))) @
     ascii '',             / current-datetime /'' @ newline @ ascii ''    ['' @
     decimal (unat (iface (cli_if_sids c))) @ ascii '', \"eth0\"]   / interface con name=\"eth0\" /'' @ newline @
     ascii ''  Server response:'' @ newline"

definition demo_step4 :: "'n cli \<Rightarrow> bytes" where
  "demo_step4 c =
     newline @ repeated 2 line_mark @ ascii '' STEP 4: iPATCH /c  ('' @ section_sign @ ascii ''3.2.3.1 '' @ dash @
     ascii '' NTP) '' @ repeated 24 line_mark @ newline @
     ascii ''  REQ payload (yang-instances+cbor-seq, 3 mapas):'' @ newline @ ascii ''    { '' @
     decimal (unat (ntp_enabled (cli_sys_sids c))) @ ascii '': true }                        set ntp/enabled'' @
     newline @ ascii ''    { ['' @ decimal (unat (ntp_server (cli_sys_sids c))) @
     ascii '', \"tac.nrc.ca\"]: null }       remove NTP server'' @ newline @ ascii ''    { '' @
     decimal (unat (ntp_server (cli_sys_sids c))) @ ascii '': { '' @
     decimal (unat (ntp_server_name (cli_sys_sids c) - ntp_server (cli_sys_sids c))) @
     ascii '':\"tic.nrc.ca\", '' @
     decimal (unat (ntp_server_prefer (cli_sys_sids c) - ntp_server (cli_sys_sids c))) @ ascii '':true,'' @
     newline @ ascii ''               '' @
     decimal (unat (ntp_server_udp (cli_sys_sids c) - ntp_server (cli_sys_sids c))) @ ascii '':{ '' @
     decimal (unat (ntp_server_udp_address (cli_sys_sids c) - ntp_server_udp (cli_sys_sids c))) @
     ascii '':\"132.246.11.231\" } } add NTP server'' @ newline"

definition demo_step5 :: "'n cli \<Rightarrow> bytes" where
  "demo_step5 c =
     newline @ repeated 2 line_mark @ ascii '' STEP 5: GET /c '' @ dash @ ascii '' post-iPATCH verification '' @
     repeated 19 line_mark @ newline @ ascii ''  ntp/enabled (SID '' @
     decimal (unat (ntp_enabled (cli_sys_sids c))) @ ascii '') must be true'' @ newline @
     ascii ''  ntp/server  (SID '' @ decimal (unat (ntp_server (cli_sys_sids c))) @
     ascii '') must contain tic.nrc.ca con address 132.246.11.231'' @ newline"

definition cmd_demo :: "'n cli_env \<Rightarrow> 'n cli \<Rightarrow> 'n cli run" where
  "cmd_demo env c =
     (if \<not> sys_loaded (cli_sys_sids c) \<or> \<not> if_loaded (cli_if_sids c)
      then return (say (newline @ ascii ''[SID] Error: runtime SID dictionary not loaded in CLI'' @ newline @ newline) c)
      else
        and_then (cmd_store env [ietf_example] (say demo_intro c)) (\<lambda>c.
        and_then (cmd_get env (say demo_step2 c)) (\<lambda>c.
        and_then (cmd_fetch env [decimal (unat (clock_current (cli_sys_sids c))),
              [0x5B] @ decimal (unat (iface (cli_if_sids c))) @ ascii '',eth0]''] (say (demo_step3 c) c)) (\<lambda>c.
          let bs = demo_patch env (cli_sys_sids c);
              c = say (demo_step4 c @ ascii ''  Total payload: '' @ decimal (length bs) @
                       ascii '' bytes (3 concatenated maps in cbor-seq)'' @ newline @ ascii ''  iPATCH /c... '') c in
        and_then (send_quietly env (ipatch_pdu bs) c) (\<lambda>c.
        and_then (cmd_get env (say (demo_step5 c) c)) (\<lambda>c.
        return (say (newline @ ascii ''Demo completed.'' @ newline @ newline) c)))))))"

section \<open>The configuration\<close>

text \<open>
  What \<open>main\<close> takes from the environment variables, \<open>getenv\<close>; \<open>supported\<close> is \<open>coap_dtls_is_supported ()\<close>. The server name
  and the key of the PSK are passed to libcoap only.
\<close>

record cli_config =
  use_dtls :: bool
  cli_host :: bytes
  cli_port :: int
  tls_mode :: bytes
  ca_file :: bytes
  cert_file :: bytes
  key_file :: bytes
  psk_id :: bytes

definition getenv_or :: "(bytes \<Rightarrow> bytes option) \<Rightarrow> string \<Rightarrow> string \<Rightarrow> bytes" where
  "getenv_or getenv name other = (case getenv (ascii name) of Some v \<Rightarrow> v | None \<Rightarrow> ascii other)"

definition client_config :: "(bytes \<Rightarrow> bytes option) \<Rightarrow> bool \<Rightarrow> c_fault + cli_config" where
  "client_config getenv supported =
     (let local_profile = (getenv (ascii ''CORECONF_CERT_PROFILE'') = Some (ascii ''local''));
          mode = getenv_or getenv ''CORECONF_TLS_MODE'' ''cert'';
          dtls = (case getenv (ascii ''CORECONF_DTLS'') of
                    Some (b # _) \<Rightarrow> if b = 0x30 then False else supported
                  | _ \<Rightarrow> supported);
          port = (case getenv (ascii ''SERVER_PORT'') of
                    Some str \<Rightarrow> atoi str
                  | None \<Rightarrow> Inr (if dtls then 5684 else 5683))
      in map_sum id (\<lambda>port.
           \<lparr>use_dtls = dtls, cli_host = getenv_or getenv ''SERVER_HOST'' ''localhost'', cli_port = port,
            tls_mode = (if mode = [] then ascii ''cert'' else mode),
            ca_file = getenv_or getenv ''CORECONF_CA_CERT'' (if local_profile then ''certs/ca-local.crt'' else ''certs/ca.crt''),
            cert_file = getenv_or getenv ''CORECONF_CLIENT_CERT''
              (if local_profile then ''certs/client-local.crt'' else ''certs/client.crt''),
            key_file = getenv_or getenv ''CORECONF_CLIENT_KEY''
              (if local_profile then ''certs/client-local.key'' else ''certs/client.key''),
            psk_id = getenv_or getenv ''CORECONF_PSK_ID'' ''coreconf-client''\<rparr>) port)"

definition start_banner :: "cli_config \<Rightarrow> 'n cli \<Rightarrow> bytes" where
  "start_banner conf c =
     [0xE2, 0x95, 0x94] @ repeated 62 double_mark @ [0xE2, 0x95, 0x97] @ newline @ bar_mark @
     ascii ''   CORECONF CLI '' @ dash @ ascii '' draft-ietf-core-comi-20                   '' @ bar_mark @
     newline @ [0xE2, 0x95, 0xA0] @ repeated 62 double_mark @ [0xE2, 0x95, 0xA3] @ newline @ bar_mark @
     ascii ''  Unified datastore at /c - temperature, humidity, etc.        '' @ bar_mark @ newline @
     [0xE2, 0x95, 0x9A] @ repeated 62 double_mark @ [0xE2, 0x95, 0x9D] @ newline @ ascii ''  Initial type: '' @
     g_device_type c @ newline @ ascii ''  Server:       '' @
     (if use_dtls conf then ascii ''coaps'' else ascii ''coap'') @ ascii ''://'' @ cli_host conf @ ascii '':'' @
     signed_decimal (cli_port conf) @ ascii ''/c  '' @
     (if use_dtls conf then ascii ''(DTLS)'' else ascii ''(unencrypted UDP)'') @ newline @
     (if use_dtls conf \<and> is_word (tls_mode conf) ''psk''
      then ascii ''  Security:     PSK (id='' @ psk_id conf @ ascii '')'' @ newline
      else if use_dtls conf
      then ascii ''  Security:     CERT (ca='' @ ca_file conf @ ascii '', cert='' @ cert_file conf @ ascii '', key='' @
         key_file conf @ ascii '')'' @ newline
      else []) @
     ascii ''  Type '' @ [0x27] @ ascii ''help'' @ [0x27] @ ascii '' to see commands.'' @ newline @ newline"

section \<open>The SID files\<close>

text \<open>The first path that can be opened, and its contents; an empty file is an error.\<close>

definition load_text_from_candidates :: "(bytes \<Rightarrow> bytes option) \<Rightarrow> bytes list \<Rightarrow> (bytes \<times> bytes) option" where
  "load_text_from_candidates fs candidates =
     (case find (\<lambda>path. fs path \<noteq> None) candidates of
        None \<Rightarrow> None
      | Some path \<Rightarrow> (case fs path of Some (b # bs) \<Rightarrow> Some (b # bs, path) | _ \<Rightarrow> None))"

definition sid_candidates :: "string \<Rightarrow> bytes list" where
  "sid_candidates name =
     map (\<lambda>dir. ascii dir @ ascii name) [''sid/'', ''../sid/'', ''../../sid/'', ''../../../sid/'', ''/app/sid/'']"

text \<open>The bodies of the loaders are copies of the server's; the result is 0 or -1, and \<open>loaded\<close> reports the file.\<close>

definition loaded :: "int \<Rightarrow> bytes \<Rightarrow> 'n cli \<Rightarrow> int \<times> 'n cli" where
  "loaded r chosen c = (r, if r = 0 then say (ascii ''[SID] CLI loaded '' @ chosen @ newline) c else c)"

definition cli_load_system_sids :: "(bytes \<Rightarrow> bytes option) \<Rightarrow> 'n cli \<Rightarrow> int \<times> 'n cli" where
  "cli_load_system_sids fs c =
     (case load_text_from_candidates fs (sid_candidates ''ietf-system.sid'') of
        None \<Rightarrow> (-1, c)
      | Some (txt, chosen) \<Rightarrow>
          (case load_runtime_system_sids (Some txt) (cli_sys_sids c) of
             (r, sids) \<Rightarrow> loaded r chosen (c\<lparr>cli_sys_sids := sids\<rparr>)))"

definition cli_load_interfaces_sids :: "(bytes \<Rightarrow> bytes option) \<Rightarrow> 'n cli \<Rightarrow> int \<times> 'n cli" where
  "cli_load_interfaces_sids fs c =
     (case load_text_from_candidates fs (sid_candidates ''ietf-interfaces.sid'') of
        None \<Rightarrow> (-1, c)
      | Some (txt, chosen) \<Rightarrow>
          (case load_runtime_interfaces_sids (Some txt) (cli_if_sids c) of
             (r, sids) \<Rightarrow> loaded r chosen (c\<lparr>cli_if_sids := sids\<rparr>)))"

definition cli_load_operation_sids :: "(bytes \<Rightarrow> bytes option) \<Rightarrow> 'n cli \<Rightarrow> int \<times> 'n cli" where
  "cli_load_operation_sids fs c =
     (case load_text_from_candidates fs (sid_candidates ''ietf-coreconf-actions.sid'') of
        None \<Rightarrow> (case load_runtime_operation_sids None (cli_ops_sids c) of (r, sids) \<Rightarrow> (r, c\<lparr>cli_ops_sids := sids\<rparr>))
      | Some (txt, chosen) \<Rightarrow>
          (case load_runtime_operation_sids (Some txt) (cli_ops_sids c) of
             (r, sids) \<Rightarrow> loaded r chosen (c\<lparr>cli_ops_sids := sids\<rparr>)))"

section \<open>The loop\<close>

definition info_text :: "cli_config \<Rightarrow> 'n cli \<Rightarrow> bytes" where
  "info_text conf c =
     ascii ''  type='' @ g_device_type c @ ascii ''  server='' @
     (if use_dtls conf then ascii ''coaps'' else ascii ''coap'') @ ascii ''://'' @ cli_host conf @ ascii '':'' @
     signed_decimal (cli_port conf) @ ascii ''/c  tls-mode='' @
     (if use_dtls conf then tls_mode conf else ascii ''none'') @ newline"

text \<open>A command other than \<open>quit\<close> and \<open>exit\<close>.\<close>

definition run_command :: "'n cli_env \<Rightarrow> cli_config \<Rightarrow> bytes \<Rightarrow> bytes list \<Rightarrow> 'n cli \<Rightarrow> 'n cli run" where
  "run_command env conf cmd argv c =
     (if is_word cmd ''help'' \<or> is_word cmd ''?'' then return (print_help c)
      else if is_word cmd ''info'' then return (say (info_text conf c) c)
      else if is_word cmd ''store'' then cmd_store env argv c
      else if is_word cmd ''fetch'' then cmd_fetch env argv c
      else if is_word cmd ''sfetch'' then cmd_sfetch env argv c
      else if is_word cmd ''get'' then cmd_get env c
      else if is_word cmd ''ipatch'' then cmd_ipatch env argv c
      else if is_word cmd ''post'' then cmd_post env argv c
      else if is_word cmd ''put'' then cmd_put env argv c
      else if is_word cmd ''delete'' then cmd_delete env argv c
      else if is_word cmd ''observe'' then cmd_observe env argv c
      else if is_word cmd ''demo'' then cmd_demo env c
      else if is_word cmd ''sidcheck'' then and_then (check_server_sid_compatibility env c) (\<lambda>(r, c). return c)
      else return (say (ascii ''  Unknown command: '' @ [0x27] @ cmd @ [0x27] @ ascii ''  (type '' @ [0x27] @
                        ascii ''help'' @ [0x27] @ ascii '')'' @ newline) c))"

end
