(* ===== verification/Cli_Contract.thy ===== *)
theory Cli_Contract
  imports Cli_Main
begin

text \<open>
  The contract between the client's commands and the network: what every command keeps of the client's state, and which faults it can
  have, given what the network's operations keep. The laws are stated once, as a locale over a condition on the state, one on the
  messages and one on the faults, and proved for every command.
\<close>

section \<open>Runs\<close>

definition run_ok :: "('a \<Rightarrow> bool) \<Rightarrow> (c_fault \<Rightarrow> bool) \<Rightarrow> 'a run \<Rightarrow> bool" where
  "run_ok P F r \<longleftrightarrow> (\<forall>a. r = Some (Inr a) \<longrightarrow> P a) \<and> (\<forall>f. r = Some (Inl f) \<longrightarrow> F f)"

lemma run_ok_simps [simp]:
  "run_ok P F (return a) \<longleftrightarrow> P a" "run_ok P F (Some (Inr a)) \<longleftrightarrow> P a" "run_ok P F (Some (Inl f)) \<longleftrightarrow> F f" "run_ok P F None"
  by (simp_all add: run_ok_def return_def)

lemma run_ok_and_then: "run_ok P F r \<Longrightarrow> (\<And>a. P a \<Longrightarrow> run_ok Q F (f a)) \<Longrightarrow> run_ok Q F (and_then r f)"
  by (auto simp: run_ok_def and_then_def split: option.splits sum.splits)

text \<open>Printing an answer to POST reads the first byte of a key where there may be none, and has no other fault.\<close>

lemma print_post_item_fault: "print_post_item shown dec = Some (Inl f) \<Longrightarrow> f = OutOfBoundsRead"
  by (auto simp: print_post_item_def print_post_key_def read_header_def Let_def split: prod.splits bool.splits option.splits sum.splits if_splits)

lemma print_post_loop_fault:
  assumes "print_post_loop old data len ptr n shown = Some r"
  shows "\<forall>f. r = Inl f \<longrightarrow> f = OutOfBoundsRead"
proof (rule print_post_loop.raw_induct[OF _ assms, where P = "\<lambda>_ _ _ _ _ _ r. \<forall>f. r = Inl f \<longrightarrow> f = OutOfBoundsRead"], goal_cases)
  case (1 loop old data len ptr n shown r)
  then show ?case by (fastforce dest: print_post_item_fault split: if_splits option.splits sum.splits prod.splits)
qed

lemma print_post_response_fault: "print_post_response old data len = Some (Inl f) \<Longrightarrow> f = OutOfBoundsRead"
  unfolding print_post_response_def using print_post_loop_fault by blast

section \<open>The contract\<close>

definition msg_length :: "message \<Rightarrow> nat" where
  "msg_length m = (case msg_data m of None \<Rightarrow> 0 | Some bs \<Rightarrow> length bs)"

locale command_contract =
  fixes env :: "'n cli_env" and I :: "'n cli \<Rightarrow> bool" and M :: "message \<Rightarrow> bool" and F :: "c_fault \<Rightarrow> bool"
  assumes keeps_say: "I c \<Longrightarrow> I (say bs c)"
    and keeps_flags: "I c \<Longrightarrow> I (c\<lparr>g_response_received := b\<rparr>)" "I c \<Longrightarrow> I (c\<lparr>g_response_len := 0\<rparr>)"
      "I c \<Longrightarrow> I (c\<lparr>g_observe_mode := b\<rparr>)" "I c \<Longrightarrow> I (c\<lparr>g_response_code := code\<rparr>)"
    and keeps_type: "I c \<Longrightarrow> I (c\<lparr>g_device_type := take 63 bs\<rparr>)"
    and keeps_stdin: "I c \<Longrightarrow> fgets sz (cli_stdin c) = Some (l, rest) \<Longrightarrow> I (c\<lparr>cli_stdin := rest\<rparr>)"
    and keeps_data: "I c \<Longrightarrow> M m \<Longrightarrow> msg_data m = Some bs \<Longrightarrow> length bs \<le> BUFFER_SIZE \<Longrightarrow>
      I (c\<lparr>g_response_buf := bs @ drop (length bs) (g_response_buf c), g_response_len := length bs\<rparr>)"
    and keeps_net: "I c \<Longrightarrow> net_send env p (cli_net c) = (r, n) \<Longrightarrow> I (c\<lparr>cli_net := n\<rparr>)"
      "I c \<Longrightarrow> net_listen env k (cli_net c) = (msgs, n) \<Longrightarrow> I (c\<lparr>cli_net := n\<rparr>)"
    and good_messages: "I c \<Longrightarrow> net_send env p (cli_net c) = (Some msgs, n) \<Longrightarrow> m \<in> set msgs \<Longrightarrow> M m"
      "I c \<Longrightarrow> net_listen env k (cli_net c) = (msgs, n) \<Longrightarrow> m \<in> set msgs \<Longrightarrow> M m"
    and overflow: "M m \<Longrightarrow> msg_length m > BUFFER_SIZE \<Longrightarrow> F OutOfBoundsWrite"
    and read_fault: "F OutOfBoundsRead"
    and int_fault: "F IntegerOverflow"
begin

lemma show_datastore_ok: "I c \<Longrightarrow> run_ok I F (show_datastore env c)"
  by (auto simp: show_datastore_def intro: keeps_say split: option.split)

lemma response_handler_ok:
  assumes "I c" and "M m"
  shows "run_ok I F (response_handler env m c)"
proof -
  let ?data = "case msg_data m of None \<Rightarrow> [] | Some bs \<Rightarrow> bs"
  let ?c = "c\<lparr>g_response_code := (msg_class m, msg_detail m)\<rparr>"
  let ?d = "?c\<lparr>g_response_buf := ?data @ drop (length ?data) (g_response_buf ?c), g_response_len := length ?data\<rparr>"
  have len: "length ?data = msg_length m" by (simp add: msg_length_def split: option.split)
  show ?thesis
  proof (cases "length ?data > BUFFER_SIZE")
    case True
    then show ?thesis using overflow[OF assms(2)] len by (simp add: response_handler_def Let_def)
  next
    case False
    have c: "I ?c" using assms(1) by (rule keeps_flags(4))
    have d: "I ?d"
    proof (cases "msg_data m")
      case None
      then show ?thesis using keeps_flags(2)[OF c] by simp
    next
      case (Some bs)
      then show ?thesis using keeps_data[OF c assms(2) Some] False by simp
    qed
    have "run_ok I F (case (g_observe_mode ?d, msg_observe m) of
        (True, Some obs_seq) \<Rightarrow>
          let c = say (newline @ ascii ''[OBSERVE] notif seq='' @ decimal (unat obs_seq) @ ascii '' code='' @
                    show_code (g_response_code ?d) @ newline) ?d in
          and_then
            (if g_response_len c > 0 then show_datastore env c
             else return (say (ascii ''    (stream without payload)'' @ newline) c))
            (\<lambda>c. return (say (ascii ''coreconf> '') c))
      | _ \<Rightarrow> return ?d)"
      using d unfolding Let_def
      by (auto intro!: run_ok_and_then[where P = I] show_datastore_ok keeps_say simp del: run_ok_def split: option.split bool.split)
    then show ?thesis using False unfolding response_handler_def Let_def
      by (simp only: if_False) (erule run_ok_and_then, simp add: keeps_flags(1))
  qed
qed

lemma receive_ok: "I c \<Longrightarrow> \<forall>m \<in> set msgs. M m \<Longrightarrow> run_ok I F (receive env msgs c)"
proof (induction msgs arbitrary: c)
  case (Cons m msgs)
  then show ?case by (auto intro!: run_ok_and_then[OF response_handler_ok])
qed simp

lemma send_pdu_ok: "I c \<Longrightarrow> run_ok (\<lambda>(sent, c). I c) F (send_pdu env p c)"
  by (auto simp: send_pdu_def intro!: run_ok_and_then[OF receive_ok] intro: keeps_net good_messages
      split: prod.split option.split)

lemma start_wait: "I c \<Longrightarrow> I (c\<lparr>g_response_received := False, g_response_len := 0\<rparr>)"
  using keeps_flags(1)[of c False] keeps_flags(2)[of "c\<lparr>g_response_received := False\<rparr>"] by simp

lemma send_and_wait_ok: "I c \<Longrightarrow> run_ok (\<lambda>(ok, c). I c) F (send_and_wait env p c)"
  unfolding send_and_wait_def
  by (rule run_ok_and_then[OF send_pdu_ok]) (auto intro: start_wait keeps_say)

lemma send_quietly_ok: "I c \<Longrightarrow> run_ok I F (send_quietly env p c)"
  unfolding send_quietly_def by (rule run_ok_and_then[OF send_and_wait_ok]) (auto intro: keeps_say)

lemma check_ok: "I c \<Longrightarrow> run_ok (\<lambda>(r, c). I c) F (check_server_sid_compatibility env c)"
  unfolding check_server_sid_compatibility_def Let_def
  by (rule run_ok_and_then[OF send_pdu_ok]) (auto intro: start_wait intro!: keeps_say split: option.split)

lemma cmd_sidcheck_ok: "I c \<Longrightarrow> run_ok I F (and_then (check_server_sid_compatibility env c) (\<lambda>(r, c). return c))"
  by (rule run_ok_and_then[OF check_ok]) auto

section \<open>The commands\<close>

lemma cmd_store_ok: "I c \<Longrightarrow> run_ok I F (cmd_store env argv c)"
  unfolding cmd_store_def Let_def
  by (auto intro!: run_ok_and_then[OF send_and_wait_ok] intro: keeps_say keeps_type)

lemma show_answer_ok: "(case r of (ok, c) \<Rightarrow> I c) \<Longrightarrow> run_ok I F (show_answer env remark r)"
  by (auto simp: show_answer_def intro: show_datastore_ok keeps_say split: prod.splits)

lemma cmd_fetch_ok: "I c \<Longrightarrow> run_ok I F (cmd_fetch env argv c)"
  unfolding cmd_fetch_def Let_def
  by (auto intro!: run_ok_and_then[OF send_and_wait_ok] show_answer_ok intro: keeps_say split: sum.split prod.split)

lemma cmd_sfetch_ok: "I c \<Longrightarrow> run_ok I F (cmd_sfetch env argv c)"
  unfolding cmd_sfetch_def Let_def
  by (auto intro!: run_ok_and_then[OF send_and_wait_ok] show_answer_ok intro: keeps_say split: sum.split prod.split)

lemma cmd_get_ok: "I c \<Longrightarrow> run_ok I F (cmd_get env c)"
  unfolding cmd_get_def
  by (rule run_ok_and_then[OF send_and_wait_ok]) (auto intro: show_datastore_ok keeps_say)

lemma cmd_ipatch_ok: "I c \<Longrightarrow> run_ok I F (cmd_ipatch env argv c)"
  unfolding cmd_ipatch_def Let_def
  by (auto intro!: send_quietly_ok keeps_say split: list.split option.split prod.split)

lemma cmd_put_ok: "I c \<Longrightarrow> run_ok I F (cmd_put env argv c)"
  unfolding cmd_put_def Let_def by (auto intro!: send_quietly_ok keeps_say split: prod.split)

lemma show_post_response_ok: "I c \<Longrightarrow> run_ok I F (show_post_response env c)"
  using print_post_response_fault read_fault
  by (auto simp: show_post_response_def intro: keeps_say split: option.split sum.split)

lemma send_post_ok: "I c \<Longrightarrow> run_ok I F (send_post env bs c)"
  unfolding send_post_def
  by (rule run_ok_and_then[OF send_and_wait_ok]) (auto intro: show_post_response_ok keeps_say)

lemma cmd_post_ok: "I c \<Longrightarrow> run_ok I F (cmd_post env argv c)"
  unfolding cmd_post_def post_reboot_def post_reset_def Let_def
  by (auto intro!: send_post_ok keeps_say split: list.split option.split prod.split)

lemma cmd_delete_ok: "I c \<Longrightarrow> run_ok I F (cmd_delete env argv c)"
  unfolding cmd_delete_def Let_def
  by (auto intro!: send_quietly_ok keeps_say intro: keeps_stdin split: option.split prod.split)

lemma observe_secs_fault: "observe_secs argv = Inl f \<Longrightarrow> F f"
  using int_fault by (auto simp: observe_secs_def atoi_def Let_def split: list.splits if_splits)

lemma start_observe: "I c \<Longrightarrow> I (c\<lparr>g_response_received := False, g_response_len := 0, g_observe_mode := True\<rparr>)"
  using keeps_flags(3)[OF start_wait, of c True] by simp

lemma listen_ok:
  assumes "I c"
  shows "run_ok I F (case net_listen env k (cli_net c) of
    (msgs, n) \<Rightarrow> and_then (receive env msgs (c\<lparr>cli_net := n\<rparr>)) (\<lambda>c. return (say bs (c\<lparr>g_observe_mode := False\<rparr>))))"
proof (cases "net_listen env k (cli_net c)")
  case (Pair msgs n)
  then have "run_ok I F (receive env msgs (c\<lparr>cli_net := n\<rparr>))"
    using receive_ok keeps_net(2)[OF assms] good_messages(2)[OF assms] by blast
  then show ?thesis unfolding Pair prod.case by (rule run_ok_and_then) (simp add: keeps_say keeps_flags)
qed

lemma cmd_observe_ok: "I c \<Longrightarrow> run_ok I F (cmd_observe env argv c)"
  unfolding cmd_observe_def Let_def
  by (auto intro!: run_ok_and_then[OF send_pdu_ok] run_ok_and_then[where P = I] listen_ok show_datastore_ok keeps_say
      keeps_flags start_observe int_fault dest: observe_secs_fault split: sum.split)

lemma cmd_demo_ok: "I c \<Longrightarrow> run_ok I F (cmd_demo env c)"
  unfolding cmd_demo_def Let_def
  by (auto intro!: keeps_say run_ok_and_then[OF cmd_store_ok] run_ok_and_then[OF cmd_get_ok] run_ok_and_then[OF cmd_fetch_ok]
      run_ok_and_then[OF send_quietly_ok])

lemma run_command_ok: "I c \<Longrightarrow> run_ok I F (run_command env conf cmd argv c)"
  unfolding run_command_def print_help_def
  by (simp add: keeps_say cmd_store_ok cmd_fetch_ok cmd_sfetch_ok cmd_get_ok cmd_ipatch_ok cmd_post_ok cmd_put_ok cmd_delete_ok
      cmd_observe_ok cmd_demo_ok cmd_sidcheck_ok)

end

end
