(* ===== verification/Cli_Loop.thy ===== *)
theory Cli_Loop
  imports Cli_Contract
begin

text \<open>
  The command loop and \<open>main\<close> of the client \<open>src/iot_containers/iot_apps/coreconf_cli.c\<close>. The loop ends because every line
  takes characters from the standard input and no command gives any back.
\<close>

section \<open>The loop\<close>

definition prompt :: bytes where
  "prompt = ascii ''coreconf> ''"

lemma fgets_shorter: "fgets sz inp = Some (l, rest) \<Longrightarrow> length rest \<le> length inp"
  by (auto simp: fgets_def Let_def split: if_splits)

lemma fgets_reads: "fgets sz inp = Some (l, rest) \<Longrightarrow> 2 \<le> sz \<Longrightarrow> length rest < length inp"
  using length_takeWhile_le[of "\<lambda>b. b \<noteq> 0x0A" inp]
  by (cases "length (takeWhile (\<lambda>b. b \<noteq> 0x0A) inp) = length inp") (auto simp: fgets_def Let_def split: if_splits)

interpretation reads: command_contract env "\<lambda>c. length (cli_stdin c) \<le> n" "\<lambda>_. True" "\<lambda>_. True" for env :: "'n cli_env" and n
  by unfold_locales (auto simp: say_def dest: fgets_shorter)

function (sequential) cli_loop :: "'n cli_env \<Rightarrow> cli_config \<Rightarrow> 'n cli \<Rightarrow> 'n cli run" where
  "cli_loop env conf c =
     (case fgets 512 (cli_stdin (say prompt c)) of
        None \<Rightarrow> return (say prompt c)
      | Some (line, rest) \<Rightarrow>
          (case tokenize (trim_line line) of
             [] \<Rightarrow> cli_loop env conf ((say prompt c)\<lparr>cli_stdin := rest\<rparr>)
           | cmd # argv \<Rightarrow>
               if is_word cmd ''quit'' \<or> is_word cmd ''exit'' then return ((say prompt c)\<lparr>cli_stdin := rest\<rparr>)
               else case run_command env conf cmd argv ((say prompt c)\<lparr>cli_stdin := rest\<rparr>) of
                   None \<Rightarrow> None
                 | Some (Inl f) \<Rightarrow> Some (Inl f)
                 | Some (Inr c) \<Rightarrow> cli_loop env conf c))"
  by pat_completeness auto

termination
proof (relation "measure (\<lambda>(env, conf, c). length (cli_stdin c))", goal_cases)
  case 1
  show ?case by simp
next
  case (2 env conf c line_rest line rest)
  then show ?case using fgets_reads[of 512 "cli_stdin c" "line" rest] by (simp add: say_def)
next
  case (3 env conf c line_rest line rest cmd argv r c')
  let ?c = "(say prompt c)\<lparr>cli_stdin := rest\<rparr>"
  have "length rest < length (cli_stdin c)" using 3 fgets_reads[of 512 "cli_stdin c" "line" rest] by (simp add: say_def)
  moreover have "run_ok (\<lambda>c. length (cli_stdin c) \<le> length rest) (\<lambda>_. True) (run_command env conf cmd argv ?c)"
    by (rule reads.run_command_ok) simp
  then have "length (cli_stdin c') \<le> length rest" using 3 by (simp add: run_ok_def)
  ultimately show ?case by simp
qed

declare cli_loop.simps [simp del]

context command_contract begin

lemma cli_loop_ok: "I c \<Longrightarrow> run_ok I F (cli_loop env conf c)"
proof (induction "length (cli_stdin c)" arbitrary: c rule: less_induct)
  case less
  let ?c = "say prompt c"
  have c: "I ?c" using less.prems by (rule keeps_say)
  show ?case
  proof (cases "fgets 512 (cli_stdin ?c)")
    case None
    then show ?thesis using c by (subst cli_loop.simps) simp
  next
    case (Some lr)
    then obtain l rest where lr: "fgets 512 (cli_stdin ?c) = Some (l, rest)" by (cases lr) auto
    let ?d = "?c\<lparr>cli_stdin := rest\<rparr>"
    have d: "I ?d" using keeps_stdin[OF c lr] .
    have shorter: "length rest < length (cli_stdin c)" using fgets_reads[OF lr] by (simp add: say_def)
    have next_line: "run_ok I F (cli_loop env conf c')" if "I c'" "length (cli_stdin c') \<le> length rest" for c'
      using less.hyps[OF _ that(1)] that(2) shorter by simp
    show ?thesis
    proof (cases "tokenize (trim_line l)")
      case Nil
      then show ?thesis using lr next_line[OF d] by (subst cli_loop.simps) simp
    next
      case (Cons cmd argv)
      note r = run_command_ok[OF d, of conf cmd argv] reads.run_command_ok[of ?d "length rest" env conf cmd argv]
      then show ?thesis using lr Cons d next_line
        by (subst cli_loop.simps) (auto simp: run_ok_def return_def split: option.split sum.split)
    qed
  qed
qed

end

section \<open>Start\<close>

definition client_init :: "bytes \<Rightarrow> 'n \<Rightarrow> 'n cli" where
  "client_init inp net =
     \<lparr>g_device_type = ascii ''temperature'', cli_sys_sids = no_system_sids, cli_if_sids = no_interfaces_sids,
      cli_ops_sids = no_operation_sids, g_response_received = False, g_response_buf = replicate 4096 0, g_response_len = 0,
      g_response_code = (0, 0), g_observe_mode = False, cli_stdin = inp, cli_stdout = [], cli_net = net\<rparr>"

text \<open>The three dictionaries, each an exit with 1 when it cannot be read.\<close>

definition client_load :: "(bytes \<Rightarrow> bytes option) \<Rightarrow> 'n cli \<Rightarrow> int \<times> 'n cli" where
  "client_load fs c =
     (case cli_load_system_sids fs c of (r, c) \<Rightarrow>
      if r \<noteq> 0 then (1, c)
      else case cli_load_interfaces_sids fs c of (r, c) \<Rightarrow>
      if r \<noteq> 0 then (1, c)
      else case cli_load_operation_sids fs c of (r, c) \<Rightarrow>
      if r \<noteq> 0 then (1, c) else (0, c))"

text \<open>The session behind the set-up: the check of the SIDs, the command loop, the farewell.\<close>

definition client_session :: "'n cli_env \<Rightarrow> cli_config \<Rightarrow> 'n cli \<Rightarrow> (int \<times> 'n cli) run" where
  "client_session env conf c =
     and_then (check_server_sid_compatibility env c) (\<lambda>(r, c).
       if r \<noteq> 0 then return (1, c)
       else and_then (cli_loop env conf c) (\<lambda>c. return (0, say (newline @ ascii ''Exiting...'' @ newline) c)))"

text \<open>
  \<open>main\<close>: the result and the last state. \<open>argv1\<close> is the first argument of the program; \<open>connects\<close> tells whether the host name
  resolves and libcoap creates the session.
\<close>

definition client_main ::
  "'n cli_env \<Rightarrow> (bytes \<Rightarrow> bytes option) \<Rightarrow> (bytes \<Rightarrow> bytes option) \<Rightarrow> bool \<Rightarrow> (cli_config \<Rightarrow> bool) \<Rightarrow> bytes option \<Rightarrow>
   bytes \<Rightarrow> 'n \<Rightarrow> (int \<times> 'n cli) run" where
  "client_main env fs getenv supported connects argv1 inp net =
     (let c = client_init inp net;
          c = (case argv1 of Some w \<Rightarrow> c\<lparr>g_device_type := take 63 w\<rparr> | None \<Rightarrow> c) in
      case client_load fs c of
        (r, c) \<Rightarrow>
          if r \<noteq> 0 then return (r, c)
          else case client_config getenv supported of
              Inl f \<Rightarrow> Some (Inl f)
            | Inr conf \<Rightarrow>
                let c = say (start_banner conf c) c in
                if \<not> connects conf then return (1, c)
                else client_session env conf c)"

end
