(* ===== verification/Cli_Safety.thy ===== *)
theory Cli_Safety
  imports Cli_Loop Server_Session
begin

text \<open>
  The client and the server together: the size of the server's answers, the network as the sequence of requests the server serves, and
  what a whole run of the client keeps.
\<close>

section \<open>The size of an answer\<close>

lemma writes_length:
  assumes "writes f bs" and "start + n \<le> length buf" and "f (zcbor_new_encode_state old k buf start n e) = (ok, s')"
  shows "length (mem s') = length buf" and "payload s' \<le> start + n"
proof -
  let ?s = "zcbor_new_encode_state old k buf start n e"
  have s: "enc_ok ?s" "payload_end ?s = start + n" "mem ?s = buf" "payload ?s = start"
    using assms(2) by (simp_all add: enc_ok_def zcbor_new_encode_state_def)
  obtain cs where "appended cs ?s (snd (f ?s))" using writesE[OF assms(1) s(1)] by blast
  then have "appended cs ?s s'" using assms(3) by simp
  note reg = appended_region[OF s(1) this]
  show "length (mem s') = length buf" "payload s' \<le> start + n"
    using reg s \<open>appended cs ?s s'\<close> by (simp_all add: appended_def fits_def)
qed

lemma encode_seq_length:
  assumes "\<And>x. x \<in> set xs \<Longrightarrow> \<exists>bs. writes (put x) bs" and "offset \<le> n" and "n \<le> length buf"
  shows "length (snd (encode_seq k put old buf n xs offset)) = length buf"
  using assms
proof (induction xs arbitrary: old buf offset)
  case (Cons x xs)
  obtain bs where w: "writes (put x) bs" using Cons.prems(1) by auto
  obtain ok s where r: "put x (zcbor_new_encode_state old k buf offset (n - offset) 0) = (ok, s)" by fastforce
  have "length (mem s) = length buf" "payload s \<le> n"
    using writes_length[OF w _ r] Cons.prems(2,3) by simp_all
  then show ?case using Cons.IH[of "payload s" "mem s"] Cons.prems r by (cases ok) auto
qed simp

lemma encode_events_length: "used \<le> sz \<Longrightarrow> used + length (encode_events sz used events) \<le> sz"
  by (induction sz used events rule: encode_events.induct) (auto simp: add.assoc)

lemma stream_encode_sequence_length: "length (stream_encode_sequence sz n events) \<le> sz"
  using encode_events_length[of 0 sz] by (simp add: stream_encode_sequence_def Let_def)

lemma encode_filtered_length:
  "encode_filtered old sids sz m used n events = Inr bs \<Longrightarrow> used \<le> sz \<Longrightarrow> used + length bs \<le> sz"
  by (induction old sids sz m used n events arbitrary: bs rule: encode_filtered.induct)
    (auto simp: add.assoc map_sum_def split: if_splits sum.splits bool.splits)

lemma stream_filtered_length: "stream_encode_sequence_filtered old sz n sids events = Inr bs \<Longrightarrow> length bs \<le> sz"
  using encode_filtered_length[of old sids sz _ 0 0 events bs] stream_encode_sequence_length[of sz n events]
  by (auto simp: stream_encode_sequence_filtered_def Let_def split: if_splits)

lemma send_error_length: "length (resp_data (send_error code esid msg)) \<le> BUFFER_SIZE"
  by (simp add: send_error_def encode_error_def Let_def BUFFER_SIZE_def)

text \<open>A handler whose answers fit into the client's array.\<close>

locale bounded_handler =
  fixes handle :: "call_env \<Rightarrow> server \<Rightarrow> request \<Rightarrow> outcome"
  assumes bounded: "server_ok sv \<Longrightarrow> length (env_buf env) = BUFFER_SIZE \<Longrightarrow>
    handle env sv req = Some (Inr (sv', resp, effs)) \<Longrightarrow> length (resp_data resp) \<le> BUFFER_SIZE"

interpretation b_sid: bounded_handler "\<lambda>env sv req. handle_sid_info sv"
  by unfold_locales (auto simp: handle_sid_info_def BUFFER_SIZE_def)

interpretation b_sget: bounded_handler "\<lambda>env sv req. handle_stream_get sv"
  by unfold_locales (auto simp: handle_stream_get_def stream_encode_sequence_length)

interpretation b_sfetch: bounded_handler handle_stream_fetch
  by unfold_locales
    (auto simp: handle_stream_fetch_def refuse_is Let_def map_sum_def send_error_length dest: stream_filtered_length
      split: if_splits sum.splits option.splits)

interpretation b_get: bounded_handler "\<lambda>env sv req. handle_get env sv"
proof
  fix sv env req sv' resp effs
  assume ok: "server_ok sv" and buf: "length (env_buf env) = BUFFER_SIZE"
    and h: "handle_get env sv = Some (Inr (sv', resp, effs))"
  show "length (resp_data resp) \<le> BUFFER_SIZE"
  proof (cases "g_datastore sv")
    case None
    then show ?thesis using h by (simp add: handle_get_def refuse_is send_error_length)
  next
    case (Some v)
    then obtain hm where hm: "map_value sv = Inr hm" "g_datastore sv = Some (CORECONF_HASHMAP hm)" "hm_wf hm"
      using map_value_ok[OF ok] by auto
    obtain okf s where r: "put_map hm (zcbor_new_encode_state (env_stack env) 8 (env_buf env) 0 BUFFER_SIZE 1) = (okf, s)" by fastforce
    have "length (mem s) = BUFFER_SIZE" using writes_length(1)[OF writes_map _ r] buf by simp
    then show ?thesis
      using h hm r create_get_response_put_map[OF hm(3), of "env_stack env" "env_buf env" BUFFER_SIZE]
      by (auto simp: handle_get_def refuse_is send_error_length Let_def finish_def split: if_splits)
  qed
qed

interpretation b_fetch: bounded_handler handle_fetch
proof
  fix sv env req sv' resp effs
  assume ok: "server_ok sv" and buf: "length (env_buf env) = BUFFER_SIZE"
    and h: "handle_fetch env sv req = Some (Inr (sv', resp, effs))"
  let ?s = "zcbor_new_encode_state (env_stack env) 8 (env_buf env) 0 BUFFER_SIZE 1"
  let ?f = "\<lambda>hm iids n s. (True, snd (zcbor_map_end_encode (fold (fetch_put hm) iids (snd (zcbor_map_start_encode s n))) n))"
  have "length (mem (snd (?f hm iids n ?s))) = BUFFER_SIZE" for hm iids n
  proof -
    have "writes (\<lambda>s. (True, fold (fetch_put hm) iids s)) (concat (map (fetch_answer hm) iids))"
      by (rule writes_fold) (rule writes_fetch_put)
    from writes_then[OF writes_delimiters(2)[of n] writes_then[OF this writes_delimiters(4)[of n]]]
    have "writes (?f hm iids n) ([0xBF] @ concat (map (fetch_answer hm) iids) @ [0xFF])" by simp
    from writes_length(1)[OF this, of 0 BUFFER_SIZE "env_buf env"] show ?thesis using buf by simp
  qed
  then show "length (resp_data resp) \<le> BUFFER_SIZE"
    using h by (auto simp: handle_fetch_def refuse_is send_error_length Let_def min_def
        split: if_splits sum.splits option.splits)
qed

interpretation b_delete: bounded_handler "\<lambda>env sv req. handle_delete env sv"
  by unfold_locales (auto simp: handle_delete_def refuse_is send_error_length split: if_splits sum.splits)

interpretation b_ipatch: bounded_handler handle_ipatch
  by unfold_locales
    (auto simp: handle_ipatch_def refuse_is send_error_length Let_def split: if_splits option.splits sum.splits prod.splits)

interpretation b_put: bounded_handler handle_put
  by unfold_locales
    (auto simp: handle_put_def refuse_is send_error_length Let_def
      split: if_splits option.splits sum.splits CoreconfValue.splits)

lemma post_one_key: "post_one env sv inp = Inr (Inr item) \<Longrightarrow> has_key item"
  by (auto simp: post_one_def has_key_def Let_def split: if_splits option.splits CoreconfValue.splits prod.splits)

lemma post_one_error: "post_one env sv inp = Inr (Inl resp) \<Longrightarrow> length (resp_data resp) \<le> BUFFER_SIZE"
  by (auto simp: post_one_def send_error_length Let_def split: if_splits option.splits CoreconfValue.splits prod.splits)

lemma post_each_keys:
  "post_each env sv reqs acc = Inr r \<Longrightarrow> \<forall>item \<in> set acc. has_key item \<Longrightarrow>
   (case r of Inl resp \<Rightarrow> length (resp_data resp) \<le> BUFFER_SIZE | Inr items \<Rightarrow> \<forall>item \<in> set items. has_key item)"
  by (induction env sv reqs acc rule: post_each.induct)
    (auto dest: post_one_key post_one_error split: sum.splits)

interpretation b_invoke: bounded_handler post_invoke
proof
  fix sv env req sv' resp effs
  assume buf: "length (env_buf env) = BUFFER_SIZE" and h: "post_invoke env sv req = Some (Inr (sv', resp, effs))"
  have out: "length (the (snd (create_post_items old (Some (env_buf env)) BUFFER_SIZE (Some items)))) = BUFFER_SIZE"
    if "\<forall>item \<in> set items. has_key item" for old items
    using encode_seq_length[of items put_post_item 0 BUFFER_SIZE "env_buf env" 12 old] writes_post_item that buf
    by (auto simp: create_post_items_def)
  consider "length (resp_data resp) \<le> BUFFER_SIZE" | reqs where "post_each env sv reqs [] = Inr (Inl resp)"
    | reqs items n out where "post_each env sv reqs [] = Inr (Inr items)" "resp_data resp = take n (the out)"
      "create_post_items (env_stack env) (Some (env_buf env)) BUFFER_SIZE (Some items) = (n, out)"
    using h by (auto simp: post_invoke_def refuse_is send_error_length split: if_splits option.splits sum.splits prod.splits)
  then show "length (resp_data resp) \<le> BUFFER_SIZE"
  proof cases
    case 1
    then show ?thesis .
  next
    case (2 reqs)
    then show ?thesis using post_each_keys by fastforce
  next
    case (3 reqs items n out)
    then have "\<forall>item \<in> set items. has_key item" using post_each_keys by fastforce
    then show ?thesis using out[of items "env_stack env"] 3 by simp
  qed
qed

interpretation b_create: bounded_handler post_create
  by unfold_locales
    (auto simp: post_create_def refuse_is send_error_length split: if_splits option.splits sum.splits CoreconfValue.splits)

interpretation b_post: bounded_handler handle_post
proof
  fix sv env req sv' resp effs
  assume a: "server_ok sv" "length (env_buf env) = BUFFER_SIZE" "handle_post env sv req = Some (Inr (sv', resp, effs))"
  then show "length (resp_data resp) \<le> BUFFER_SIZE"
    using b_create.bounded[OF a(1,2), of req sv' resp effs] b_invoke.bounded[OF a(1,2), of req sv' resp effs]
    by (auto simp: handle_post_def refuse_is send_error_length split: if_splits)
qed

lemma dispatch_bounded:
  assumes "server_ok sv" and "length (env_buf env) = BUFFER_SIZE"
    and "dispatch env sv res meth req = Some (Some (Inr (sv', resp, effs)))"
  shows "length (resp_data resp) \<le> BUFFER_SIZE"
proof -
  have "\<exists>h. bounded_handler h \<and> h env sv req = Some (Inr (sv', resp, effs))"
    using assms(3)
    by (cases "(env, sv, res, meth, req)" rule: dispatch.cases)
      (auto intro: b_post.bounded_handler_axioms b_fetch.bounded_handler_axioms b_get.bounded_handler_axioms
        b_ipatch.bounded_handler_axioms b_put.bounded_handler_axioms b_delete.bounded_handler_axioms
        b_sget.bounded_handler_axioms b_sfetch.bounded_handler_axioms b_sid.bounded_handler_axioms)
  then show ?thesis using bounded_handler.bounded assms(1,2) by blast
qed


section \<open>The network\<close>

text \<open>
  What the client receives while the server serves some requests: the data of some of the answers, in their order. Requests of other
  clients and lost answers are steps without a message.
\<close>

definition answer_data :: "response \<Rightarrow> bytes option" where
  "answer_data resp = (if resp_data resp = [] then None else Some (resp_data resp))"

inductive served :: "server \<Rightarrow> message list \<Rightarrow> server \<Rightarrow> bool" where
  served_none: "served sv [] sv"
| served_unseen: "serves sv rq out sv' \<Longrightarrow> served sv' msgs sv'' \<Longrightarrow> served sv msgs sv''"
| served_answer: "serves sv rq (resp, effs) sv' \<Longrightarrow> msg_data m = answer_data resp \<Longrightarrow> served sv' msgs sv'' \<Longrightarrow>
    served sv (m # msgs) sv''"

definition connected :: "server cli_env \<Rightarrow> bool" where
  "connected env \<longleftrightarrow>
     (\<forall>p sv r sv'. net_send env p sv = (r, sv') \<longrightarrow> served sv (case r of None \<Rightarrow> [] | Some msgs \<Rightarrow> msgs) sv') \<and>
     (\<forall>k sv msgs sv'. net_listen env k sv = (msgs, sv') \<longrightarrow> served sv msgs sv')"

lemma serves_bounded:
  assumes "reachable sv" and "serves sv rq (resp, effs) sv'" and "msg_data m = answer_data resp"
  shows "msg_length m \<le> BUFFER_SIZE"
proof -
  have "length (resp_data resp) \<le> BUFFER_SIZE"
    using assms(2) dispatch_bounded[OF reachable_ok[OF assms(1)]] by (auto elim: serves.cases)
  then show ?thesis using assms(3) by (simp add: msg_length_def answer_data_def)
qed

lemma served_reachable:
  "served sv msgs sv' \<Longrightarrow> reachable sv \<Longrightarrow> reachable sv' \<and> (\<forall>m \<in> set msgs. msg_length m \<le> BUFFER_SIZE)"
  by (induction rule: served.induct) (auto intro: reachable.step serves_bounded)

definition linked :: "server cli \<Rightarrow> bool" where
  "linked c \<longleftrightarrow> reachable (cli_net c) \<and> length (g_response_buf c) = BUFFER_SIZE \<and> g_response_len c \<le> BUFFER_SIZE"

definition ready :: "server cli \<Rightarrow> bool" where
  "ready c \<longleftrightarrow> linked c \<and> sys_loaded (cli_sys_sids c) \<and> if_loaded (cli_if_sids c)"

lemma contract_connected:
  assumes "connected env"
  shows "command_contract env linked (\<lambda>m. msg_length m \<le> BUFFER_SIZE) (\<lambda>f. f \<noteq> OutOfBoundsWrite)"
    and "command_contract env ready (\<lambda>m. msg_length m \<le> BUFFER_SIZE) (\<lambda>f. f \<noteq> OutOfBoundsWrite)"
proof -
  have send: "reachable sv' \<and> (\<forall>msgs. r = Some msgs \<longrightarrow> (\<forall>m \<in> set msgs. msg_length m \<le> BUFFER_SIZE))"
    if "net_send env p sv = (r, sv')" "reachable sv" for p sv r sv'
  proof -
    have "served sv (case r of None \<Rightarrow> [] | Some msgs \<Rightarrow> msgs) sv'" using assms that(1) unfolding connected_def by blast
    from served_reachable[OF this that(2)] show ?thesis by (cases r) simp_all
  qed
  have listen: "reachable sv' \<and> (\<forall>m \<in> set msgs. msg_length m \<le> BUFFER_SIZE)"
    if "net_listen env k sv = (msgs, sv')" "reachable sv" for k sv msgs sv'
    using assms that served_reachable unfolding connected_def by blast
  show "command_contract env linked (\<lambda>m. msg_length m \<le> BUFFER_SIZE) (\<lambda>f. f \<noteq> OutOfBoundsWrite)"
    by unfold_locales (auto simp: linked_def say_def dest: send listen)
  show "command_contract env ready (\<lambda>m. msg_length m \<le> BUFFER_SIZE) (\<lambda>f. f \<noteq> OutOfBoundsWrite)"
    by unfold_locales (auto simp: ready_def linked_def say_def dest: send listen)
qed

lemma client_load_linked:
  assumes "linked c" and "client_load fs c = (r, c')"
  shows "linked c'" and "r = 0 \<Longrightarrow> ready c'"
proof -
  have l: "linked d' \<and> (r = 0 \<longrightarrow> sys_loaded (cli_sys_sids d'))"
    if "linked d" "cli_load_system_sids fs d = (r, d')" for d d' r
    using that by (auto simp: cli_load_system_sids_def loaded_def say_def linked_def load_runtime_system_sids_def Let_def
        split: option.splits prod.splits if_splits)
  have m: "linked d' \<and> (r = 0 \<longrightarrow> if_loaded (cli_if_sids d')) \<and> cli_sys_sids d' = cli_sys_sids d"
    if "linked d" "cli_load_interfaces_sids fs d = (r, d')" for d d' r
    using that by (auto simp: cli_load_interfaces_sids_def loaded_def say_def linked_def load_runtime_interfaces_sids_def Let_def
        split: option.splits prod.splits if_splits)
  have n: "linked d' \<and> cli_if_sids d' = cli_if_sids d \<and> cli_sys_sids d' = cli_sys_sids d"
    if "linked d" "cli_load_operation_sids fs d = (r, d')" for d d' r
    using that by (auto simp: cli_load_operation_sids_def loaded_def say_def linked_def
        split: option.splits prod.splits if_splits)
  show "linked c'" "r = 0 \<Longrightarrow> ready c'"
  proof -
    obtain r1 c1 where 1: "cli_load_system_sids fs c = (r1, c1)" by fastforce
    obtain r2 c2 where 2: "cli_load_interfaces_sids fs c1 = (r2, c2)" by fastforce
    obtain r3 c3 where 3: "cli_load_operation_sids fs c2 = (r3, c3)" by fastforce
    have c1: "linked c1 \<and> (r1 = 0 \<longrightarrow> sys_loaded (cli_sys_sids c1))" using l[OF assms(1) 1] .
    have c2: "linked c2 \<and> (r2 = 0 \<longrightarrow> if_loaded (cli_if_sids c2)) \<and> cli_sys_sids c2 = cli_sys_sids c1" using m[OF _ 2] c1 by blast
    have c3: "linked c3 \<and> cli_if_sids c3 = cli_if_sids c2 \<and> cli_sys_sids c3 = cli_sys_sids c2" using n[OF _ 3] c2 by blast
    show "linked c'" "r = 0 \<Longrightarrow> ready c'"
      using assms(2) 1 2 3 c1 c2 c3 by (auto simp: client_load_def ready_def split: if_splits)
  qed
qed

text \<open>
  C5. A whole run of the client against the server never writes behind its response array of 4096 bytes, although the handler of the
  messages copies whatever comes: the server answers no request with more. The server stays in a reachable state, and the client gets
  to its commands only with the SIDs loaded.
\<close>

theorem client_run_safe:
  assumes "connected env" and "reachable sv"
    and "client_main env fs getenv supported connects argv1 inp sv = Some r"
  shows "r \<noteq> Inl OutOfBoundsWrite \<and>
    (\<forall>code c. r = Inr (code, c) \<longrightarrow> reachable (cli_net c) \<and> length (g_response_buf c) = 4096 \<and> g_response_len c \<le> 4096 \<and>
      (code = 0 \<longrightarrow> sys_loaded (cli_sys_sids c) \<and> if_loaded (cli_if_sids c)))"
proof -
  note lk = contract_connected(1)[OF assms(1)] and rd = contract_connected(2)[OF assms(1)]
  let ?c = "(case argv1 of Some w \<Rightarrow> client_init inp sv\<lparr>g_device_type := take 63 w\<rparr> | None \<Rightarrow> client_init inp sv)"
  let ?P = "\<lambda>(code, c). linked c \<and> (code = 0 \<longrightarrow> ready c)"
  have c0: "linked ?c" using assms(2) by (simp add: linked_def client_init_def BUFFER_SIZE_def split: option.split)
  obtain r0 c where load: "client_load fs ?c = (r0, c)" by fastforce
  note lc = client_load_linked[OF c0 load]
  have "run_ok ?P (\<lambda>f. f \<noteq> OutOfBoundsWrite) (client_main env fs getenv supported connects argv1 inp sv)"
  proof (cases "r0 = 0 \<and> (\<exists>conf. client_config getenv supported = Inr conf \<and> connects conf)")
    case False
    have "f \<noteq> OutOfBoundsWrite" if "client_config getenv supported = Inl f" for f
      using that by (auto simp: client_config_def atoi_def map_sum_def Let_def split: sum.splits if_splits option.splits)
    then show ?thesis using False load lc
      by (auto simp: client_main_def Let_def say_def linked_def split: sum.split)
  next
    case True
    then obtain conf where conf: "client_config getenv supported = Inr conf" "connects conf" and r0: "r0 = 0" by blast
    let ?d = "say (start_banner conf c) c"
    have d: "ready ?d" using lc(2)[OF r0] by (simp add: ready_def linked_def say_def)
    have "run_ok ?P (\<lambda>f. f \<noteq> OutOfBoundsWrite)
      (and_then (check_server_sid_compatibility env ?d) (\<lambda>(r, c).
         if r \<noteq> 0 then return (1, c)
         else and_then (cli_loop env conf c) (\<lambda>c. return (0, say (newline @ ascii ''Exiting...'' @ newline) c))))"
    proof (rule run_ok_and_then[OF command_contract.check_ok[OF rd d]])
      fix a :: "int \<times> server cli"
      assume "case a of (r, c) \<Rightarrow> ready c"
      then obtain r e where e: "a = (r, e)" "ready e" by auto
      have "run_ok ?P (\<lambda>f. f \<noteq> OutOfBoundsWrite)
          (and_then (cli_loop env conf e) (\<lambda>c. return (0, say (newline @ ascii ''Exiting...'' @ newline) c)))"
        by (rule run_ok_and_then[OF command_contract.cli_loop_ok[OF rd e(2)]]) (simp add: ready_def linked_def say_def)
      then show "run_ok ?P (\<lambda>f. f \<noteq> OutOfBoundsWrite) (case a of (r, c) \<Rightarrow>
         if r \<noteq> 0 then return (1, c)
         else and_then (cli_loop env conf c) (\<lambda>c. return (0, say (newline @ ascii ''Exiting...'' @ newline) c)))"
        using e by (cases "r = 0") (simp_all add: ready_def)
    qed
    then show ?thesis using load r0 conf by (simp add: client_main_def client_session_def Let_def)
  qed
  then show ?thesis using assms(3) by (auto simp: run_ok_def linked_def ready_def BUFFER_SIZE_def)
qed

section \<open>The server as the network\<close>

text \<open>A network with one client that loses nothing: every request gets the answer of the server's handler, and nobody notifies.\<close>

fun code_of :: "coap_code \<Rightarrow> nat \<times> nat" where
  "code_of CREATED = (2, 1)"
| "code_of DELETED = (2, 2)"
| "code_of CHANGED = (2, 4)"
| "code_of CONTENT = (2, 5)"
| "code_of BAD_REQUEST = (4, 0)"
| "code_of NOT_FOUND = (4, 4)"
| "code_of CONFLICT = (4, 9)"
| "code_of UNSUPPORTED_CONTENT_FORMAT = (4, 15)"
| "code_of INTERNAL_ERROR = (5, 0)"

definition message_of :: "response \<Rightarrow> message" where
  "message_of resp =
     \<lparr>msg_class = fst (code_of (resp_code resp)), msg_detail = snd (code_of (resp_code resp)), msg_observe = None,
      msg_data = answer_data resp\<rparr>"

definition request_of :: "pdu \<Rightarrow> request" where
  "request_of p = \<lparr>req_cf = map_option ucast (pdu_cf p), req_data = Some (pdu_data p)\<rparr>"

definition server_net :: "call_env \<Rightarrow> pdu \<Rightarrow> server \<Rightarrow> message list option \<times> server" where
  "server_net senv p sv =
     (case dispatch senv sv (pdu_resource p) (pdu_method p) (request_of p) of
        Some (Some (Inr (sv', resp, _))) \<Rightarrow> (Some [message_of resp], sv')
      | _ \<Rightarrow> (Some [], sv))"

definition with_server :: "call_env \<Rightarrow> server cli_env \<Rightarrow> server cli_env" where
  "with_server senv env = env\<lparr>net_send := server_net senv, net_listen := \<lambda>k sv. ([], sv)\<rparr>"

lemma connected_server:
  assumes "length (env_buf senv) = BUFFER_SIZE"
  shows "connected (with_server senv env)"
proof -
  have "served sv (case r of None \<Rightarrow> [] | Some msgs \<Rightarrow> msgs) sv'" if "server_net senv p sv = (r, sv')" for p sv r sv'
  proof (cases "\<exists>sv1 resp effs. dispatch senv sv (pdu_resource p) (pdu_method p) (request_of p) = Some (Some (Inr (sv1, resp, effs)))")
    case True
    then obtain sv1 resp effs where
      d: "dispatch senv sv (pdu_resource p) (pdu_method p) (request_of p) = Some (Some (Inr (sv1, resp, effs)))" by blast
    have "serves sv (pdu_resource p, pdu_method p, request_of p) (resp, effs) sv1" using assms d by (rule serves.intros)
    moreover have "msg_data (message_of resp) = answer_data resp" by (simp add: message_of_def)
    ultimately have "served sv [message_of resp] sv1" by (rule served_answer) (rule served_none)
    then show ?thesis using that d by (auto simp: server_net_def)
  next
    case False
    then show ?thesis using that by (auto simp: server_net_def served_none split: option.splits sum.splits)
  qed
  then show ?thesis by (simp add: connected_def with_server_def served_none)
qed

definition sample_cli_env :: "server cli_env" where
  "sample_cli_env = \<lparr>cli_fuel = 20, cli_stack = any_state, cli_buf = replicate 4096 0, cli_nan = (\<lambda>_. 0), cli_time = (\<lambda>_. 0),
     net_send = (\<lambda>p n. (None, n)), net_listen = (\<lambda>k n. ([], n))\<rparr>"

definition sample_call_env :: call_env where
  "sample_call_env = \<lparr>env_fuel = 20, env_stack = any_state, env_buf = replicate 4096 0, env_now = 0\<rparr>"

theorem client_run_safe_witness:
  "\<exists>sv c. reachable sv \<and>
     client_main (with_server sample_call_env sample_cli_env) (\<lambda>_. None) (\<lambda>_. None) False (\<lambda>_. True) None [] sv = Some (Inr (1, c)) \<and>
     reachable (cli_net c) \<and> length (g_response_buf c) = 4096"
proof -
  obtain sv where sv: "reachable sv" using sample_reachable by blast
  let ?env = "with_server sample_call_env sample_cli_env"
  have env: "connected ?env" by (rule connected_server) (simp add: sample_call_env_def BUFFER_SIZE_def)
  have none: "find (\<lambda>path :: bytes. False) xs = None" for xs by (induction xs) simp_all
  have "client_main ?env (\<lambda>_. None) (\<lambda>_. None) False (\<lambda>_. True) None [] sv = Some (Inr (1, client_init [] sv))"
    by (simp add: client_main_def client_load_def cli_load_system_sids_def load_text_from_candidates_def none return_def)
  from client_run_safe[OF env sv this] this sv show ?thesis by blast
qed

end
