(* ===== verification/Skip_Encoded.thy ===== *)
theory Skip_Encoded
  imports Server_Session
begin

text \<open>
  \<open>zcbor_any_skip\<close> (\<open>src/coreconf_zcbor_generated/zcbor_decode.c\<close>) on encoded values: it moves exactly behind the encoding of a value, at
  any nesting, and does not use up the backups of the state. The server's notifications of an iPATCH rest on it.
\<close>

section \<open>Skipping exactly\<close>

definition skips :: "bytes \<Rightarrow> bool" where
  "skips bs \<longleftrightarrow> bs \<noteq> [] \<and> hd bs \<noteq> 0xFF \<and>
     (\<forall>s. coming s bs \<longrightarrow> elem_count s \<noteq> 0 \<longrightarrow> \<not> enforce_canonical s \<longrightarrow>
        (\<exists>fuel s'. zcbor_any_skip fuel s = Some (True, s') \<and> consumed (length bs) 1 s s'))"

lemma any_skip_eq:
  assumes "zcbor_any_skip fuel s = Some r"
  shows "any_skip s = r"
proof -
  let ?f = "2 * (payload_end s - payload s) + 1"
  have f: "zcbor_any_skip ?f s = Some (any_skip s)" by (rule any_skip_fuel) simp
  show ?thesis using any_skip_mono[OF f, of "max ?f fuel"] any_skip_mono[OF assms, of "max ?f fuel"] by simp
qed

lemma skip_elems_mono: "skip_elems f c = Some r \<Longrightarrow> f \<le> g \<Longrightarrow> skip_elems g c = Some r"
proof (rotate_tac 1, induction g rule: dec_induct)
  case (step n)
  then show ?case using skip_mono_Suc[of n] by blast
qed simp

lemma skip_tags_none:
  "ZCBOR_MAJOR_TYPE (header_at s) \<noteq> ZCBOR_MAJOR_TYPE_TAG \<Longrightarrow> skip_tags s = (True, s)"
  by (subst skip_tags.simps) simp

lemma consumed_commit: "consumed n k s c \<Longrightarrow> consumed n 1 s (snd (skip_commit s c))"
  by (simp add: skip_commit_def share_error_def consumed_def)

text \<open>Items without contents: a header, and nothing that the skipper would look into.\<close>

lemma skips_head:
  assumes "m = ZCBOR_MAJOR_TYPE_PINT \<or> m = ZCBOR_MAJOR_TYPE_NINT \<or> m = ZCBOR_MAJOR_TYPE_SIMPLE"
  shows "skips (cbor_head m v)"
proof -
  have "\<exists>fuel s'. zcbor_any_skip fuel s = Some (True, s') \<and> consumed (length (cbor_head m v)) 1 s s'"
    if c: "coming s (cbor_head m v)" "elem_count s \<noteq> 0" "\<not> enforce_canonical s" for s
  proof -
    let ?c = "advance s (length (cbor_head m v))"
    have m: "m \<notin> {ZCBOR_MAJOR_TYPE_TAG, ZCBOR_MAJOR_TYPE_MAP, ZCBOR_MAJOR_TYPE_LIST, ZCBOR_MAJOR_TYPE_BSTR,
        ZCBOR_MAJOR_TYPE_TSTR}"
      using assms by auto
    note h = head_major[OF c(1)] value_extract_head[OF c(1-3) head_len_9, of False]
    have "zcbor_any_skip (Suc 0) s = Some (skip_commit s ?c)"
      using h m c(2) by (simp add: initial_checks_def skip_tags_none)
    moreover have "consumed (length (cbor_head m v)) 1 s (snd (skip_commit s ?c))" by (rule consumed_commit[OF consumed_advance])
    ultimately show ?thesis by (metis prod.collapse skip_commit_def fst_conv)
  qed
  moreover obtain b bs where b: "cbor_head m v = b # bs" by (cases "cbor_head m v") auto
  moreover have "b \<noteq> 0xFF" by (rule cbor_head_no_break[OF b])
  ultimately show ?thesis by (simp add: skips_def)
qed

lemma skips_float: "skips (0xFB # be_bytes 8 d)"
proof -
  have hb: "(0xFB :: u8) = header_byte ZCBOR_MAJOR_TYPE_SIMPLE 27" by (simp add: header_byte_def)
  have f: "ZCBOR_MAJOR_TYPE (0xFB) = ZCBOR_MAJOR_TYPE_SIMPLE" "ZCBOR_ADDITIONAL 0xFB = 27"
    unfolding hb by (rule header_byte_fields; simp)+
  have "\<exists>fuel s'. zcbor_any_skip fuel s = Some (True, s') \<and> consumed (length (0xFB # be_bytes 8 d)) 1 s s'"
    if c: "coming s (0xFB # be_bytes 8 d)" "elem_count s \<noteq> 0" "\<not> enforce_canonical s" for s
  proof -
    have "value_extract s 8 False = (Some (d, False), advance s 9)"
      using coming_hd[OF c(1)] coming_be_bytes[OF c(1)] c(2,3) f
      by (simp add: value_extract_def initial_checks_def additional_len_def endian_copy_def advance_def be_word_be_bytes Let_def)
    then have "zcbor_any_skip (Suc 0) s = Some (skip_commit s (advance s 9))"
      using coming_hd[OF c(1)] c(2) f by (simp add: initial_checks_def skip_tags_none)
    moreover have "consumed 9 1 s (snd (skip_commit s (advance s 9)))" by (rule consumed_commit[OF consumed_advance])
    moreover have "length (0xFB # be_bytes 8 d) = 9" by simp
    ultimately show ?thesis by (metis prod.collapse skip_commit_def fst_conv)
  qed
  then show ?thesis by (simp add: skips_def)
qed

lemma skips_str:
  assumes "m = ZCBOR_MAJOR_TYPE_TSTR" and "length bs < 2 ^ 64"
  shows "skips (cbor_str m bs)"
proof -
  let ?h = "cbor_head m (of_nat (length bs))"
  have "\<exists>fuel s'. zcbor_any_skip fuel s = Some (True, s') \<and> consumed (length (cbor_str m bs)) 1 s s'"
    if c: "coming s (cbor_str m bs)" "elem_count s \<noteq> 0" "\<not> enforce_canonical s" for s
  proof -
    have h: "coming s ?h" using c(1) by (simp add: cbor_str_def coming_append)
    have l: "unat (of_nat (length bs) :: u64) = length bs" using assms(2) by (simp add: unat_of_nat take_bit_nat_eq_self)
    have "payload s + (length ?h + length bs) \<le> payload_end s" using c(1) by (simp add: coming_def cbor_str_def)
    then have room: "\<not> payload_end s - payload s < length bs" by linarith
    note v = value_extract_head[OF h c(2,3) head_len_9, of False]
    let ?c = "(advance s (length ?h))\<lparr>payload := payload s + length ?h + length bs\<rparr>"
    have "zcbor_any_skip (Suc 0) s = Some (skip_commit s ?c)"
      using head_major[OF h] v assms(1) room l c(2) by (simp add: initial_checks_def skip_tags_none str_overflow_check_def)
    moreover have "consumed (length (cbor_str m bs)) 1 s (snd (skip_commit s ?c))"
      by (rule consumed_commit[of _ 1]) (simp add: consumed_def cbor_str_def)
    ultimately show ?thesis by (metis prod.collapse skip_commit_def fst_conv)
  qed
  moreover obtain b t where b: "?h = b # t" by (cases ?h) auto
  moreover have "b \<noteq> 0xFF" by (rule cbor_head_no_break[OF b])
  ultimately show ?thesis by (simp add: skips_def cbor_str_def)
qed

section \<open>Containers\<close>

lemma skip_elems_coming:
  assumes "\<forall>bs \<in> set bss. skips bs" and "coming c (concat bss @ [0xFF])" and "length bss < unat (elem_count c)"
    and "indefinite_length_array c" and "\<not> enforce_canonical c"
  shows "\<exists>fuel c'. skip_elems fuel c = Some (True, c') \<and>
    consumed (length (concat bss)) (of_nat (length bss)) c c' \<and> coming c' [0xFF]"
  using assms
proof (induction bss arbitrary: c)
  case Nil
  then have "skip_elems (Suc 0) c = Some (True, c)" using array_at_end_break[of c] by simp
  then show ?case using Nil by (intro exI[of _ "Suc 0"] exI[of _ c]) simp
next
  case (Cons bs bss)
  have com: "coming c (bs @ concat bss @ [0xFF])" using Cons.prems(2) by simp
  have sk: "skips bs" using Cons.prems(1) by simp
  obtain b t where b: "bs = b # t" "b \<noteq> 0xFF" using sk by (cases bs) (auto simp: skips_def)
  have notend: "\<not> zcbor_array_at_end c"
    using array_not_at_end[OF Cons.prems(4), of b t] coming_appendD[OF com] b by simp
  have ne: "elem_count c \<noteq> 0" using Cons.prems(3) by auto
  obtain f1 c1 where c1: "zcbor_any_skip f1 c = Some (True, c1)" "consumed (length bs) 1 c c1"
    using sk coming_appendD[OF com] ne Cons.prems(5) by (auto simp: skips_def)
  note f = consumedD[OF c1(2)]
  have "length bss < unat (elem_count c1)" using f(4) unat_dec[OF ne] Cons.prems(3) by simp
  then obtain f2 c2 where c2: "skip_elems f2 c1 = Some (True, c2)"
      "consumed (length (concat bss)) (of_nat (length bss)) c1 c2" "coming c2 [0xFF]"
    using Cons.IH[of c1] Cons.prems f coming_consumed[OF com c1(2)] by auto
  have e: "skip_elems (Suc (max f1 f2)) c = Some (True, c2)"
    using notend any_skip_mono[OF c1(1), of "max f1 f2"] skip_elems_mono[OF c2(1), of "max f1 f2"] by simp
  show ?case
    using consumed_trans[OF c1(2) c2(2)] c2(3)
    by (intro exI[of _ "Suc (max f1 f2)"] exI[of _ c2]) (simp del: skip_elems.simps add: e)
qed

lemma skips_container:
  assumes "m = ZCBOR_MAJOR_TYPE_MAP \<or> m = ZCBOR_MAJOR_TYPE_LIST" and "\<forall>bs \<in> set bss. skips bs" and "length bss < 2 ^ 64 - 16"
  shows "skips (header_byte m 31 # concat bss @ [0xFF])"
proof -
  let ?bs = "header_byte m 31 # concat bss @ [0xFF]"
  have hb: "ZCBOR_MAJOR_TYPE (header_byte m 31) = m" "ZCBOR_ADDITIONAL (header_byte m 31) = 31"
    using header_fields[of 31 m] by (simp_all add: header_byte_def)
  have "\<exists>fuel s'. zcbor_any_skip fuel s = Some (True, s') \<and> consumed (length ?bs) 1 s s'"
    if c: "coming s ?bs" "elem_count s \<noteq> 0" "\<not> enforce_canonical s" for s
  proof -
    let ?c = "s\<lparr>payload_bak := payload s, payload := payload s + 1, elem_count := elem_count s - 1\<rparr>"
    let ?d = "?c\<lparr>elem_count := ZCBOR_LARGE_ELEM_COUNT, indefinite_length_array := True\<rparr>"
    note hd = coming_hd[OF c(1)]
    have v: "value_extract s 8 True = (Some (0, True), ?c)"
      using hd c(2,3) hb by (simp add: value_extract_def initial_checks_def Let_def)
    have "coming ?d (concat bss @ [0xFF])"
      using c(1) coming_append[of s "[header_byte m 31]" "concat bss @ [0xFF]"] by (simp add: coming_def)
    moreover have "length bss < unat (elem_count ?d)" using assms(3) by simp
    ultimately obtain f e where e: "skip_elems f ?d = Some (True, e)"
        "consumed (length (concat bss)) (of_nat (length bss)) ?d e" "coming e [0xFF]"
      using skip_elems_coming[OF assms(2), of ?d] c(3) by auto
    have ae: "array_end_expect e = (True, e\<lparr>payload := payload e + 1\<rparr>)"
      using coming_hd[OF e(3)] by (simp add: array_end_expect_def initial_checks_def)
    have "zcbor_any_skip (Suc f) s = Some (skip_commit s (e\<lparr>payload := payload e + 1\<rparr>))"
      using hd hb v e(1) ae assms(1) by (auto simp: initial_checks_def skip_tags_none Let_def)
    moreover have "consumed (length ?bs) 1 s (snd (skip_commit s (e\<lparr>payload := payload e + 1\<rparr>)))"
      using consumedD[OF e(2)] by (simp add: skip_commit_def share_error_def consumed_def)
    ultimately show ?thesis by (metis prod.collapse skip_commit_def fst_conv)
  qed
  moreover have "header_byte m 31 \<noteq> 0xFF" using assms(1) by (auto simp: header_byte_def)
  ultimately show ?thesis by (simp add: skips_def)
qed

section \<open>Encoded values\<close>

lemma skips_cbor_of: "wire_ok v \<Longrightarrow> skips (cbor_of v)"
proof (induction v rule: coreconf_induct)
  case (array xs)
  have "(0x9F :: u8) = header_byte ZCBOR_MAJOR_TYPE_LIST 31" by (simp add: header_byte_def)
  moreover have "skips (header_byte ZCBOR_MAJOR_TYPE_LIST 31 # concat (map cbor_of xs) @ [0xFF])"
    by (rule skips_container) (use array in \<open>auto simp: list_all_iff\<close>)
  ultimately show ?case by simp
next
  case (hashmap hm)
  let ?bss = "concat (map (\<lambda>obj. [cbor_head ZCBOR_MAJOR_TYPE_PINT (fst obj), cbor_of (snd obj)]) (hm_objects hm))"
  have "(0xBF :: u8) = header_byte ZCBOR_MAJOR_TYPE_MAP 31" by (simp add: header_byte_def)
  moreover have "skips (header_byte ZCBOR_MAJOR_TYPE_MAP 31 # concat ?bss @ [0xFF])"
  proof (rule skips_container)
    show "\<forall>bs \<in> set ?bss. skips bs" using hashmap skips_head by (auto simp: list_all_iff)
    have "length ?bss = 2 * length (hm_objects hm)" by (simp add: length_concat comp_def sum_list_triv)
    then show "length ?bss < 2 ^ 64 - 16" using hashmap(2) by (simp add: CORECONF_MAX_LOOP_def)
  qed simp
  moreover have "concat (concat (map (\<lambda>obj. [cbor_head ZCBOR_MAJOR_TYPE_PINT (fst obj), cbor_of (snd obj)]) objs)) =
      concat (map cbor_object objs)" for objs
    by (induction objs) simp_all
  ultimately show ?case by simp
next
  case (scalar v)
  have simple: "[0xF5] = cbor_head ZCBOR_MAJOR_TYPE_SIMPLE 21" "[0xF4] = cbor_head ZCBOR_MAJOR_TYPE_SIMPLE 20"
    "[0xF6] = cbor_head ZCBOR_MAJOR_TYPE_SIMPLE 22" by code_simp+
  have str: "length (c_string str) < 2 ^ 64" if "length str < 2 ^ 63" for str
    using that length_takeWhile_le[of "\<lambda>b. b \<noteq> 0" str] by (simp add: c_string_def)
  show ?case
    using scalar skips_head skips_str[OF refl str] skips_float
    by (cases v) (auto simp: cbor_int_def simple)
qed

text \<open>
  C24. Skipping is exact: in front of the encoding of a value, whatever its nesting, \<open>zcbor_any_skip\<close> succeeds and stands behind the encoding
  afterwards; one item of the enclosing container is counted and nothing else of the state changes, as when the value is decoded.
\<close>

theorem any_skip_exact:
  assumes "wire_ok v" and "coming s (cbor_of v)" and "elem_count s \<noteq> 0" and "\<not> enforce_canonical s"
  shows "\<exists>s'. any_skip s = (True, s') \<and> consumed (length (cbor_of v)) 1 s s'"
  using skips_cbor_of[OF assms(1)] assms(2-4) any_skip_eq unfolding skips_def by blast

theorem any_skip_exact_witness:
  "\<exists>s'. any_skip (zcbor_new_decode_state any_state 8 [0xBF, 0x14, 0x9F, 0x61, 0x78, 0xFF, 0xFF, 0x07] 0 8 1) = (True, s') \<and>
     payload s' = 7"
proof -
  let ?v = "CORECONF_HASHMAP (snd (insertCoreconfHashMap empty_hashmap 20 (CORECONF_ARRAY [CORECONF_STRING [0x78]])))"
  let ?s = "zcbor_new_decode_state any_state 8 [0xBF, 0x14, 0x9F, 0x61, 0x78, 0xFF, 0xFF, 0x07] 0 8 1"
  have c: "cbor_of ?v = [0xBF, 0x14, 0x9F, 0x61, 0x78, 0xFF, 0xFF]" by code_simp
  have "hm_objects (snd (insertCoreconfHashMap empty_hashmap 20 (CORECONF_ARRAY [CORECONF_STRING [0x78]]))) =
      [(20, CORECONF_ARRAY [CORECONF_STRING [0x78]])]" by code_simp
  then have ok: "wire_ok ?v" by (simp add: CORECONF_MAX_LOOP_def)
  have com: "coming ?s (cbor_of ?v)" unfolding c by (simp add: coming_def zcbor_new_decode_state_def)
  have st: "elem_count ?s \<noteq> 0" "\<not> enforce_canonical ?s" by (simp_all add: zcbor_new_decode_state_def)
  obtain s' where "any_skip ?s = (True, s')" "consumed (length (cbor_of ?v)) 1 ?s s'"
    using any_skip_exact[OF ok com st] by blast
  moreover from this(2) have "payload s' = 7" unfolding c by (simp add: consumed_def zcbor_new_decode_state_def)
  ultimately show ?thesis by blast
qed

section \<open>Notifications of an encoded patch\<close>

lemma any_skip_skips:
  assumes "skips bs" and "coming s bs" and "elem_count s \<noteq> 0" and "\<not> enforce_canonical s"
  obtains s' where "any_skip s = (True, s')" "consumed (length bs) 1 s s'"
  using assms any_skip_eq unfolding skips_def by blast

lemma skip_pairs_coming:
  assumes "\<forall>obj \<in> set objs. wire_ok (snd obj)" and "coming s (concat (map cbor_object objs) @ [0xFF])"
    and "2 * length objs < unat (elem_count s)" and "indefinite_length_array s" and "\<not> enforce_canonical s"
  shows "\<exists>k. consumed (length (concat (map cbor_object objs))) k s (skip_pairs s) \<and> coming (skip_pairs s) [0xFF]"
  using assms
proof (induction objs arbitrary: s)
  case Nil
  then have "skip_pairs s = s" using array_at_end_break[of s] by (subst skip_pairs.simps) simp
  then show ?case using Nil by (intro exI[of _ 0]) simp
next
  case (Cons obj objs)
  let ?h = "cbor_head ZCBOR_MAJOR_TYPE_PINT (fst obj)" let ?v = "cbor_of (snd obj)"
  let ?rest = "concat (map cbor_object objs) @ [0xFF]"
  have com: "coming s (?h @ ?v @ ?rest)" using Cons.prems(2) by simp
  obtain b t where b: "?h = b # t" by (cases ?h) auto
  have notend: "\<not> zcbor_array_at_end s"
    using array_not_at_end[OF Cons.prems(4), of b t] coming_appendD[OF com] b cbor_head_no_break[OF b] by simp
  have ne: "elem_count s \<noteq> 0" using Cons.prems(3) by auto
  have kh: "skips ?h" by (rule skips_head) simp
  obtain s1 where s1: "any_skip s = (True, s1)" "consumed (length ?h) 1 s s1"
    by (rule any_skip_skips[OF kh coming_appendD[OF com] ne Cons.prems(5)])
  have com1: "coming s1 (?v @ ?rest)" by (rule coming_consumed[OF com s1(2)])
  have ne1: "elem_count s1 \<noteq> 0" using consumedD(4)[OF s1(2)] unat_dec[OF ne] Cons.prems(3) by auto
  have nc1: "\<not> enforce_canonical s1" using consumedD(8)[OF s1(2)] Cons.prems(5) by simp
  have sv: "skips ?v" using Cons.prems(1) skips_cbor_of by simp
  obtain s2 where s2: "any_skip s1 = (True, s2)" "consumed (length ?v) 1 s1 s2"
    by (rule any_skip_skips[OF sv coming_appendD[OF com1] ne1 nc1])
  have all: "consumed (length (cbor_object obj)) (1 + 1) s s2" using consumed_trans[OF s1(2) s2(2)] by simp
  note f = consumedD[OF all]
  have "unat (elem_count s2) = unat (elem_count s) - 2"
    using consumedD(4)[OF s1(2)] consumedD(4)[OF s2(2)] unat_dec[OF ne] unat_dec[OF ne1] by simp
  then have "2 * length objs < unat (elem_count s2)" using Cons.prems(3) by simp
  then obtain k where k: "consumed (length (concat (map cbor_object objs))) k s2 (skip_pairs s2)" "coming (skip_pairs s2) [0xFF]"
    using Cons.IH[of s2] Cons.prems f coming_consumed[OF com1 s2(2)] by auto
  have "skip_pairs s = skip_pairs s2" using notend s1(1) s2(1) by (subst skip_pairs.simps) simp
  then show ?case using consumed_trans[OF all k(1)] k(2) by (auto simp: add.assoc)
qed

lemma push_encoded_sequence:
  assumes "data = [0xBF] @ concat (map cbor_object objs) @ [0xFF]" and "\<forall>obj \<in> set objs. wire_ok (snd obj)"
    and "length objs < 2 ^ 62"
  shows "\<exists>events'. stream_push_notification_sequence old m events data (length data) = Inr events'"
proof -
  let ?body = "concat (map cbor_object objs)" let ?n = "length data"
  let ?s = "zcbor_new_decode_state old 8 data 0 ?n 1"
  have com: "coming ?s ([0xBF] @ ?body @ [0xFF])" by (simp add: coming_def zcbor_new_decode_state_def assms(1))
  have st: "elem_count ?s \<noteq> 0" "\<not> enforce_canonical ?s" "length (backup_list ?s) < num_backups ?s"
    by (simp_all add: zcbor_new_decode_state_def)
  obtain s1 where s1: "zcbor_map_start_decode ?s = (True, s1)" "opened ?s s1"
    by (rule map_start_coming[OF coming_appendD[OF com] st])
  have com1: "coming s1 (?body @ [0xFF])" using coming_opened[of ?s _ _ s1] com s1(2) by simp
  have c1: "indefinite_length_array s1" "\<not> enforce_canonical s1" "elem_count s1 = ZCBOR_LARGE_ELEM_COUNT"
    using s1(2) st(2) by (auto simp: opened_def)
  have "2 * length objs < unat (elem_count s1)" unfolding c1(3) large_count using assms(3) by simp
  then obtain k where k: "consumed (length ?body) k s1 (skip_pairs s1)" "coming (skip_pairs s1) [0xFF]"
    using skip_pairs_coming[OF assms(2) com1 _ c1(1,2)] by blast
  obtain s' where s': "zcbor_map_end_decode (skip_pairs s1) = (True, s')" "consumed (length ?body + 2) 1 ?s s'"
    using list_map_end_coming[OF s1(2) k st(3)] unfolding zcbor_map_end_decode_def by blast
  have p: "payload s' = ?n" using consumedD(1)[OF s'(2)] assms(1) by (simp add: zcbor_new_decode_state_def)
  have d: "data = 0xBF # (?body @ [0xFF])" "?n = Suc (length (?body @ [0xFF]))" using assms(1) by simp_all
  obtain events' where e: "stream_push_notification_map (zcbor_state.truncate s') m events data 0 ?n = Inr events'"
    using push_encoded_map[of "?body @ [0xFF]" "zcbor_state.truncate s'" m events] unfolding d(2) d(1)[symmetric] by auto
  have last: "push_sequence_loop old' m data ?n ?n events' = Inr events'" for old'
    by (subst push_sequence_loop.simps) simp
  have "0 < ?n" using d(2) by simp
  then have "push_sequence_loop old m data ?n 0 events = Inr events'"
    using s1(1) s'(1) p e last by (subst push_sequence_loop.simps) (simp add: Let_def)
  then show ?thesis using \<open>0 < ?n\<close> by (simp add: stream_push_notification_sequence_def)
qed

end
