(* ===== verification/Cli_Session.thy ===== *)
theory Cli_Session
  imports Cli_Safety Skip_Encoded
begin

text \<open>
  What the commands of the client achieve on the server: from the line that is typed, over the bytes of the request, the server's state and
  the bytes of the answer, to the text that is printed.
\<close>

section \<open>Decoded values are values that can be sent\<close>

lemma hm_of_list_objects:
  assumes "hm_wf hm"
  shows "hm_wf (hm_of_list objs hm) \<and> length (hm_objects (hm_of_list objs hm)) \<le> length (hm_objects hm) + length objs \<and>
    snd ` set (hm_objects (hm_of_list objs hm)) \<subseteq> snd ` set (hm_objects hm) \<union> snd ` set objs"
  using assms
proof (induction objs arbitrary: hm)
  case Nil
  then show ?case by (simp add: hm_of_list_def)
next
  case (Cons obj objs)
  let ?hm = "snd (insertCoreconfHashMap hm (fst obj) (snd obj))"
  have wf: "hm_wf ?hm" by (rule hm.inv_ins[OF Cons.prems])
  have n: "length (hm_objects ?hm) \<le> Suc (length (hm_objects hm))"
    using hm.card_dom_ins[OF Cons.prems] hm.length_objs[OF Cons.prems] hm.length_objs[OF wf] by simp
  have "snd x \<in> insert (snd obj) (snd ` set (hm_objects hm))" if "x \<in> set (hm_objects ?hm)" for x
  proof -
    have l: "getCoreconfHashMap ?hm (fst x) = Some (snd x)" using hm.objs_lookup[OF wf, of "fst x" "snd x"] that by simp
    show ?thesis
    proof (cases "fst (insertCoreconfHashMap hm (fst obj) (snd obj)) = 0 \<and> fst x = fst obj")
      case True
      then show ?thesis using l hm.lkp_ins[OF Cons.prems, of "fst obj" "snd obj"] by simp
    next
      case False
      then have "getCoreconfHashMap hm (fst x) = Some (snd x)"
        using l hm.lkp_ins[OF Cons.prems, of "fst obj" "snd obj"] hm.ins_fail[of hm "fst obj" "snd obj"]
        by (cases "fst (insertCoreconfHashMap hm (fst obj) (snd obj)) = 0") auto
      then have "(fst x, snd x) \<in> set (hm_objects hm)" using hm.objs_lookup[OF Cons.prems] by blast
      then show ?thesis by (metis imageI insertCI snd_conv)
    qed
  qed
  then have s: "snd ` set (hm_objects ?hm) \<subseteq> insert (snd obj) (snd ` set (hm_objects hm))" by blast
  have e: "hm_of_list (obj # objs) hm = hm_of_list objs ?hm" by (simp add: hm_of_list_def split_beta)
  then have "length (hm_objects (hm_of_list (obj # objs) hm)) \<le> length (hm_objects hm) + length (obj # objs)"
    using Cons.IH[OF wf] n by simp
  moreover have "snd ` set (hm_objects (hm_of_list (obj # objs) hm)) \<subseteq> snd ` set (hm_objects hm) \<union> snd ` set (obj # objs)"
    using Cons.IH[OF wf] s e by (simp only: list.set image_insert) blast
  ultimately show ?case using Cons.IH[OF wf] e by simp
qed

lemma fold_max_le: "(\<forall>x \<in> set xs. f x \<le> (n :: nat)) \<Longrightarrow> a \<le> n \<Longrightarrow> fold max (map f xs) a \<le> n"
  by (induction xs arbitrary: a) auto

lemma nest_decoded [simp]: "nest (decoded_int v) = 0" "wire_ok (decoded_int v)"
  by (simp_all add: decoded_int_def)

lemma norm_wire_ok: "wire_ok v \<Longrightarrow> wire_ok (norm v) \<and> nest (norm v) \<le> nest v"
proof (induction v rule: coreconf_induct)
  case (array xs)
  then have "\<forall>x \<in> set xs. wire_ok (norm x) \<and> nest (norm x) \<le> fold max (map nest xs) 0"
    using nest_le_fold[of _ xs nest 0] by (fastforce simp: list_all_iff)
  then show ?case using array fold_max_le[of "map norm xs" nest] by (auto simp: list_all_iff)
next
  case (hashmap hm)
  let ?objs = "map (\<lambda>obj. (fst obj, norm (snd obj))) (hm_objects hm)" let ?hm = "hm_of_list ?objs empty_hashmap"
  let ?n = "fold max (map (\<lambda>obj. nest (snd obj)) (hm_objects hm)) 0"
  have ok: "\<forall>obj \<in> set (hm_objects hm). wire_ok (norm (snd obj)) \<and> nest (norm (snd obj)) \<le> ?n"
  proof
    fix obj
    assume m: "obj \<in> set (hm_objects hm)"
    then have "wire_ok (snd obj)" using hashmap(2) by (simp add: list_all_iff)
    with hashmap(1)[OF m] show "wire_ok (norm (snd obj)) \<and> nest (norm (snd obj)) \<le> ?n"
      using nest_le_fold[OF m, of "\<lambda>obj. nest (snd obj)" 0] by linarith
  qed
  note h = hm_of_list_objects[OF hm_wf_empty, of ?objs]
  have "snd ` set ?objs = (\<lambda>obj. norm (snd obj)) ` set (hm_objects hm)" by (simp add: image_image)
  then have "snd ` set (hm_objects ?hm) \<subseteq> (\<lambda>obj. norm (snd obj)) ` set (hm_objects hm)"
    using h by (simp only: hm.objs_emp list.set image_empty Un_empty_left)
  moreover have "\<forall>x \<in> (\<lambda>obj. norm (snd obj)) ` set (hm_objects hm). wire_ok x \<and> nest x \<le> ?n" using ok by simp
  ultimately have vals: "\<forall>obj \<in> set (hm_objects ?hm). wire_ok (snd obj) \<and> nest (snd obj) \<le> ?n"
    by (meson imageI subsetD)
  have "length (hm_objects ?hm) \<le> length (hm_objects hm)" using h by (simp add: hm.objs_emp)
  moreover have "fold max (map (\<lambda>obj. nest (snd obj)) (hm_objects ?hm)) 0 \<le> ?n"
    using vals by (intro fold_max_le) auto
  ultimately show ?case using hashmap(2) vals by (simp add: list_all_iff)
next
  case (scalar v)
  then show ?case
    by (cases v) (auto simp: c_string_def intro: le_less_trans[OF length_takeWhile_le])
qed

section \<open>Answers\<close>

lemma with_server_simps [simp]:
  "net_send (with_server senv env) = server_net senv" "net_listen (with_server senv env) = (\<lambda>k sv. ([], sv))"
  "cli_fuel (with_server senv env) = cli_fuel env" "cli_stack (with_server senv env) = cli_stack env"
  "cli_buf (with_server senv env) = cli_buf env" "cli_nan (with_server senv env) = cli_nan env"
  by (simp_all add: with_server_def)

lemma say_fields [simp]:
  "g_observe_mode (say bs c) = g_observe_mode c" "g_response_buf (say bs c) = g_response_buf c"
  "g_response_len (say bs c) = g_response_len c" "g_response_received (say bs c) = g_response_received c"
  "g_response_code (say bs c) = g_response_code c" "cli_stdin (say bs c) = cli_stdin c" "cli_net (say bs c) = cli_net c"
  "cli_stdout (say bs c) = cli_stdout c @ bs" "cli_sys_sids (say bs c) = cli_sys_sids c"
  "cli_if_sids (say bs c) = cli_if_sids c" "cli_ops_sids (say bs c) = cli_ops_sids c"
  by (simp_all add: say_def)

definition answered :: "response \<Rightarrow> server \<Rightarrow> server cli \<Rightarrow> server cli" where
  "answered resp sv' c =
     c\<lparr>g_response_received := True,
       g_response_buf := resp_data resp @ drop (length (resp_data resp)) (g_response_buf c),
       g_response_len := length (resp_data resp), g_response_code := code_of (resp_code resp), cli_net := sv'\<rparr>"

lemma answered_fields [simp]:
  "g_response_received (answered resp sv' c)" "g_response_len (answered resp sv' c) = length (resp_data resp)"
  "g_response_code (answered resp sv' c) = code_of (resp_code resp)" "cli_net (answered resp sv' c) = sv'"
  "g_observe_mode (answered resp sv' c) = g_observe_mode c" "cli_stdin (answered resp sv' c) = cli_stdin c"
  "cli_stdout (answered resp sv' c) = cli_stdout c" "cli_sys_sids (answered resp sv' c) = cli_sys_sids c"
  "cli_if_sids (answered resp sv' c) = cli_if_sids c" "cli_ops_sids (answered resp sv' c) = cli_ops_sids c"
  "g_response_buf (answered resp sv' c) = resp_data resp @ drop (length (resp_data resp)) (g_response_buf c)"
  by (simp_all add: answered_def)

lemma send_pdu_served:
  assumes "\<not> g_observe_mode c"
    and "dispatch senv (cli_net c) (pdu_resource p) (pdu_method p) (request_of p) = Some (Some (Inr (sv', resp, effs)))"
    and "length (resp_data resp) \<le> BUFFER_SIZE"
  shows "send_pdu (with_server senv env) p (c\<lparr>g_response_received := False, g_response_len := 0\<rparr>) =
    return (True, answered resp sv' c)"
  using assms
  by (cases c) (auto simp: send_pdu_def server_net_def message_of_def response_handler_def answered_def answer_data_def Let_def)

lemma send_served:
  assumes "\<not> g_observe_mode c"
    and "dispatch senv (cli_net c) (pdu_resource p) (pdu_method p) (request_of p) = Some (Some (Inr (sv', resp, effs)))"
    and "length (resp_data resp) \<le> BUFFER_SIZE"
  shows "send_and_wait (with_server senv env) p c =
    return (True, say (ascii '' '' @ show_code (code_of (resp_code resp)) @ ascii ''  '') (answered resp sv' c))"
  unfolding send_and_wait_def send_pdu_served[OF assms] by simp

text \<open>The client prints the map that an answer encodes.\<close>

lemma show_map:
  assumes "wire_ok (CORECONF_HASHMAP hm)" and "nest (CORECONF_HASHMAP hm) \<le> 6"
    and "norm (CORECONF_HASHMAP hm) = CORECONF_HASHMAP hm'"
    and "take (g_response_len c) (g_response_buf c) = cbor_of (CORECONF_HASHMAP hm)"
    and "g_response_len c = length (cbor_of (CORECONF_HASHMAP hm))" and "length (cbor_of (CORECONF_HASHMAP hm)) \<le> cli_fuel env"
    and "g_response_len c \<le> length (g_response_buf c)"
  shows "show_datastore env c = return (say (datastore_text hm') c)"
proof -
  have ne: "cbor_of (CORECONF_HASHMAP hm) \<noteq> []" by simp
  have "g_response_len c \<le> cli_fuel env" using assms(5,6) by simp
  then have "parse_get_response (cli_fuel env) (cli_stack env) (Some (g_response_buf c)) (g_response_len c) =
      Some (Some (CORECONF_HASHMAP hm'))"
    using parse_put_bytes[OF assms(1) ne assms(2,4,5), where fuel = "cli_fuel env" and old = "cli_stack env"] assms(3,7)
    by (simp only: parse_put_request_get)
  then show ?thesis by (simp add: show_datastore_def print_datastore_def)
qed

section \<open>Lines\<close>

lemma is_word_ascii [simp]: "is_word (ascii a) b \<longleftrightarrow> a = b"
  by (simp add: is_word_def ascii_def inj_map_eq_map[OF of_char_u8_inj])

lemma cli_loop_line:
  assumes "\<forall>w \<in> set (cmd # argv). shell_word w" and "length argv \<le> 31" and "length (join_words (cmd # argv)) \<le> 510"
    and "cli_stdin c = join_words (cmd # argv) @ 0x0A # rest" and "\<not> is_word cmd ''quit''" and "\<not> is_word cmd ''exit''"
    and "run_command env conf cmd argv ((say prompt c)\<lparr>cli_stdin := rest\<rparr>) = return c'"
  shows "cli_loop env conf c = cli_loop env conf c'"
proof -
  have n: "length (cmd # argv) \<le> 32" using assms(2) by simp
  note r = read_line_words[OF assms(1) n assms(3)]
  show ?thesis using r assms(4-7) by (subst cli_loop.simps) (simp add: return_def)
qed

lemma cli_loop_end: "cli_stdin c = [] \<Longrightarrow> cli_loop env conf c = return (say prompt c)"
  by (subst cli_loop.simps) (simp add: fgets_def)

section \<open>put and get\<close>

text \<open>The words of \<open>put\<close> for a list of SIDs and values, and the map that the client makes of them.\<close>

definition put_words :: "(u64 \<times> CoreconfValue) list \<Rightarrow> bytes list" where
  "put_words objs = concat (map (\<lambda>obj. [decimal (unat (fst obj)), text_of (snd obj)]) objs)"

definition typed_map :: "(u64 \<times> CoreconfValue) list \<Rightarrow> CoreconfValue CoreconfHashMap" where
  "typed_map objs = put_all empty_hashmap (map (\<lambda>obj. (fst obj, norm (snd obj))) objs)"

lemma put_args_words:
  assumes "\<forall>obj \<in> set objs. text_ok (cli_nan env) (snd obj)"
  shows "put_args env m (put_words objs) = put_all m (map (\<lambda>obj. (fst obj, norm (snd obj))) objs)"
  using assms
proof (induction objs arbitrary: m)
  case Nil
  then show ?case by (simp add: put_words_def put_all_def)
next
  case (Cons obj objs)
  have "strtoull_value (decimal (unat (fst obj))) = fst obj" by (simp add: strtoull_value_def strtoull10_decimal)
  moreover have "parse_value_of env (text_of (snd obj)) = norm (snd obj)"
    using Cons.prems parse_text by (simp add: parse_value_of_def)
  ultimately show ?case using Cons by (simp add: put_words_def put_all_def)
qed

lemma length_put_words: "length (put_words objs) = 2 * length objs"
  by (induction objs) (simp_all add: put_words_def)

lemma put_all_dom: "hm_wf hm \<Longrightarrow> dom (getCoreconfHashMap hm) \<subseteq> dom (getCoreconfHashMap (put_all hm objs))"
proof (induction objs arbitrary: hm)
  case (Cons obj objs)
  let ?hm = "snd (insertCoreconfHashMap hm (fst obj) (snd obj))"
  have "dom (getCoreconfHashMap hm) \<subseteq> dom (getCoreconfHashMap ?hm)"
    using hm.lkp_ins[OF Cons.prems, of "fst obj" "snd obj"] hm.ins_fail[of hm "fst obj" "snd obj"]
    by (cases "fst (insertCoreconfHashMap hm (fst obj) (snd obj)) = 0") auto
  also have "\<dots> \<subseteq> dom (getCoreconfHashMap (put_all ?hm objs))" by (rule Cons.IH[OF hm.inv_ins[OF Cons.prems]])
  finally show ?case by (simp add: put_all_def split_beta)
qed (simp add: put_all_def)

lemma typed_map_wf: "hm_wf (typed_map objs)"
  unfolding typed_map_def by (rule put_all_wf[OF hm_wf_empty])

lemma typed_map_nonempty:
  assumes "objs \<noteq> []"
  shows "hm_objects (typed_map objs) \<noteq> []"
proof -
  obtain obj objs' where o: "objs = obj # objs'" using assms by (cases objs) auto
  let ?hm = "snd (insertCoreconfHashMap empty_hashmap (fst obj) (norm (snd obj)))"
  have "fst obj \<in> dom (getCoreconfHashMap ?hm)"
    using hm.lkp_ins_room[OF hm.inv_emp, of "fst obj" "norm (snd obj)"] by (simp add: hm.lkp_emp)
  then have "fst obj \<in> dom (getCoreconfHashMap (typed_map objs))"
    using put_all_dom[OF hm.inv_ins[OF hm.inv_emp]] o by (fastforce simp: typed_map_def put_all_def)
  then have "dom (getCoreconfHashMap (typed_map objs)) \<noteq> {}" by blast
  then show ?thesis using hm.dom_lkp[OF typed_map_wf, of objs] by auto
qed

section \<open>put and get on the server\<close>

lemma ucast_u32: "ucast (ucast (v :: u16) :: u32) = v"
  by (rule bit_word_eqI) (simp add: bit_unsigned_iff)

lemma request_of_fields [simp]:
  "get_content_format (request_of p) = (case pdu_cf p of None \<Rightarrow> 0xFFFF | Some v \<Rightarrow> v)"
  "get_payload (request_of p) = (if pdu_data p = [] then None else Some (pdu_data p))"
  by (auto simp: request_of_def get_content_format_def get_payload_def ucast_u32 split: option.split)

lemma pdu_fields [simp]:
  "pdu_resource (put_pdu bs) = RES_C" "pdu_method (put_pdu bs) = COAP_PUT" "pdu_cf (put_pdu bs) = Some 140" "pdu_data (put_pdu bs) = bs"
  "pdu_resource (ipatch_pdu bs) = RES_C" "pdu_method (ipatch_pdu bs) = COAP_IPATCH" "pdu_cf (ipatch_pdu bs) = Some 142"
  "pdu_data (ipatch_pdu bs) = bs" "pdu_resource (fetch_pdu res bs) = res" "pdu_method (fetch_pdu res bs) = COAP_FETCH"
  "pdu_cf (fetch_pdu res bs) = Some 141" "pdu_data (fetch_pdu res bs) = bs" "pdu_resource (request_pdu res meth) = res"
  "pdu_method (request_pdu res meth) = meth"
  by (simp_all add: put_pdu_def ipatch_pdu_def fetch_pdu_def request_pdu_def CF_YANG_DATA_CBOR_def CF_YANG_INSTANCES_def
      CF_YANG_IDENTIFIERS_def)

text \<open>What a command has printed when its request was answered with code 2.xx.\<close>

definition status :: "string \<Rightarrow> bytes" where
  "status code = ascii '' '' @ ascii code @ ascii ''  ''"

lemma status_codes [simp]:
  "ascii '' '' @ show_code (2, 2) @ ascii ''  '' = status ''2.02''"
  "ascii '' '' @ show_code (2, 4) @ ascii ''  '' = status ''2.04''"
  "ascii '' '' @ show_code (2, 5) @ ascii ''  '' = status ''2.05''"
  by (simp_all add: status_def show_code_def ascii_def decimal.simps)

lemma put_command:
  assumes "\<forall>obj \<in> set objs. text_ok (cli_nan env) (snd obj)" and "objs \<noteq> []"
    and "wire_ok (CORECONF_HASHMAP (typed_map objs))" and "nest (CORECONF_HASHMAP (typed_map objs)) \<le> 6"
    and "norm (CORECONF_HASHMAP (typed_map objs)) = CORECONF_HASHMAP hm"
    and "length (cbor_of (CORECONF_HASHMAP (typed_map objs))) \<le> 4096"
    and "length (cbor_of (CORECONF_HASHMAP (typed_map objs))) \<le> env_fuel senv"
    and "length (cli_buf env) = 4096" and "\<not> g_observe_mode c"
  obtains events c' where "cmd_put (with_server senv env) (put_words objs) c = return c'"
    "cli_net c' = (cli_net c)\<lparr>g_datastore := Some (CORECONF_HASHMAP hm), g_ds_exists := True, g_stream_events := events\<rparr>"
    "cli_stdout c' = cli_stdout c @ ascii ''  PUT /c ('' @ decimal (length objs) @ ascii '' SIDs)... '' @ status ''2.04'' @ newline"
    "cli_stdin c' = cli_stdin c" "\<not> g_observe_mode c'" "length (g_response_buf c') = length (g_response_buf c)"
proof -
  let ?m = "typed_map objs" let ?v = "CORECONF_HASHMAP ?m" let ?bs = "cbor_of ?v"
  let ?c = "say (ascii ''  PUT /c ('' @ decimal (length objs) @ ascii '' SIDs)... '') c"
  obtain buf' where enc: "create_get_response (cli_stack env) (Some (cli_buf env)) BUFFER_SIZE (Some ?v) = (length ?bs, Some buf')"
      "take (length ?bs) buf' = ?bs"
    by (rule get_response_bytes[OF typed_map_wf, of objs BUFFER_SIZE "cli_buf env" "cli_stack env"])
      (use assms(6,8) in \<open>simp_all add: BUFFER_SIZE_def del: cbor_of.simps\<close>)
  have ne: "?bs \<noteq> []" by simp
  let ?req = "request_of (put_pdu ?bs)"
  have req: "get_content_format ?req = 140" "get_payload ?req = Some ?bs" using ne by simp_all
  obtain events where put: "handle_put senv (cli_net ?c) ?req =
      Some (Inr ((cli_net ?c)\<lparr>g_datastore := Some (CORECONF_HASHMAP hm), g_ds_exists := True, g_stream_events := events\<rparr>,
        \<lparr>resp_code = CHANGED, resp_cf = None, resp_data = []\<rparr>, rotation hm @ [NotifyObservers ''put'']))"
    by (rule put_encoded[OF assms(3-5) req assms(7)])
  let ?sv = "(cli_net ?c)\<lparr>g_datastore := Some (CORECONF_HASHMAP hm), g_ds_exists := True, g_stream_events := events\<rparr>"
  let ?resp = "\<lparr>resp_code = CHANGED, resp_cf = None, resp_data = []\<rparr>"
  have "send_and_wait (with_server senv env) (put_pdu ?bs) ?c =
      return (True, say (ascii '' '' @ show_code (code_of CHANGED) @ ascii ''  '') (answered ?resp ?sv ?c))"
    using send_served[of ?c senv "put_pdu ?bs" ?sv ?resp _ env] assms(9) put by simp
  then have "send_quietly (with_server senv env) (put_pdu ?bs) ?c =
      return (say newline (say (ascii '' '' @ show_code (code_of CHANGED) @ ascii ''  '') (answered ?resp ?sv ?c)))"
    by (simp add: send_quietly_def)
  moreover have args: "put_args (with_server senv env) empty_hashmap (put_words objs) = ?m"
    using put_args_words[of objs "with_server senv env" empty_hashmap] assms(1) by (simp add: typed_map_def)
  ultimately have "cmd_put (with_server senv env) (put_words objs) c =
      return (say newline (say (ascii '' '' @ show_code (code_of CHANGED) @ ascii ''  '') (answered ?resp ?sv ?c)))"
    using enc assms(2)
    by (simp add: cmd_put_def length_put_words create_put_request_get Suc_le_eq del: cbor_of.simps)
  then show ?thesis
    by (rule that) (use assms(9) in \<open>simp_all\<close>)
qed

lemma get_command:
  assumes "g_datastore (cli_net c) = Some (CORECONF_HASHMAP hm)" and "g_ds_exists (cli_net c)" and "hm_wf hm" and "hm_size hm \<noteq> 0"
    and "wire_ok (CORECONF_HASHMAP hm)" and "nest (CORECONF_HASHMAP hm) \<le> 6" and "norm (CORECONF_HASHMAP hm) = CORECONF_HASHMAP hm'"
    and "length (cbor_of (CORECONF_HASHMAP hm)) \<le> 4096" and "length (cbor_of (CORECONF_HASHMAP hm)) \<le> cli_fuel env"
    and "length (env_buf senv) = 4096" and "\<not> g_observe_mode c" and "length (g_response_buf c) = 4096"
  obtains c' where "cmd_get (with_server senv env) c = return c'" "cli_net c' = cli_net c"
    "cli_stdout c' = cli_stdout c @ ascii ''  GET /c... '' @ status ''2.05'' @ datastore_text hm'"
    "cli_stdin c' = cli_stdin c" "\<not> g_observe_mode c'" "length (g_response_buf c') = 4096"
proof -
  let ?bs = "cbor_of (CORECONF_HASHMAP hm)" let ?c = "say (ascii ''  GET /c... '') c" let ?p = "request_pdu RES_C COAP_GET"
  let ?resp = "\<lparr>resp_code = CONTENT, resp_cf = Some 140, resp_data = ?bs\<rparr>"
  let ?d = "say (ascii '' '' @ show_code (code_of CONTENT) @ ascii ''  '') (answered ?resp (cli_net ?c) ?c)"
  have "handle_get senv (cli_net ?c) = Some (Inr (cli_net ?c, ?resp, []))"
    using assms(1-4,8,10) by (intro get_reply) simp_all
  then have "send_and_wait (with_server senv env) ?p ?c = return (True, ?d)"
    using send_served[of ?c senv ?p "cli_net ?c" ?resp _ env] assms(8,11) by (simp add: BUFFER_SIZE_def del: cbor_of.simps)
  moreover have "show_datastore (with_server senv env) ?d = return (say (datastore_text hm') ?d)"
    using assms(8,9,12) by (intro show_map[OF assms(5-7)]) (simp_all del: cbor_of.simps)
  moreover have "?bs \<noteq> []" by simp
  ultimately have "cmd_get (with_server senv env) c = return (say (datastore_text hm') ?d)"
    by (simp add: cmd_get_def del: cbor_of.simps)
  then show ?thesis
    by (rule that) (use assms(8,11,12) in \<open>simp_all del: cbor_of.simps\<close>)
qed

section \<open>Properties of a session\<close>

lemma run_command_put [simp]: "run_command env conf (ascii ''put'') argv c = cmd_put env argv c"
  and run_command_get [simp]: "run_command env conf (ascii ''get'') argv c = cmd_get env c"
  by (simp_all add: run_command_def)

lemma shell_word_names: "shell_word (ascii ''put'')" "shell_word (ascii ''get'')"
  by (simp_all add: shell_word_def word_end_def ascii_def)

lemma shell_word_decimal: "shell_word (decimal n)"
proof -
  have "b \<noteq> 0 \<and> b \<noteq> 0x0D \<and> \<not> word_end b" if "is_digit b" for b
    using that by (auto simp: is_digit_def word_end_def word_le_nat_alt)
  then show ?thesis using is_digit_decimal[of _ n] decimal_ne[of n] by (auto simp: shell_word_def list_all_iff)
qed

lemma shell_word_put:
  assumes "\<forall>obj \<in> set objs. shell_word (text_of (snd obj))"
  shows "\<forall>w \<in> set (ascii ''put'' # put_words objs). shell_word w"
  using assms shell_word_names shell_word_decimal by (auto simp: put_words_def)

text \<open>
  C2. A session from end to end: typing \<open>put\<close> with SIDs and values in the client's notation and then \<open>get\<close> leaves the server with the datastore
  that was typed, and prints it, as it is decoded from the answer. The line holds at most 510 characters and 15 values, the datastore is
  encoded in at most 4096 bytes, and nested at most six deep.
\<close>

theorem put_get_session:
  assumes "\<forall>obj \<in> set objs. text_ok (cli_nan env) (snd obj) \<and> shell_word (text_of (snd obj))" and "objs \<noteq> []" and "length objs \<le> 15"
    and "length (join_words (ascii ''put'' # put_words objs)) \<le> 510"
    and "wire_ok (CORECONF_HASHMAP (typed_map objs))" and "nest (CORECONF_HASHMAP (typed_map objs)) \<le> 6"
    and "norm (CORECONF_HASHMAP (typed_map objs)) = CORECONF_HASHMAP hm" and "norm (CORECONF_HASHMAP hm) = CORECONF_HASHMAP hm'"
    and "length (cbor_of (CORECONF_HASHMAP (typed_map objs))) \<le> min 4096 (env_fuel senv)"
    and "length (cbor_of (CORECONF_HASHMAP hm)) \<le> min 4096 (cli_fuel env)"
    and "length (cli_buf env) = 4096" and "length (env_buf senv) = 4096"
    and "\<not> g_observe_mode c" and "length (g_response_buf c) = 4096"
    and "cli_stdin c = join_words (ascii ''put'' # put_words objs) @ newline @ ascii ''get'' @ newline"
  shows "\<exists>c'. cli_loop (with_server senv env) conf c = Some (Inr c') \<and>
      g_datastore (cli_net c') = Some (CORECONF_HASHMAP hm) \<and> g_ds_exists (cli_net c') \<and>
      (\<forall>sid. getCoreconfHashMap hm sid = map_option norm (getCoreconfHashMap (typed_map objs) sid)) \<and>
      cli_stdout c' = cli_stdout c @
        prompt @ ascii ''  PUT /c ('' @ decimal (length objs) @ ascii '' SIDs)... '' @ status ''2.04'' @ newline @
        prompt @ ascii ''  GET /c... '' @ status ''2.05'' @ datastore_text hm' @ prompt"
proof -
  let ?env = "with_server senv env" let ?get = "join_words [ascii ''get'']"
  have get_length: "length ?get \<le> 510" by (simp add: ascii_def)
  have "length (hm_objects (typed_map objs)) \<le> 52" using assms(5) by (simp add: CORECONF_MAX_LOOP_def)
  note lookups = norm_map_lookups[OF typed_map_wf this] and m = norm_map_nonempty[OF typed_map_wf this typed_map_nonempty[OF assms(2)]]
  obtain hm1 where "norm (CORECONF_HASHMAP (typed_map objs)) = CORECONF_HASHMAP hm1" "hm_wf hm1" "hm_size hm1 \<noteq> 0" by (rule m)
  then have hm: "hm_wf hm" "hm_size hm \<noteq> 0" using assms(7) by simp_all
  have sent: "wire_ok (CORECONF_HASHMAP hm)" "nest (CORECONF_HASHMAP hm) \<le> 6"
    using norm_wire_ok[OF assms(5)] assms(6,7) by (simp_all del: wire_ok.simps nest.simps norm.simps)
  let ?c1 = "(say prompt c)\<lparr>cli_stdin := ?get @ newline\<rparr>"
  obtain events c2 where put: "cmd_put ?env (put_words objs) ?c1 = return c2"
      "cli_net c2 = (cli_net ?c1)\<lparr>g_datastore := Some (CORECONF_HASHMAP hm), g_ds_exists := True, g_stream_events := events\<rparr>"
      "cli_stdout c2 = cli_stdout ?c1 @ ascii ''  PUT /c ('' @ decimal (length objs) @ ascii '' SIDs)... '' @ status ''2.04'' @ newline"
      "cli_stdin c2 = cli_stdin ?c1" "\<not> g_observe_mode c2" "length (g_response_buf c2) = length (g_response_buf ?c1)"
    by (rule put_command[OF _ assms(2,5,6,7), of env senv ?c1]) (use assms(1,9,11,13) in \<open>simp_all del: cbor_of.simps\<close>)
  let ?c3 = "(say prompt c2)\<lparr>cli_stdin := []\<rparr>"
  obtain c4 where get: "cmd_get ?env ?c3 = return c4" "cli_net c4 = cli_net ?c3"
      "cli_stdout c4 = cli_stdout ?c3 @ ascii ''  GET /c... '' @ status ''2.05'' @ datastore_text hm'"
      "cli_stdin c4 = cli_stdin ?c3" "\<not> g_observe_mode c4" "length (g_response_buf c4) = 4096"
    by (rule get_command[of ?c3 hm hm' env senv]) (use assms(8,10,12,14) hm sent put in \<open>simp_all del: cbor_of.simps norm.simps wire_ok.simps nest.simps\<close>)
  have words: "\<forall>w \<in> set (ascii ''put'' # put_words objs). shell_word w" by (rule shell_word_put) (use assms(1) in simp)
  have "cli_loop ?env conf c = cli_loop ?env conf c2"
    by (rule cli_loop_line[of "ascii ''put''" "put_words objs" c "?get @ newline"])
      (use words assms(3,4,15) put(1) in \<open>simp_all add: length_put_words newline_def\<close>)
  also have "\<dots> = cli_loop ?env conf c4"
    by (rule cli_loop_line[of "ascii ''get''" "[]" c2 "[]"])
      (use put(4) get(1) shell_word_names get_length in \<open>simp_all add: newline_def\<close>)
  also have "\<dots> = return (say prompt c4)" by (rule cli_loop_end) (use get(4) in simp)
  finally have loop: "cli_loop ?env conf c = return (say prompt c4)" .
  have "\<forall>sid. getCoreconfHashMap hm sid = map_option norm (getCoreconfHashMap (typed_map objs) sid)"
    using lookups assms(7) by auto
  then show ?thesis
    using loop get(2,3) put(2,3) by (intro exI[of _ "say prompt c4"]) (simp add: return_def)
qed


definition sample_config :: cli_config where
  "sample_config = projr (client_config (\<lambda>_. None) False)"

definition sample_line :: bytes where
  "sample_line = ascii ''put 20 5''"

definition session_map :: "CoreconfValue CoreconfHashMap" where
  "session_map = snd (insertCoreconfHashMap empty_hashmap 20 (CORECONF_UINT_64 5))"

theorem put_get_session_witness:
  "\<exists>c'. cli_loop (with_server sample_call_env sample_cli_env) sample_config
       (client_init (sample_line @ newline @ ascii ''get'' @ newline) sample_server) = Some (Inr c') \<and>
     g_datastore (cli_net c') = Some (CORECONF_HASHMAP session_map)"
proof -
  let ?objs = "[(20, CORECONF_UINT_64 5)] :: (u64 \<times> CoreconfValue) list"
  let ?c = "client_init (sample_line @ newline @ ascii ''get'' @ newline) sample_server"
  have m: "typed_map ?objs = session_map" by code_simp
  have n: "norm (CORECONF_HASHMAP session_map) = CORECONF_HASHMAP session_map" "nest (CORECONF_HASHMAP session_map) \<le> 6"
    "length (cbor_of (CORECONF_HASHMAP session_map)) \<le> min 4096 20" "wire_ok (CORECONF_HASHMAP session_map)" by code_simp+
  have d: "decimal (unat (20 :: u64)) = [0x32, 0x30]" "decimal (unat (5 :: u64)) = [0x35]" by code_simp+
  have words: "put_words ?objs = [[0x32, 0x30], [0x35]]" unfolding put_words_def using d by simp
  have line: "join_words (ascii ''put'' # put_words ?objs) = sample_line"
    unfolding words by (simp add: sample_line_def ascii_def)
  have short: "length sample_line \<le> 510" by (simp add: sample_line_def ascii_def)
  have ok: "\<forall>obj \<in> set ?objs. text_ok (cli_nan sample_cli_env) (snd obj) \<and> shell_word (text_of (snd obj))"
    using shell_word_decimal by simp
  have bufs: "length (cli_buf sample_cli_env) = 4096" "length (env_buf sample_call_env) = 4096" "cli_fuel sample_cli_env \<ge> 20"
    "env_fuel sample_call_env \<ge> 20"
    by (simp_all add: sample_cli_env_def sample_call_env_def)
  have start: "\<not> g_observe_mode ?c" "length (g_response_buf ?c) = 4096" "cli_stdin ?c = sample_line @ newline @ ascii ''get'' @ newline"
    by (simp_all add: client_init_def)
  have "length (cbor_of (CORECONF_HASHMAP session_map)) \<le> min 4096 (env_fuel sample_call_env)"
    "length (cbor_of (CORECONF_HASHMAP session_map)) \<le> min 4096 (cli_fuel sample_cli_env)"
    using n(3) bufs(3,4) by simp_all
  then show ?thesis
    using put_get_session[of ?objs sample_cli_env session_map session_map sample_call_env ?c sample_config, unfolded line m,
        OF ok _ _ short n(4) n(2) n(1) n(1) _ _ bufs(1,2) start]
    by (simp del: cbor_of.simps norm.simps wire_ok.simps nest.simps) blast
qed

end
