(* ===== verification/Cli_Start.thy ===== *)
theory Cli_Start
  imports Cli_Session
begin

text \<open>
  The start of the client against a server: the comparison of the SID fingerprints (\<open>check_server_sid_compatibility\<close>), and a client and
  a server that read the same SID files.
\<close>

section \<open>The fingerprint of the server\<close>

lemma length_fingerprint_line: "length (ascii ''sid-fingerprint='' @ decimal (unat (v :: u64)) @ [0x0A]) \<le> 37"
  using length_decimal_u64[of v] by (simp add: ascii_def)

lemma fingerprint_no_nul: "b \<in> set (ascii ''sid-fingerprint='' @ decimal n @ [0x0A]) \<Longrightarrow> b \<noteq> 0"
  using is_digit_decimal[of b n] digit_not[of b] by (auto simp: ascii_def)

lemma scan_fingerprint_answer:
  "scan_fingerprint (c_string (ascii ''sid-fingerprint='' @ decimal (unat v) @ [0x0A])) = Some v"
proof -
  let ?l = "ascii ''sid-fingerprint=''" let ?s = "?l @ decimal (unat v) @ [0x0A]"
  have "c_string ?s = ?s"
    using fingerprint_no_nul[of _ "unat v"] unfolding c_string_def by (subst takeWhile_eq_all_conv) blast
  moreover have "prefix ?l ?s" "drop (length ?l) ?s = decimal (unat v) @ [0x0A]" by simp_all
  ultimately show ?thesis
    using strtoull10_decimal_rest[of "[0x0A]" v] by (simp add: scan_fingerprint_def Let_def is_digit_def)
qed

definition fingerprint_answer :: "server \<Rightarrow> response" where
  "fingerprint_answer sv = \<lparr>resp_code = CONTENT, resp_cf = Some CF_TEXT_PLAIN,
     resp_data = ascii ''sid-fingerprint='' @ decimal (unat (g_sid_fingerprint sv)) @ [0x0A]\<rparr>"

lemma sid_info_answer: "handle_sid_info sv = Some (Inr (sv, fingerprint_answer sv, []))"
  using length_fingerprint_line[of "g_sid_fingerprint sv"] by (simp add: handle_sid_info_def fingerprint_answer_def)

definition local_fingerprint :: "'n cli \<Rightarrow> u64" where
  "local_fingerprint c = compute_sid_fingerprint (cli_sys_sids c) (cli_if_sids c) (cli_ops_sids c)"

lemma check_answer:
  assumes "\<not> g_observe_mode c"
  obtains out where
    "check_server_sid_compatibility (with_server senv env) c =
       return (if local_fingerprint c = g_sid_fingerprint (cli_net c) then 0 else -1,
         say out (answered (fingerprint_answer (cli_net c)) (cli_net c) c))"
proof -
  let ?sv = "cli_net c" let ?a = "answered (fingerprint_answer ?sv) ?sv c" let ?p = "request_pdu RES_SID COAP_GET"
  let ?l = "ascii ''sid-fingerprint='' @ decimal (unat (g_sid_fingerprint ?sv)) @ [0x0A]"
  have l: "resp_data (fingerprint_answer ?sv) = ?l" by (simp add: fingerprint_answer_def)
  note short = length_fingerprint_line[of "g_sid_fingerprint ?sv"]
  have "send_pdu (with_server senv env) ?p (c\<lparr>g_response_received := False, g_response_len := 0\<rparr>) = return (True, ?a)"
    by (rule send_pdu_served) (use assms short l in \<open>simp_all add: sid_info_answer BUFFER_SIZE_def\<close>)
  moreover have "take (min (g_response_len ?a) 127) (g_response_buf ?a) = ?l" using short l by (simp add: min_def)
  moreover have "g_response_len ?a \<noteq> 0" using l by simp
  ultimately have "\<exists>out. check_server_sid_compatibility (with_server senv env) c =
      return (if local_fingerprint c = g_sid_fingerprint ?sv then 0 else -1, say out ?a)"
    using scan_fingerprint_answer[of "g_sid_fingerprint ?sv"]
    by (auto simp: check_server_sid_compatibility_def Let_def local_fingerprint_def[symmetric] say_def)
  then show ?thesis using that by blast
qed

text \<open>
  C14. The client accepts a server exactly when the fingerprint of its own SIDs is the server's: the number the server prints into the
  answer of \<open>/sid\<close> is the number the client reads back. The check changes nothing on the server and reads nothing from the input.
\<close>

theorem sid_check:
  assumes "\<not> g_observe_mode c"
  shows "\<exists>r c'. check_server_sid_compatibility (with_server senv env) c = Some (Inr (r, c')) \<and>
    (r = 0 \<longleftrightarrow> compute_sid_fingerprint (cli_sys_sids c) (cli_if_sids c) (cli_ops_sids c) = g_sid_fingerprint (cli_net c)) \<and>
    cli_net c' = cli_net c \<and> cli_stdin c' = cli_stdin c"
proof -
  obtain out where
    "check_server_sid_compatibility (with_server senv env) c =
       return (if local_fingerprint c = g_sid_fingerprint (cli_net c) then 0 else -1,
         say out (answered (fingerprint_answer (cli_net c)) (cli_net c) c))"
    by (rule check_answer[OF assms])
  then show ?thesis by (simp add: return_def local_fingerprint_def)
qed

theorem sid_check_witness:
  "\<exists>r c'. check_server_sid_compatibility (with_server sample_call_env sample_cli_env) (client_init [] sample_server) =
     Some (Inr (r, c')) \<and> r \<noteq> 0 \<and> cli_net c' = sample_server"
proof -
  have "compute_sid_fingerprint no_system_sids no_interfaces_sids no_operation_sids \<noteq> 0" by code_simp
  then show ?thesis
    using sid_check[of "client_init [] sample_server" sample_call_env sample_cli_env]
    by (fastforce simp: client_init_def sample_server_def)
qed

section \<open>A client and a server with the same SID files\<close>

definition same_files :: "(bytes \<Rightarrow> bytes option) \<Rightarrow> sid_files \<Rightarrow> bool" where
  "same_files fs files \<longleftrightarrow>
     map_option fst (load_text_from_candidates fs (sid_candidates ''ietf-system.sid'')) = system_file files \<and>
     map_option fst (load_text_from_candidates fs (sid_candidates ''ietf-interfaces.sid'')) = interfaces_file files \<and>
     map_option fst (load_text_from_candidates fs (sid_candidates ''ietf-coreconf-actions.sid'')) = operations_file files"

lemma same_files_system:
  assumes "same_files fs files" and "load_runtime_system_sids (system_file files) (cli_sys_sids c) = (0, sys)"
  shows "\<exists>out. cli_load_system_sids fs c = (0, say out (c\<lparr>cli_sys_sids := sys\<rparr>))"
proof -
  obtain str where t: "system_file files = Some str"
    using assms(2) by (cases "system_file files") (auto simp: load_runtime_system_sids_def)
  then obtain path where "load_text_from_candidates fs (sid_candidates ''ietf-system.sid'') = Some (str, path)"
    using assms(1) by (auto simp: same_files_def)
  then show ?thesis using assms(2) t by (auto simp: cli_load_system_sids_def loaded_def)
qed

lemma same_files_interfaces:
  assumes "same_files fs files" and "load_runtime_interfaces_sids (interfaces_file files) (cli_if_sids c) = (0, ifs)"
  shows "\<exists>out. cli_load_interfaces_sids fs c = (0, say out (c\<lparr>cli_if_sids := ifs\<rparr>))"
proof -
  obtain str where t: "interfaces_file files = Some str"
    using assms(2) by (cases "interfaces_file files") (auto simp: load_runtime_interfaces_sids_def)
  then obtain path where "load_text_from_candidates fs (sid_candidates ''ietf-interfaces.sid'') = Some (str, path)"
    using assms(1) by (auto simp: same_files_def)
  then show ?thesis using assms(2) t by (auto simp: cli_load_interfaces_sids_def loaded_def)
qed

lemma same_files_operations:
  assumes "same_files fs files" and "load_runtime_operation_sids (operations_file files) (cli_ops_sids c) = (0, ops)"
  shows "\<exists>out. cli_load_operation_sids fs c = (0, say out (c\<lparr>cli_ops_sids := ops\<rparr>))"
proof (cases "operations_file files")
  case None
  then have "cli_load_operation_sids fs c = (0, say [] (c\<lparr>cli_ops_sids := ops\<rparr>))"
    using assms by (simp add: same_files_def cli_load_operation_sids_def load_runtime_operation_sids_def say_def)
  then show ?thesis by blast
next
  case (Some str)
  then obtain path where "load_text_from_candidates fs (sid_candidates ''ietf-coreconf-actions.sid'') = Some (str, path)"
    using assms(1) by (auto simp: same_files_def)
  then show ?thesis using assms(2) Some by (auto simp: cli_load_operation_sids_def loaded_def)
qed

lemma started_sids:
  assumes "server_start old buf files = Inr (Some sv)"
  shows "load_runtime_system_sids (system_file files) no_system_sids = (0, g_sys_sids sv)"
    and "load_runtime_interfaces_sids (interfaces_file files) no_interfaces_sids = (0, g_if_sids sv)"
    and "load_runtime_operation_sids (operations_file files) no_operation_sids = (0, g_ops_sids sv)"
    and "g_sid_fingerprint sv = compute_sid_fingerprint (g_sys_sids sv) (g_if_sids sv) (g_ops_sids sv)"
  using assms by (auto simp: server_start_def Let_def split: sum.splits prod.splits if_splits)

lemma client_load_same:
  assumes "server_start old buf files = Inr (Some sv)" and "same_files fs files"
    and "cli_sys_sids c = no_system_sids" and "cli_if_sids c = no_interfaces_sids" and "cli_ops_sids c = no_operation_sids"
  obtains out where "client_load fs c =
    (0, say out (c\<lparr>cli_sys_sids := g_sys_sids sv, cli_if_sids := g_if_sids sv, cli_ops_sids := g_ops_sids sv\<rparr>))"
proof -
  note l = same_files_system[OF assms(2)] same_files_interfaces[OF assms(2)] same_files_operations[OF assms(2)]
  note s = started_sids[OF assms(1)]
  obtain o1 where o1: "cli_load_system_sids fs c = (0, say o1 (c\<lparr>cli_sys_sids := g_sys_sids sv\<rparr>))"
    using l(1) s(1) assms(3) by metis
  let ?c1 = "say o1 (c\<lparr>cli_sys_sids := g_sys_sids sv\<rparr>)"
  have "cli_if_sids ?c1 = no_interfaces_sids" using assms(4) by simp
  then obtain o2 where o2: "cli_load_interfaces_sids fs ?c1 = (0, say o2 (?c1\<lparr>cli_if_sids := g_if_sids sv\<rparr>))"
    using l(2) s(2) by metis
  let ?c2 = "say o2 (?c1\<lparr>cli_if_sids := g_if_sids sv\<rparr>)"
  have "cli_ops_sids ?c2 = no_operation_sids" using assms(5) by simp
  then obtain o3 where o3: "cli_load_operation_sids fs ?c2 = (0, say o3 (?c2\<lparr>cli_ops_sids := g_ops_sids sv\<rparr>))"
    using l(3) s(3) by metis
  show ?thesis by (rule that[of "o1 @ o2 @ o3"]) (use o1 o2 o3 in \<open>simp add: client_load_def say_def\<close>)
qed

text \<open>
  C15. A client that finds the SID files the server was started with accepts the server: \<open>main\<close> reads the files, connects, passes the
  check of the fingerprints and enters the command loop, with the server as it was.
\<close>

theorem same_files_connect:
  assumes "server_start old buf files = Inr (Some sv)" and "same_files fs files"
    and "client_config getenv supported = Inr conf" and "connects conf"
  shows "\<exists>c. client_main (with_server senv env) fs getenv supported connects argv1 inp sv =
      and_then (cli_loop (with_server senv env) conf c) (\<lambda>c. return (0, say (newline @ ascii ''Exiting...'' @ newline) c)) \<and>
    cli_net c = sv \<and> cli_stdin c = inp \<and> \<not> g_observe_mode c \<and> length (g_response_buf c) = 4096 \<and>
    cli_sys_sids c = g_sys_sids sv \<and> cli_if_sids c = g_if_sids sv \<and> cli_ops_sids c = g_ops_sids sv"
proof -
  define c where "c = (case argv1 of Some w \<Rightarrow> (client_init inp sv)\<lparr>g_device_type := take 63 w\<rparr> | None \<Rightarrow> client_init inp sv)"
  have c: "cli_sys_sids c = no_system_sids" "cli_if_sids c = no_interfaces_sids" "cli_ops_sids c = no_operation_sids"
    "cli_net c = sv" "cli_stdin c = inp" "\<not> g_observe_mode c" "length (g_response_buf c) = 4096"
    by (cases argv1; simp add: c_def client_init_def)+
  obtain out where load: "client_load fs c =
      (0, say out (c\<lparr>cli_sys_sids := g_sys_sids sv, cli_if_sids := g_if_sids sv, cli_ops_sids := g_ops_sids sv\<rparr>))"
    by (rule client_load_same[OF assms(1,2) c(1-3)])
  define l where "l = say out (c\<lparr>cli_sys_sids := g_sys_sids sv, cli_if_sids := g_if_sids sv, cli_ops_sids := g_ops_sids sv\<rparr>)"
  define d where "d = say (start_banner conf l) l"
  have d: "cli_net d = sv" "cli_stdin d = inp" "\<not> g_observe_mode d" "length (g_response_buf d) = 4096"
    "cli_sys_sids d = g_sys_sids sv" "cli_if_sids d = g_if_sids sv" "cli_ops_sids d = g_ops_sids sv"
    using c(4-7) by (simp_all add: d_def l_def)
  then have "local_fingerprint d = g_sid_fingerprint (cli_net d)" by (simp add: local_fingerprint_def started_sids(4)[OF assms(1)])
  moreover obtain out2 where "check_server_sid_compatibility (with_server senv env) d =
      return (if local_fingerprint d = g_sid_fingerprint (cli_net d) then 0 else -1,
        say out2 (answered (fingerprint_answer (cli_net d)) (cli_net d) d))"
    by (rule check_answer[OF d(3)])
  ultimately have check: "check_server_sid_compatibility (with_server senv env) d =
      return (0, say out2 (answered (fingerprint_answer sv) sv d))"
    using d(1) by simp
  have main: "client_main (with_server senv env) fs getenv supported connects argv1 inp sv =
      and_then (cli_loop (with_server senv env) conf (say out2 (answered (fingerprint_answer sv) sv d)))
        (\<lambda>c. return (0, say (newline @ ascii ''Exiting...'' @ newline) c))"
    unfolding client_main_def client_session_def Let_def c_def[symmetric] load assms(3) sum.case prod.case l_def[symmetric] d_def[symmetric] check
    using assms(4) by simp
  have "length (resp_data (fingerprint_answer sv)) \<le> 4096"
    using length_fingerprint_line[of "g_sid_fingerprint sv"] by (simp add: fingerprint_answer_def)
  then show ?thesis
    using main by (intro exI[of _ "say out2 (answered (fingerprint_answer sv) sv d)"]) (simp add: d)
qed

definition sample_fs :: "bytes \<Rightarrow> bytes option" where
  "sample_fs path =
     (if path = ascii ''../sid/ietf-system.sid'' then Some (ascii sample_system)
      else if path = ascii ''sid/ietf-interfaces.sid'' then Some (ascii sample_interfaces) else None)"

lemma ascii_eq_iff: "ascii a = ascii b \<longleftrightarrow> a = b"
  by (simp add: ascii_def inj_map_eq_map[OF of_char_u8_inj])

lemma ascii_append: "ascii a @ ascii b = ascii (a @ b)"
  by (simp add: ascii_def)

lemma sample_same_files: "same_files sample_fs sample_files"
proof -
  have "ascii sample_system \<noteq> []" "ascii sample_interfaces \<noteq> []"
    by (simp_all add: ascii_def sample_system_def sample_interfaces_def)
  then show ?thesis
    by (auto simp: same_files_def sample_files_def load_text_from_candidates_def sid_candidates_def sample_fs_def ascii_append ascii_eq_iff
        neq_Nil_conv)
qed

theorem same_files_connect_witness:
  "\<exists>sv conf c. server_start any_state (replicate 256 0) sample_files = Inr (Some sv) \<and>
     client_main (with_server sample_call_env sample_cli_env) sample_fs (\<lambda>_. None) False (\<lambda>_. True) None (ascii ''quit'') sv =
       and_then (cli_loop (with_server sample_call_env sample_cli_env) conf c)
         (\<lambda>c. return (0, say (newline @ ascii ''Exiting...'' @ newline) c)) \<and>
     cli_net c = sv \<and> cli_stdin c = ascii ''quit''"
proof -
  obtain sv where sv: "server_start any_state (replicate 256 0) sample_files = Inr (Some sv)" by (rule sample_start)
  obtain conf where "client_config (\<lambda>_. None) False = Inr conf" by (auto simp: client_config_def Let_def)
  from same_files_connect[OF sv sample_same_files this, of "\<lambda>_. True" sample_call_env sample_cli_env None "ascii ''quit''"] sv
  show ?thesis by blast
qed

end
