(* ===== verification/Cli_Edit.thy ===== *)
theory Cli_Edit
  imports Cli_Start
begin

text \<open>
  Reading and editing parts of the datastore from the client: \<open>fetch\<close> with SIDs and list entries, and \<open>ipatch\<close> of one SID, each from the
  line that is typed to the state of the server and the text that is printed.
\<close>

section \<open>Identifiers\<close>

fun iid_word :: "FetchIid \<Rightarrow> bytes" where
  "iid_word (IID_SCALAR sid) = decimal (unat sid)"
| "iid_word (IID_LIST sid key) = [0x5B] @ decimal (unat sid) @ [0x2C] @ key @ [0x5D]"

fun client_iid :: "FetchIid \<Rightarrow> InstanceIdentifier" where
  "client_iid (IID_SCALAR sid) = IID_SIMPLE sid"
| "client_iid (IID_LIST sid key) = IID_WITH_STR_KEY sid key"

lemma decimal_not: "\<not> is_digit b \<Longrightarrow> b \<notin> set (decimal n)"
  using is_digit_decimal by blast

lemma strchr_append: "c \<notin> set xs \<Longrightarrow> strchr (xs @ c # ys) c = Some (c # ys)"
  by (induction xs) auto

lemma strtoull_value_decimal: "strtoull_value (decimal (unat v)) = v"
  by (simp add: strtoull_value_def strtoull10_decimal)

lemma read_iid_word: "read_iid_arg (iid_word iid) = Some (client_iid iid)"
proof (cases iid)
  case (IID_SCALAR sid)
  have "hd (decimal (unat sid)) \<noteq> 0x5B" using is_digit_decimal[OF hd_in_set[OF decimal_ne], of "unat sid"] by (auto simp: is_digit_def)
  then show ?thesis using IID_SCALAR by (simp add: read_iid_arg_def strtoull_value_decimal)
next
  case (IID_LIST sid key)
  have c: "0x2C \<notin> set (decimal (unat sid))" by (rule decimal_not) (simp add: is_digit_def)
  then have "takeWhile (\<lambda>b. b \<noteq> 0x2C) (decimal (unat sid) @ 0x2C # key @ [0x5D]) = decimal (unat sid)"
    by (subst takeWhile_append2) auto
  then show ?thesis
    using IID_LIST strchr_append[OF c, of "key @ [0x5D]"] by (simp add: read_iid_arg_def strtoull_value_decimal Let_def)
qed

lemma read_iid_words: "read_iid_args (map iid_word iids) = Inr (map client_iid iids)"
  by (induction iids) (simp_all add: read_iid_word)

lemma cbor_client_iid: "key_fits iid \<Longrightarrow> cbor_iid (client_iid iid) = cbor_fetch_iid iid \<and> iid_ok (client_iid iid)"
proof (cases iid)
  case (IID_LIST sid key)
  assume "key_fits iid"
  then have "c_string key = key" "length key < 128" using IID_LIST c_string_no_nul[of key "[]"] by (simp_all add: c_string_def)
  then show ?thesis using IID_LIST by (simp add: cbor_iid_def cbor_iid_key_def iid_ok_def)
qed (simp add: cbor_iid_def iid_ok_def)

text \<open>The request for the identifiers of a line fits into the buffer.\<close>

lemma length_cbor_head_le: "length (cbor_head m v) \<le> 9"
  by (auto simp: length_cbor_head zcbor_header_len_def)

lemma length_cbor_fetch_iid: "length (cbor_fetch_iid iid) \<le> length (iid_word iid) + 20"
proof (cases iid)
  case (IID_SCALAR sid)
  then show ?thesis using length_cbor_head_le[of ZCBOR_MAJOR_TYPE_PINT sid] by simp
next
  case (IID_LIST sid key)
  then show ?thesis
    using length_cbor_head_le[of ZCBOR_MAJOR_TYPE_PINT sid] length_cbor_head_le[of ZCBOR_MAJOR_TYPE_TSTR "of_nat (length key)"]
    by (simp add: cbor_str_def)
qed

lemma length_cbor_fetch_iids: "length (concat (map cbor_fetch_iid iids)) \<le> length (join_words (map iid_word iids)) + 20 * length iids"
proof (induction iids)
  case (Cons iid iids)
  have "length (join_words (map iid_word (iid # iids))) \<ge> length (iid_word iid) + length (join_words (map iid_word iids))"
    by (simp add: join_words_Cons)
  then show ?case using Cons.IH length_cbor_fetch_iid[of iid] by simp
qed simp

section \<open>fetch\<close>

text \<open>A list of objects as the contents of a map.\<close>

definition listed :: "CoreconfValue CoreconfObject list \<Rightarrow> CoreconfValue CoreconfHashMap" where
  "listed objs = CoreconfHashMap [objs] (of_nat (length objs)) 1"

lemma listed_objects [simp]: "hm_objects (listed objs) = objs"
  by (simp add: listed_def hm_objects_def)

lemma length_found_objects: "length (found_objects iids (map f iids)) \<le> length iids"
  by (induction iids) (auto split: option.split)

definition read_back :: "CoreconfValue CoreconfObject list \<Rightarrow> CoreconfValue CoreconfHashMap" where
  "read_back objs = hm_of_list (map (\<lambda>obj. (fst obj, norm (snd obj))) objs) empty_hashmap"

lemma norm_listed: "norm (CORECONF_HASHMAP (listed objs)) = CORECONF_HASHMAP (read_back objs)"
  by (simp add: read_back_def)

lemma read_back_lookup:
  assumes "length objs \<le> 51"
  shows "getCoreconfHashMap (read_back objs) = fold (\<lambda>obj f. f(fst obj \<mapsto> norm (snd obj))) objs (\<lambda>_. None)"
proof -
  let ?es = "map (\<lambda>obj. (fst obj, Some (norm (snd obj)))) objs"
  have "read_back objs = hm.edit_all empty_hashmap ?es"
    by (simp add: read_back_def hm_of_list_edits hm_edits_edit_all comp_def)
  moreover have "getCoreconfHashMap (hm.edit_all empty_hashmap ?es) = fold (\<lambda>(k, e) f. f(k := e)) ?es (\<lambda>_. None)"
    using hm.lkp_edit_all[OF hm.inv_emp, of ?es] assms by (simp add: hm.lkp_emp CORECONF_MAX_LOOP_def)
  ultimately show ?thesis by (simp add: fold_map comp_def)
qed

lemma fetch_command:
  assumes "g_datastore (cli_net c) = Some (CORECONF_HASHMAP hm)" and "g_ds_exists (cli_net c)"
    and "iids \<noteq> []" and "length iids \<le> 31" and "\<forall>iid \<in> set iids. key_fits iid"
    and "length (join_words (map iid_word iids)) \<le> 510" and "objs = found_objects iids (map (find_value hm) iids)"
    and "\<forall>obj \<in> set objs. wire_ok (snd obj) \<and> nest (snd obj) \<le> 5"
    and "length (concat (map cbor_object objs)) + 2 \<le> min 4096 (cli_fuel env)"
    and "length (cli_buf env) = 4096" and "length (env_buf senv) = 4096" and "\<not> g_observe_mode c" and "length (g_response_buf c) = 4096"
  obtains c' where "cmd_fetch (with_server senv env) (map iid_word iids) c = return c'" "cli_net c' = cli_net c"
    "cli_stdout c' = cli_stdout c @ ascii ''  FETCH /c ('' @ decimal (length iids) @ ascii '' IID(s), '' @
       decimal (length (concat (map cbor_fetch_iid iids))) @ ascii '' bytes req)... '' @ status ''2.05'' @ datastore_text (read_back objs)"
    "cli_stdin c' = cli_stdin c" "\<not> g_observe_mode c'" "length (g_response_buf c') = 4096"
proof -
  let ?req = "concat (map cbor_fetch_iid iids)" let ?v = "CORECONF_HASHMAP (listed objs)"
  have len: "length ?req \<le> 4096" using length_cbor_fetch_iids[of iids] assms(4,6) by simp
  have cb: "concat (map cbor_iid (map client_iid iids)) = ?req" "\<forall>iid \<in> set (map client_iid iids). iid_ok iid"
    using assms(5) cbor_client_iid by (auto intro!: arg_cong[of _ _ concat])
  have writes: "writes (put_iid iid) (cbor_iid iid)" if "iid \<in> set (map client_iid iids)" for iid using cb(2) that writes_iid by blast
  have fits: "0 + length (concat (map cbor_iid (map client_iid iids))) \<le> BUFFER_SIZE" "BUFFER_SIZE \<le> length (cli_buf env)"
    using len assms(10) by (simp_all only: cb(1) BUFFER_SIZE_def)
  obtain buf' where "encode_seq 5 put_iid (cli_stack env) (cli_buf env) BUFFER_SIZE (map client_iid iids) 0 = (length ?req, buf')"
      "take (length ?req) buf' = ?req"
    using encode_seq_writes[where put = put_iid and bs = cbor_iid and k = 5 and old = "cli_stack env", OF writes fits]
    by (simp only: cb(1) add_0 drop0) blast
  then have enc: "create_fetch_request_with_iids (cli_stack env) (Some (cli_buf env)) BUFFER_SIZE (Some (map client_iid iids)) =
      (length ?req, Some buf')" "take (length ?req) buf' = ?req"
    using assms(3) by (simp_all add: create_fetch_request_with_iids_def)
  let ?c = "say (ascii ''  FETCH /c ('' @ decimal (length iids) @ ascii '' IID(s), '' @ decimal (length ?req) @ ascii '' bytes req)... '') c"
  let ?p = "fetch_pdu RES_C ?req" let ?resp = "\<lparr>resp_code = CONTENT, resp_cf = Some 142, resp_data = cbor_of ?v\<rparr>"
  let ?d = "say (ascii '' '' @ show_code (code_of CONTENT) @ ascii ''  '') (answered ?resp (cli_net ?c) ?c)"
  have bs: "cbor_of ?v = [0xBF] @ concat (map (fetch_answer hm) iids) @ [0xFF]" by (simp add: fetch_answers_found assms(7))
  have ne: "?req \<noteq> []" using assms(3) by (cases iids; cases "hd iids") auto
  have "handle_fetch senv (cli_net ?c) (request_of ?p) = Some (Inr (cli_net ?c, ?resp, []))"
    unfolding bs by (rule fetch_reply) (use assms(1-5,7,9,11) ne fetch_answers_found[of hm iids] in simp_all)
  then have "send_and_wait (with_server senv env) ?p ?c = return (True, ?d)"
    using send_served[of ?c senv ?p "cli_net ?c" ?resp _ env] assms(9,12) by (simp add: BUFFER_SIZE_def)
  moreover have ok: "wire_ok ?v" "nest ?v \<le> 6"
    using assms(4,7,8) length_found_objects[of iids "find_value hm"] fold_max_le[of objs "\<lambda>obj. nest (snd obj)" 5 0]
    by (simp_all add: list_all_iff CORECONF_MAX_LOOP_def)
  moreover have "show_datastore (with_server senv env) ?d = return (say (datastore_text (read_back objs)) ?d)"
    using assms(9,13) by (intro show_map[OF ok norm_listed]) simp_all
  ultimately have "cmd_fetch (with_server senv env) (map iid_word iids) c = return (say (datastore_text (read_back objs)) ?d)"
    using enc assms(3,4) read_iid_words[of iids] by (simp add: cmd_fetch_def show_answer_def)
  then show ?thesis
    by (rule that) (use assms(9,12,13) in simp_all)
qed

lemma run_command_fetch [simp]: "run_command env conf (ascii ''fetch'') argv c = cmd_fetch env argv c"
  and run_command_ipatch [simp]: "run_command env conf (ascii ''ipatch'') argv c = cmd_ipatch env argv c"
  by (simp_all add: run_command_def)

lemma shell_word_edit: "shell_word (ascii ''fetch'')" "shell_word (ascii ''ipatch'')"
  by (simp_all add: shell_word_def word_end_def ascii_def)

lemma length_join_tail: "length (join_words ws) \<le> length (join_words (w # ws))"
  by (simp add: join_words_Cons)

text \<open>
  C12. A line \<open>fetch\<close> with SIDs and list entries \<open>[SID,key]\<close> is the server's \<open>FETCH\<close> of these identifiers: nothing changes on the server, and
  the client prints the map that it decodes from the answer. Its entries are the values that the datastore has for the identifiers (what is
  stored under a SID, else the leaf of the first container that has one; the list of the first entry with a key), under their SIDs, a later one
  in the place of an earlier one.
\<close>

theorem fetch_session:
  assumes "g_datastore (cli_net c) = Some (CORECONF_HASHMAP hm)" and "g_ds_exists (cli_net c)"
    and "iids \<noteq> []" and "length iids \<le> 31" and "\<forall>iid \<in> set iids. key_fits iid \<and> shell_word (iid_word iid)"
    and "length (join_words (ascii ''fetch'' # map iid_word iids)) \<le> 510"
    and "list_all2 (\<lambda>iid w. \<forall>v. w = Some v \<longleftrightarrow> located hm iid v) iids ws" and "objs = found_objects iids ws"
    and "\<forall>obj \<in> set objs. wire_ok (snd obj) \<and> nest (snd obj) \<le> 5"
    and "length (concat (map cbor_object objs)) + 2 \<le> min 4096 (cli_fuel env)"
    and "length (cli_buf env) = 4096" and "length (env_buf senv) = 4096" and "\<not> g_observe_mode c" and "length (g_response_buf c) = 4096"
    and "cli_stdin c = join_words (ascii ''fetch'' # map iid_word iids) @ newline @ rest"
  shows "\<exists>c' hm'. cli_loop (with_server senv env) conf c = cli_loop (with_server senv env) conf c' \<and>
      cli_net c' = cli_net c \<and> cli_stdin c' = rest \<and> \<not> g_observe_mode c' \<and> length (g_response_buf c') = 4096 \<and>
      norm (CORECONF_HASHMAP (listed objs)) = CORECONF_HASHMAP hm' \<and>
      getCoreconfHashMap hm' = fold (\<lambda>obj f. f(fst obj \<mapsto> norm (snd obj))) objs (\<lambda>_. None) \<and>
      cli_stdout c' = cli_stdout c @ prompt @ ascii ''  FETCH /c ('' @ decimal (length iids) @ ascii '' IID(s), '' @
        decimal (length (concat (map cbor_fetch_iid iids))) @ ascii '' bytes req)... '' @ status ''2.05'' @ datastore_text hm'"
proof -
  let ?c = "(say prompt c)\<lparr>cli_stdin := rest\<rparr>"
  have ws: "ws = map (find_value hm) iids" using assms(7) by (simp only: located_values)
  have words: "\<forall>w \<in> set (ascii ''fetch'' # map iid_word iids). shell_word w" using assms(5) shell_word_edit by auto
  have l: "length (join_words (map iid_word iids)) \<le> 510" using assms(6) length_join_tail le_trans by blast
  obtain c' where c': "cmd_fetch (with_server senv env) (map iid_word iids) ?c = return c'" "cli_net c' = cli_net ?c"
      "cli_stdout c' = cli_stdout ?c @ ascii ''  FETCH /c ('' @ decimal (length iids) @ ascii '' IID(s), '' @
         decimal (length (concat (map cbor_fetch_iid iids))) @ ascii '' bytes req)... '' @ status ''2.05'' @ datastore_text (read_back objs)"
      "cli_stdin c' = cli_stdin ?c" "\<not> g_observe_mode c'" "length (g_response_buf c') = 4096"
    by (rule fetch_command[of ?c hm iids objs env senv]) (use assms(1-5,8-14) l ws in simp_all)
  have "cli_loop (with_server senv env) conf c = cli_loop (with_server senv env) conf c'"
    by (rule cli_loop_line[OF words]) (use assms(4,6,15) c'(1) in \<open>simp_all add: newline_def\<close>)
  moreover have "length objs \<le> 51"
    using length_found_objects[of iids "find_value hm"] assms(4,8) ws by simp
  ultimately show ?thesis
    using c' norm_listed read_back_lookup by (intro exI[of _ c'] exI[of _ "read_back objs"]) simp
qed

text \<open>On \<open>sample_tree\<close> the line \<open>fetch 103 [7,b]\<close>.\<close>

theorem fetch_session_witness:
  "\<exists>c' hm'. cli_loop (with_server sample_call_env sample_cli_env) sample_config
       (client_init (ascii ''fetch 103 [7,b]'' @ newline) (sample_server\<lparr>g_datastore := Some (CORECONF_HASHMAP sample_tree)\<rparr>)) =
       cli_loop (with_server sample_call_env sample_cli_env) sample_config c' \<and>
     cli_stdin c' = [] \<and> getCoreconfHashMap hm' 103 = Some (CORECONF_UINT_64 9) \<and>
     cli_stdout c' = prompt @ ascii ''  FETCH /c ('' @ decimal 2 @ ascii '' IID(s), '' @ decimal 7 @ ascii '' bytes req)... '' @
       status ''2.05'' @ datastore_text hm'"
proof -
  let ?sv = "sample_server\<lparr>g_datastore := Some (CORECONF_HASHMAP sample_tree)\<rparr>"
  let ?c = "client_init (ascii ''fetch 103 [7,b]'' @ newline) ?sv" let ?iids = "[IID_SCALAR 103, IID_LIST 7 [0x62]]"
  let ?e = "snd (insertCoreconfHashMap empty_hashmap 1 (CORECONF_STRING [0x62]))"
  let ?objs = "[(103, CORECONF_INT_8 9), (7, CORECONF_ARRAY [CORECONF_HASHMAP ?e])]"
  let ?ws = "map (find_value sample_tree) ?iids"
  have f: "found_objects ?iids ?ws = ?objs" "length (concat (map cbor_object ?objs)) + 2 \<le> 20"
    "length (concat (map cbor_fetch_iid ?iids)) = 7" "hm_objects ?e = [(1, CORECONF_STRING [0x62])]"
    "map iid_word ?iids = [[0x31, 0x30, 0x33], [0x5B, 0x37, 0x2C, 0x62, 0x5D]]" by code_simp+
  have line: "join_words (ascii ''fetch'' # map iid_word ?iids) = ascii ''fetch 103 [7,b]''" unfolding f(5) by (simp add: ascii_def)
  have short: "length (ascii ''fetch 103 [7,b]'') \<le> 510" by (simp add: ascii_def)
  have w: "iid_word (IID_SCALAR 103) = [0x31, 0x30, 0x33]" "iid_word (IID_LIST 7 [0x62]) = [0x5B, 0x37, 0x2C, 0x62, 0x5D]"
    using f(5) by simp_all
  have ok: "\<forall>iid \<in> set ?iids. key_fits iid \<and> shell_word (iid_word iid)" unfolding list.set ball_simps w by (simp add: shell_word_def word_end_def)
  have sv: "g_datastore (cli_net ?c) = Some (CORECONF_HASHMAP sample_tree)" "g_ds_exists (cli_net ?c)"
    and c: "\<not> g_observe_mode ?c" "length (g_response_buf ?c) = 4096" "cli_stdin ?c = ascii ''fetch 103 [7,b]'' @ newline @ []" "cli_stdout ?c = []"
    by (simp_all add: client_init_def sample_server_def)
  have bufs: "length (cli_buf sample_cli_env) = 4096" "length (env_buf sample_call_env) = 4096" "cli_fuel sample_cli_env = 20"
    by (simp_all add: sample_cli_env_def sample_call_env_def)
  have objs: "\<forall>obj \<in> set ?objs. wire_ok (snd obj) \<and> nest (snd obj) \<le> 5" using f(4) by (simp add: CORECONF_MAX_LOOP_def)
  have size: "length (concat (map cbor_object ?objs)) + 2 \<le> min 4096 (cli_fuel sample_cli_env)" using f(2) bufs(3) by simp
  have ws: "list_all2 (\<lambda>iid w. \<forall>v. w = Some v \<longleftrightarrow> located sample_tree iid v) ?iids ?ws" by (simp only: located_values)
  have n: "length ?iids = 2" "?iids \<noteq> []" "length ?iids \<le> 31" by simp_all
  obtain c' hm' where c': "cli_loop (with_server sample_call_env sample_cli_env) sample_config ?c =
        cli_loop (with_server sample_call_env sample_cli_env) sample_config c'" "cli_stdin c' = []"
      "getCoreconfHashMap hm' = fold (\<lambda>obj f. f(fst obj \<mapsto> norm (snd obj))) ?objs (\<lambda>_. None)"
      "cli_stdout c' = cli_stdout ?c @ prompt @ ascii ''  FETCH /c ('' @ decimal 2 @ ascii '' IID(s), '' @
        decimal 7 @ ascii '' bytes req)... '' @ status ''2.05'' @ datastore_text hm'"
    using fetch_session[OF sv n(2,3) ok _ ws f(1)[symmetric] objs size bufs(1,2) c(1,2), where rest = "[]" and conf = sample_config,
        unfolded line f(3) n(1), OF short c(3)] by blast
  have "norm (CORECONF_INT_8 9) = CORECONF_UINT_64 9" by code_simp
  then have "getCoreconfHashMap hm' 103 = Some (CORECONF_UINT_64 9)" unfolding c'(3) by simp
  then show ?thesis using c'(1,2) c'(4)[unfolded c(4) append_Nil] by blast
qed

section \<open>ipatch\<close>

lemma create_ipatch_request_get:
  assumes "hm_size hm \<noteq> 0"
  shows "create_ipatch_request old (Some buf) n (Some (CORECONF_HASHMAP hm)) = create_get_response old (Some buf) n (Some (CORECONF_HASHMAP hm))"
  using assms by (simp add: create_ipatch_request_def create_get_response_def Let_def)

lemma one_object:
  fixes sid :: u64 and x :: CoreconfValue
  defines "P \<equiv> snd (insertCoreconfHashMap empty_hashmap sid x)"
  shows "hm_objects P = [(sid, x)]" and "hm_wf P" and "hm_size P \<noteq> 0"
proof -
  show wf: "hm_wf P" unfolding P_def by (rule hm.inv_ins[OF hm.inv_emp])
  have l: "getCoreconfHashMap P = [sid \<mapsto> x]"
    unfolding P_def using hm.lkp_ins_room[OF hm.inv_emp, of sid x] by (simp add: hm.lkp_emp)
  have "length (hm_objects P) = 1" using hm.length_objs[OF wf] l by simp
  then obtain obj where o: "hm_objects P = [obj]" by (auto simp: length_Suc_conv)
  then have "getCoreconfHashMap P (fst obj) = Some (snd obj)" using hm.objs_lookup[OF wf, of "fst obj" "snd obj"] by simp
  then have "obj = (sid, x)" using l by (cases obj) (auto split: if_splits)
  then show "hm_objects P = [(sid, x)]" using o by simp
  then show "hm_size P \<noteq> 0" using hm_size_0[OF wf] by (metis list.distinct(1))
qed

lemma handle_ipatch_one:
  assumes "g_datastore sv = Some (CORECONF_HASHMAP hm)" and "g_ds_exists sv"
    and "get_content_format req = 142" and "get_payload req = Some ([0xBF] @ cbor_object (sid, x) @ [0xFF])"
    and "wire_ok x" and "nest x \<le> 5" and "length ([0xBF] @ cbor_object (sid, x) @ [0xFF]) \<le> env_fuel env"
  obtains events where "handle_ipatch env sv req =
    Some (Inr (sv\<lparr>g_datastore := Some (CORECONF_HASHMAP (patch_entry hm sid (norm x))), g_stream_events := events\<rparr>,
      \<lparr>resp_code = CHANGED, resp_cf = None, resp_data = []\<rparr>, [NotifyObservers ''ipatch'']))"
proof -
  let ?bs = "[0xBF] @ cbor_object (sid, x) @ [0xFF]" let ?objs = "[(sid, x)]"
  have bs: "?bs = [0xBF] @ concat (map cbor_object ?objs) @ [0xFF]" by simp
  have ok: "\<And>obj. obj \<in> set ?objs \<Longrightarrow> wire_ok (snd obj) \<and> nest (snd obj) \<le> 5" using assms(5,6) by simp
  have n: "length ?objs < 2 ^ 62" by simp
  have "raw_maps (env_stack env) ?bs (length ?bs) (env_fuel env) (env_fuel env) 0 hm 0
      = Some (Inr (length ?objs, fold (\<lambda>obj m. patch_entry m (fst obj) (norm (snd obj))) ?objs hm))"
    by (rule raw_maps_one[OF ok n bs assms(7)])
  then have raw: "apply_ipatch_raw (env_fuel env) (env_stack env) (Some (CORECONF_HASHMAP hm)) (Some ?bs) (length ?bs)
      = Some (Inr (1, Some (CORECONF_HASHMAP (patch_entry hm sid (norm x)))))"
    by (simp add: apply_ipatch_raw_def)
  obtain events where "stream_push_notification_sequence (env_stack env) (sys_module (g_sys_sids sv)) (g_stream_events sv) ?bs (length ?bs) =
      Inr events"
    using push_encoded_sequence[OF bs, where old = "env_stack env" and m = "sys_module (g_sys_sids sv)" and events = "g_stream_events sv"]
      assms(5) n by auto
  then show ?thesis
    using that[of events] assms(1-4) raw
    by (simp add: handle_ipatch_def CF_YANG_INSTANCES_def map_value_def Let_def del: append.simps append_Cons)
qed

lemma ipatch_command:
  assumes "g_datastore (cli_net c) = Some (CORECONF_HASHMAP hm)" and "g_ds_exists (cli_net c)"
    and "text_ok (cli_nan env) v" and "wire_ok v" and "nest v \<le> 5"
    and "length (cbor_object (sid, norm v)) + 2 \<le> min 4096 (env_fuel senv)"
    and "length (cli_buf env) = 4096" and "\<not> g_observe_mode c"
  obtains events c' where "cmd_ipatch (with_server senv env) [decimal (unat sid), text_of v] c = return c'"
    "cli_net c' = (cli_net c)\<lparr>g_datastore := Some (CORECONF_HASHMAP (patch_entry hm sid (norm (norm v)))), g_stream_events := events\<rparr>"
    "cli_stdout c' = cli_stdout c @ ascii ''  iPATCH /c (SID '' @ decimal (unat sid) @ ascii '' = '' @ text_of v @ ascii '')... '' @
       status ''2.04'' @ newline"
    "cli_stdin c' = cli_stdin c" "\<not> g_observe_mode c'" "length (g_response_buf c') = length (g_response_buf c)"
proof -
  let ?P = "snd (insertCoreconfHashMap empty_hashmap sid (norm v))" let ?bs = "[0xBF] @ cbor_object (sid, norm v) @ [0xFF]"
  let ?c = "say (ascii ''  iPATCH /c (SID '' @ decimal (unat sid) @ ascii '' = '' @ text_of v @ ascii '')... '') c"
  note P = one_object[of sid "norm v"]
  have bs: "cbor_of (CORECONF_HASHMAP ?P) = ?bs" using P(1) by simp
  then have fit: "length (cbor_of (CORECONF_HASHMAP ?P)) \<le> BUFFER_SIZE" "BUFFER_SIZE \<le> length (cli_buf env)"
    using assms(6,7) by (simp_all add: BUFFER_SIZE_def)
  obtain buf' where "create_get_response (cli_stack env) (Some (cli_buf env)) BUFFER_SIZE (Some (CORECONF_HASHMAP ?P)) =
      (length (cbor_of (CORECONF_HASHMAP ?P)), Some buf')" "take (length (cbor_of (CORECONF_HASHMAP ?P))) buf' = cbor_of (CORECONF_HASHMAP ?P)"
    by (rule get_response_bytes[OF P(2) fit])
  then have enc: "create_ipatch_request (cli_stack env) (Some (cli_buf env)) BUFFER_SIZE (Some (CORECONF_HASHMAP ?P)) = (length ?bs, Some buf')"
      "take (length ?bs) buf' = ?bs"
    using create_ipatch_request_get[OF P(3)] by (simp_all only: bs)
  let ?p = "ipatch_pdu ?bs" let ?resp = "\<lparr>resp_code = CHANGED, resp_cf = None, resp_data = []\<rparr>"
  have len: "length ?bs \<le> env_fuel senv" using assms(6) by simp
  have nv: "wire_ok (norm v)" "nest (norm v) \<le> 5" using norm_wire_ok[OF assms(4)] assms(5) by simp_all
  have req: "get_content_format (request_of ?p) = 142" "get_payload (request_of ?p) = Some ?bs" by simp_all
  have ds: "g_datastore (cli_net ?c) = Some (CORECONF_HASHMAP hm)" "g_ds_exists (cli_net ?c)" using assms(1,2) by simp_all
  obtain events where h: "handle_ipatch senv (cli_net ?c) (request_of ?p) =
      Some (Inr ((cli_net ?c)\<lparr>g_datastore := Some (CORECONF_HASHMAP (patch_entry hm sid (norm (norm v)))), g_stream_events := events\<rparr>,
        ?resp, [NotifyObservers ''ipatch'']))"
    by (rule handle_ipatch_one[OF ds req nv len])
  let ?sv = "(cli_net ?c)\<lparr>g_datastore := Some (CORECONF_HASHMAP (patch_entry hm sid (norm (norm v)))), g_stream_events := events\<rparr>"
  let ?d = "say newline (say (ascii '' '' @ show_code (code_of CHANGED) @ ascii ''  '') (answered ?resp ?sv ?c))"
  have "send_and_wait (with_server senv env) ?p ?c =
      return (True, say (ascii '' '' @ show_code (code_of CHANGED) @ ascii ''  '') (answered ?resp ?sv ?c))"
    using send_served[of ?c senv ?p ?sv ?resp _ env] assms(8) h by simp
  then have "send_quietly (with_server senv env) ?p ?c = return ?d" by (simp add: send_quietly_def)
  moreover have "parse_value_of (with_server senv env) (text_of v) = norm v"
    using parse_text[OF assms(3)] by (simp add: parse_value_of_def)
  moreover have "hd (decimal (unat sid)) \<noteq> 0x5B"
    using is_digit_decimal[OF hd_in_set[OF decimal_ne], of "unat sid"] by (auto simp: is_digit_def)
  ultimately have "cmd_ipatch (with_server senv env) [decimal (unat sid), text_of v] c = return ?d"
    using enc by (simp add: cmd_ipatch_def strtoull_value_decimal Let_def)
  then show ?thesis by (rule that) (use assms(8) in simp_all)
qed

text \<open>
  C9. A line \<open>ipatch\<close> with a SID and a value changes this SID of the server's datastore and no other: \<open>null\<close> takes the entry out, any other
  value, as the client reads it from the word and the server from the bytes, is stored in its place. The client prints the code 2.04.
\<close>

theorem ipatch_session:
  assumes "g_datastore (cli_net c) = Some (CORECONF_HASHMAP hm)" and "g_ds_exists (cli_net c)" and "hm_wf hm" and "length (hm_objects hm) \<le> 51"
    and "text_ok (cli_nan env) v" and "shell_word (text_of v)" and "wire_ok v" and "nest v \<le> 5"
    and "length (join_words [ascii ''ipatch'', decimal (unat sid), text_of v]) \<le> 510"
    and "length (cbor_object (sid, norm v)) + 2 \<le> min 4096 (env_fuel senv)"
    and "length (cli_buf env) = 4096" and "\<not> g_observe_mode c"
    and "cli_stdin c = join_words [ascii ''ipatch'', decimal (unat sid), text_of v] @ newline @ rest"
  shows "\<exists>c' hm'. cli_loop (with_server senv env) conf c = cli_loop (with_server senv env) conf c' \<and>
      g_datastore (cli_net c') = Some (CORECONF_HASHMAP hm') \<and> g_ds_exists (cli_net c') \<and>
      getCoreconfHashMap hm' = (getCoreconfHashMap hm)(sid := patched (getCoreconfHashMap hm sid) (norm (norm v))) \<and>
      cli_stdin c' = rest \<and> \<not> g_observe_mode c' \<and>
      cli_stdout c' = cli_stdout c @ prompt @ ascii ''  iPATCH /c (SID '' @ decimal (unat sid) @ ascii '' = '' @ text_of v @
        ascii '')... '' @ status ''2.04'' @ newline"
proof -
  let ?c = "(say prompt c)\<lparr>cli_stdin := rest\<rparr>" let ?ws = "[decimal (unat sid), text_of v]"
  have words: "\<forall>w \<in> set (ascii ''ipatch'' # ?ws). shell_word w" using assms(6) shell_word_edit shell_word_decimal by auto
  obtain events c' where c': "cmd_ipatch (with_server senv env) ?ws ?c = return c'"
      "cli_net c' = (cli_net ?c)\<lparr>g_datastore := Some (CORECONF_HASHMAP (patch_entry hm sid (norm (norm v)))), g_stream_events := events\<rparr>"
      "cli_stdout c' = cli_stdout ?c @ ascii ''  iPATCH /c (SID '' @ decimal (unat sid) @ ascii '' = '' @ text_of v @ ascii '')... '' @
         status ''2.04'' @ newline"
      "cli_stdin c' = cli_stdin ?c" "\<not> g_observe_mode c'"
    by (rule ipatch_command[of ?c hm env v sid senv]) (use assms(1,2,5,7,8,10-12) in \<open>simp_all del: cbor_of.simps\<close>)
  have "cli_loop (with_server senv env) conf c = cli_loop (with_server senv env) conf c'"
    by (rule cli_loop_line[OF words]) (use assms(9,13) c'(1) in \<open>simp_all add: newline_def\<close>)
  then show ?thesis
    using c' assms(2) patch_entry_lookup[OF assms(3,4)]
    by (intro exI[of _ c'] exI[of _ "patch_entry hm sid (norm (norm v))"]) simp
qed

theorem ipatch_session_witness:
  "\<exists>c' hm'. cli_loop (with_server sample_call_env sample_cli_env) sample_config (client_init (ascii ''ipatch 20 true'' @ newline) sample_server) =
       cli_loop (with_server sample_call_env sample_cli_env) sample_config c' \<and>
     g_datastore (cli_net c') = Some (CORECONF_HASHMAP hm') \<and> getCoreconfHashMap hm' 20 = Some CORECONF_TRUE"
proof -
  let ?c = "client_init (ascii ''ipatch 20 true'' @ newline) sample_server"
  have d: "decimal (unat (20 :: u64)) = [0x32, 0x30]" "length (hm_objects sample_map) = 1" by code_simp+
  have line: "join_words [ascii ''ipatch'', decimal (unat (20 :: u64)), text_of CORECONF_TRUE] = ascii ''ipatch 20 true''"
    unfolding d(1) by (simp add: ascii_def)
  have short: "length (ascii ''ipatch 20 true'') \<le> 510" by (simp add: ascii_def)
  have true: "text_ok (cli_nan sample_cli_env) CORECONF_TRUE" "shell_word (text_of CORECONF_TRUE)" "wire_ok CORECONF_TRUE" "nest CORECONF_TRUE \<le> 5"
    by (simp_all add: shell_word_def word_end_def)
  have c: "\<not> g_observe_mode ?c" "cli_stdin ?c = ascii ''ipatch 20 true'' @ newline @ []"
    "g_datastore (cli_net ?c) = Some (CORECONF_HASHMAP sample_map)" "g_ds_exists (cli_net ?c)"
    by (simp_all add: client_init_def sample_server_def)
  have size: "length (cbor_object (20, norm CORECONF_TRUE)) + 2 \<le> min 4096 (env_fuel sample_call_env)" "length (cli_buf sample_cli_env) = 4096"
    by (simp_all add: sample_call_env_def sample_cli_env_def length_cbor_head zcbor_header_len_def)
  have objs: "length (hm_objects sample_map) \<le> 51" using d(2) by simp
  have new: "patched old (norm (norm CORECONF_TRUE)) = Some CORECONF_TRUE" for old
    by (simp add: patched_def split: option.split CoreconfValue.split)
  show ?thesis
    using ipatch_session[of ?c sample_map sample_cli_env CORECONF_TRUE 20 sample_call_env "[]" sample_config, unfolded line new,
        OF c(3,4) sample_map_wf objs true short size c(1,2)]
    by (metis fun_upd_same)
qed

end
