(* ===== verification/Spec2Isabelle.thy ===== *)
theory Spec2Isabelle
  imports Server_Session Key_Mapping Cli_Edit
begin

text \<open>
  Verification of ccoreconf on zcbor: a C library for CORECONF (a datastore of YANG data items addressed by
  SIDs, encoded as CBOR), and a CoAP server and client built on it.

  \<^bold>\<open>The program and its model.\<close> File names are below \<open>src/\<close> of the repository.

  \<^item> \<open>Prelude\<close>: byte strings, C strings, the faults of C (\<open>c_fault\<close>), the collections of rewrite and introduction rules.
  \<^item> \<open>Sid_Map\<close>: the locale \<open>sid_map\<close>, the interface of a map from SIDs to values on which everything else rests.
  \<^item> \<open>Coreconf_Types\<close> (\<open>src/coreconfTypes.c\<close>): the values (one constructor per tag of \<open>CoreconfValueT\<close>, with the machine integers
    at their width), and the chained hash map of 100 buckets with its operations; the interpretation of \<open>sid_map\<close>.
  \<^item> \<open>Zcbor_Common\<close>, \<open>Zcbor_Encode\<close>, \<open>Zcbor_Decode\<close> (\<open>coreconf_zcbor_generated/zcbor_*.c\<close>): the codec state with its buffer, payload pointer,
    element count and stack of backups; every function of zcbor that the program calls. A function that can fail
    returns a flag or an option and the state. \<open>Zcbor_Roundtrip\<close>: each decoder reads what the encoder wrote.
  \<^item> \<open>Serialization\<close> (\<open>src/serialization.c\<close>): values to CBOR and back.
  \<^item> \<open>Get_Put\<close>, \<open>Delete\<close>, \<open>Ipatch\<close>, \<open>Fetch\<close>, \<open>Post\<close> (\<open>src/get.c\<close>, \<open>put.c\<close>, \<open>delete.c\<close>, \<open>ipatch.c\<close>, \<open>fetch.c\<close>, \<open>post.c\<close>): requests,
    responses and their parsers for each method. \<open>Cbor_Seq\<close> holds what the CBOR sequences of the last three share.
  \<^item> \<open>Event_Stream\<close>, \<open>Server_Sids\<close>, \<open>Timestamp\<close>, \<open>Server\<close> (\<open>iot_containers/iot_apps/coreconf_server.c\<close>): the queue of notifications,
    the SIDs read at the start, time stamps, and the request handlers over the record \<open>server\<close> of the global variables;
    \<open>dispatch\<close> is the table of handlers, \<open>serves\<close> one request as a step, \<open>reachable\<close> the states after any requests.
  \<^item> \<open>Server_Invariant\<close>: the locales \<open>handler\<close> and \<open>reader\<close>, the contract of a handler, interpreted on every handler of the server.
  \<^item> \<open>Server_Start\<close>, \<open>Server_Session\<close> and this theory: the start of the server, what a client sees over several requests, and
    the properties of every reachable state.

  \<^item> \<open>Keyed_Table\<close>: the locale \<open>keyed_table\<close>, the interface of a table of items with keys, and histories of operations on it.
  \<^item> \<open>Robin_Hood\<close>, \<open>Robin_Hood_Map\<close> (\<open>src/hashmap.c\<close>): the open-addressing hash table with displacement, growth, shrinking and
    backward shift; first the buckets and their invariant, then the table as a map and the interpretation of \<open>keyed_table\<close>.
  \<^item> \<open>Hash_Functions\<close> (\<open>src/hashmap.c\<close>): SipHash, MurmurHash and XXHash.
  \<^item> \<open>Sid_Lists\<close> (\<open>src/sid.c\<close>): lists of SIDs, the dictionaries' items and callbacks, conversions of strings.
  \<^item> \<open>Manipulation\<close> (\<open>src/coreconfManipulation.c\<close>): the table from SIDs to their parents, the path to a SID, the subtree at its end.
  \<^item> \<open>Key_Mapping\<close> (\<open>src/serialization.c\<close>): the table from lists to the SIDs of their keys, to CBOR and back.

  \<^item> \<open>Cli_Numbers\<close>, \<open>Cli_Text\<close>, \<open>Cli_Print\<close> (\<open>iot_containers/iot_apps/coreconf_cli.c\<close>): the numbers of the C library, the words and
    values that the client reads, the text that it prints. \<open>Cli\<close>, \<open>Cli_Commands\<close>, \<open>Cli_Main\<close>, \<open>Cli_Loop\<close>: the record \<open>cli\<close> of its global
    variables, input, output and network, the messages, one definition per command, the command loop and \<open>main\<close>. The network is
    a parameter: what \<open>coap_send\<close> and \<open>coap_io_process\<close> do to a state and which messages they deliver.
  \<^item> \<open>Cli_Contract\<close>, \<open>Cli_Safety\<close>: the locale \<open>command_contract\<close>, an invariant that sending and receiving keep and that every command and the
    loop keep then; interpreted on the input that never grows, on a client linked to the server and on one with its SIDs loaded. The
    locale \<open>bounded_handler\<close> bounds the answers of the server.
  \<^item> \<open>Skip_Encoded\<close>: the skipping of encoded values. \<open>Cli_Session\<close>, \<open>Cli_Start\<close>, \<open>Cli_Edit\<close>: lines typed at the client, from the words to the state
    of the server and the printed answer, with the network replaced by the handlers of the server (\<open>with_server\<close>).

  \<^bold>\<open>What the lemmas show.\<close> The hash map refines a finite map while no chain is longer than 52 nodes, and exactly when it refuses an
  insertion. The encoder writes the RFC 8949 encoding \<open>cbor_of\<close> and stays inside its buffer; decoding inverts it up to \<open>norm\<close>
  (integer types and the order of chains). Each method's request and response are read back by the other side, and each operation does to
  the datastore what its request says. The server keeps its invariant on every reachable state, answers errors without
  doing anything, and never dereferences a missing datastore or writes behind a buffer; its faults are reads behind the received
  bytes and the conversion of a reboot delay that is no 64-bit integer. What FETCH answers and what a raw patch does is stated
  with relations of their own (\<open>first_named\<close>, \<open>denotes\<close>, \<open>located\<close>) and an update of the lookup (\<open>patched\<close>), not with the searches
  of the code. The hash table of the SID dictionaries refines a map, and all its loops
  end, for up to 19660 items; a query for a SID finds what the datastore holds under it. What is typed at the client reaches the server and comes
  back: \<open>put\<close>, \<open>get\<close>, \<open>fetch\<close> and \<open>ipatch\<close> from the line to the printed text, the check of the SID fingerprints, and a whole run
  that never writes behind the response array. Errors of the code are theorems too: lists that make
  the decoder loop for ever, payloads that make it read behind its buffer, entries lost without an error, the
  command line built from a client's string.

  \<^bold>\<open>Conventions.\<close> Memory allocation succeeds. Pointers into a buffer are offsets into the list of its bytes. What
  the C code leaves undefined (a read behind an object, a NULL pointer, the wrong member of a union, a double too large for its
  integer type) is a value of \<open>c_fault\<close>, with one exception: the product in \<open>hashKey\<close>, a signed long in C, wraps around here as it
  does on the machines the code is compiled for, and a theorem says for which keys it overflows.
  Uninitialised state arrays are an argument, \<open>old\<close> or \<open>env_stack\<close>, so that a result cannot depend on them unnoticed. The
  decoder of values can run for ever, so it takes fuel: \<open>None\<close> is a call that has not returned, and for encoded values the
  round trips show that the length of the encoding is enough fuel. The loops of the hash table and the
  climb to the root are partial functions in the same sense; that they return is part of their theorems. All other loops are total functions.

  \<^bold>\<open>Not modelled.\<close> libcoap and DTLS (a request is its content format and payload, a response its code, content format and
  data; observers and \<open>system\<close> are effects), files and the clock (arguments), printing and freeing. Unordered maps, string
  fragments and tag functions of zcbor, and the codec generated from the CDDL file, which the program does not use. Of the client the
  set-up of libcoap and TLS and the error stream. Of \<open>hashmap.c\<close> the element destructor and the tests under \<open>HASHMAP_TEST\<close>.
\<close>

section \<open>The server on its reachable states\<close>

text \<open>
  C3. On every reachable state the flag and the pointer of the datastore agree, the datastore is a map and
  well formed, and the event queue holds at most 16 events, none empty and none above 4096 bytes.
\<close>

theorem reachable_state:
  assumes "reachable sv"
  shows "(g_ds_exists sv \<longleftrightarrow> g_datastore sv \<noteq> None) \<and>
    (\<forall>v. g_datastore sv = Some v \<longrightarrow> (\<exists>hm. v = CORECONF_HASHMAP hm \<and> hm_wf hm)) \<and>
    length (g_stream_events sv) \<le> 16 \<and> (\<forall>ev \<in> set (g_stream_events sv). ev \<noteq> [] \<and> length ev \<le> 4096)"
  using reachable_ok[OF assms]
  by (simp add: server_ok_def ds_ok_def stream_ok_def STREAM_MAX_EVENTS_def BUFFER_SIZE_def)

theorem reachable_state_witness:
  "\<exists>sv :: server. g_ds_exists sv \<and> (\<exists>hm. g_datastore sv = Some (CORECONF_HASHMAP hm) \<and> hm_wf hm)"
proof -
  obtain sv where sv: "reachable sv" "g_ds_exists sv" using sample_reachable by blast
  note st = reachable_state[OF sv(1)]
  have "g_datastore sv \<noteq> None" using st sv(2) by simp
  then obtain v where v: "g_datastore sv = Some v" by auto
  then have "\<exists>hm. v = CORECONF_HASHMAP hm \<and> hm_wf hm" using st by simp
  then show ?thesis using sv(2) v by auto
qed


definition sample_env :: call_env where
  "sample_env = \<lparr>env_fuel = 9, env_stack = any_state, env_buf = replicate 4096 0, env_now = 0\<rparr>"

definition sample_request :: "u32 \<Rightarrow> bytes \<Rightarrow> request" where
  "sample_request cf bs = \<lparr>req_cf = Some cf, req_data = Some bs\<rparr>"


text \<open>
  C13. A request that is answered with an error did nothing: no part of the state changed, no observer was
  told and no command was run.
\<close>

theorem error_does_nothing:
  assumes "serves sv rq (resp, effs) sv'" and "is_error (resp_code resp)"
  shows "sv' = sv \<and> effs = []"
  using assms by (cases rq) (auto elim!: servesE dispatch_handler dest: handler.error)

theorem error_does_nothing_witness:
  "\<exists>sv resp. serves sv (RES_C, COAP_PUT, sample_request 0 [0xA0]) (resp, []) sv \<and>
     resp_code resp = UNSUPPORTED_CONTENT_FORMAT"
proof -
  obtain sv where sv: "reachable sv" using sample_reachable by blast
  let ?r = "send_error UNSUPPORTED_CONTENT_FORMAT 1012 (ascii ''PUT requires CF=140 (yang-data+cbor;id=sid)'')"
  have code: "resp_code ?r = UNSUPPORTED_CONTENT_FORMAT" by (simp add: send_error_def Let_def)
  have "serves sv (RES_C, COAP_PUT, sample_request 0 [0xA0]) (?r, []) sv"
    by (rule serves.intros[of sample_env])
      (simp_all add: handle_put_def refuse_def sample_request_def get_content_format_def CF_YANG_DATA_CBOR_def
        sample_env_def BUFFER_SIZE_def)
  moreover from this have "sv = sv \<and> [] = ([] :: effect list)"
    by (rule error_does_nothing) (simp add: code is_error_def)
  ultimately show ?thesis using code by blast
qed

text \<open>
  GET and FETCH, on each of the three resources, are safe methods: they change nothing.
\<close>

lemma reads_are_safe:
  assumes "serves sv (res, meth, req) (resp, effs) sv'" and "meth = COAP_GET \<or> meth = COAP_FETCH"
  shows "sv' = sv \<and> effs = []"
  using assms
  by (cases res) (auto elim!: servesE dest: h_get.reads h_fetch.reads h_sget.reads h_sfetch.reads h_sid.reads)

lemma reads_are_safe_witness:
  "\<exists>sv resp. serves sv (RES_SID, COAP_GET, sample_request 0 []) (resp, []) sv \<and> resp_code resp = CONTENT"
proof -
  obtain sv resp where sv: "handle_sid_info sv = Some (Inr (sv, resp, []))" "resp_code resp = CONTENT"
    by (auto simp: handle_sid_info_def)
  have s: "serves sv (RES_SID, COAP_GET, sample_request 0 []) (resp, []) sv"
    by (rule serves.intros[of sample_env]) (simp_all add: sv(1) sample_env_def BUFFER_SIZE_def)
  then show ?thesis using reads_are_safe[OF s] sv(2) by blast
qed

lemma send_error_code [simp]: "resp_code (send_error code esid msg) = code"
  by (simp add: send_error_def Let_def)

text \<open>The answers of the handlers and what they say about the flag of the datastore.\<close>

lemma reader_codes:
  "handle_sid_info sv = Some (Inr (sv', resp, effs)) \<Longrightarrow> resp_code resp = CONTENT"
  "handle_stream_get sv = Some (Inr (sv', resp, effs)) \<Longrightarrow> resp_code resp = CONTENT"
  "handle_stream_fetch env sv req = Some (Inr (sv', resp, effs)) \<Longrightarrow>
     resp_code resp \<in> {CONTENT, BAD_REQUEST, UNSUPPORTED_CONTENT_FORMAT}"
  "handle_get env sv = Some (Inr (sv', resp, effs)) \<Longrightarrow> resp_code resp \<in> {CONTENT, NOT_FOUND, INTERNAL_ERROR}"
  "handle_fetch env sv req = Some (Inr (sv', resp, effs)) \<Longrightarrow>
     resp_code resp \<in> {CONTENT, BAD_REQUEST, NOT_FOUND, UNSUPPORTED_CONTENT_FORMAT}"
  by (auto simp: handle_sid_info_def handle_stream_get_def handle_stream_fetch_def handle_get_def handle_fetch_def
      refuse_is Let_def map_sum_def split: if_splits option.splits sum.splits prod.splits)

lemma ipatch_codes:
  assumes "handle_ipatch env sv req = Some (Inr (sv', resp, effs))"
  shows "resp_code resp \<in> {CHANGED, BAD_REQUEST, NOT_FOUND, UNSUPPORTED_CONTENT_FORMAT} \<and> g_ds_exists sv' = g_ds_exists sv"
  using assms by (auto simp: handle_ipatch_def refuse_is Let_def split: if_splits option.splits sum.splits prod.splits)

lemma put_codes:
  assumes "handle_put env sv req = Some (Inr (sv', resp, effs))"
  shows "resp_code resp = CHANGED \<and> g_ds_exists sv' \<or>
    resp_code resp \<in> {BAD_REQUEST, UNSUPPORTED_CONTENT_FORMAT} \<and> sv' = sv"
  using assms
  by (auto simp: handle_put_def refuse_is Let_def split: if_splits option.splits sum.splits CoreconfValue.splits)

lemma delete_codes:
  assumes "handle_delete env sv = Some (Inr (sv', resp, effs))"
  shows "resp_code resp = DELETED \<and> \<not> g_ds_exists sv' \<and> g_ds_exists sv \<or> resp_code resp = NOT_FOUND \<and> sv' = sv"
  using assms by (auto simp: handle_delete_def refuse_is split: if_splits sum.splits)

lemma create_codes:
  assumes "post_create env sv req = Some (Inr (sv', resp, effs))"
  shows "resp_code resp = CREATED \<and> g_ds_exists sv' \<and> \<not> (g_datastore sv \<noteq> None \<and> g_ds_exists sv) \<or>
    resp_code resp \<in> {BAD_REQUEST, CONFLICT} \<and> sv' = sv"
  using assms by (auto simp: post_create_def refuse_is split: if_splits option.splits sum.splits CoreconfValue.splits)

lemma post_one_codes: "post_one env sv inp = Inr (Inl resp) \<Longrightarrow> is_error (resp_code resp)"
  by (auto simp: post_one_def Let_def is_error_def split: if_splits option.splits CoreconfValue.splits prod.splits)

lemma post_each_codes: "post_each env sv items acc = Inr (Inl resp) \<Longrightarrow> is_error (resp_code resp)"
  using post_one_codes by (induction env sv items acc rule: post_each.induct) (auto split: sum.splits)

lemma invoke_codes:
  assumes "post_invoke env sv req = Some (Inr (sv', resp, effs))"
  shows "resp_code resp = CHANGED \<or> is_error (resp_code resp)"
  using assms post_each_codes[of env sv _ "[]" resp]
  by (auto simp: post_invoke_def refuse_is is_error_def split: if_splits option.splits sum.splits prod.splits)

text \<open>What an answer says about the flag, for every request.\<close>

definition lifecycle :: "coap_method \<Rightarrow> server \<Rightarrow> response \<Rightarrow> server \<Rightarrow> bool" where
  "lifecycle meth sv resp sv' \<longleftrightarrow>
     (if resp_code resp = CREATED then g_ds_exists sv' \<and> \<not> (g_datastore sv \<noteq> None \<and> g_ds_exists sv)
      else if resp_code resp = DELETED then \<not> g_ds_exists sv' \<and> g_ds_exists sv
      else if meth = COAP_PUT \<and> resp_code resp = CHANGED then g_ds_exists sv'
      else g_ds_exists sv' = g_ds_exists sv)"

lemma lifecycle_read:
  "handle env sv req = Some (Inr (sv', resp, effs)) \<Longrightarrow> reader handle possible \<Longrightarrow>
   resp_code resp \<noteq> CREATED \<Longrightarrow> resp_code resp \<noteq> DELETED \<Longrightarrow> meth \<noteq> COAP_PUT \<Longrightarrow> lifecycle meth sv resp sv'"
  using reader.reads by (fastforce simp: lifecycle_def)

lemma lifecycle_post:
  assumes "handle_post env sv req = Some (Inr (sv', resp, effs))"
  shows "lifecycle COAP_POST sv resp sv'"
proof (cases "get_content_format req = CF_YANG_DATA_CBOR")
  case True
  then show ?thesis using create_codes[of env sv req sv' resp effs] assms by (auto simp: handle_post_def lifecycle_def)
next
  case False
  show ?thesis
  proof (cases "get_content_format req = CF_YANG_INSTANCES")
    case True
    then have "post_invoke env sv req = Some (Inr (sv', resp, effs))" using False assms by (simp add: handle_post_def)
    then show ?thesis
      using invoke_codes h_invoke.reads by (fastforce simp: lifecycle_def is_error_def)
  next
    case no: False
    then show ?thesis using False assms by (auto simp: handle_post_def refuse_is lifecycle_def)
  qed
qed

lemma lifecycle_dispatch:
  assumes "dispatch env sv res meth req = Some (Some (Inr (sv', resp, effs)))"
  shows "lifecycle meth sv resp sv'"
proof (cases "(env, sv, res, meth, req)" rule: dispatch.cases)
  case 1
  then show ?thesis using lifecycle_post assms by simp
next
  case 2
  then show ?thesis using assms reader_codes(5) lifecycle_read[OF _ h_fetch.reader_axioms] by fastforce
next
  case 3
  then show ?thesis using assms reader_codes(4) lifecycle_read[OF _ h_get.reader_axioms] by fastforce
next
  case 4
  then show ?thesis using assms ipatch_codes by (fastforce simp: lifecycle_def)
next
  case 5
  then show ?thesis using assms put_codes by (fastforce simp: lifecycle_def)
next
  case 6
  then show ?thesis using assms delete_codes by (fastforce simp: lifecycle_def)
next
  case 7
  then show ?thesis using assms reader_codes(2) lifecycle_read[OF _ h_sget.reader_axioms] by fastforce
next
  case 8
  then show ?thesis using assms reader_codes(3) lifecycle_read[OF _ h_sfetch.reader_axioms] by fastforce
next
  case 9
  then show ?thesis using assms reader_codes(1) lifecycle_read[OF _ h_sid.reader_axioms] by fastforce
qed (use assms in simp_all)

text \<open>
  C20. The life of the datastore: 2.01 (Created) is only answered when there was none and 2.02 (Deleted) only when there
  was one; these two and a successful PUT are the only answers after which the flag can differ from before.
\<close>

theorem datastore_lifecycle:
  assumes "reachable sv" and "serves sv (res, meth, req) (resp, effs) sv'"
  shows "g_ds_exists sv' =
      (resp_code resp = CREATED \<or> meth = COAP_PUT \<and> resp_code resp = CHANGED \<or>
       resp_code resp \<noteq> DELETED \<and> g_ds_exists sv) \<and>
    (resp_code resp = CREATED \<longrightarrow> \<not> g_ds_exists sv) \<and> (resp_code resp = DELETED \<longrightarrow> g_ds_exists sv)"
proof -
  obtain env where "dispatch env sv res meth req = Some (Some (Inr (sv', resp, effs)))"
    using assms(2) by (elim servesE)
  from lifecycle_dispatch[OF this] reachable_ok[OF assms(1)] show ?thesis
    by (auto simp: lifecycle_def server_ok_def ds_ok_def split: if_splits)
qed

lemma delete_sample:
  assumes "server_ok sv" and "g_ds_exists sv"
  obtains events where "handle_delete sample_env sv =
    Some (Inr (sv\<lparr>g_datastore := None, g_ds_exists := False, g_stream_events := events\<rparr>,
      \<lparr>resp_code = DELETED, resp_cf = None, resp_data = []\<rparr>, [NotifyObservers ''delete'']))"
proof -
  have "fst (zcbor_map_start_decode (zcbor_new_decode_state any_state 8 [0xA0] 0 1 1))"
    "zcbor_array_at_end (snd (zcbor_map_start_decode (zcbor_new_decode_state any_state 8 [0xA0] 0 1 1)))" by code_simp+
  then have first: "stream_extract_first_sid_from_map any_state [0xA0] 0 1 m = Inr m" for m
    by (cases "zcbor_map_start_decode (zcbor_new_decode_state any_state 8 [0xA0] 0 1 1)")
      (simp add: stream_extract_first_sid_from_map_def)
  have wrap: "\<exists>w. stream_wrap_notification_instance BUFFER_SIZE m [0xA0] 0 1 = Inr w" for m
    by (auto simp: stream_wrap_notification_instance_def Let_def)
  let ?m = "sys_module (g_sys_sids sv)"
  obtain events where "stream_push_notification_map any_state ?m (g_stream_events sv) [0xA0] 0 1 = Inr events"
    using first[of ?m] wrap[of ?m] by (auto simp: stream_push_notification_map_def simp del: One_nat_def)
  moreover have "g_datastore sv \<noteq> None" using assms by (simp add: server_ok_def ds_ok_def)
  then obtain hm where "map_value sv = Inr hm" "g_datastore sv = Some (CORECONF_HASHMAP hm)"
    by (rule map_value_ok[OF assms(1)])
  moreover have "env_stack sample_env = any_state" by (simp add: sample_env_def)
  ultimately show ?thesis using assms(2) by (intro that[of events]) (simp add: handle_delete_def del: One_nat_def)
qed

theorem datastore_lifecycle_witness:
  "\<exists>sv resp effs sv'. serves sv (RES_C, COAP_DELETE, sample_request 0 []) (resp, effs) sv' \<and> resp_code resp = DELETED \<and>
     g_ds_exists sv \<and> \<not> g_ds_exists sv'"
proof -
  obtain sv where sv: "reachable sv" "g_ds_exists sv" using sample_reachable by blast
  obtain events where d: "handle_delete sample_env sv =
      Some (Inr (sv\<lparr>g_datastore := None, g_ds_exists := False, g_stream_events := events\<rparr>,
        \<lparr>resp_code = DELETED, resp_cf = None, resp_data = []\<rparr>, [NotifyObservers ''delete'']))"
    by (rule delete_sample[OF reachable_ok[OF sv(1)] sv(2)])
  let ?sv = "sv\<lparr>g_datastore := None, g_ds_exists := False, g_stream_events := events\<rparr>"
  have s: "serves sv (RES_C, COAP_DELETE, sample_request 0 [])
      (\<lparr>resp_code = DELETED, resp_cf = None, resp_data = []\<rparr>, [NotifyObservers ''delete'']) ?sv"
    by (rule serves.intros[of sample_env]) (simp add: sample_env_def BUFFER_SIZE_def, simp add: d)
  from datastore_lifecycle[OF sv(1) s] have "\<not> g_ds_exists ?sv" by simp
  then show ?thesis using s sv(2) by (metis response.select_convs(1))
qed

text \<open>
  C37. An error answer is the CBOR encoding of \<open>{1024: {4: esid, 3: msg}}\<close>, for the error codes and texts of the server:
  a code below 65536 and a text below 256 bytes.
\<close>

theorem encode_error_is_cbor:
  assumes "esid < 65536" and "length msg < 256" and "16 + length msg \<le> sz"
  shows "encode_error sz esid msg =
    [0xA1] @ cbor_head ZCBOR_MAJOR_TYPE_PINT 1024 @ [0xA2] @
    cbor_head ZCBOR_MAJOR_TYPE_PINT 4 @ cbor_head ZCBOR_MAJOR_TYPE_PINT esid @
    cbor_head ZCBOR_MAJOR_TYPE_PINT 3 @ cbor_str ZCBOR_MAJOR_TYPE_TSTR msg"
proof -
  have ints: "cbor_head ZCBOR_MAJOR_TYPE_PINT 1024 = [0x19, 0x04, 0x00]" "cbor_head ZCBOR_MAJOR_TYPE_PINT 4 = [0x04]"
      "cbor_head ZCBOR_MAJOR_TYPE_PINT 3 = [0x03]" by code_simp+
  have byte: "(ucast (v AND 0xFF) :: u8) = ucast v" for v :: u64
  proof -
    have "(0xFF :: u64) = semiring_bit_operations_class.mask 8" by (simp add: mask_eq_exp_minus_1)
    then have "v AND 0xFF = take_bit 8 v" by (simp only: take_bit_eq_mask)
    then show ?thesis by (simp only:) (simp add: bit_eq_iff bit_ucast_iff bit_take_bit_iff)
  qed
  have "cbor_head ZCBOR_MAJOR_TYPE_PINT esid =
      (if esid < 24 then [ucast esid] else if esid < 256 then [0x18, ucast esid]
       else [0x19, ucast (drop_bit 8 esid), ucast (esid AND 0xFF)])"
    using assms(1) unfolding cbor_head_def be_bytes_unfold byte by (simp add: header_byte_def)
  moreover have "cbor_str ZCBOR_MAJOR_TYPE_TSTR msg =
      (if length msg < 24 then [0x60 OR of_nat (length msg)] else [0x78, of_nat (length msg)]) @ msg"
  proof -
    have lt: "(of_nat (length msg) :: u64) < of_nat k \<longleftrightarrow> length msg < k" if "k \<le> 256" for k
    proof -
      have "length msg < 2 ^ 64" "k < 2 ^ 64" using assms(2) that by simp_all
      then show ?thesis by (simp add: word_less_nat_alt unsigned_of_nat take_bit_nat_eq_self)
    qed
    have u: "(ucast (of_nat (length msg) :: u64) :: u8) = of_nat (length msg)"
    proof -
      have "length msg < 2 ^ 64" using assms(2) by simp
      then show ?thesis by (simp add: unsigned_of_nat take_bit_nat_eq_self)
    qed
    show ?thesis
      using assms(2) lt[of 24] lt[of 256] u by (simp add: cbor_str_def cbor_head_def be_bytes_unfold header_byte_def)
  qed
  ultimately show ?thesis using assms(3) by (simp add: encode_error_def Let_def ints)
qed

theorem encode_error_is_cbor_witness: "encode_error 512 1012 [0x6E, 0x6F] = [0xA1, 0x19, 0x04, 0x00, 0xA2, 0x04, 0x19, 0x03, 0xF4, 0x03, 0x62, 0x6E, 0x6F]"
proof -
  have c: "cbor_head ZCBOR_MAJOR_TYPE_PINT 1024 = [0x19, 0x04, 0x00]" "cbor_head ZCBOR_MAJOR_TYPE_PINT 4 = [0x04]"
    "cbor_head ZCBOR_MAJOR_TYPE_PINT 3 = [0x03]" "cbor_head ZCBOR_MAJOR_TYPE_PINT 1012 = [0x19, 0x03, 0xF4]"
    "cbor_str ZCBOR_MAJOR_TYPE_TSTR [0x6E, 0x6F] = [0x62, 0x6E, 0x6F]" by code_simp+
  show ?thesis using encode_error_is_cbor[of 1012 "[0x6E, 0x6F]" 512] unfolding c by simp
qed

end
